(* ===== verification/Prelude.thy ===== *)
theory Prelude
  imports Main "HOL-Library.AList" "HOL-Library.Word" "HOL-Library.Multiset"
begin

section \<open>Shared vocabulary of the development\<close>

text \<open>
  What every component theory uses: JavaScript strings as lists of UTF-16 code units,
  \<open>String.prototype.split\<close> and \<open>Array.prototype.join\<close> at a one-unit separator, the
  insertion-ordered \<open>Map\<close> and \<open>Set\<close> of JavaScript as association lists and distinct
  lists, and the interface \<open>keyed_map\<close> through which components reason about a \<open>Map\<close>
  without looking at the list behind it.
\<close>

named_theorems model_simps \<open>unfolding equations of small model operations\<close>
named_theorems inv_intros \<open>preservation facts of component invariants\<close>

subsection \<open>Strings of UTF-16 code units\<close>

type_synonym code_unit = "16 word"
type_synonym jsstring = "code_unit list"

text \<open>
  A string literal of the source: every literal the model needs is ASCII, so the literal
  is an Isabelle string whose characters are read as code units.
\<close>

definition js :: "string \<Rightarrow> jsstring" where
  "js s = map of_char s"

lemma of_char_unit: "unat (of_char c :: code_unit) = (of_char c :: nat)"
proof -
  have less: "(of_char c :: nat) < 2 ^ LENGTH(16)"
    by (rule less_le_trans [OF nat_of_char_less_256]) simp
  have "(of_char c :: code_unit) = of_nat (of_char c :: nat)"
    by (simp only: of_nat_of_char)
  then show ?thesis
    using less by (simp only: unat_of_nat mod_less)
qed

lemma inj_of_char_unit: "inj (of_char :: char \<Rightarrow> code_unit)"
proof (rule injI)
  fix c d :: char
  assume "(of_char c :: code_unit) = of_char d"
  then have "unat (of_char c :: code_unit) = unat (of_char d :: code_unit)"
    by (rule arg_cong)
  then have "(of_char c :: nat) = of_char d"
    by (simp only: of_char_unit)
  then show "c = d"
    by (rule of_char_eqI)
qed

lemma js_eq_iff [simp]: "js s = js t \<longleftrightarrow> s = t"
  by (simp add: js_def inj_map_eq_map inj_of_char_unit)

lemma js_Nil [simp]: "js [] = []" and js_eq_Nil [simp]: "js s = [] \<longleftrightarrow> s = []"
  by (simp_all add: js_def)

lemma js_append: "js (s @ t) = js s @ js t"
  by (simp add: js_def)

abbreviation dot :: code_unit where "dot \<equiv> 0x2E"
abbreviation star :: code_unit where "star \<equiv> 0x2A"
abbreviation slash :: code_unit where "slash \<equiv> 0x2F"
abbreviation LF :: code_unit where "LF \<equiv> 0x0A"
abbreviation CR :: code_unit where "CR \<equiv> 0x0D"
abbreviation BOM :: code_unit where "BOM \<equiv> 0xFEFF"

text \<open>\<open>String.prototype.trim\<close>, with what it takes as white space.\<close>

definition js_space :: "code_unit \<Rightarrow> bool" where
  "js_space c \<longleftrightarrow> c \<in> {0x09, 0x0A, 0x0B, 0x0C, 0x0D, 0x20, 0xA0, 0x1680, 0x2028, 0x2029, 0x202F, 0x205F, 0x3000, BOM} \<or>
     (0x2000 \<le> c \<and> c \<le> 0x200A)"

definition js_trim :: "jsstring \<Rightarrow> jsstring" where
  "js_trim s = rev (dropWhile js_space (rev (dropWhile js_space s)))"

subsection \<open>split and join\<close>

text \<open>
  \<open>s.split(sep)\<close> for a separator of one code unit: never the empty list, \<open>''''\<close> gives
  one empty part. \<open>parts.join(sep)\<close> is its left inverse.
\<close>

fun split_on :: "'a \<Rightarrow> 'a list \<Rightarrow> 'a list list" where
  "split_on sep [] = [[]]"
| "split_on sep (c # cs) =
     (if c = sep then [] # split_on sep cs
      else (case split_on sep cs of [] \<Rightarrow> [[c]] | p # ps \<Rightarrow> (c # p) # ps))"

fun join_with :: "'a \<Rightarrow> 'a list list \<Rightarrow> 'a list" where
  "join_with sep [] = []"
| "join_with sep [p] = p"
| "join_with sep (p # q # ps) = p @ sep # join_with sep (q # ps)"

lemma split_on_ne [simp]: "split_on sep s \<noteq> []"
  by (induction s) (auto split: list.splits)

lemma join_split [simp]: "join_with sep (split_on sep s) = s"
proof (induction s)
  case (Cons c cs)
  obtain p ps where ps: "split_on sep cs = p # ps"
    using split_on_ne by (cases "split_on sep cs") auto
  show ?case using Cons ps by (cases ps) auto
qed simp

lemma split_on_no_sep: "sep \<notin> set s \<Longrightarrow> split_on sep s = [s]"
  by (induction s) auto

lemma split_on_app_sep: "split_on sep (s @ sep # t) = split_on sep s @ split_on sep t"
  by (induction s) (auto split: list.splits)

lemma split_parts_no_sep: "p \<in> set (split_on sep s) \<Longrightarrow> sep \<notin> set p"
  by (induction s arbitrary: p) (auto split: if_splits list.splits)

lemma split_join:
  "ps \<noteq> [] \<Longrightarrow> \<forall>p \<in> set ps. sep \<notin> set p \<Longrightarrow> split_on sep (join_with sep ps) = ps"
  by (induction sep ps rule: join_with.induct) (auto simp: split_on_no_sep split_on_app_sep)

lemma split_on_inj: "split_on sep s = split_on sep t \<longleftrightarrow> s = t"
  by (metis join_split)

subsection \<open>Insertion-ordered maps and sets\<close>

text \<open>
  A JavaScript \<open>Map\<close> or plain object used as one keeps the order in which its keys were
  first set. It is an association list with distinct keys: \<open>m.set(k, v)\<close> is
  \<open>AList.update\<close> (in place, or at the end), \<open>m.delete(k)\<close> is \<open>AList.delete\<close> and
  \<open>m.get(k)\<close> is \<open>map_of\<close>. A \<open>Set\<close> is a distinct list.
\<close>

type_synonym ('k, 'v) jsmap = "('k \<times> 'v) list"

abbreviation keys :: "('k, 'v) jsmap \<Rightarrow> 'k list" where
  "keys m \<equiv> map fst m"

definition js_add :: "'a \<Rightarrow> 'a list \<Rightarrow> 'a list" where
  "js_add x xs = (if x \<in> set xs then xs else xs @ [x])"

lemma set_js_add [simp]: "set (js_add x xs) = insert x (set xs)"
  by (auto simp: js_add_def)

lemma distinct_js_add [simp]: "distinct (js_add x xs) \<longleftrightarrow> distinct xs"
  by (auto simp: js_add_def)

definition js_add_all :: "'a list \<Rightarrow> 'a list \<Rightarrow> 'a list" where
  "js_add_all ys xs = fold js_add ys xs"

lemma set_js_add_all [simp]: "set (js_add_all ys xs) = set xs \<union> set ys"
  by (induction ys arbitrary: xs) (auto simp: js_add_all_def)

lemma distinct_js_add_all [simp]: "distinct (js_add_all ys xs) \<longleftrightarrow> distinct xs"
  by (induction ys arbitrary: xs) (auto simp: js_add_all_def)

lemma distinct_keys_update [simp]: "distinct (keys (AList.update k v m)) \<longleftrightarrow> distinct (keys m)"
  by (induction m) (auto simp: update_keys split: if_splits)

lemma distinct_keys_delete [simp]: "distinct (keys m) \<Longrightarrow> distinct (keys (AList.delete k m))"
  by (simp add: distinct_delete)

lemma map_of_update [simp]: "map_of (AList.update k v m) = (map_of m)(k \<mapsto> v)"
  by (simp add: update_conv')

lemma map_of_delete [simp]: "map_of (AList.delete k m) = (map_of m)(k := None)"
  by (simp add: delete_conv')

locale keyed_map =
  fixes get :: "'m \<Rightarrow> 'k \<Rightarrow> 'v option"
    and put :: "'k \<Rightarrow> 'v \<Rightarrow> 'm \<Rightarrow> 'm"
    and del :: "'k \<Rightarrow> 'm \<Rightarrow> 'm"
  assumes get_put: "get (put k v m) = (get m)(k \<mapsto> v)"
    and get_del: "get (del k m) = (get m)(k := None)"
begin

lemma get_put_same: "get (put k v m) k = Some v"
  by (simp add: get_put)

lemma get_put_other: "j \<noteq> k \<Longrightarrow> get (put k v m) j = get m j"
  by (simp add: get_put)

lemma get_put_all:
  "get (fold (\<lambda>(k, v). put k v) kvs m) j =
     (case map_of (rev kvs) j of None \<Rightarrow> get m j | Some v \<Rightarrow> Some v)"
proof (induction kvs arbitrary: m)
  case (Cons kv kvs)
  then show ?case
    by (cases kv) (auto simp: get_put map_of_append map_add_def split: option.splits)
qed simp

lemma get_del_all: "get (fold del ks m) j = (if j \<in> set ks then None else get m j)"
  by (induction ks arbitrary: m) (auto simp: get_del)

lemma get_put_mono:
  fixes le :: "'v \<Rightarrow> 'v \<Rightarrow> bool"
  assumes "\<And>v. get m k = Some v \<Longrightarrow> le v w" and "\<And>v. le v v" and "get m j = Some v"
  shows "\<exists>v'. get (put k w m) j = Some v' \<and> le v v'"
  using assms by (cases "j = k") (auto simp: get_put)

end

interpretation jsmap: keyed_map map_of AList.update AList.delete
  by unfold_locales auto

subsection \<open>Small list facts\<close>

definition startsWith :: "'a list \<Rightarrow> 'a list \<Rightarrow> bool" where
  "startsWith s p \<longleftrightarrow> take (length p) s = p"

lemma startsWith_iff: "startsWith s p \<longleftrightarrow> (\<exists>u. s = p @ u)"
  by (metis append_eq_conv_conj append_take_drop_id startsWith_def)

lemma fold_js_add_id: "set ys \<subseteq> set xs \<Longrightarrow> js_add_all ys xs = xs"
  by (induction ys arbitrary: xs) (auto simp: js_add_all_def js_add_def)

lemma find_first_index:
  "find P xs = None \<longleftrightarrow> (\<forall>x \<in> set xs. \<not> P x)"
  by (auto simp: find_None_iff)

text \<open>All splits of a list, one unit at a time: what a wildcard at its start ranges over.\<close>

lemma ex_split_Cons:
  "(\<exists>u v. d # t = u @ v \<and> R u v) \<longleftrightarrow> R [] (d # t) \<or> (\<exists>u v. t = u @ v \<and> R (d # u) v)"
proof
  assume "\<exists>u v. d # t = u @ v \<and> R u v"
  then obtain u v where "d # t = u @ v" "R u v" by blast
  then show "R [] (d # t) \<or> (\<exists>u v. t = u @ v \<and> R (d # u) v)" by (cases u) auto
next
  assume "R [] (d # t) \<or> (\<exists>u v. t = u @ v \<and> R (d # u) v)"
  then show "\<exists>u v. d # t = u @ v \<and> R u v"
    by (metis append_Cons append_Nil)
qed

end
