(* ===== verification/Process_Queue.thy ===== *)
theory Process_Queue
  imports Prelude
begin

section \<open>The process queue (src/queue.ts)\<close>

text \<open>
  \<open>ProcessQueueImpl\<close> is the queue every process event of the framework passes through.
  Its state is the array of queued events, the list of waiters (promises handed out by
  \<open>pop\<close> while nothing was queued) and the closed flag. A waiter is named by a token: what
  the code does with a waiter is call it with one event, which the model returns as the
  delivery \<open>(waiter, event)\<close>. The two throws are values of \<open>queue_error\<close>.
\<close>

record 'p process_event =
  ev_type :: jsstring
  ev_payload :: 'p

record ('p, 'w) pqueue =
  queued :: "'p process_event list"
  waiters :: "'w list"
  closed :: bool

datatype queue_error = QueueClosed

definition is_external :: "'p process_event \<Rightarrow> bool" where
  "is_external e \<longleftrightarrow> ev_type e = js ''external-message''"

definition new_queue :: "('p, 'w) pqueue" where
  "new_queue = \<lparr>queued = [], waiters = [], closed = False\<rparr>"

text \<open>\<open>findIndex\<close> of the first internal event, then \<open>splice\<close> before it, or \<open>push\<close>.\<close>

fun insert_external :: "'p process_event \<Rightarrow> 'p process_event list \<Rightarrow> 'p process_event list" where
  "insert_external e [] = [e]"
| "insert_external e (q # qs) =
     (if is_external q then q # insert_external e qs else e # q # qs)"

definition push ::
  "'p process_event \<Rightarrow> ('p, 'w) pqueue \<Rightarrow> queue_error + ('p, 'w) pqueue \<times> ('w \<times> 'p process_event) option" where
  "push e q =
     (if closed q then Inl QueueClosed
      else case waiters q of
        w # ws \<Rightarrow> Inr (q\<lparr>waiters := ws\<rparr>, Some (w, e))
      | [] \<Rightarrow>
          if is_external e then Inr (q\<lparr>queued := insert_external e (queued q)\<rparr>, None)
          else Inr (q\<lparr>queued := queued q @ [e]\<rparr>, None))"

text \<open>\<open>pop\<close> by the caller named \<open>w\<close>: an event at once, or \<open>w\<close> starts to wait.\<close>

definition pop ::
  "'w \<Rightarrow> ('p, 'w) pqueue \<Rightarrow> queue_error + ('p, 'w) pqueue \<times> 'p process_event option" where
  "pop w q =
     (if closed q then Inl QueueClosed
      else case queued q of
        e # es \<Rightarrow> Inr (q\<lparr>queued := es\<rparr>, Some e)
      | [] \<Rightarrow> Inr (q\<lparr>waiters := waiters q @ [w]\<rparr>, None))"

definition tryPop :: "('p, 'w) pqueue \<Rightarrow> ('p, 'w) pqueue \<times> 'p process_event option" where
  "tryPop q = (case queued q of [] \<Rightarrow> (q, None) | e # es \<Rightarrow> (q\<lparr>queued := es\<rparr>, Some e))"

definition peek :: "('p, 'w) pqueue \<Rightarrow> 'p process_event option" where
  "peek q = (case queued q of [] \<Rightarrow> None | e # _ \<Rightarrow> Some e)"

definition depth :: "('p, 'w) pqueue \<Rightarrow> nat" where
  "depth q = length (queued q)"

definition isEmpty :: "('p, 'w) pqueue \<Rightarrow> bool" where
  "isEmpty q \<longleftrightarrow> length (queued q) = 0"

definition clear :: "('p, 'w) pqueue \<Rightarrow> ('p, 'w) pqueue" where
  "clear q = q\<lparr>queued := []\<rparr>"

definition close :: "('p, 'w) pqueue \<Rightarrow> ('p, 'w) pqueue" where
  "close q = q\<lparr>closed := True, waiters := []\<rparr>"

subsection \<open>Runs\<close>

text \<open>
  A run is a list of calls. Its outcome is the final state and two logs: the events that
  \<open>push\<close> accepted and the events handed out (to a waiter, or as the result of \<open>pop\<close> or
  \<open>tryPop\<close>), each in order. A call that throws changes nothing and logs nothing.
\<close>

datatype ('p, 'w) queue_call =
  Push "'p process_event" | Pop 'w | TryPop | Clear | Close

record ('p, 'w) queue_run =
  now :: "('p, 'w) pqueue"
  accepted :: "'p process_event list"
  delivered :: "'p process_event list"

definition start_run :: "('p, 'w) queue_run" where
  "start_run = \<lparr>now = new_queue, accepted = [], delivered = []\<rparr>"

fun call :: "('p, 'w) queue_call \<Rightarrow> ('p, 'w) queue_run \<Rightarrow> ('p, 'w) queue_run" where
  "call (Push e) r = (case push e (now r) of
      Inl _ \<Rightarrow> r
    | Inr (q, None) \<Rightarrow> r\<lparr>now := q, accepted := accepted r @ [e]\<rparr>
    | Inr (q, Some (w, d)) \<Rightarrow>
        r\<lparr>now := q, accepted := accepted r @ [e], delivered := delivered r @ [d]\<rparr>)"
| "call (Pop w) r = (case pop w (now r) of
      Inl _ \<Rightarrow> r
    | Inr (q, None) \<Rightarrow> r\<lparr>now := q\<rparr>
    | Inr (q, Some d) \<Rightarrow> r\<lparr>now := q, delivered := delivered r @ [d]\<rparr>)"
| "call TryPop r = (case tryPop (now r) of
      (q, None) \<Rightarrow> r\<lparr>now := q\<rparr>
    | (q, Some d) \<Rightarrow> r\<lparr>now := q, delivered := delivered r @ [d]\<rparr>)"
| "call Clear r = r\<lparr>now := clear (now r)\<rparr>"
| "call Close r = r\<lparr>now := close (now r)\<rparr>"

definition run :: "('p, 'w) queue_call list \<Rightarrow> ('p, 'w) queue_run" where
  "run cs = fold call cs start_run"

subsection \<open>The invariant of the state\<close>

text \<open>
  External messages stand before internal events, and nobody waits while an event is
  queued.
\<close>

definition lanes_ordered :: "'p process_event list \<Rightarrow> bool" where
  "lanes_ordered es \<longleftrightarrow> es = filter is_external es @ filter (\<lambda>e. \<not> is_external e) es"

definition queue_inv :: "('p, 'w) pqueue \<Rightarrow> bool" where
  "queue_inv q \<longleftrightarrow> lanes_ordered (queued q) \<and> (waiters q \<noteq> [] \<longrightarrow> queued q = [])"

lemma insert_external_lanes:
  "insert_external e (filter is_external es @ filter (\<lambda>e. \<not> is_external e) es) =
     filter is_external es @ e # filter (\<lambda>e. \<not> is_external e) es"
proof -
  have "insert_external e (xs @ ys) = xs @ e # ys"
    if "\<forall>x \<in> set xs. is_external x" "\<forall>y \<in> set ys. \<not> is_external y" for xs ys
    using that by (induction xs) (auto split: list.splits simp: neq_Nil_conv, cases ys, auto)
  then show ?thesis by simp
qed

lemma insert_external_ordered:
  "lanes_ordered es \<Longrightarrow>
     insert_external e es = filter is_external es @ e # filter (\<lambda>e. \<not> is_external e) es"
  by (metis insert_external_lanes lanes_ordered_def)

lemma lanes_ordered_Nil [simp]: "lanes_ordered []"
  by (simp add: lanes_ordered_def)

lemma lanes_ordered_Cons:
  "lanes_ordered (e # es) \<longleftrightarrow>
     lanes_ordered es \<and> (\<not> is_external e \<longrightarrow> filter is_external es = [])"
proof (cases "is_external e")
  case True
  then show ?thesis by (simp add: lanes_ordered_def)
next
  case False
  show ?thesis
  proof (cases "filter is_external es")
    case Nil
    with False show ?thesis by (simp add: lanes_ordered_def)
  next
    case (Cons x xs)
    then have "is_external x" by (metis filter_eq_ConsD)
    with Cons False show ?thesis by (auto simp: lanes_ordered_def)
  qed
qed

lemma lanes_ordered_tl: "lanes_ordered (e # es) \<Longrightarrow> lanes_ordered es"
  by (simp add: lanes_ordered_Cons)

lemma lanes_ordered_snoc: "lanes_ordered es \<Longrightarrow> \<not> is_external e \<Longrightarrow> lanes_ordered (es @ [e])"
  by (simp add: lanes_ordered_def)

lemma lanes_ordered_insert:
  "lanes_ordered es \<Longrightarrow> is_external e \<Longrightarrow> lanes_ordered (insert_external e es)"
  by (simp add: insert_external_ordered) (simp add: lanes_ordered_def)

lemma queue_inv_new [inv_intros]: "queue_inv new_queue"
  by (simp add: queue_inv_def new_queue_def)

lemma queue_inv_push [inv_intros]: "queue_inv q \<Longrightarrow> push e q = Inr (q', d) \<Longrightarrow> queue_inv q'"
  by (auto simp: queue_inv_def push_def lanes_ordered_insert lanes_ordered_snoc
      split: if_splits list.splits)

lemma queue_inv_pop [inv_intros]: "queue_inv q \<Longrightarrow> pop w q = Inr (q', d) \<Longrightarrow> queue_inv q'"
  by (auto simp: queue_inv_def pop_def split: if_splits list.splits dest: lanes_ordered_tl)

lemma queue_inv_tryPop [inv_intros]: "queue_inv q \<Longrightarrow> tryPop q = (q', d) \<Longrightarrow> queue_inv q'"
  by (auto simp: queue_inv_def tryPop_def split: list.splits dest: lanes_ordered_tl)

lemma queue_inv_clear [inv_intros]: "queue_inv q \<Longrightarrow> queue_inv (clear q)"
  by (simp add: queue_inv_def clear_def)

lemma queue_inv_close [inv_intros]: "queue_inv q \<Longrightarrow> queue_inv (close q)"
  by (simp add: queue_inv_def close_def)

subsection \<open>The interface the event loop relies on\<close>

text \<open>
  \<open>AgentFramework.processNextEvent\<close> is the queue's one consumer in the framework, and it
  only ever calls \<open>tryPop\<close>. What it needs of a queue is stated as a locale: two lanes, an
  insertion that appends to the lane of its event, and a removal that takes the head of a
  lane, of the priority lane while it has one. A consumer loop over such a queue sees each
  lane in arrival order.
\<close>

datatype 'e loop_act = Arrive 'e | Take

fun consume ::
  "('e \<Rightarrow> 's \<Rightarrow> 's) \<Rightarrow> ('s \<Rightarrow> 's \<times> 'e option) \<Rightarrow> 'e loop_act list \<Rightarrow> 's \<Rightarrow> 'e list \<Rightarrow> 's \<times> 'e list"
where
  "consume enq deq [] s out = (s, out)"
| "consume enq deq (Arrive e # acts) s out = consume enq deq acts (enq e s) out"
| "consume enq deq (Take # acts) s out =
     (case deq s of
        (s', None) \<Rightarrow> consume enq deq acts s' out
      | (s', Some e) \<Rightarrow> consume enq deq acts s' (out @ [e]))"

fun arrivals :: "'e loop_act list \<Rightarrow> 'e list" where
  "arrivals [] = []"
| "arrivals (Arrive e # acts) = e # arrivals acts"
| "arrivals (Take # acts) = arrivals acts"

locale lane_queue =
  fixes urgent :: "'e \<Rightarrow> bool"
    and lane :: "'s \<Rightarrow> bool \<Rightarrow> 'e list"
    and enq :: "'e \<Rightarrow> 's \<Rightarrow> 's"
    and deq :: "'s \<Rightarrow> 's \<times> 'e option"
    and ok :: "'s \<Rightarrow> bool"
  assumes ok_enq: "ok s \<Longrightarrow> ok (enq e s)"
    and ok_deq: "ok s \<Longrightarrow> deq s = (s', d) \<Longrightarrow> ok s'"
    and lane_enq: "ok s \<Longrightarrow> lane (enq e s) u = (if urgent e = u then lane s u @ [e] else lane s u)"
    and lane_deq: "ok s \<Longrightarrow> deq s = (s', Some e) \<Longrightarrow>
          lane s u = (if urgent e = u then e # lane s' u else lane s' u)"
    and deq_urgent_first: "ok s \<Longrightarrow> deq s = (s', Some e) \<Longrightarrow> \<not> urgent e \<Longrightarrow> lane s True = []"
    and deq_none: "ok s \<Longrightarrow> deq s = (s', None) \<Longrightarrow> s' = s \<and> lane s u = []"
begin

lemma loop_lane_fifo:
  assumes "ok s" and "consume enq deq acts s out = (s', out')"
  shows "filter (\<lambda>e. urgent e = u) out' @ lane s' u =
         filter (\<lambda>e. urgent e = u) out @ lane s u @ filter (\<lambda>e. urgent e = u) (arrivals acts)"
  using assms
proof (induction acts arbitrary: s out)
  case (Cons act acts)
  show ?case
  proof (cases act)
    case (Arrive e)
    with Cons show ?thesis
      using Cons.IH [of "enq e s" out] by (simp add: ok_enq lane_enq)
  next
    case Take
    obtain t d where td: "deq s = (t, d)" by fastforce
    with Cons Take show ?thesis
      using lane_deq [OF Cons.prems(1), of t _ u] deq_none [OF Cons.prems(1), of t u]
        ok_deq [OF Cons.prems(1), of t d]
      by (cases d) auto
  qed
qed simp

lemma loop_ok: "ok s \<Longrightarrow> consume enq deq acts s out = (s', out') \<Longrightarrow> ok s'"
proof (induction acts arbitrary: s out)
  case (Cons act acts)
  then show ?case
    by (cases act) (auto intro: Cons.IH ok_enq ok_deq split: prod.splits option.splits)
qed simp

lemma take_serves_urgent:
  assumes "ok s" and "consume enq deq acts s [] = (t, out)" and "deq t = (t', Some e)" and "\<not> urgent e"
  shows "filter urgent out = lane s True @ filter urgent (arrivals acts)"
proof -
  have "lane t True = []"
    using assms loop_ok deq_urgent_first by blast
  with loop_lane_fifo [OF assms(1,2), of True] show ?thesis by simp
qed

end

text \<open>The code's queue, open and with nobody waiting, is such a queue.\<close>

definition lane_of :: "('p, 'w) pqueue \<Rightarrow> bool \<Rightarrow> 'p process_event list" where
  "lane_of q u = filter (\<lambda>e. is_external e = u) (queued q)"

definition accept :: "'p process_event \<Rightarrow> ('p, 'w) pqueue \<Rightarrow> ('p, 'w) pqueue" where
  "accept e q = (case push e q of Inl _ \<Rightarrow> q | Inr (q', _) \<Rightarrow> q')"

definition polled :: "('p, 'w) pqueue \<Rightarrow> bool" where
  "polled q \<longleftrightarrow> queue_inv q \<and> waiters q = [] \<and> \<not> closed q"

lemma lane_of_lanes:
  "lanes_ordered (queued q) \<Longrightarrow> queued q = lane_of q True @ lane_of q False"
  by (simp add: lane_of_def lanes_ordered_def)

lemma accept_polled:
  "polled q \<Longrightarrow> accept e q =
     q\<lparr>queued := if is_external e then insert_external e (queued q) else queued q @ [e]\<rparr>"
  by (simp add: polled_def accept_def push_def)

interpretation pq: lane_queue is_external lane_of accept tryPop polled
proof unfold_locales
  fix q q' :: "('p, 'w) pqueue" and e :: "'p process_event" and d u
  assume q: "polled q"
  then have inv: "lanes_ordered (queued q)" by (simp add: polled_def queue_inv_def)
  show "polled (accept e q)"
    using q by (auto simp: accept_polled polled_def queue_inv_def lanes_ordered_insert lanes_ordered_snoc)
  show "lane_of (accept e q) u = (if is_external e = u then lane_of q u @ [e] else lane_of q u)"
    using q by (auto simp: accept_polled lane_of_def insert_external_ordered [OF inv])
  show "polled q'" if "tryPop q = (q', d)"
    using q that queue_inv_tryPop [of q q' d] by (auto simp: polled_def tryPop_def split: list.splits)
  show "lane_of q u = (if is_external e = u then e # lane_of q' u else lane_of q' u)"
    if "tryPop q = (q', Some e)"
    using that by (auto simp: tryPop_def lane_of_def split: list.splits)
  show "lane_of q True = []" if "tryPop q = (q', Some e)" and "\<not> is_external e"
    using that inv by (auto simp: tryPop_def lane_of_def lanes_ordered_Cons split: list.splits)
  show "q' = q \<and> lane_of q u = []" if "tryPop q = (q', None)"
    using that by (auto simp: tryPop_def lane_of_def split: list.splits)
qed

lemma polled_new: "polled new_queue"
  by (simp add: polled_def queue_inv_new) (simp add: new_queue_def)

subsection \<open>Properties\<close>

lemma queue_inv_call [inv_intros]: "queue_inv (now r) \<Longrightarrow> queue_inv (now (call c r))"
  by (cases c)
     (auto split: sum.splits prod.splits option.splits intro: inv_intros)

text \<open>What a call other than \<open>clear\<close> keeps: each lane's log, in order.\<close>

definition lane_log :: "bool \<Rightarrow> ('p, 'w) queue_run \<Rightarrow> bool" where
  "lane_log u r \<longleftrightarrow>
     filter (\<lambda>e. is_external e = u) (delivered r) @ lane_of (now r) u =
     filter (\<lambda>e. is_external e = u) (accepted r)"

lemma lane_of_waiting: "queue_inv q \<Longrightarrow> waiters q \<noteq> [] \<Longrightarrow> lane_of q u = []"
  by (simp add: queue_inv_def lane_of_def)

lemma lane_log_push:
  "queue_inv (now r) \<Longrightarrow> lane_log u r \<Longrightarrow> lane_log u (call (Push e) r)"
  using lane_of_waiting [of "now r" u]
  by (auto simp: lane_log_def lane_of_def push_def queue_inv_def insert_external_ordered
      split: list.splits)

lemma lane_log_call:
  assumes "queue_inv (now r)" and "lane_log u r" and "c \<noteq> Clear"
  shows "lane_log u (call c r)"
proof (cases c)
  case (Push e)
  with assms show ?thesis by (simp only: lane_log_push)
qed (use assms in \<open>auto simp: lane_log_def lane_of_def pop_def tryPop_def close_def
       split: list.splits if_splits\<close>)

lemma run_invariant: "queue_inv (now (run cs))"
proof -
  have "queue_inv (now (fold call cs r))" if "queue_inv (now r)" for r
    using that by (induction cs arbitrary: r) (auto intro: inv_intros)
  then show ?thesis by (simp add: run_def start_run_def queue_inv_new)
qed

lemma fold_lane_log:
  "queue_inv (now r) \<Longrightarrow> lane_log u r \<Longrightarrow> Clear \<notin> set cs \<Longrightarrow> lane_log u (fold call cs r)"
  by (induction cs arbitrary: r) (auto simp: lane_log_call queue_inv_call simp del: call.simps)

lemma run_lane_log: "Clear \<notin> set cs \<Longrightarrow> lane_log u (run cs)"
  unfolding run_def
  by (rule fold_lane_log)
     (simp_all add: start_run_def queue_inv_new, simp add: lane_log_def lane_of_def new_queue_def)


definition ext_event :: "nat \<Rightarrow> nat process_event" where
  "ext_event n = \<lparr>ev_type = js ''external-message'', ev_payload = n\<rparr>"

definition int_event :: "nat \<Rightarrow> nat process_event" where
  "int_event n = \<lparr>ev_type = js ''timer-fired'', ev_payload = n\<rparr>"

lemma example_lanes [simp]: "is_external (ext_event n)" "\<not> is_external (int_event n)"
  by (simp_all add: is_external_def ext_event_def int_event_def)


text \<open>
  User input stays ahead of internal work. When the event loop takes an internal event,
  it has by then taken every external message that arrived, in arrival order, however
  arrivals and \<open>tryPop\<close> calls interleaved.
\<close>

theorem internal_waits_for_external:
  assumes "consume accept tryPop acts new_queue [] = (q, taken)"
    and "tryPop q = (q', Some e)" and "\<not> is_external e"
  shows "filter is_external taken = filter is_external (arrivals acts)"
  using pq.take_serves_urgent [OF polled_new assms]
  by (simp add: lane_of_def new_queue_def)

theorem internal_waits_for_external_witness:
  "let acts = [Arrive (int_event 1), Arrive (ext_event 2), Take] in
     filter is_external (snd (consume accept tryPop acts new_queue [])) = [ext_event 2]
     \<and> filter is_external (arrivals acts) = [ext_event 2]"
  using internal_waits_for_external
    [of "[Arrive (int_event 1), Arrive (ext_event 2), Take]"]
  by (simp add: accept_def push_def tryPop_def new_queue_def Let_def)

end
