(* ===== verification/Globs.thy ===== *)
theory Globs
  imports Prelude
begin

section \<open>Pattern matching (src/mcpl/tool-glob.ts, tool-policy.ts, scope-manager.ts)\<close>

text \<open>
  The three wildcard grammars of the MCPL layer: the portable tool glob of RFC-007
  (\<open>globMatch\<close> of tool-glob.ts, a two-pointer loop), the tool allow/deny policy
  (tool-policy.ts) and the scope labels (scope-manager.ts), both of which compile a pattern
  to a regular expression anchored at both ends. The dot-segment wildcards of feature sets
  and capabilities are in Segments.

  The loop of \<open>globMatch\<close> gets a fuel argument. The fuel given is the cost bound the
  source states, pattern times subject, and \<open>glob_loop_correct\<close> proves that it never runs
  out; so the equivalence with the declarative reading \<open>glob_ref\<close> is total.
\<close>

subsection \<open>The portable tool glob\<close>

text \<open>
  One call of \<open>glob_loop\<close> is one test of the \<open>while\<close> condition: \<open>bt = None\<close> is
  \<open>star = -1\<close>, and \<open>bt = Some k\<close> is \<open>star = k\<close>.
\<close>

fun glob_loop ::
  "nat \<Rightarrow> jsstring \<Rightarrow> jsstring \<Rightarrow> nat \<Rightarrow> nat \<Rightarrow> nat option \<Rightarrow> nat \<Rightarrow> bool option" where
  "glob_loop 0 pat sub p s bt mark = None"
| "glob_loop (Suc fuel) pat sub p s bt mark =
     (if s < length sub then
        (if p < length pat \<and> pat ! p \<noteq> star \<and> pat ! p = sub ! s
         then glob_loop fuel pat sub (Suc p) (Suc s) bt mark
         else if p < length pat \<and> pat ! p = star
         then glob_loop fuel pat sub (Suc p) s (Some p) s
         else (case bt of
             Some k \<Rightarrow> glob_loop fuel pat sub (Suc k) (Suc mark) bt (Suc mark)
           | None \<Rightarrow> Some False))
      else Some (dropWhile (\<lambda>c. c = star) (drop p pat) = []))"

definition glob_fuel :: "jsstring \<Rightarrow> jsstring \<Rightarrow> nat" where
  "glob_fuel pat sub = (length sub + 1) * (length pat + 1)"

definition globMatch :: "jsstring \<Rightarrow> jsstring \<Rightarrow> bool" where
  "globMatch pat sub = (glob_loop (glob_fuel pat sub) pat sub 0 0 None 0 = Some True)"

text \<open>The grammar as the documentation states it: \<open>*\<close> is any sequence, the rest is literal.\<close>

fun glob_ref :: "jsstring \<Rightarrow> jsstring \<Rightarrow> bool" where
  "glob_ref [] s = (s = [])"
| "glob_ref (c # p) s =
     (if c = star then glob_ref p s \<or> (case s of [] \<Rightarrow> False | _ # t \<Rightarrow> glob_ref (c # p) t)
      else (case s of [] \<Rightarrow> False | d # t \<Rightarrow> c = d \<and> glob_ref p t))"

lemma glob_ref_star: "glob_ref (star # p) s \<longleftrightarrow> (\<exists>u v. s = u @ v \<and> glob_ref p v)"
proof (induction s)
  case (Cons d t)
  have "glob_ref (star # p) (d # t) \<longleftrightarrow> glob_ref p (d # t) \<or> glob_ref (star # p) t"
    by simp
  also have "\<dots> \<longleftrightarrow> (\<exists>u v. d # t = u @ v \<and> glob_ref p v)"
    unfolding Cons.IH ex_split_Cons by simp
  finally show ?case .
qed simp

lemma glob_ref_star_more: "glob_ref (star # p) t \<Longrightarrow> glob_ref (star # p) (u @ t)"
  unfolding glob_ref_star by (metis append_assoc)

lemma glob_ref_lits:
  "star \<notin> set l \<Longrightarrow> glob_ref (l @ p) s \<longleftrightarrow> (\<exists>v. s = l @ v \<and> glob_ref p v)"
  by (induction l arbitrary: s) (auto split: list.splits)

lemma glob_ref_end: "glob_ref p [] \<longleftrightarrow> dropWhile (\<lambda>c. c = star) p = []"
  by (induction p) auto

text \<open>
  The invariant of the loop: since the star at \<open>k\<close> was met, the units between \<open>mark\<close> and
  \<open>s\<close> were matched by the star-free piece of the pattern between \<open>k\<close> and \<open>p\<close>.
\<close>

definition glob_inv :: "jsstring \<Rightarrow> jsstring \<Rightarrow> nat \<Rightarrow> nat \<Rightarrow> nat option \<Rightarrow> nat \<Rightarrow> bool" where
  "glob_inv pat sub p s bt mark \<longleftrightarrow>
     p \<le> length pat \<and> s \<le> length sub \<and> mark \<le> s \<and>
     (case bt of
        None \<Rightarrow> mark = 0
      | Some k \<Rightarrow> k < p \<and> pat ! k = star \<and> p - Suc k = s - mark \<and>
          star \<notin> set (take (p - Suc k) (drop (Suc k) pat)))"

definition glob_alt :: "jsstring \<Rightarrow> jsstring \<Rightarrow> nat option \<Rightarrow> nat \<Rightarrow> bool" where
  "glob_alt pat sub bt mark \<longleftrightarrow>
     (case bt of
        None \<Rightarrow> False
      | Some k \<Rightarrow> mark < length sub \<and> glob_ref (drop k pat) (drop (Suc mark) sub))"

definition glob_measure :: "jsstring \<Rightarrow> jsstring \<Rightarrow> nat \<Rightarrow> nat \<Rightarrow> nat" where
  "glob_measure pat sub p mark = (length sub - mark) * Suc (length pat) + (length pat - p)"

lemma drop_at: "i < length xs \<Longrightarrow> drop i xs = xs ! i # drop (Suc i) xs"
  by (simp add: Cons_nth_drop_Suc)

lemma take_between:
  "k < p \<Longrightarrow> p < length xs \<Longrightarrow>
     take (p - k) (drop (Suc k) xs) = take (p - Suc k) (drop (Suc k) xs) @ [xs ! p]"
  using take_Suc_conv_app_nth [of "p - Suc k" "drop (Suc k) xs"] by (simp add: Suc_diff_Suc)

text \<open>A later start for the last star puts the subject's rest later too.\<close>

lemma glob_alt_later:
  assumes inv: "glob_inv pat sub p s (Some k) mark" and alt: "glob_alt pat sub (Some k) mark"
  shows "\<exists>u v. drop s sub = u @ v \<and> u \<noteq> [] \<and> glob_ref (drop p pat) v"
proof -
  let ?n = "p - Suc k"
  let ?l = "take ?n (drop (Suc k) pat)"
  from inv have k: "k < p" "p \<le> length pat" "pat ! k = star" and n: "?n = s - mark" "mark \<le> s"
    and l: "star \<notin> set ?l" by (auto simp: glob_inv_def)
  then have len: "length ?l = ?n" by simp
  have "drop k pat = star # drop (Suc k) pat"
    using k by (metis drop_at less_le_trans)
  moreover have "drop (Suc k) pat = ?l @ drop p pat"
    using k by (metis append_take_drop_id drop_drop le_add_diff_inverse2 Suc_leI)
  ultimately have "glob_ref (star # ?l @ drop p pat) (drop (Suc mark) sub)"
    using alt by (simp add: glob_alt_def)
  then obtain u v where uv: "drop (Suc mark) sub = u @ ?l @ v" "glob_ref (drop p pat) v"
    unfolding glob_ref_star glob_ref_lits [OF l] by blast
  have "drop s sub = drop ?n (drop mark sub)"
    using n by (simp add: add.commute)
  also have "drop mark sub = sub ! mark # u @ ?l @ v"
    using uv(1) alt by (simp add: glob_alt_def drop_at)
  finally have ds: "drop s sub = drop ?n ((sub ! mark # u @ ?l) @ v)" by simp
  have split: "drop i (w @ v) = drop i w @ v \<and> drop i w \<noteq> []" if "i < length w" for i and w :: jsstring
    using that by simp
  have "?n < length (sub ! mark # u @ ?l)" using len by simp
  from split [OF this] uv(2) ds show ?thesis by metis
qed

lemma glob_alt_step:
  "glob_inv pat sub p s (Some k) mark \<Longrightarrow> mark < length sub \<Longrightarrow>
     glob_alt pat sub (Some k) mark \<longleftrightarrow>
     glob_ref (drop (Suc k) pat) (drop (Suc mark) sub) \<or> glob_alt pat sub (Some k) (Suc mark)"
proof -
  assume inv: "glob_inv pat sub p s (Some k) mark" and m: "mark < length sub"
  have k: "drop k pat = star # drop (Suc k) pat"
    using inv drop_at [of k pat] by (auto simp: glob_inv_def)
  show ?thesis
  proof (cases "Suc mark < length sub")
    case True
    then show ?thesis using m by (simp add: glob_alt_def k drop_at [of "Suc mark" sub])
  next
    case False
    then show ?thesis using m by (simp add: glob_alt_def k)
  qed
qed

lemma glob_loop_correct:
  "glob_inv pat sub p s bt mark \<Longrightarrow> glob_measure pat sub p mark < fuel \<Longrightarrow>
     glob_loop fuel pat sub p s bt mark =
       Some (glob_ref (drop p pat) (drop s sub) \<or> glob_alt pat sub bt mark)"
proof (induction fuel arbitrary: p s bt mark)
  case (Suc fuel)
  note inv = Suc.prems(1)
  consider (lit) "s < length sub" "p < length pat" "pat ! p \<noteq> star" "pat ! p = sub ! s"
    | (wild) "s < length sub" "p < length pat" "pat ! p = star"
    | (miss) "s < length sub" "\<not> (p < length pat \<and> (pat ! p = star \<or> pat ! p = sub ! s))"
    | (atend) "s = length sub"
    using inv by (fastforce simp: glob_inv_def)
  then show ?case
  proof cases
    case lit
    have "glob_inv pat sub (Suc p) (Suc s) bt mark"
      using inv lit
      by (auto simp: glob_inv_def take_between split: option.splits)
    moreover have "glob_measure pat sub (Suc p) mark < fuel"
      using Suc.prems(2) lit by (simp add: glob_measure_def)
    ultimately show ?thesis
      using lit Suc.IH by (simp add: drop_at)
  next
    case wild
    have "glob_inv pat sub (Suc p) s (Some p) s"
      using inv wild by (simp add: glob_inv_def)
    moreover have "glob_measure pat sub (Suc p) s < fuel"
    proof -
      have "(length sub - s) * Suc (length pat) \<le> (length sub - mark) * Suc (length pat)"
        using inv by (intro mult_le_mono1 diff_le_mono2) (simp add: glob_inv_def)
      then show ?thesis using Suc.prems(2) wild by (simp add: glob_measure_def)
    qed
    ultimately have "glob_loop (Suc fuel) pat sub p s bt mark =
        Some (glob_ref (drop (Suc p) pat) (drop s sub) \<or> glob_alt pat sub (Some p) s)"
      using wild Suc.IH by simp
    also have "glob_ref (drop (Suc p) pat) (drop s sub) \<or> glob_alt pat sub (Some p) s \<longleftrightarrow>
        glob_ref (drop p pat) (drop s sub)"
      using wild by (simp add: drop_at glob_alt_def)
    also have "\<dots> \<longleftrightarrow> glob_ref (drop p pat) (drop s sub) \<or> glob_alt pat sub bt mark"
    proof (cases bt)
      case (Some k)
      then show ?thesis
        using inv glob_alt_later [of pat sub p s k mark] wild
        by (auto simp del: glob_ref.simps simp: drop_at [of p pat] glob_ref_star_more)
    qed (simp add: glob_alt_def)
    finally show ?thesis .
  next
    case miss
    have no: "\<not> glob_ref (drop p pat) (drop s sub)"
      using miss by (cases "p < length pat") (auto simp: drop_at)
    show ?thesis
    proof (cases bt)
      case None
      with no miss show ?thesis by (auto simp: glob_alt_def)
    next
      case (Some k)
      have m: "mark < length sub" using inv miss by (simp add: glob_inv_def)
      have "glob_inv pat sub (Suc k) (Suc mark) (Some k) (Suc mark)"
        using inv m Some by (simp add: glob_inv_def)
      moreover have "glob_measure pat sub (Suc k) (Suc mark) < fuel"
      proof -
        have "(length sub - mark) * Suc (length pat) =
            Suc (length pat) + (length sub - Suc mark) * Suc (length pat)"
          using m by (metis Suc_diff_Suc mult_Suc)
        with Suc.prems(2) show ?thesis
          unfolding glob_measure_def by linarith
      qed
      ultimately show ?thesis
        using Suc.IH [of "Suc k" "Suc mark" "Some k" "Suc mark"] Some miss no
          glob_alt_step [of pat sub p s k mark] inv m
        by auto
    qed
  next
    case atend
    have "\<not> glob_alt pat sub bt mark"
      using inv atend glob_alt_later [of pat sub p s _ mark]
      by (cases bt) (fastforce simp: glob_alt_def)+
    with atend show ?thesis by (simp add: glob_ref_end)
  qed
qed (simp add: glob_measure_def)

lemma globMatch_eq_ref: "globMatch pat sub \<longleftrightarrow> glob_ref pat sub"
proof -
  have "glob_inv pat sub 0 0 None 0" by (simp add: glob_inv_def)
  moreover have "glob_measure pat sub 0 0 < glob_fuel pat sub"
    by (simp add: glob_measure_def glob_fuel_def)
  ultimately have "glob_loop (glob_fuel pat sub) pat sub 0 0 None 0 = Some (glob_ref pat sub)"
    using glob_loop_correct [of pat sub 0 0 None 0 "glob_fuel pat sub"] by (simp add: glob_alt_def)
  then show ?thesis by (simp add: globMatch_def)
qed

text \<open>
  C23: the two-pointer loop decides the grammar the documentation states, and stops within
  \<open>(|subject| + 1) * (|pattern| + 1)\<close> tests of its condition: with any fuel from that bound
  on it returns, and returns exactly whether the declarative reading matches.
\<close>

theorem globMatch_correct:
  "glob_loop (glob_fuel pat sub + extra) pat sub 0 0 None 0 = Some (glob_ref pat sub) \<and>
   globMatch pat sub = glob_ref pat sub"
proof -
  have "glob_inv pat sub 0 0 None 0" by (simp add: glob_inv_def)
  moreover have "glob_measure pat sub 0 0 < glob_fuel pat sub + extra"
    by (simp add: glob_measure_def glob_fuel_def)
  ultimately show ?thesis
    using glob_loop_correct [of pat sub 0 0 None 0 "glob_fuel pat sub + extra"]
    by (simp add: glob_alt_def globMatch_eq_ref)
qed

lemma globMatch_literal: "star \<notin> set p \<Longrightarrow> globMatch p s \<longleftrightarrow> s = p"
  using glob_ref_lits [of p "[]" s] by (auto simp: globMatch_eq_ref)

lemma globMatch_all: "globMatch [star] s"
  using glob_ref_star [of "[]" s] by (simp add: globMatch_eq_ref)

subsection \<open>Anchored regular expressions\<close>

text \<open>
  The regular expressions the other two grammars compile to use four constructs: one literal
  unit, \<open>.*\<close>, \<open>[^/]*\<close> and \<open>(?:/|$)\<close>, between \<open>^\<close> and \<open>$\<close>. JavaScript's \<open>.\<close>, without
  the \<open>s\<close> flag, matches every code unit but the four line terminators; \<open>[^/]\<close> matches
  them. \<open>rx_match\<close> tries the alternatives a backtracking matcher tries.
\<close>

datatype rx = Unit code_unit | Dots | Segment | SlashOrEnd

definition line_terminator :: "code_unit \<Rightarrow> bool" where
  "line_terminator c \<longleftrightarrow> c = LF \<or> c = CR \<or> c = 0x2028 \<or> c = 0x2029"

fun rx_match :: "rx list \<Rightarrow> jsstring \<Rightarrow> bool" where
  "rx_match [] s = (s = [])"
| "rx_match (Unit c # r) s = (case s of [] \<Rightarrow> False | d # t \<Rightarrow> c = d \<and> rx_match r t)"
| "rx_match (Dots # r) s =
     (rx_match r s \<or> (case s of [] \<Rightarrow> False | d # t \<Rightarrow> \<not> line_terminator d \<and> rx_match (Dots # r) t))"
| "rx_match (Segment # r) s =
     (rx_match r s \<or> (case s of [] \<Rightarrow> False | d # t \<Rightarrow> d \<noteq> slash \<and> rx_match (Segment # r) t))"
| "rx_match (SlashOrEnd # r) s =
     (case s of [] \<Rightarrow> rx_match r [] | d # t \<Rightarrow> d = slash \<and> rx_match r t)"

lemma rx_match_Dots: "rx_match (Dots # r) s \<longleftrightarrow>
    (\<exists>u v. s = u @ v \<and> (\<forall>c \<in> set u. \<not> line_terminator c) \<and> rx_match r v)"
proof (induction s)
  case (Cons d t)
  have "rx_match (Dots # r) (d # t) \<longleftrightarrow>
      rx_match r (d # t) \<or> (\<not> line_terminator d \<and> rx_match (Dots # r) t)"
    by simp
  also have "\<dots> \<longleftrightarrow>
      (\<exists>u v. d # t = u @ v \<and> (\<forall>c \<in> set u. \<not> line_terminator c) \<and> rx_match r v)"
    unfolding Cons.IH ex_split_Cons by auto
  finally show ?case .
qed simp

subsection \<open>The allow/deny policy of a server's tools\<close>

text \<open>
  \<open>compilePattern\<close>: every regular-expression special is escaped, so it is a literal, and
  \<open>*\<close> becomes \<open>.*\<close>.
\<close>

definition compilePattern :: "jsstring \<Rightarrow> rx list" where
  "compilePattern p = map (\<lambda>c. if c = star then Dots else Unit c) p"

definition anyMatch :: "jsstring list \<Rightarrow> jsstring \<Rightarrow> bool" where
  "anyMatch patterns name = list_ex (\<lambda>p. rx_match (compilePattern p) name) patterns"

record tool_policy =
  enabledTools :: "jsstring list option"
  disabledTools :: "jsstring list option"

definition given :: "'a list option \<Rightarrow> 'a list" where
  "given l = (case l of None \<Rightarrow> [] | Some xs \<Rightarrow> xs)"

definition isToolAllowed :: "jsstring \<Rightarrow> tool_policy option \<Rightarrow> bool" where
  "isToolAllowed name policy =
     (case policy of
        None \<Rightarrow> True
      | Some pol \<Rightarrow>
          if given (disabledTools pol) \<noteq> [] \<and> anyMatch (given (disabledTools pol)) name then False
          else if given (enabledTools pol) \<noteq> [] then anyMatch (given (enabledTools pol)) name
          else True)"

lemma compilePattern_glob:
  "\<forall>c \<in> set name. \<not> line_terminator c \<Longrightarrow> rx_match (compilePattern p) name = glob_ref p name"
proof (induction p arbitrary: name)
  case (Cons c p)
  show ?case
  proof (cases "c = star")
    case True
    then have "compilePattern (c # p) = Dots # compilePattern p" by (simp add: compilePattern_def)
    moreover have "rx_match (compilePattern p) v = glob_ref p v" if "name = u @ v" for u v
      using Cons that by auto
    ultimately have "rx_match (compilePattern (c # p)) name \<longleftrightarrow> (\<exists>u v. name = u @ v \<and> glob_ref p v)"
      using Cons.prems unfolding rx_match_Dots by (metis Un_iff rx_match_Dots set_append)
    then show ?thesis using True by (simp add: glob_ref_star del: glob_ref.simps)
  next
    case False
    then show ?thesis using Cons by (cases name) (auto simp: compilePattern_def)
  qed
qed (simp add: compilePattern_def)

text \<open>
  For a tool name without line terminators, the policy is what its documentation says,
  with the portable glob as its pattern language: denied patterns win over allowed ones, an
  absent or empty allow list allows every tool not denied.
\<close>

theorem isToolAllowed_iff:
  assumes "\<forall>c \<in> set name. \<not> line_terminator c"
  shows "isToolAllowed name (Some pol) \<longleftrightarrow>
           (\<forall>p \<in> set (given (disabledTools pol)). \<not> globMatch p name) \<and>
           (given (enabledTools pol) = [] \<or> (\<exists>p \<in> set (given (enabledTools pol)). globMatch p name))"
  using assms
  by (auto simp: isToolAllowed_def anyMatch_def list_ex_iff compilePattern_glob globMatch_eq_ref)

theorem isToolAllowed_iff_witness:
  "isToolAllowed (js ''files--read'')
     (Some \<lparr>enabledTools = Some [js ''files--*''], disabledTools = Some [js ''*--write'']\<rparr>)
   \<and> \<not> isToolAllowed (js ''files--write'')
     (Some \<lparr>enabledTools = Some [js ''files--*''], disabledTools = Some [js ''*--write'']\<rparr>)"
proof -
  have "\<forall>c \<in> set (js ''files--read''). \<not> line_terminator c"
    and "\<forall>c \<in> set (js ''files--write''). \<not> line_terminator c"
    by (simp_all add: js_def line_terminator_def)
  from this [THEN isToolAllowed_iff] show ?thesis
    by (simp add: given_def globMatch_eq_ref js_def)
qed

text \<open>
  A deny list does not deny every tool its patterns name. A tool whose name holds a line
  terminator that the pattern's wildcard would have to cross is not matched, because \<open>.\<close>
  does not match it: with \<open>disabledTools: ['*']\<close> and no allow list, every tool name with a
  line feed in it is allowed, although the documentation says \<open>*\<close> matches any run of
  characters.
\<close>

theorem deny_all_misses_line_feeds:
  "isToolAllowed name (Some \<lparr>enabledTools = None, disabledTools = Some [[star]]\<rparr>) \<longleftrightarrow>
     (\<exists>c \<in> set name. line_terminator c)"
proof -
  have "rx_match (compilePattern [star]) name \<longleftrightarrow> (\<forall>c \<in> set name. \<not> line_terminator c)"
    by (simp add: compilePattern_def rx_match_Dots del: rx_match.simps(3))
  then show ?thesis by (simp add: isToolAllowed_def given_def anyMatch_def)
qed

subsection \<open>Scope labels\<close>

text \<open>
  The matcher of scope-manager.ts: \<open>**\<close> becomes \<open>.*\<close>, and a slash right after it becomes
  \<open>(?:/|$)\<close>; a lone \<open>*\<close> becomes \<open>[^/]*\<close>; every other unit is escaped. The expression is
  always well formed, so the \<open>catch\<close> of the source is never reached.
\<close>

fun compileScope :: "jsstring \<Rightarrow> rx list" where
  "compileScope [] = []"
| "compileScope [c] = (if c = star then [Segment] else [Unit c])"
| "compileScope (c # d # p) =
     (if c = star \<and> d = star
      then (case p of
          [] \<Rightarrow> [Dots]
        | e # q \<Rightarrow> if e = slash then Dots # SlashOrEnd # compileScope q else Dots # compileScope p)
      else if c = star then Segment # compileScope (d # p)
      else Unit c # compileScope (d # p))"

definition scopeMatch :: "jsstring \<Rightarrow> jsstring \<Rightarrow> bool" where
  "scopeMatch pattern txt = rx_match (compileScope pattern) txt"

lemma compileScope_lits: "star \<notin> set p \<Longrightarrow> compileScope p = map Unit p"
  by (induction p rule: compileScope.induct) auto

lemma rx_match_lits: "rx_match (map Unit p @ r) s \<longleftrightarrow> (\<exists>v. s = p @ v \<and> rx_match r v)"
  by (induction p arbitrary: s) (auto split: list.splits)

lemma scopeMatch_literal: "star \<notin> set p \<Longrightarrow> scopeMatch p s \<longleftrightarrow> s = p"
  using rx_match_lits [of p "[]" s] by (auto simp: scopeMatch_def compileScope_lits)

end
