(* ===== verification/Scope_Manager.thy ===== *)
theory Scope_Manager
  imports Globs
begin

section \<open>Scoped access (src/mcpl/scope-manager.ts)\<close>

text \<open>
  Per feature set a whitelist and a blacklist of globs, a session cache of what the user
  approved, and elevation requests. The user's handler is awaited, so a request that must
  ask is two steps here, \<open>handleElevation\<close> and \<open>elevationAnswered\<close>, with anything in
  between. The payload travels unread and is a type parameter.
\<close>

record scope_config =
  whitelist :: "jsstring list option"
  blacklist :: "jsstring list option"

record scope_state =
  configs :: "(jsstring, scope_config) jsmap"
  approvalCache :: "jsstring list"
  has_handler :: bool

datatype scope_verdict = Approved | Denied | Prompt

datatype denial = Denied_By_Blacklist | User_Denied | Approval_Required

datatype 'p elevation =
    Elevate_Approved 'p
  | Elevate_Refused denial
  | Elevate_Asks jsstring jsstring 'p

definition new_scopes :: scope_state where
  "new_scopes = \<lparr>configs = [], approvalCache = [], has_handler = False\<rparr>"

definition cacheKey :: "jsstring \<Rightarrow> jsstring \<Rightarrow> jsstring" where
  "cacheKey featureSet label = featureSet @ 0 # label"

definition configure :: "jsstring \<Rightarrow> scope_config \<Rightarrow> scope_state \<Rightarrow> scope_state" where
  "configure featureSet config st = st\<lparr>configs := AList.update featureSet config (configs st)\<rparr>"

definition configureAll :: "(jsstring, scope_config) jsmap \<Rightarrow> scope_state \<Rightarrow> scope_state" where
  "configureAll scopes st =
     st\<lparr>configs := fold (\<lambda>(featureSet, config). AList.update featureSet config) scopes (configs st)\<rparr>"

definition checkScope :: "scope_state \<Rightarrow> jsstring \<Rightarrow> jsstring \<Rightarrow> scope_verdict" where
  "checkScope st featureSet label =
     (if cacheKey featureSet label \<in> set (approvalCache st) then Approved
      else (case map_of (configs st) featureSet of
          None \<Rightarrow> Prompt
        | Some config \<Rightarrow>
            if list_ex (\<lambda>pattern. scopeMatch pattern label) (given (blacklist config)) then Denied
            else if list_ex (\<lambda>pattern. scopeMatch pattern label) (given (whitelist config)) then Approved
            else Prompt))"

definition cacheApproval :: "jsstring \<Rightarrow> jsstring \<Rightarrow> scope_state \<Rightarrow> scope_state" where
  "cacheApproval featureSet label st =
     st\<lparr>approvalCache := js_add (cacheKey featureSet label) (approvalCache st)\<rparr>"

definition clearCache :: "scope_state \<Rightarrow> scope_state" where
  "clearCache st = st\<lparr>approvalCache := []\<rparr>"

definition setElevationHandler :: "scope_state \<Rightarrow> scope_state" where
  "setElevationHandler st = st\<lparr>has_handler := True\<rparr>"

text \<open>Up to the \<open>await\<close>, and from the user's answer on.\<close>

definition handleElevation :: "scope_state \<Rightarrow> jsstring \<Rightarrow> jsstring \<Rightarrow> 'p \<Rightarrow> 'p elevation" where
  "handleElevation st featureSet label payload =
     (case checkScope st featureSet label of
        Approved \<Rightarrow> Elevate_Approved payload
      | Denied \<Rightarrow> Elevate_Refused Denied_By_Blacklist
      | Prompt \<Rightarrow>
          if has_handler st then Elevate_Asks featureSet label payload
          else Elevate_Refused Approval_Required)"

definition elevationAnswered ::
  "jsstring \<Rightarrow> jsstring \<Rightarrow> 'p \<Rightarrow> bool \<Rightarrow> scope_state \<Rightarrow> scope_state \<times> 'p elevation" where
  "elevationAnswered featureSet label payload approved st =
     (if approved then (cacheApproval featureSet label st, Elevate_Approved payload)
      else (st, Elevate_Refused User_Denied))"

subsection \<open>Runs\<close>

text \<open>
  Every call on the manager, with the requests that wait for the user. \<open>consents\<close> is kept
  for the proof only: what a user (or the host, by \<open>cacheApproval\<close>) has approved since the
  cache was last cleared.
\<close>

datatype 'p scope_call =
    Configure jsstring scope_config
  | Configure_All "(jsstring, scope_config) jsmap"
  | Set_Handler
  | Elevation jsstring jsstring 'p
  | Answer nat bool
  | Cache_Approval jsstring jsstring
  | Clear_Cache

record 'p scope_run =
  scopes :: scope_state
  asking :: "(jsstring \<times> jsstring \<times> 'p) list"
  consents :: "(jsstring \<times> jsstring) list"

fun scope_step :: "'p scope_call \<Rightarrow> 'p scope_run \<Rightarrow> 'p scope_run" where
  "scope_step (Configure fs c) r = r\<lparr>scopes := configure fs c (scopes r)\<rparr>"
| "scope_step (Configure_All cs) r = r\<lparr>scopes := configureAll cs (scopes r)\<rparr>"
| "scope_step Set_Handler r = r\<lparr>scopes := setElevationHandler (scopes r)\<rparr>"
| "scope_step (Elevation fs l p) r =
     (case handleElevation (scopes r) fs l p of
        Elevate_Asks fs' l' p' \<Rightarrow> r\<lparr>asking := asking r @ [(fs', l', p')]\<rparr>
      | _ \<Rightarrow> r)"
| "scope_step (Answer i yes) r =
     (if i < length (asking r) then
        (case asking r ! i of (fs, l, p) \<Rightarrow>
          r\<lparr>scopes := fst (elevationAnswered fs l p yes (scopes r)),
            asking := take i (asking r) @ drop (Suc i) (asking r),
            consents := (if yes then (fs, l) # consents r else consents r)\<rparr>)
      else r)"
| "scope_step (Cache_Approval fs l) r =
     r\<lparr>scopes := cacheApproval fs l (scopes r), consents := (fs, l) # consents r\<rparr>"
| "scope_step Clear_Cache r = r\<lparr>scopes := clearCache (scopes r), consents := []\<rparr>"

definition start_scopes :: "'p scope_run" where
  "start_scopes = \<lparr>scopes = new_scopes, asking = [], consents = []\<rparr>"

definition listed :: "scope_state \<Rightarrow> jsstring \<Rightarrow> jsstring \<Rightarrow> bool" where
  "listed st fs l \<longleftrightarrow> (case map_of (configs st) fs of None \<Rightarrow> False
     | Some c \<Rightarrow> (\<exists>p \<in> set (given (whitelist c)). scopeMatch p l) \<and>
         \<not> (\<exists>p \<in> set (given (blacklist c)). scopeMatch p l))"

definition blacklisted :: "scope_state \<Rightarrow> jsstring \<Rightarrow> jsstring \<Rightarrow> bool" where
  "blacklisted st fs l \<longleftrightarrow> (case map_of (configs st) fs of None \<Rightarrow> False
     | Some c \<Rightarrow> \<exists>p \<in> set (given (blacklist c)). scopeMatch p l)"

lemma checkScope_cases:
  "checkScope st fs l =
     (if cacheKey fs l \<in> set (approvalCache st) then Approved
      else if blacklisted st fs l then Denied
      else if listed st fs l then Approved else Prompt)"
  by (auto simp: checkScope_def blacklisted_def listed_def list_ex_iff split: option.split)

text \<open>The cache holds the keys of the consents and nothing else.\<close>

lemma scope_run_cache:
  "set (approvalCache (scopes r)) = (\<lambda>(fs, l). cacheKey fs l) ` set (consents r) \<Longrightarrow>
   set (approvalCache (scopes (fold scope_step calls r))) =
     (\<lambda>(fs, l). cacheKey fs l) ` set (consents (fold scope_step calls r))"
proof (induction calls arbitrary: r)
  case (Cons c calls)
  have "set (approvalCache (scopes (scope_step c r))) =
      (\<lambda>(fs, l). cacheKey fs l) ` set (consents (scope_step c r))"
    using Cons.prems
    by (cases c) (auto simp: configure_def configureAll_def setElevationHandler_def
        cacheApproval_def clearCache_def elevationAnswered_def
        split: elevation.split prod.split)
  then show ?case using Cons.IH by simp
qed simp

lemma cacheKey_eq:
  "0 \<notin> set fs \<Longrightarrow> 0 \<notin> set fs' \<Longrightarrow> cacheKey fs l = cacheKey fs' l' \<longleftrightarrow> fs = fs' \<and> l = l'"
proof
  assume nul: "0 \<notin> set fs" "0 \<notin> set fs'" and "cacheKey fs l = cacheKey fs' l'"
  then have "fs @ 0 # l = fs' @ 0 # l'" by (simp add: cacheKey_def)
  moreover have "takeWhile (\<lambda>x. x \<noteq> 0) (f @ 0 # m) = f" if "0 \<notin> set f" for f m :: jsstring
    using that by (subst takeWhile_append2) auto
  ultimately have "fs = fs'" using nul by metis
  then show "fs = fs' \<and> l = l'" using \<open>fs @ 0 # l = fs' @ 0 # l'\<close> by simp
qed simp



text \<open>
  Two different pairs share a cache key when a feature set name contains NUL: consent
  to one label then answers approved for the other feature set's label.
\<close>

theorem cacheKey_collides:
  "checkScope (cacheApproval (fs @ 0 # x) l st) fs (x @ 0 # l) = Approved"
  by (simp add: checkScope_def cacheApproval_def cacheKey_def)

end
