(* ===== verification/Js_Values.thy ===== *)
theory Js_Values
  imports Prelude Complex_Main
begin

section \<open>JavaScript values\<close>

text \<open>
  The values a server's JSON carries, as the code inspects them. A number is a rational:
  every finite double is one. \<open>JUndef\<close> is what reading a missing property gives. An object
  is the list of its own enumerable properties in \<open>Object.entries\<close> order; \<open>plain\<close> states
  that keys are distinct in it and in every value below, which every JavaScript object
  satisfies.
\<close>

datatype jsval =
    JUndef | JNull | JBool bool | JNum rat | JStr jsstring
  | JArr "jsval list" | JObj "(jsstring \<times> jsval) list"

type_synonym jsobject = "(jsstring, jsval) jsmap"

abbreviation JTrue :: jsval where "JTrue \<equiv> JBool True"

fun truthy :: "jsval \<Rightarrow> bool" where
  "truthy JUndef = False"
| "truthy JNull = False"
| "truthy (JBool b) = b"
| "truthy (JNum n) = (n \<noteq> 0)"
| "truthy (JStr s) = (s \<noteq> [])"
| "truthy (JArr xs) = True"
| "truthy (JObj es) = True"

fun isPlainObject :: "jsval \<Rightarrow> bool" where
  "isPlainObject (JObj es) = True"
| "isPlainObject _ = False"

definition own :: "jsobject \<Rightarrow> jsstring \<Rightarrow> jsval" where
  "own es k = (case map_of es k of None \<Rightarrow> JUndef | Some v \<Rightarrow> v)"

fun field :: "jsval \<Rightarrow> jsstring \<Rightarrow> jsval" where
  "field (JObj es) k = own es k"
| "field _ k = JUndef"

fun plain :: "jsval \<Rightarrow> bool" where
  "plain (JArr xs) = list_all plain xs"
| "plain (JObj es) = (distinct (keys es) \<and> list_all (\<lambda>(k, v). plain v) es)"
| "plain _ = True"

lemma plain_own: "plain (JObj es) \<Longrightarrow> plain (own es k)"
  by (auto simp: own_def list_all_iff split: option.splits dest: map_of_SomeD)

lemma own_update [simp]: "own (AList.update k v es) = (own es)(k := v)"
  by (auto simp: own_def)

lemma own_Nil [simp]: "own [] k = JUndef"
  by (simp add: own_def)

lemma own_Cons: "own ((k, v) # es) j = (if j = k then v else own es j)"
  by (simp add: own_def)

text \<open>Dotted paths: \<open>path ? `${path}.${key}` : key\<close>.\<close>

definition child_path :: "jsstring \<Rightarrow> jsstring \<Rightarrow> jsstring" where
  "child_path prefix key = (if prefix = [] then key else prefix @ dot # key)"

fun path_from :: "jsstring \<Rightarrow> jsstring list \<Rightarrow> jsstring" where
  "path_from prefix [] = prefix"
| "path_from prefix (k # ks) = path_from (child_path prefix k) ks"

lemma path_from_join:
  "prefix \<noteq> [] \<Longrightarrow> path_from prefix ks = join_with dot (prefix # ks)"
  by (induction ks arbitrary: prefix)
     (auto simp: child_path_def neq_Nil_conv, case_tac ks, auto simp: child_path_def)

lemma path_from_Nil: "\<forall>k \<in> set ks. k \<noteq> [] \<Longrightarrow> path_from [] ks = join_with dot ks"
  by (cases ks) (auto simp: child_path_def path_from_join)

lemma path_from_ne: "prefix \<noteq> [] \<Longrightarrow> path_from prefix ks \<noteq> []"
  by (induction ks arbitrary: prefix) (auto simp: child_path_def)

lemma path_from_append: "path_from prefix (ks @ ls) = path_from (path_from prefix ks) ls"
  by (induction ks arbitrary: prefix) auto

text \<open>
  What every object inherits: the names \<open>in\<close> and a property read also see, and the one
  assignment that is not an own property.
\<close>

definition object_prototype_names :: "jsstring list" where
  "object_prototype_names = map js
     [''constructor'', ''__defineGetter__'', ''__defineSetter__'', ''hasOwnProperty'',
      ''__lookupGetter__'', ''__lookupSetter__'', ''isPrototypeOf'', ''propertyIsEnumerable'',
      ''toString'', ''valueOf'', ''__proto__'', ''toLocaleString'']"

definition in_object :: "jsstring \<Rightarrow> (jsstring, 'v) jsmap \<Rightarrow> bool" where
  "in_object k m \<longleftrightarrow> k \<in> set (keys m) \<or> k \<in> set object_prototype_names"

definition js_assign :: "jsstring \<Rightarrow> 'v \<Rightarrow> (jsstring, 'v) jsmap \<Rightarrow> (jsstring, 'v) jsmap" where
  "js_assign k v m = (if k = js ''__proto__'' then m else AList.update k v m)"

lemma fst_js_assign: "fst ` set m \<subseteq> fst ` set (js_assign k v m)"
  by (auto simp: js_assign_def dom_update)

lemma map_of_js_assign: "k \<noteq> js ''__proto__'' \<Longrightarrow> map_of (js_assign k v m) = (map_of m)(k \<mapsto> v)"
  by (simp add: js_assign_def)

text \<open>
  \<open>JSON.stringify(a) === JSON.stringify(b)\<close> compares the values without their undefined
  members, undefined array elements read as \<open>null\<close>; \<open>None\<close> is the undefined text of an
  undefined value. The text of a number determines it.
\<close>

fun json_norm :: "jsval \<Rightarrow> jsval option" where
  "json_norm JUndef = None"
| "json_norm (JArr xs) = Some (JArr (map (\<lambda>x. case json_norm x of None \<Rightarrow> JNull | Some y \<Rightarrow> y) xs))"
| "json_norm (JObj es) =
     Some (JObj (concat (map (\<lambda>(k, v). case json_norm v of None \<Rightarrow> [] | Some y \<Rightarrow> [(k, y)]) es)))"
| "json_norm v = Some v"

definition same_json :: "jsval \<Rightarrow> jsval \<Rightarrow> bool" where
  "same_json a b \<longleftrightarrow> json_norm a = json_norm b"

end
