(* ===== verification/Tool_Classes.thy ===== *)
theory Tool_Classes
  imports Globs Js_Values
begin

section \<open>Tool classes and tool prefixes (src/mcpl/tool-classes.ts, prefix-rule.ts)\<close>

text \<open>
  A tool's effective class comes from the first of three sources that yields one: the
  operator's override table, the host's own table, the server's declaration. Pattern tables
  are ordered lists of pattern and classes; classes are their names, as in the code.
\<close>

type_synonym tool_class = jsstring
type_synonym class_table = "(jsstring \<times> tool_class list) list"

definition TOOL_CLASSES :: "tool_class list" where
  "TOOL_CLASSES = map js [''comms'', ''memory'', ''notes'', ''files'', ''shell'', ''web'',
     ''computer'', ''media'', ''body'', ''control'']"

fun isToolClass :: "jsval \<Rightarrow> bool" where
  "isToolClass (JStr s) = (s \<in> set TOOL_CLASSES)"
| "isToolClass _ = False"

definition TOOL_CLASS_META_KEY :: jsstring where
  "TOOL_CLASS_META_KEY = js ''mcpl/class''"

definition DEFAULT_INPUT_CLASSES :: "tool_class list" where
  "DEFAULT_INPUT_CLASSES = map js [''computer'', ''shell'', ''files'', ''web'', ''media'', ''body'']"

definition BUILTIN_TOOL_CLASSES :: "(jsstring \<times> jsval) list" where
  "BUILTIN_TOOL_CLASSES = map (\<lambda>(p, c). (js p, JArr [JStr (js c)]))
     [(''channel_*'', ''comms''), (''skip_reply'', ''comms''), (''think'', ''memory''),
      (''journal'', ''memory''), (''utils'', ''control''), (''agent_settings'', ''control''),
      (''gate_status'', ''control''), (''tune_out'', ''control''), (''sleep'', ''control''),
      (''wake'', ''control''), (''wake_add_rule'', ''control''), (''wake_remove_rule'', ''control''),
      (''wake_accept_suggestions'', ''control''), (''wake_decline'', ''control''),
      (''event_tags'', ''control''), (''prose_help'', ''control''), (''prose_locus'', ''control''),
      (''save_recent_image'', ''files''), (''read_image'', ''files''),
      (''fetch_reference'', ''files''), (''code_execution'', ''shell''),
      (''discord--*'', ''comms''), (''history--*'', ''memory''), (''workspace--*'', ''files''),
      (''health--*'', ''control''), (''api--*'', ''control'')]"

text \<open>The loop both readers share: known classes, deduplicated, in order.\<close>

fun collect_classes :: "jsval list \<Rightarrow> tool_class list \<Rightarrow> tool_class list" where
  "collect_classes [] out = out"
| "collect_classes (v # vs) out =
     collect_classes vs
       (case v of
          JStr s \<Rightarrow> if isToolClass v \<and> s \<notin> set out then out @ [s] else out
        | _ \<Rightarrow> out)"

definition parseDeclaredClasses :: "jsval \<Rightarrow> tool_class list option" where
  "parseDeclaredClasses meta =
     (if \<not> isPlainObject meta then None
      else (case field meta TOOL_CLASS_META_KEY of
          JArr raw \<Rightarrow> (let out = collect_classes raw [] in if length out > 0 then Some out else None)
        | _ \<Rightarrow> None))"

definition normalizeClassTable :: "(jsstring \<times> jsval) list option \<Rightarrow> class_table" where
  "normalizeClassTable table =
     (case table of
        None \<Rightarrow> []
      | Some entries \<Rightarrow>
          concat (map (\<lambda>(pattern, classes).
            let known = collect_classes (case classes of JArr cs \<Rightarrow> cs | _ \<Rightarrow> []) [] in
            if length known > 0 then [(pattern, known)] else []) entries))"

datatype class_source = From_Override | From_Host | From_Server | From_None

record effective_class =
  ec_classes :: "tool_class list"
  ec_source :: class_source

fun first_match :: "class_table \<Rightarrow> jsstring \<Rightarrow> tool_class list option" where
  "first_match [] toolName = None"
| "first_match ((pattern, classes) # rest) toolName =
     (if globMatch pattern toolName then Some classes else first_match rest toolName)"

definition resolveToolClass ::
  "jsstring \<Rightarrow> tool_class list option \<Rightarrow> class_table \<Rightarrow> class_table \<Rightarrow> effective_class" where
  "resolveToolClass toolName declared overrides host =
     (case first_match overrides toolName of
        Some classes \<Rightarrow> \<lparr>ec_classes = classes, ec_source = From_Override\<rparr>
      | None \<Rightarrow>
          (case first_match host toolName of
             Some classes \<Rightarrow> \<lparr>ec_classes = classes, ec_source = From_Host\<rparr>
           | None \<Rightarrow>
               (case declared of
                  Some ds \<Rightarrow>
                    if length ds > 0 then \<lparr>ec_classes = ds, ec_source = From_Server\<rparr>
                    else \<lparr>ec_classes = [], ec_source = From_None\<rparr>
                | None \<Rightarrow> \<lparr>ec_classes = [], ec_source = From_None\<rparr>)))"

subsection \<open>Prefixes\<close>

abbreviation dash :: code_unit where "dash \<equiv> 0x2D"

definition prefixesMeet :: "jsstring \<Rightarrow> jsstring \<Rightarrow> bool" where
  "prefixesMeet a b =
     (let (shorter, longer) = (if length a \<le> length b then (a, b) else (b, a)) in
      longer = shorter \<or> longer = shorter @ [dash] \<or> startsWith longer (shorter @ [dash, dash]))"

subsection \<open>What they guarantee\<close>

lemma collect_classes_known:
  "set out \<subseteq> set TOOL_CLASSES \<Longrightarrow> set (collect_classes vs out) \<subseteq> set TOOL_CLASSES"
  by (induction vs out rule: collect_classes.induct) (auto split: jsval.splits)

lemma collect_classes_mem:
  "c \<in> set (collect_classes vs out) \<longleftrightarrow> c \<in> set out \<or> JStr c \<in> set vs \<and> c \<in> set TOOL_CLASSES"
  by (induction vs out rule: collect_classes.induct) (auto split: jsval.splits)

lemma collect_classes_distinct: "distinct out \<Longrightarrow> distinct (collect_classes vs out)"
  by (induction vs out rule: collect_classes.induct) (auto split: jsval.splits)

text \<open>The three sources as an ordered choice.\<close>

definition sources :: "jsstring \<Rightarrow> tool_class list option \<Rightarrow> class_table \<Rightarrow> class_table \<Rightarrow>
    (class_source \<times> tool_class list) list" where
  "sources toolName declared overrides host =
     map (\<lambda>e. (From_Override, snd e)) (filter (\<lambda>e. globMatch (fst e) toolName) overrides) @
     map (\<lambda>e. (From_Host, snd e)) (filter (\<lambda>e. globMatch (fst e) toolName) host) @
     (case declared of None \<Rightarrow> [] | Some ds \<Rightarrow> if ds = [] then [] else [(From_Server, ds)]) @
     [(From_None, [])]"

lemma first_match_filter:
  "first_match table t =
     (case filter (\<lambda>e. globMatch (fst e) t) table of [] \<Rightarrow> None | e # _ \<Rightarrow> Some (snd e))"
  by (induction table t rule: first_match.induct) auto

lemma resolve_sources:
  "(ec_source (resolveToolClass t declared overrides host),
    ec_classes (resolveToolClass t declared overrides host)) = hd (sources t declared overrides host)"
  by (auto simp: resolveToolClass_def first_match_filter sources_def split: list.split option.split)

definition good_classes :: "tool_class list \<Rightarrow> bool" where
  "good_classes c \<longleftrightarrow> c \<noteq> [] \<and> set c \<subseteq> set TOOL_CLASSES"

lemma collected_good: "0 < length (collect_classes vs []) \<Longrightarrow> good_classes (collect_classes vs [])"
  using collect_classes_known [of "[]" vs] by (auto simp: good_classes_def)

lemma normalized_good: "(p, c) \<in> set (normalizeClassTable T) \<Longrightarrow> good_classes c"
  using collected_good
  by (auto simp: normalizeClassTable_def Let_def split: option.splits if_splits)

lemma declared_good: "parseDeclaredClasses meta = Some c \<Longrightarrow> good_classes c"
  by (auto simp: parseDeclaredClasses_def Let_def split: if_splits jsval.splits intro!: collected_good)

lemma sources_good:
  assumes "\<And>p c. (p, c) \<in> set overrides \<Longrightarrow> good_classes c" "\<And>p c. (p, c) \<in> set host \<Longrightarrow> good_classes c"
    "\<And>c. declared = Some c \<Longrightarrow> good_classes c" "x \<in> set (sources t declared overrides host)"
  shows "fst x \<noteq> From_None \<and> good_classes (snd x) \<or> x = (From_None, [])"
  using assms(4) unfolding sources_def set_append
proof (elim UnE)
  assume "x \<in> set (map (\<lambda>e. (From_Override, snd e)) (filter (\<lambda>e. globMatch (fst e) t) overrides))"
  then show ?thesis using assms(1) by auto
next
  assume "x \<in> set (map (\<lambda>e. (From_Host, snd e)) (filter (\<lambda>e. globMatch (fst e) t) host))"
  then show ?thesis using assms(2) by auto
next
  assume "x \<in> set (case declared of None \<Rightarrow> [] | Some ds \<Rightarrow> if ds = [] then [] else [(From_Server, ds)])"
  then show ?thesis using assms(3) by (cases declared) (auto split: if_splits)
qed simp

text \<open>
  The first source that yields a class wins entirely. With tables as
  \<open>normalizeClassTable\<close> leaves them and a declaration as \<open>parseDeclaredClasses\<close> reads it, a
  tool's effective class is the head of the ordered choice override, host table, server,
  unclassed; it is never a mix of sources, it names only classes of the vocabulary, and it is
  empty exactly when no source said anything.
\<close>

theorem resolveToolClass_first:
  assumes "e = resolveToolClass t (parseDeclaredClasses meta) (normalizeClassTable overrides) (normalizeClassTable host)"
  shows "(ec_source e, ec_classes e) =
     hd (sources t (parseDeclaredClasses meta) (normalizeClassTable overrides) (normalizeClassTable host)) \<and>
   set (ec_classes e) \<subseteq> set TOOL_CLASSES \<and> (ec_classes e = [] \<longleftrightarrow> ec_source e = From_None)"
proof -
  let ?S = "sources t (parseDeclaredClasses meta) (normalizeClassTable overrides) (normalizeClassTable host)"
  have eq: "(ec_source e, ec_classes e) = hd ?S"
    unfolding assms by (rule resolve_sources)
  have "hd ?S \<in> set ?S" by (rule hd_in_set) (simp add: sources_def)
  then have "(ec_source e, ec_classes e) \<in> set ?S" by (simp only: eq)
  then have "ec_source e \<noteq> From_None \<and> good_classes (ec_classes e) \<or>
      (ec_source e, ec_classes e) = (From_None, [])"
    using sources_good [OF normalized_good normalized_good declared_good] by fastforce
  then show ?thesis using eq by (auto simp: good_classes_def)
qed

lemma resolveToolClass_first_witness:
  "ec_source (resolveToolClass (js ''channel_send'') (parseDeclaredClasses JNull)
      (normalizeClassTable None) (normalizeClassTable (Some BUILTIN_TOOL_CLASSES))) = From_Host"
proof -
  have "fst (hd (sources (js ''channel_send'') (parseDeclaredClasses JNull)
      (normalizeClassTable None) (normalizeClassTable (Some BUILTIN_TOOL_CLASSES)))) = From_Host"
    by code_simp
  then show ?thesis
    using resolveToolClass_first [OF refl, of "js ''channel_send''" JNull None "Some BUILTIN_TOOL_CLASSES"]
    by (metis fst_conv)
qed

lemma meet_cases:
  assumes "length a \<le> length b"
  shows "(\<exists>t u. a @ dash # dash # t = b @ dash # dash # u) \<longleftrightarrow>
    b = a \<or> b = a @ [dash] \<or> (\<exists>w. b = a @ dash # dash # w)"
proof
  assume "\<exists>t u. a @ dash # dash # t = b @ dash # dash # u"
  then obtain t u w where "b = a @ w" "dash # dash # t = w @ dash # dash # u"
    using assms by (auto simp: append_eq_append_conv2)
  then show "b = a \<or> b = a @ [dash] \<or> (\<exists>w. b = a @ dash # dash # w)"
    by (cases w; cases "tl w") auto
next
  assume "b = a \<or> b = a @ [dash] \<or> (\<exists>w. b = a @ dash # dash # w)"
  then show "\<exists>t u. a @ dash # dash # t = b @ dash # dash # u"
  proof (elim disjE exE)
    assume "b = a @ [dash]"
    then have "a @ dash # dash # dash # [] = b @ dash # dash # []" by simp
    then show ?thesis by blast
  next
    fix w assume "b = a @ dash # dash # w"
    then have "a @ dash # dash # (w @ dash # dash # []) = b @ dash # dash # []" by simp
    then show ?thesis by blast
  qed blast
qed

text \<open>
  Two tool prefixes can give one model-facing name exactly when they meet. The rule the
  framework refuses a server by is neither too weak (two prefixes that do not meet never
  collide, whatever tools the servers list) nor too strong (two that meet do, for some tools).
\<close>

theorem prefixesMeet_exact:
  "prefixesMeet a b \<longleftrightarrow> (\<exists>t u. a @ js ''--'' @ t = b @ js ''--'' @ u)"
proof -
  have dd: "js ''--'' @ t = dash # dash # t" for t
    by (simp add: js_def)
  have "prefixesMeet a b \<longleftrightarrow> (\<exists>t u. a @ dash # dash # t = b @ dash # dash # u)"
  proof (cases "length a \<le> length b")
    case True
    then show ?thesis
      using meet_cases [OF True] by (simp add: prefixesMeet_def startsWith_iff)
  next
    case False
    then have "length b \<le> length a" by simp
    then have "(\<exists>t u. b @ dash # dash # t = a @ dash # dash # u) \<longleftrightarrow> prefixesMeet a b"
      using meet_cases [of b a] False by (simp add: prefixesMeet_def startsWith_iff)
    then show ?thesis by metis
  qed
  then show ?thesis by (simp only: dd)
qed

end
