(* ===== verification/Segments.thy ===== *)
theory Segments
  imports Prelude
begin

section \<open>Dot-segment wildcards\<close>

text \<open>
  The pattern language of feature sets, capability grants and model routing: \<open>*\<close> stands
  for exactly one dot-separated segment. The source writes the same loop three times
  (feature-set-manager.ts, capability-mask.ts, inference-router.ts) and a fourth time as
  \<open>capabilityPatternMatches\<close> (capability-grant.ts); \<open>segments_match\<close> is that loop, and each
  copy is a definition of its own.
\<close>

fun segments_match :: "jsstring list \<Rightarrow> jsstring list \<Rightarrow> bool" where
  "segments_match (p # ps) (n # ns) =
     (if p = [star] then segments_match ps ns
      else if p \<noteq> n then False else segments_match ps ns)"
| "segments_match _ _ = True"

definition wildcardMatch :: "jsstring \<Rightarrow> jsstring \<Rightarrow> bool" where
  "wildcardMatch pattern name =
     (let patternParts = split_on dot pattern; nameParts = split_on dot name in
      if length patternParts \<noteq> length nameParts then False
      else segments_match patternParts nameParts)"

definition maskWildcardMatch :: "jsstring \<Rightarrow> jsstring \<Rightarrow> bool" where
  "maskWildcardMatch pattern name =
     (let patternParts = split_on dot pattern; nameParts = split_on dot name in
      if length patternParts \<noteq> length nameParts then False
      else segments_match patternParts nameParts)"

definition capabilityPatternMatches :: "jsstring \<Rightarrow> jsstring \<Rightarrow> bool" where
  "capabilityPatternMatches pattern path =
     (let p = split_on dot pattern; n = split_on dot path in
      if length p \<noteq> length n then False
      else list_all (\<lambda>(a, b). \<not> (a \<noteq> [star] \<and> a \<noteq> b)) (zip p n))"

lemma segments_match_iff:
  "length ps = length ns \<Longrightarrow>
     segments_match ps ns = list_all2 (\<lambda>p n. p = [star] \<or> p = n) ps ns"
  by (induction ps ns rule: segments_match.induct) auto

lemma wildcardMatch_iff:
  "wildcardMatch pattern name =
     list_all2 (\<lambda>p n. p = [star] \<or> p = n) (split_on dot pattern) (split_on dot name)"
  by (auto simp: wildcardMatch_def Let_def segments_match_iff dest: list_all2_lengthD)

lemma maskWildcardMatch_eq: "maskWildcardMatch = wildcardMatch"
  by (intro ext) (simp add: maskWildcardMatch_def wildcardMatch_def)

lemma capabilityPatternMatches_eq: "capabilityPatternMatches = wildcardMatch"
proof (intro ext)
  fix p n
  show "capabilityPatternMatches p n = wildcardMatch p n"
    by (auto simp: capabilityPatternMatches_def wildcardMatch_iff Let_def list_all2_iff list_all_iff)
qed

lemma wildcardMatch_refl [simp]: "wildcardMatch n n"
  by (simp add: wildcardMatch_iff list.rel_refl)

lemma wildcardMatch_depth:
  "wildcardMatch p n \<Longrightarrow> length (split_on dot p) = length (split_on dot n)"
  by (auto simp: wildcardMatch_iff dest: list_all2_lengthD)

text \<open>A literal pattern (no segment is \<open>*\<close>) matches its own name alone.\<close>

lemma wildcardMatch_literal:
  "[star] \<notin> set (split_on dot p) \<Longrightarrow> wildcardMatch p n \<longleftrightarrow> p = n"
proof
  assume lit: "[star] \<notin> set (split_on dot p)" and "wildcardMatch p n"
  then have "list_all2 (=) (split_on dot p) (split_on dot n)"
    unfolding wildcardMatch_iff list_all2_conv_all_nth by (metis nth_mem)
  then show "p = n" by (simp add: list.rel_eq split_on_inj)
qed simp

end
