(* ===== verification/Capability_Grant.thy ===== *)
theory Capability_Grant
  imports Js_Values Segments "HOL-Library.List_Lexorder"
begin

section \<open>Capability grants (src/mcpl/capability-grant.ts, capability-mask.ts)\<close>

text \<open>
  The security boundary of an MCPL connection, in the order the code applies it: the
  server's advertisement with its boolean shorthand expanded
  (\<open>expandAdvertisementShorthand\<close>), the host's config mask (\<open>maskNegotiatedCapabilities\<close>),
  and the grant (\<open>computeGrant\<close>). A capabilities object is a \<open>jsobject\<close>, \<open>null\<close> is
  \<open>None\<close>. The log lines of the source are left out.
\<close>

subsection \<open>The vocabulary\<close>

datatype cap_node = Leaf | Interior "(jsstring \<times> cap_node) list"

type_synonym cap_kids = "(jsstring \<times> cap_node) list"

definition VOCABULARY :: cap_kids where
  "VOCABULARY =
     [(js ''pushEvents'', Leaf),
      (js ''tools'', Leaf),
      (js ''modelInfo'', Leaf),
      (js ''inferenceRequest'', Interior [(js ''streaming'', Leaf)]),
      (js ''inferenceLifecycle'', Leaf),
      (js ''toolLifecycle'', Interior [(js ''observe'', Leaf), (js ''inputs'', Leaf)]),
      (js ''contextHooks'', Interior
        [(js ''beforeInference'', Interior
           [(js ''observe'', Leaf),
            (js ''inject'', Interior
              [(js ''system'', Leaf), (js ''beforeUser'', Leaf), (js ''afterUser'', Leaf)])])]),
      (js ''channels'', Interior
        [(js ''register'', Leaf), (js ''lifecycle'', Leaf), (js ''publish'', Leaf),
         (js ''incoming'', Leaf), (js ''streaming'', Leaf), (js ''acknowledge'', Leaf),
         (js ''typing'', Leaf)])]"

definition SELF_GRANTABLE_INTERIOR :: "jsstring list" where
  "SELF_GRANTABLE_INTERIOR = [js ''inferenceRequest'']"

definition self_path :: "jsstring \<Rightarrow> jsstring list" where
  "self_path path = (if path \<in> set SELF_GRANTABLE_INTERIOR then [path] else [])"

text \<open>
  \<open>walk\<close> of \<open>ALL_CAPABILITY_PATHS\<close> and \<open>collectSubtree\<close>: every path at or below a node, in
  order. \<open>subtree_paths kids path\<close> is the loop over a node's entries.
\<close>

fun collectSubtree :: "cap_node \<Rightarrow> jsstring \<Rightarrow> jsstring list"
  and subtree_paths :: "cap_kids \<Rightarrow> jsstring \<Rightarrow> jsstring list" where
  "collectSubtree Leaf path = [path]"
| "collectSubtree (Interior kids) path = self_path path @ subtree_paths kids path"
| "subtree_paths [] path = []"
| "subtree_paths ((key, child) # kids) path =
     collectSubtree child (child_path path key) @ subtree_paths kids path"

definition ALL_CAPABILITY_PATHS :: "jsstring list" where
  "ALL_CAPABILITY_PATHS = subtree_paths VOCABULARY []"

definition isKnownCapabilityPath :: "jsstring \<Rightarrow> bool" where
  "isKnownCapabilityPath path \<longleftrightarrow> path \<in> set ALL_CAPABILITY_PATHS"

subsection \<open>The advertisement walk\<close>

text \<open>
  The paths a capabilities object advertises, in the order the code adds them to its set
  (\<open>js_add_all\<close> drops the repetitions, and there are none). \<open>true\<close> at any level stands for
  every path beneath it; \<open>tools\<close> is never read here.
\<close>

fun advertised_walk :: "cap_kids \<Rightarrow> jsval \<Rightarrow> jsstring \<Rightarrow> jsstring list" where
  "advertised_walk [] value prefix = []"
| "advertised_walk ((key, child) # kids) value prefix =
     (if \<not> isPlainObject value then []
      else
        (let path = child_path prefix key; v = field value key in
         (if path = js ''tools'' then []
          else if v = JTrue then collectSubtree child path
          else if isPlainObject v
          then (case child of
              Leaf \<Rightarrow> []
            | Interior sub \<Rightarrow> self_path path @ advertised_walk sub v path)
          else [])
         @ advertised_walk kids value prefix))"

definition advertisedPaths :: "jsobject option \<Rightarrow> jsstring list" where
  "advertisedPaths capabilities =
     (case capabilities of
        None \<Rightarrow> []
      | Some caps \<Rightarrow> js_add_all (advertised_walk VOCABULARY (JObj caps) []) [])"

text \<open>Boolean shorthand, expanded in place of the boolean for every vocabulary node.\<close>

fun expandNode :: "cap_node \<Rightarrow> jsval"
  and expand_kids :: "cap_kids \<Rightarrow> jsobject" where
  "expandNode Leaf = JTrue"
| "expandNode (Interior kids) = JObj (expand_kids kids)"
| "expand_kids [] = []"
| "expand_kids ((key, child) # kids) = (key, expandNode child) # expand_kids kids"

text \<open>
  \<open>expand_walk kids value out\<close>: the loop over the vocabulary entries, reading \<open>value\<close> and
  writing into its copy \<open>out\<close>.
\<close>

fun expand_walk :: "cap_kids \<Rightarrow> jsobject \<Rightarrow> jsobject \<Rightarrow> jsobject" where
  "expand_walk [] value out = out"
| "expand_walk ((key, child) # kids) value out =
     expand_walk kids value
       (if key = js ''tools'' then out
        else (case child of
            Leaf \<Rightarrow> out
          | Interior sub \<Rightarrow>
              (if own value key = JTrue then AList.update key (expandNode child) out
               else (case own value key of
                   JObj es \<Rightarrow> AList.update key (JObj (expand_walk sub es es)) out
                 | _ \<Rightarrow> out))))"

definition expandAdvertisementShorthand :: "jsobject option \<Rightarrow> jsobject option" where
  "expandAdvertisementShorthand capabilities =
     map_option (\<lambda>caps. expand_walk VOCABULARY caps caps) capabilities"

subsection \<open>The config mask\<close>

record mask_config =
  enabledCapabilities :: "jsstring list option"
  disabledCapabilities :: "jsstring list option"

text \<open>A pattern covers a path when it matches the path or one of its ancestors.\<close>

definition patternMatchesPath :: "jsstring \<Rightarrow> jsstring \<Rightarrow> bool" where
  "patternMatchesPath pattern path =
     (let parts = split_on dot path in
      list_ex (\<lambda>depth. maskWildcardMatch pattern (join_with dot (take depth parts)))
        (rev [1..<Suc (length parts)]))"

definition anyMatches :: "jsstring list \<Rightarrow> jsstring \<Rightarrow> bool" where
  "anyMatches patterns path = list_ex (\<lambda>pattern. patternMatchesPath pattern path) patterns"

definition denied :: "mask_config \<Rightarrow> jsstring \<Rightarrow> bool" where
  "denied cfg path =
     (case disabledCapabilities cfg of None \<Rightarrow> False | Some ps \<Rightarrow> anyMatches ps path)"

definition allowed :: "mask_config \<Rightarrow> jsstring \<Rightarrow> bool" where
  "allowed cfg path =
     (case enabledCapabilities cfg of None \<Rightarrow> True | Some ps \<Rightarrow> anyMatches ps path)"

definition keep :: "mask_config \<Rightarrow> jsstring \<Rightarrow> bool" where
  "keep cfg path \<longleftrightarrow> \<not> denied cfg path \<and> allowed cfg path"

definition UNMASKABLE_KEYS :: "jsstring list" where
  "UNMASKABLE_KEYS = [js ''version'', js ''featureSets'', js ''toolHints'', js ''toolsets'', js ''surface'']"

definition OBJECT_CAPABILITY_PATHS :: "jsstring list" where
  "OBJECT_CAPABILITY_PATHS = [js ''inferenceRequest'', js ''contextHooks.afterInference'']"

record mask_acc =
  survivors :: jsobject
  advertised :: nat
  survived :: nat
  dropped :: "jsstring list"

text \<open>
  \<open>mask_entries\<close> is the loop of \<open>maskNode\<close> over one object's entries. A nested object is
  masked by the same loop from an empty accumulator, closed by \<open>mask_verdict\<close>, the tests
  after the loop; the early return on a denied path comes first.
\<close>

definition mask_verdict :: "mask_config \<Rightarrow> jsstring \<Rightarrow> mask_acc \<Rightarrow> jsobject option \<times> jsstring list" where
  "mask_verdict cfg path acc =
     (if advertised acc = 0 then
        (if keep cfg path then (Some (survivors acc), dropped acc) else (None, dropped acc @ [path]))
      else if survived acc > 0 then (Some (survivors acc), dropped acc)
      else if path \<in> set OBJECT_CAPABILITY_PATHS \<and> keep cfg path
      then (Some (survivors acc), dropped acc)
      else (None, dropped acc @ [path]))"

definition keep_entry :: "jsstring \<Rightarrow> jsval \<Rightarrow> mask_acc \<Rightarrow> mask_acc" where
  "keep_entry key v acc =
     acc\<lparr>survivors := AList.update key v (survivors acc), survived := Suc (survived acc)\<rparr>"

definition empty_acc :: "mask_acc" where
  "empty_acc = \<lparr>survivors = [], advertised = 0, survived = 0, dropped = []\<rparr>"

fun mask_value :: "mask_config \<Rightarrow> jsval \<Rightarrow> jsstring \<Rightarrow> jsstring \<Rightarrow> mask_acc \<Rightarrow> mask_acc"
  and mask_entries :: "mask_config \<Rightarrow> jsobject \<Rightarrow> jsstring \<Rightarrow> mask_acc \<Rightarrow> mask_acc" where
  "mask_value cfg (JObj es) key childPath acc =
     (let (node, gone) =
        (if denied cfg childPath then (None, [childPath])
         else mask_verdict cfg childPath (mask_entries cfg es childPath empty_acc));
        acc' = acc\<lparr>dropped := dropped acc @ gone\<rparr>
      in case node of None \<Rightarrow> acc' | Some s \<Rightarrow> keep_entry key (JObj s) acc')"
| "mask_value cfg v key childPath acc =
     (if keep cfg childPath then keep_entry key v acc
      else acc\<lparr>dropped := dropped acc @ [childPath]\<rparr>)"
| "mask_entries cfg [] path acc = acc"
| "mask_entries cfg ((key, v) # es) path acc =
     mask_entries cfg es path
       (if v = JUndef then acc
        else if \<not> truthy v then acc\<lparr>survivors := AList.update key v (survivors acc)\<rparr>
        else mask_value cfg v key (child_path path key) (acc\<lparr>advertised := Suc (advertised acc)\<rparr>))"

definition maskNode :: "mask_config \<Rightarrow> jsobject \<Rightarrow> jsstring \<Rightarrow> jsobject option \<times> jsstring list" where
  "maskNode cfg node path =
     (if denied cfg path then (None, [path])
      else mask_verdict cfg path (mask_entries cfg node path empty_acc))"

text \<open>The top level: unmaskable and falsy members pass, the rest is masked as above.\<close>

fun mask_top :: "mask_config \<Rightarrow> jsobject \<Rightarrow> mask_acc \<Rightarrow> mask_acc" where
  "mask_top cfg [] acc = acc"
| "mask_top cfg ((key, v) # es) acc =
     mask_top cfg es
       (if v = JUndef then acc
        else if key \<in> set UNMASKABLE_KEYS \<or> \<not> truthy v
        then acc\<lparr>survivors := AList.update key v (survivors acc)\<rparr>
        else mask_value cfg v key key acc)"

definition maskNegotiatedCapabilities ::
  "jsobject option \<Rightarrow> mask_config \<Rightarrow> jsobject option \<times> jsstring list" where
  "maskNegotiatedCapabilities capabilities cfg =
     (case capabilities of
        None \<Rightarrow> (None, [])
      | Some caps \<Rightarrow>
          if enabledCapabilities cfg = None \<and> disabledCapabilities cfg = None
          then (Some caps, [])
          else (let acc = mask_top cfg caps empty_acc in (Some (survivors acc), dropped acc)))"

subsection \<open>The grant\<close>

definition DENY_BY_DEFAULT :: "jsstring list" where
  "DENY_BY_DEFAULT =
     [js ''contextHooks.beforeInference.inject.system'',
      js ''toolLifecycle.observe'', js ''toolLifecycle.inputs'']"

text \<open>
  A stated \<open>toolLifecycle\<close> policy block grants its path, if it is an object. The config's
  \<open>toolLifecycle\<close> member is a JavaScript value, \<open>JUndef\<close> when left out.
\<close>

definition configGrants :: "jsval \<Rightarrow> jsstring \<Rightarrow> bool" where
  "configGrants toolLifecycle path =
     (let key = (if path = js ''toolLifecycle.observe'' then Some (js ''observe'')
                 else if path = js ''toolLifecycle.inputs'' then Some (js ''inputs'') else None)
      in case key of None \<Rightarrow> False | Some k \<Rightarrow> isPlainObject (field toolLifecycle k))"

record capability_grant =
  granted :: "jsstring list"
  deniedPaths :: "jsstring list"

definition grant_has :: "capability_grant \<Rightarrow> jsstring \<Rightarrow> bool" where
  "grant_has g path \<longleftrightarrow> path \<in> set (granted g)"

definition grant_isEmpty :: "capability_grant \<Rightarrow> bool" where
  "grant_isEmpty g \<longleftrightarrow> length (granted g) = 0"

definition empty_grant :: capability_grant where
  "empty_grant = \<lparr>granted = [], deniedPaths = []\<rparr>"

definition grant_of :: "capability_grant option option \<Rightarrow> capability_grant" where
  "grant_of conn =
     (case conn of Some (Some g) \<Rightarrow> g | _ \<Rightarrow> empty_grant)"

text \<open>
  \<open>Array.prototype.sort\<close> without a comparator orders strings by their code units, which is
  the lexicographic order on lists of words.
\<close>

definition effectiveList :: "capability_grant \<Rightarrow> jsstring list" where
  "effectiveList g = sort (granted g)"

text \<open>\<open>without\<close>: the reduction primitive.\<close>

definition grant_without :: "capability_grant \<Rightarrow> jsstring list \<Rightarrow> capability_grant" where
  "grant_without g paths =
     (let (gr, dn) = fold (\<lambda>p (gr, dn).
          if p \<in> set gr then (removeAll p gr, js_add p dn) else (gr, dn))
        paths (granted g, deniedPaths g)
      in \<lparr>granted = gr, deniedPaths = sort dn\<rparr>)"

definition explicitlyEnabled :: "jsstring list option \<Rightarrow> jsstring \<Rightarrow> bool" where
  "explicitlyEnabled enabled path =
     (case enabled of None \<Rightarrow> False
      | Some pats \<Rightarrow> list_ex (\<lambda>pat. capabilityPatternMatches pat path) pats)"

definition computeGrant ::
  "jsobject option \<Rightarrow> jsstring list option \<Rightarrow> jsval \<Rightarrow> bool \<Rightarrow> capability_grant" where
  "computeGrant capabilities enabled toolLifecycle mcpToolsAdvertised =
     (let paths = advertisedPaths capabilities;
          adv = (if mcpToolsAdvertised then js_add (js ''tools'') paths else paths);
          refused = (\<lambda>p. p \<in> set DENY_BY_DEFAULT \<and> \<not> explicitlyEnabled enabled p \<and>
                         \<not> configGrants toolLifecycle p)
      in \<lparr>granted = filter (\<lambda>p. \<not> refused p) adv, deniedPaths = sort (filter refused adv)\<rparr>)"

text \<open>
  The whole path from what a server advertised to what it may do, as the handshake and
  \<open>registerMcplServerFeatures\<close> compose it.
\<close>

definition negotiatedGrant ::
  "jsobject option \<Rightarrow> mask_config \<Rightarrow> jsval \<Rightarrow> bool \<Rightarrow> capability_grant" where
  "negotiatedGrant raw cfg toolLifecycle outerTools =
     computeGrant (fst (maskNegotiatedCapabilities (expandAdvertisementShorthand raw) cfg))
       (enabledCapabilities cfg) toolLifecycle outerTools"

end
