(* ===== verification/Capability_Proofs.thy ===== *)
theory Capability_Proofs
  imports Capability_Grant
begin

section \<open>What a server may do is what it advertised and the host allows\<close>

text \<open>
  The declarative reading of the three stages. \<open>reaches v ks\<close>: the value advertises the
  path \<open>ks\<close>, either by \<open>true\<close> at its end or by \<open>true\<close> standing for everything beneath one
  of its prefixes. \<open>leaf_at\<close>: the path is a leaf of the vocabulary. The main theorem says
  that the connection's grant is, leaf by leaf, exactly the intersection the documentation
  describes.
\<close>

fun reaches :: "jsval \<Rightarrow> jsstring list \<Rightarrow> bool" where
  "reaches v [] = (v = JTrue)"
| "reaches v (k # ks) = (v = JTrue \<or> (isPlainObject v \<and> reaches (field v k) ks))"

text \<open>No shorthand along the path: \<open>true\<close> stands at most at its end.\<close>

fun spelled_out :: "jsval \<Rightarrow> jsstring list \<Rightarrow> bool" where
  "spelled_out v [] = True"
| "spelled_out v (k # ks) = (v \<noteq> JTrue \<and> (isPlainObject v \<longrightarrow> spelled_out (field v k) ks))"

fun leaf_at :: "cap_kids \<Rightarrow> jsstring list \<Rightarrow> bool" where
  "leaf_at kids [] = False"
| "leaf_at kids (k # ks) =
     (case map_of kids k of
        None \<Rightarrow> False
      | Some Leaf \<Rightarrow> ks = []
      | Some (Interior sub) \<Rightarrow> leaf_at sub ks)"

definition clean :: "jsstring \<Rightarrow> bool" where
  "clean k \<longleftrightarrow> k \<noteq> [] \<and> dot \<notin> set k"

fun wf_node :: "cap_node \<Rightarrow> bool"
  and wf_kids :: "cap_kids \<Rightarrow> bool" where
  "wf_node Leaf = True"
| "wf_node (Interior kids) = wf_kids kids"
| "wf_kids [] = True"
| "wf_kids ((k, c) # kids) =
     (clean k \<and> k \<notin> set (keys kids) \<and> (k = js ''tools'' \<longrightarrow> c = Leaf) \<and> wf_node c \<and> wf_kids kids)"

lemma wf_VOCABULARY: "wf_kids VOCABULARY"
  by (simp add: VOCABULARY_def clean_def) (simp add: js_def)

lemma wf_kids_lookup: "wf_kids kids \<Longrightarrow> map_of kids k = Some c \<Longrightarrow>
    wf_node c \<and> clean k \<and> (k = js ''tools'' \<longrightarrow> c = Leaf)"
  by (induction kids) (auto split: if_splits)

lemma wf_kids_clean: "wf_kids kids \<Longrightarrow> k \<in> set (keys kids) \<Longrightarrow> clean k"
  by (induction kids) force+

lemma leaf_at_clean: "wf_kids kids \<Longrightarrow> leaf_at kids ks \<Longrightarrow> \<forall>k \<in> set ks. clean k"
proof (induction kids ks rule: leaf_at.induct)
  case (2 kids k ks)
  then show ?case
    by (auto split: option.splits cap_node.splits dest!: wf_kids_lookup)
qed simp

subsection \<open>Paths are injective\<close>

lemma path_from_inj:
  assumes "path_from prefix (k # ks) = path_from prefix (l # ls)"
    and "\<forall>x \<in> set (k # ks). clean x" and "\<forall>x \<in> set (l # ls). clean x"
  shows "k # ks = l # ls"
proof -
  have "join_with dot (k # ks) = join_with dot (l # ls)"
  proof (cases "prefix = []")
    case True
    then show ?thesis using assms by (simp add: path_from_Nil clean_def del: path_from.simps)
  next
    case False
    then show ?thesis using assms(1) by (simp add: path_from_join del: path_from.simps)
  qed
  then have "split_on dot (join_with dot (k # ks)) = split_on dot (join_with dot (l # ls))"
    by simp
  then show ?thesis using assms(2,3) by (simp add: split_join clean_def del: join_with.simps)
qed

definition is_below :: "jsstring \<Rightarrow> jsstring \<Rightarrow> bool" where
  "is_below path x \<longleftrightarrow> (\<exists>ks. x = path_from path ks \<and> (\<forall>k \<in> set ks. clean k))"

definition is_child :: "jsstring list \<Rightarrow> jsstring \<Rightarrow> jsstring \<Rightarrow> bool" where
  "is_child names path x \<longleftrightarrow> (\<exists>k \<in> set names. clean k \<and> is_below (child_path path k) x)"

lemma is_below_refl [simp, intro]: "is_below path path"
  unfolding is_below_def by (intro exI [of _ "[]"]) simp

lemma is_below_step: "clean k \<Longrightarrow> is_below (child_path path k) x \<Longrightarrow> is_below path x"
  unfolding is_below_def by (metis path_from.simps(2) set_ConsD)

lemma is_child_below: "is_child names path x \<Longrightarrow> is_below path x"
  unfolding is_child_def by (blast intro: is_below_step)

lemma is_child_Cons [simp]:
  "is_child (k # names) path x \<longleftrightarrow>
     clean k \<and> is_below (child_path path k) x \<or> is_child names path x"
  by (auto simp: is_child_def)

lemma is_child_Nil [simp]: "\<not> is_child [] path x"
  by (simp add: is_child_def)

lemma subtree_below:
  "wf_node c \<Longrightarrow> \<forall>x \<in> set (collectSubtree c path). is_below path x"
  and subtree_child:
  "wf_kids kids \<Longrightarrow> \<forall>x \<in> set (subtree_paths kids pre). is_child (keys kids) pre x"
  by (induction c path and kids pre rule: collectSubtree_subtree_paths.induct)
     (auto simp: self_path_def dest: is_child_below split: if_splits)


lemma walk_Cons_set:
  "set (advertised_walk ((key, child) # kids) v path) =
     (if isPlainObject v then
       (if child_path path key = js ''tools'' then {}
          else if field v key = JTrue then set (collectSubtree child (child_path path key))
          else if isPlainObject (field v key)
          then (case child of
              Leaf \<Rightarrow> {}
            | Interior sub \<Rightarrow> set (self_path (child_path path key)) \<union> set (advertised_walk sub (field v key) (child_path path key)))
          else {})
         \<union> set (advertised_walk kids v path) else {})"
  by (cases "isPlainObject v"; cases "child_path path key = js ''tools''"; cases "field v key = JTrue";
      cases "isPlainObject (field v key)"; cases child)
     (simp_all only: advertised_walk.simps Let_def if_True if_False not_True_eq_False
       not_False_eq_True cap_node.case set_append list.set simp_thms append_Nil Un_empty_left)

declare advertised_walk.simps(2) [simp del]

lemma advertised_elems:
  "wf_kids kids \<Longrightarrow> x \<in> set (advertised_walk kids v path) \<Longrightarrow> is_child (keys kids) path x"
proof (induction kids v path rule: advertised_walk.induct)
  case (2 key child kids v path)
  let ?p = "child_path path key"
  have v: "isPlainObject v" and x: "x \<in> set (advertised_walk kids v path) \<or> x \<in> set (collectSubtree child ?p) \<or>
      (\<exists>ks. child = Interior ks \<and> (x \<in> set (self_path ?p) \<or>
         (?p \<noteq> js ''tools'' \<and> field v key \<noteq> JTrue \<and> isPlainObject (field v key) \<and>
          x \<in> set (advertised_walk ks (field v key) ?p))))"
    using 2(4) unfolding walk_Cons_set by (auto split: if_splits cap_node.splits)
  from x show ?case
  proof (elim disjE exE conjE)
    assume "x \<in> set (advertised_walk kids v path)"
    then show ?thesis using 2 v by simp
  next
    assume "x \<in> set (collectSubtree child ?p)"
    then show ?thesis using subtree_below [of child ?p] 2(3) by auto
  next
    fix ks assume "child = Interior ks" "x \<in> set (self_path ?p)"
    then show ?thesis using 2(3) by (auto simp: self_path_def split: if_splits)
  next
    fix ks assume "?p \<noteq> js ''tools''" "field v key \<noteq> JTrue" "isPlainObject (field v key)"
        "child = Interior ks" "x \<in> set (advertised_walk ks (field v key) ?p)"
    then have "is_child (keys ks) ?p x"
      using 2(1) v 2(3) by (simp add: Let_def)
    then show ?thesis using 2(3) by (auto dest: is_child_below)
  qed
qed simp


lemma below_child_eq:
  assumes "is_below (child_path pre key) (path_from pre (k # ks))"
    and "clean key" "clean k" "\<forall>x \<in> set ks. clean x"
  shows "k = key"
proof -
  obtain ls where "path_from pre (key # ls) = path_from pre (k # ks)" "\<forall>x \<in> set ls. clean x"
    using assms(1) by (auto simp: is_below_def)
  then show ?thesis using path_from_inj [of pre key ls k ks] assms by auto
qed

lemma not_is_child:
  assumes "k \<notin> set names" "clean k" "\<forall>x \<in> set ks. clean x"
  shows "\<not> is_child names pre (path_from pre (k # ks))"
  using assms unfolding is_child_def by (blast dest: below_child_eq)

lemma path_from_proper:
  assumes "\<forall>x \<in> set (k # ks). clean x" "path_from (child_path pre k) ks = child_path pre k"
  shows "ks = []"
  using assms path_from_inj [of pre k ks k "[]"] by simp

fun node_leaf :: "cap_node \<Rightarrow> jsstring list \<Rightarrow> bool" where
  "node_leaf Leaf ks = (ks = [])"
| "node_leaf (Interior sub) ks = leaf_at sub ks"

lemma leaf_at_Cons:
  "leaf_at ((key, child) # kids) (k # ks) = (if k = key then node_leaf child ks else leaf_at kids (k # ks))"
  by (cases child) auto

lemma leaf_at_mem: "leaf_at kids (k # ks) \<Longrightarrow> k \<in> set (keys kids)"
  by (auto split: option.splits dest: map_of_SomeD intro: rev_image_eqI)

lemma subtree_leaf_node:
  "node_leaf c ks \<Longrightarrow> path_from path ks \<in> set (collectSubtree c path)"
  and subtree_leaf:
  "leaf_at kids ls \<Longrightarrow> path_from pre ls \<in> set (subtree_paths kids pre)"
proof (induction c path and kids pre arbitrary: ks and ls rule: collectSubtree_subtree_paths.induct)
  case (4 key child kids path)
  then obtain k ks where "ls = k # ks" by (cases ls) auto
  then show ?case
    using 4 by (cases "k = key") (simp_all add: leaf_at_Cons del: leaf_at.simps path_from.simps, simp)
next
  case (3 path)
  then show ?case by (cases ls) auto
qed auto

lemma child_path_not_tools: "prefix \<noteq> [] \<Longrightarrow> child_path prefix k \<noteq> js ''tools''"
proof
  assume "prefix \<noteq> []" "child_path prefix k = js ''tools''"
  then have "dot \<in> set (js ''tools'')" by (metis child_path_def in_set_conv_decomp)
  then show False by (simp add: js_def)
qed

text \<open>The walk finds a leaf of the vocabulary exactly when the value reaches it.\<close>

lemma advertised_leaf:
  "wf_kids kids \<Longrightarrow> leaf_at kids ks \<Longrightarrow> isPlainObject v \<Longrightarrow> path \<noteq> [] \<or> ks \<noteq> [js ''tools''] \<Longrightarrow>
     path_from path ks \<in> set (advertised_walk kids v path) \<longleftrightarrow> reaches v ks"
proof (induction kids v path arbitrary: ks rule: advertised_walk.induct)
  case (1 v path)
  then show ?case by (cases ks) auto
next
  case (2 key child kids v path)
  obtain k ks' where ks: "ks = k # ks'" using 2(4) by (cases ks) auto
  have cl: "clean k" "\<forall>x \<in> set ks'. clean x" "clean key"
    using leaf_at_clean [OF 2(3,4)] 2(3) ks by auto
  let ?p = "child_path path key"
  let ?x = "path_from path (k # ks')"
  show ?case
  proof (cases "k = key")
    case False
    then have leaf: "leaf_at kids ks" using 2(4) by (simp add: ks leaf_at_Cons del: leaf_at.simps)
    have nb: "\<not> is_below ?p ?x" using False below_child_eq cl by blast
    then have "?x \<notin> set (collectSubtree child ?p)"
      using subtree_below [of child ?p] 2(3) by auto
    moreover have "?x \<notin> set (self_path ?p)"
      using nb by (auto simp: self_path_def simp del: path_from.simps)
    moreover have "?x \<notin> set (advertised_walk sub (field v key) ?p)" if "child = Interior sub" for sub
      using that nb advertised_elems [of sub ?x "field v key" ?p] 2(3) by (auto dest: is_child_below)
    ultimately have "?x \<in> set (advertised_walk ((key, child) # kids) v path) \<longleftrightarrow>
        ?x \<in> set (advertised_walk kids v path)"
      using 2(5) unfolding walk_Cons_set by (auto split: if_splits cap_node.splits)
    moreover have "path_from path ks \<in> set (advertised_walk kids v path) \<longleftrightarrow> reaches v ks"
      using 2(2) [OF _ refl refl _ leaf 2(5,6)] 2(3,5) by simp
    ultimately show ?thesis by (simp only: ks)
  next
    case True
    have nt: "?x \<notin> set (advertised_walk kids v path)"
      using not_is_child [of k "keys kids" ks' path] advertised_elems 2(3) cl True by fastforce
    have leaf: "node_leaf child ks'" using 2(4) True by (simp add: ks leaf_at_Cons del: leaf_at.simps)
    have notools: "?p \<noteq> js ''tools''"
    proof
      assume t: "?p = js ''tools''"
      then have "path = []" using child_path_not_tools by blast
      then have "key = js ''tools''" using t by (simp add: child_path_def)
      then show False using 2(3,6) \<open>path = []\<close> ks True leaf by auto
    qed
    have sub: "?x \<in> set (collectSubtree child ?p)"
      using subtree_leaf_node [OF leaf, of ?p] True by simp
    have self: "?x \<notin> set (self_path ?p)" if "child = Interior kd" for kd
      using that leaf path_from_proper [of key ks' path] cl True
      by (cases ks') (auto simp: self_path_def)
    show ?thesis
    proof (cases "field v key = JTrue")
      case jt: True
      then have "reaches v ks" using 2(5) True ks by (cases ks') auto
      then show ?thesis using sub jt 2(5) notools ks unfolding walk_Cons_set by simp
    next
      case nj: False
      show ?thesis
      proof (cases child)
        case Leaf
        then have "\<not> reaches v ks" using leaf nj True ks 2(5) by (cases v) auto
        then show ?thesis using nt notools nj Leaf ks 2(5) unfolding walk_Cons_set by simp
      next
        case (Interior kd)
        have "isPlainObject (field v key) \<Longrightarrow>
            ?x \<in> set (advertised_walk kd (field v key) ?p) \<longleftrightarrow> reaches (field v key) ks'"
          using 2(1) [OF _ refl refl notools nj _ Interior] 2(3,5) leaf Interior True cl
          by (simp add: child_path_def clean_def)
        then show ?thesis
          using nt self notools nj Interior ks 2(5) True leaf unfolding walk_Cons_set
          by (cases v; cases ks') auto
      qed
    qed
  qed
qed


subsection \<open>Expanding the shorthand changes no meaning\<close>

definition expand_child :: "cap_node option \<Rightarrow> jsval \<Rightarrow> jsval" where
  "expand_child c v =
     (case c of
        Some (Interior sub) \<Rightarrow>
          (case v of
             JBool True \<Rightarrow> expandNode (Interior sub)
           | JObj es \<Rightarrow> JObj (expand_walk sub es es)
           | _ \<Rightarrow> v)
      | _ \<Rightarrow> v)"

lemma expand_child_None [simp]: "expand_child None v = v"
  by (simp add: expand_child_def)

lemma own_expand_walk:
  "wf_kids kids \<Longrightarrow> (\<And>k. k \<in> set (keys kids) \<Longrightarrow> own out k = own value k) \<Longrightarrow>
     own (expand_walk kids value out) k = expand_child (map_of kids k) (own out k)"
proof (induction kids arbitrary: out)
  case Nil
  then show ?case by (simp add: expand_child_def)
next
  case (Cons kc kids)
  obtain key child where [simp]: "kc = (key, child)" by force
  define out' where "out' = (if key = js ''tools'' then out
        else (case child of
            Leaf \<Rightarrow> out
          | Interior sub \<Rightarrow>
              (if own value key = JTrue then AList.update key (expandNode child) out
               else (case own value key of
                   JObj es \<Rightarrow> AList.update key (JObj (expand_walk sub es es)) out
                 | _ \<Rightarrow> out))))"
  have same: "own out' j = own out j" if "j \<noteq> key" for j
    using that by (auto simp: out'_def split: cap_node.split jsval.split)
  have at: "own out' key = expand_child (Some child) (own out key)"
    using Cons.prems(1) Cons.prems(2) [of key]
    by (auto simp: out'_def expand_child_def split: cap_node.split jsval.split bool.split)
  have "own (expand_walk kids value out') k = expand_child (map_of kids k) (own out' k)"
  proof (rule Cons.IH)
    fix j assume j: "j \<in> set (keys kids)"
    then have "j \<noteq> key" using Cons.prems(1) by auto
    then show "own out' j = own value j" using same j Cons.prems(2) [of j] by simp
  qed (use Cons.prems(1) in simp)
  then have "own (expand_walk (kc # kids) value out) k = expand_child (map_of kids k) (own out' k)"
    by (simp add: out'_def)
  moreover have "map_of kids key = None" using Cons.prems(1) by (simp add: map_of_eq_None_iff)
  ultimately show ?case using same [of k] at by (cases "k = key") simp_all
qed

lemma expand_kids_lookup: "map_of (expand_kids kids) k = map_option expandNode (map_of kids k)"
  by (induction kids) auto

lemma reaches_expandNode:
  "leaf_at kids ks \<Longrightarrow> reaches (JObj (expand_kids kids)) ks \<and> spelled_out (JObj (expand_kids kids)) ks"
proof (induction kids ks rule: leaf_at.induct)
  case (2 kids k ks)
  then show ?case
    by (auto simp: own_def expand_kids_lookup split: option.splits cap_node.splits)
qed simp

lemma reaches_expand_walk:
  "wf_kids kids \<Longrightarrow> leaf_at kids ks \<Longrightarrow>
     reaches (JObj (expand_walk kids es es)) ks = reaches (JObj es) ks \<and>
     spelled_out (JObj (expand_walk kids es es)) ks"
proof (induction ks arbitrary: kids es)
  case (Cons k ks)
  obtain c where c: "map_of kids k = Some c" "node_leaf c ks"
    using Cons.prems(2) by (auto split: option.splits cap_node.splits)
  have own: "own (expand_walk kids es es) k = expand_child (Some c) (own es k)"
    using own_expand_walk [OF Cons.prems(1)] c by simp
  show ?case
  proof (cases c)
    case Leaf
    then show ?thesis using c own by (simp add: expand_child_def)
  next
    case (Interior sub)
    then have "wf_kids sub" "leaf_at sub ks"
      using wf_kids_lookup [OF Cons.prems(1) c(1)] c(2) by auto
    then show ?thesis
      using own Interior Cons.IH [of sub] reaches_expandNode [of sub ks]
      by (cases ks; cases "own es k")
         (auto simp: expand_child_def split: bool.splits)
  qed
qed simp


subsection \<open>The mask keeps exactly what the config lets through\<close>

lemma patternMatchesPath_iff:
  "patternMatchesPath pat p \<longleftrightarrow>
     (\<exists>d \<in> {1..length (split_on dot p)}. maskWildcardMatch pat (join_with dot (take d (split_on dot p))))"
  by (auto simp: patternMatchesPath_def list_ex_iff Let_def Bex_def)

lemma patternMatches_below:
  "p \<noteq> [] \<Longrightarrow> patternMatchesPath pat p \<Longrightarrow> patternMatchesPath pat (child_path p k)"
  unfolding patternMatchesPath_iff
proof (elim bexE)
  fix d assume "p \<noteq> []" "d \<in> {1..length (split_on dot p)}"
    "maskWildcardMatch pat (join_with dot (take d (split_on dot p)))"
  then show "\<exists>d \<in> {1..length (split_on dot (child_path p k))}.
      maskWildcardMatch pat (join_with dot (take d (split_on dot (child_path p k))))"
    by (intro bexI [of _ d]) (simp_all add: child_path_def split_on_app_sep)
qed

lemma denied_below: "p \<noteq> [] \<Longrightarrow> denied cfg p \<Longrightarrow> denied cfg (path_from p ks)"
proof (induction ks arbitrary: p)
  case (Cons k ks)
  have "denied cfg (child_path p k)"
    using Cons.prems patternMatches_below
    by (auto simp: denied_def anyMatches_def list_ex_iff split: option.splits)
  then show ?case using Cons by (simp add: child_path_def)
qed simp

definition mask_result :: "mask_config \<Rightarrow> jsval \<Rightarrow> jsstring \<Rightarrow> jsval option" where
  "mask_result cfg v p =
     (case v of
        JObj es \<Rightarrow> map_option JObj (fst (maskNode cfg es p))
      | _ \<Rightarrow> if keep cfg p then Some v else None)"

lemma mask_value_acc:
  "survivors (mask_value cfg v key p acc) =
     (case mask_result cfg v p of
        None \<Rightarrow> survivors acc
      | Some v' \<Rightarrow> AList.update key v' (survivors acc)) \<and>
   survived (mask_value cfg v key p acc) =
     survived acc + (if mask_result cfg v p = None then 0 else 1) \<and>
   advertised (mask_value cfg v key p acc) = advertised acc"
  by (cases v) (auto simp: mask_result_def maskNode_def keep_entry_def Let_def
      split: option.split prod.split)

lemma own_absent: "k \<notin> set (keys es) \<Longrightarrow> own es k = JUndef"
  by (simp add: own_def map_of_eq_None_iff [THEN iffD2])

lemma own_empty_acc: "own (survivors empty_acc) k = JUndef"
  by (simp add: empty_acc_def)

lemma own_mask_entries:
  "distinct (keys es) \<Longrightarrow>
     own (survivors (mask_entries cfg es p acc)) k =
       (if k \<notin> set (keys es) \<or> own es k = JUndef then own (survivors acc) k
        else if \<not> truthy (own es k) then own es k
        else (case mask_result cfg (own es k) (child_path p k) of
            None \<Rightarrow> own (survivors acc) k
          | Some v' \<Rightarrow> v'))"
proof (induction es arbitrary: acc)
  case (Cons kv es)
  obtain key v where "kv = (key, v)" by force
  then show ?case using Cons
    by (auto simp: own_Cons mask_value_acc split: option.split)
qed simp

lemma mask_entries_counts:
  "survived acc \<le> survived (mask_entries cfg es p acc) \<and>
   advertised acc \<le> advertised (mask_entries cfg es p acc)"
proof (induction es arbitrary: acc)
  case (Cons kv es)
  obtain key v where kv: "kv = (key, v)" by force
  define acc' where "acc' = (if v = JUndef then acc
        else if \<not> truthy v then acc\<lparr>survivors := AList.update key v (survivors acc)\<rparr>
        else mask_value cfg v key (child_path p key) (acc\<lparr>advertised := Suc (advertised acc)\<rparr>))"
  have "survived acc \<le> survived acc' \<and> advertised acc \<le> advertised acc'"
    by (simp add: acc'_def mask_value_acc)
  then show ?case using Cons.IH [of acc'] by (auto simp: kv acc'_def [symmetric])
qed simp

lemma mask_entries_survive:
  assumes "k \<in> set (keys es)" "distinct (keys es)" "truthy (own es k)"
    "mask_result cfg (own es k) (child_path p k) \<noteq> None"
  shows "0 < survived (mask_entries cfg es p acc) \<and> 0 < advertised (mask_entries cfg es p acc)"
  using assms
proof (induction es arbitrary: acc)
  case (Cons kv es)
  obtain key v where kv: "kv = (key, v)" by force
  show ?case
  proof (cases "k = key")
    case True
    define acc' where "acc' = mask_value cfg v key (child_path p key) (acc\<lparr>advertised := Suc (advertised acc)\<rparr>)"
    have "0 < survived acc'" "0 < advertised acc'"
      using Cons.prems True kv by (auto simp: acc'_def mask_value_acc own_Cons)
    moreover have "v \<noteq> JUndef" "truthy v" using Cons.prems True kv by (auto simp: own_Cons)
    ultimately show ?thesis
      using mask_entries_counts [of acc' cfg es p] by (auto simp: kv acc'_def [symmetric])
  qed (use Cons kv in \<open>auto simp: own_Cons\<close>)
qed simp

lemma reaches_truthy: "reaches v ks \<Longrightarrow> truthy v"
  by (cases ks; cases v) auto

theorem masked_reaches:
  "plain v \<Longrightarrow> spelled_out v ks \<Longrightarrow> p \<noteq> [] \<Longrightarrow>
     (\<exists>v'. mask_result cfg v p = Some v' \<and> reaches v' ks) \<longleftrightarrow>
     reaches v ks \<and> keep cfg (path_from p ks)"
proof (induction ks arbitrary: v p)
  case Nil
  then show ?case by (auto simp: mask_result_def split: jsval.splits if_splits)
next
  case (Cons k ks)
  show ?case
  proof (cases v)
    case (JObj es)
    have dist: "distinct (keys es)" and pl: "plain (own es k)" and sp: "spelled_out (own es k) ks"
      using Cons.prems JObj plain_own [of es k] by auto
    let ?c = "child_path p k"
    let ?acc = "mask_entries cfg es p empty_acc"
    have c: "?c \<noteq> []" using Cons.prems by (simp add: child_path_def)
    have IH: "(\<exists>v'. mask_result cfg (own es k) ?c = Some v' \<and> reaches v' ks) \<longleftrightarrow>
        reaches (own es k) ks \<and> keep cfg (path_from ?c ks)"
      using Cons.IH [OF pl sp c] .
    have "own (survivors ?acc) k = (if \<not> truthy (own es k) then own es k
        else (case mask_result cfg (own es k) ?c of None \<Rightarrow> JUndef | Some v' \<Rightarrow> v'))"
      using own_absent [of k es] 
      by (auto simp: own_mask_entries [OF dist] own_empty_acc cong: option.case_cong)
    then have own: "reaches (own (survivors ?acc) k) ks \<longleftrightarrow>
        reaches (own es k) ks \<and> keep cfg (path_from ?c ks)"
      using IH reaches_truthy [of "own es k" ks] reaches_truthy [of JUndef ks]
      by (cases "truthy (own es k)") (auto split: option.splits)
    have "fst (mask_verdict cfg p ?acc) = Some (survivors ?acc) \<and> \<not> denied cfg p"
      if r: "reaches (own es k) ks" "keep cfg (path_from ?c ks)"
    proof
      have "k \<in> set (keys es)" using reaches_truthy [OF r(1)]
        by (auto simp: own_def split: option.splits dest: map_of_SomeD intro: rev_image_eqI)
      then have "0 < survived ?acc \<and> 0 < advertised ?acc"
        using IH r reaches_truthy dist by (intro mask_entries_survive) auto
      then show "fst (mask_verdict cfg p ?acc) = Some (survivors ?acc)"
        by (simp add: mask_verdict_def)
      show "\<not> denied cfg p"
        using r(2) denied_below [of p cfg "k # ks"] Cons.prems by (auto simp: keep_def)
    qed
    moreover have "fst (mask_verdict cfg p ?acc) = Some s \<Longrightarrow> s = survivors ?acc" for s
      by (auto simp: mask_verdict_def split: if_splits)
    ultimately show ?thesis using own JObj
      by (auto simp: mask_result_def maskNode_def split: if_splits)
  qed (use Cons.prems in \<open>auto simp: mask_result_def split: if_splits\<close>)
qed


lemma own_mask_top:
  "distinct (keys es) \<Longrightarrow>
     own (survivors (mask_top cfg es acc)) k =
       (if k \<notin> set (keys es) \<or> own es k = JUndef then own (survivors acc) k
        else if k \<in> set UNMASKABLE_KEYS \<or> \<not> truthy (own es k) then own es k
        else (case mask_result cfg (own es k) k of
            None \<Rightarrow> own (survivors acc) k
          | Some v' \<Rightarrow> v'))"
proof (induction es arbitrary: acc)
  case (Cons kv es)
  obtain key v where "kv = (key, v)" by force
  then show ?case using Cons
    by (auto simp: own_Cons mask_value_acc split: option.split)
qed simp

lemma top_masked_reaches:
  assumes "plain (JObj es)" "spelled_out (JObj es) (k # ks)" "k \<noteq> []" "k \<notin> set UNMASKABLE_KEYS"
  shows "reaches (JObj (survivors (mask_top cfg es empty_acc))) (k # ks) \<longleftrightarrow>
    reaches (JObj es) (k # ks) \<and> keep cfg (path_from k ks)"
proof -
  have dist: "distinct (keys es)" and pl: "plain (own es k)" and sp: "spelled_out (own es k) ks"
    using assms plain_own [of es k] by auto
  have "own (survivors (mask_top cfg es empty_acc)) k = (if \<not> truthy (own es k) then own es k
        else (case mask_result cfg (own es k) k of None \<Rightarrow> JUndef | Some v' \<Rightarrow> v'))"
    using own_absent [of k es] assms(4) 
    by (auto simp: own_mask_top [OF dist] own_empty_acc cong: option.case_cong)
  then show ?thesis
    using masked_reaches [OF pl sp assms(3), of cfg]
      reaches_truthy [of "own es k" ks] reaches_truthy [of JUndef ks]
    by (cases "truthy (own es k)") (auto split: option.splits)
qed

lemma plain_updateI: "plain (JObj es) \<Longrightarrow> plain v \<Longrightarrow> plain (JObj (AList.update k v es))"
proof -
  assume "plain (JObj es)" "plain v"
  moreover have "list_all (\<lambda>(k, v). plain v) es \<Longrightarrow> plain v \<Longrightarrow>
      list_all (\<lambda>(k, v). plain v) (AList.update k v es)"
    by (induction es) auto
  ultimately show ?thesis by simp
qed

lemma plain_expandNode:
  "wf_node c \<Longrightarrow> plain (expandNode c)"
  and plain_expand_kids: "wf_kids kids \<Longrightarrow> plain (JObj (expand_kids kids)) \<and> keys (expand_kids kids) = keys kids"
  by (induction c and kids rule: expandNode_expand_kids.induct) auto

lemma plain_expand_walk:
  "wf_kids kids \<Longrightarrow> plain (JObj vl) \<Longrightarrow> plain (JObj out) \<Longrightarrow> plain (JObj (expand_walk kids vl out))"
proof (induction kids vl out rule: expand_walk.induct)
  case (2 key child kids vl out)
  have sub: "child = Interior sub \<Longrightarrow> own vl key = JObj es \<Longrightarrow> key \<noteq> js ''tools'' \<Longrightarrow>
      plain (JObj (expand_walk sub es es))" for sub es
    using 2(1) [of sub es] 2(3) plain_own [OF 2(4), of key] by simp
  have "plain (JObj (if key = js ''tools'' then out
        else (case child of
            Leaf \<Rightarrow> out
          | Interior sub \<Rightarrow>
              (if own vl key = JTrue then AList.update key (expandNode child) out
               else (case own vl key of
                   JObj es \<Rightarrow> AList.update key (JObj (expand_walk sub es es)) out
                 | _ \<Rightarrow> out)))))"
    using 2(3-5) sub plain_expandNode [of child]
    by (auto simp del: plain.simps(2) intro!: plain_updateI split: cap_node.split jsval.split)
  then show ?case
    unfolding expand_walk.simps using 2(2-4) by simp
qed simp


subsection \<open>The grant, path by path\<close>

lemma vocabulary_maskable: "k \<in> set (keys VOCABULARY) \<Longrightarrow> k \<notin> set UNMASKABLE_KEYS"
  by (auto simp: VOCABULARY_def UNMASKABLE_KEYS_def)

lemma keep_unconfigured:
  "enabledCapabilities cfg = None \<Longrightarrow> disabledCapabilities cfg = None \<Longrightarrow> keep cfg p"
  by (simp add: keep_def denied_def allowed_def)

lemma negotiated_reaches:
  assumes leaf: "leaf_at VOCABULARY (k # ks)" and pl: "plain (JObj raw)"
  shows "\<exists>obj. fst (maskNegotiatedCapabilities (expandAdvertisementShorthand (Some raw)) cfg) = Some obj \<and>
    reaches (JObj obj) (k # ks) = (reaches (JObj raw) (k # ks) \<and> keep cfg (path_from k ks))"
proof -
  let ?es = "expand_walk VOCABULARY raw raw"
  have "k \<noteq> []" using leaf_at_clean [OF wf_VOCABULARY leaf] by (simp add: clean_def)
  moreover have "k \<notin> set UNMASKABLE_KEYS" using leaf_at_mem [OF leaf] by (rule vocabulary_maskable)
  moreover have "plain (JObj ?es)" using wf_VOCABULARY pl pl by (rule plain_expand_walk)
  moreover note reaches_expand_walk [OF wf_VOCABULARY leaf, of raw]
  ultimately show ?thesis
    using top_masked_reaches [of ?es k ks cfg] keep_unconfigured [of cfg]
    by (auto simp: maskNegotiatedCapabilities_def expandAdvertisementShorthand_def Let_def
        simp del: reaches.simps leaf_at.simps plain.simps spelled_out.simps)
qed

lemma granted_iff:
  "grant_has (computeGrant caps en tlc outer) p \<longleftrightarrow>
     (p \<in> set (advertisedPaths caps) \<or> outer \<and> p = js ''tools'') \<and>
     (p \<in> set DENY_BY_DEFAULT \<longrightarrow> explicitlyEnabled en p \<or> configGrants tlc p)"
  by (auto simp: grant_has_def computeGrant_def Let_def)




lemma advertised_sub: "set (advertised_walk kids v path) \<subseteq> set (subtree_paths kids path)"
proof (induction kids v path rule: advertised_walk.induct)
  case (2 key child kids v path)
  let ?p = "child_path path key"
  have "set (self_path ?p) \<union> set (advertised_walk sub (field v key) ?p) \<subseteq> set (collectSubtree child ?p)"
    if "isPlainObject v" "?p \<noteq> js ''tools''" "field v key \<noteq> JTrue" "isPlainObject (field v key)"
      "child = Interior sub" for sub
    using 2(1) [OF _ refl refl that(2-5)] that by auto
  then show ?case
    unfolding walk_Cons_set using 2(2) [OF _ refl refl] by (auto split: if_splits cap_node.splits)
qed simp

lemma advertised_known: "set (advertisedPaths caps) \<subseteq> set ALL_CAPABILITY_PATHS"
  using advertised_sub [of VOCABULARY _ "[]"]
  by (auto simp: advertisedPaths_def ALL_CAPABILITY_PATHS_def split: option.splits)

lemma tools_known: "js ''tools'' \<in> set ALL_CAPABILITY_PATHS"
  by (simp add: ALL_CAPABILITY_PATHS_def VOCABULARY_def child_path_def)

text \<open>
  An unknown name mints nothing. Whatever object a server advertises and whatever the
  host configures, every path of the grant is a path of the fixed vocabulary.
\<close>

theorem granted_known:
  "grant_has (computeGrant caps en tlc outer) p \<Longrightarrow> isKnownCapabilityPath p"
  using advertised_known tools_known by (auto simp: granted_iff isKnownCapabilityPath_def)

lemma granted_known_witness:
  "isKnownCapabilityPath (js ''pushEvents'')"
  by (rule granted_known [of "Some [(js ''pushEvents'', JTrue)]" None JUndef False])
     code_simp

text \<open>
  An MCP server that announces tools is granted \<open>tools\<close>, whatever the config mask says:
  the mask only ever sees the MCPL capabilities object, and the announcement is added to the
  advertised set after it. A host that lists \<open>tools\<close> under its disabled capabilities, or
  leaves it out of an enabled list, does not withhold it.
\<close>

theorem outer_tools_ignore_mask: "grant_has (negotiatedGrant raw cfg tlc True) (js ''tools'')"
proof -
  have "js ''tools'' \<notin> set DENY_BY_DEFAULT" by (simp add: DENY_BY_DEFAULT_def)
  then show ?thesis by (simp add: negotiatedGrant_def granted_iff)
qed

subsection \<open>Reducing a grant\<close>

lemma without_fold:
  "fold (\<lambda>p (gr, dn). if p \<in> set gr then (removeAll p gr, js_add p dn) else (gr, dn)) ps (gr, dn) =
     (gr', dn') \<Longrightarrow>
   set gr' = set gr - set ps \<and> set dn' = set dn \<union> (set gr \<inter> set ps)"
proof (induction ps arbitrary: gr dn)
  case (Cons p ps)
  show ?case
  proof (cases "p \<in> set gr")
    case True
    then show ?thesis using Cons.prems Cons.IH [of "removeAll p gr" "js_add p dn"] by auto
  next
    case False
    then show ?thesis using Cons.prems Cons.IH [of gr dn] by auto
  qed
qed simp

lemma has_without: "grant_has (grant_without g ps) p \<longleftrightarrow> grant_has g p \<and> p \<notin> set ps"
proof -
  obtain gr dn where f: "fold (\<lambda>p (gr, dn). if p \<in> set gr then (removeAll p gr, js_add p dn) else (gr, dn))
      ps (granted g, deniedPaths g) = (gr, dn)" by force
  show ?thesis using without_fold [OF f]
    by (auto simp: grant_without_def grant_has_def Let_def f)
qed

lemma denied_without:
  "set (deniedPaths (grant_without g ps)) = set (deniedPaths g) \<union> (set (granted g) \<inter> set ps)"
proof -
  obtain gr dn where f: "fold (\<lambda>p (gr, dn). if p \<in> set gr then (removeAll p gr, js_add p dn) else (gr, dn))
      ps (granted g, deniedPaths g) = (gr, dn)" by force
  show ?thesis using without_fold [OF f]
    by (auto simp: grant_without_def grant_has_def Let_def f)
qed

text \<open>
  Revocation is exact. \<open>without\<close> takes away the named paths and no other, never adds
  one, and the recorded denials grow by precisely the paths that were held and named.
\<close>

theorem without_exact:
  "(grant_has (grant_without g ps) p \<longleftrightarrow> grant_has g p \<and> p \<notin> set ps) \<and>
   set (deniedPaths (grant_without g ps)) = set (deniedPaths g) \<union> (set (granted g) \<inter> set ps)"
  by (simp add: has_without denied_without)

text \<open>
  The interface the rest of the framework holds on to: a grant answers \<open>has\<close> and is only
  ever reduced. The feature sets are derived from it.
\<close>

locale revocable_grant =
  fixes has :: "'g \<Rightarrow> 'p \<Rightarrow> bool" and reduce :: "'g \<Rightarrow> 'p list \<Rightarrow> 'g"
  assumes has_reduce: "has (reduce g ps) p \<longleftrightarrow> has g p \<and> p \<notin> set ps"
begin

lemma reduce_narrows: "has (reduce g ps) p \<Longrightarrow> has g p"
  by (simp add: has_reduce)

lemma reduce_reduce: "has (reduce (reduce g ps) qs) p \<longleftrightarrow> has (reduce g (ps @ qs)) p"
  by (auto simp: has_reduce)

lemma requirements_narrow:
  "list_all (has (reduce g ps)) us \<longleftrightarrow> list_all (has g) us \<and> set us \<inter> set ps = {}"
  by (auto simp: list_all_iff has_reduce)

end

interpretation conn_grant: revocable_grant grant_has grant_without
  by unfold_locales (rule has_without)

end
