(* ===== verification/Feature_Sets.thy ===== *)
theory Feature_Sets
  imports Capability_Proofs
begin

section \<open>Feature sets (src/mcpl/feature-set-manager.ts)\<close>

text \<open>
  The permission gate every tagged inbound message passes: per server, the declared
  feature sets and the names currently enabled. Initialization selects by the host's
  patterns, disables by pattern, then derives against the grant, which can only remove.
  A declaration is the \<open>jsval\<close> the server sent; console output is left out, the trace
  events are returned.
\<close>

record server_state =
  declared :: "(jsstring, jsval) jsmap"
  enabled :: "jsstring list"

type_synonym feature_sets = "(jsstring, server_state) jsmap"

text \<open>The two wire forms of \<open>capabilities.featureSets\<close>, as the code's types give them.\<close>

datatype feature_sets_raw =
    RecordForm "(jsstring, jsval) jsmap"
  | ArrayForm "(jsstring \<times> jsval) list"

record fs_config =
  enabledFeatureSets :: "jsstring list option"
  disabledFeatureSets :: "jsstring list option"

datatype fs_reason = Invalid_Uses | Missing_Capabilities

record fs_disabled_trace =
  tr_featureSet :: jsstring
  tr_reason :: fs_reason
  tr_selectedByConfig :: bool
  tr_paths :: "jsval list"

record fs_update =
  up_enabled :: "jsstring list option"
  up_disabled :: "jsstring list option"

definition resolvePatterns :: "jsstring list \<Rightarrow> (jsstring, jsval) jsmap \<Rightarrow> jsstring list" where
  "resolvePatterns patterns decl =
     fold (\<lambda>pattern matched.
         fold (\<lambda>name matched. if wildcardMatch pattern name then js_add name matched else matched)
           (keys decl) matched)
       patterns []"

definition declared_of :: "feature_sets_raw option \<Rightarrow> (jsstring, jsval) jsmap" where
  "declared_of raw =
     (case raw of
        None \<Rightarrow> []
      | Some (RecordForm m) \<Rightarrow> m
      | Some (ArrayForm ds) \<Rightarrow> fold (\<lambda>(name, d). AList.update name d) ds [])"

text \<open>
  The derivation of one feature set: \<open>None\<close> when it may stay enabled, else the reason with
  the offending entries of \<open>uses\<close>.
\<close>

fun usable_path :: "jsval \<Rightarrow> bool" where
  "usable_path (JStr u) = isKnownCapabilityPath u"
| "usable_path _ = False"

definition derive_uses :: "(jsstring \<Rightarrow> bool) \<Rightarrow> jsval \<Rightarrow> (fs_reason \<times> jsval list) option" where
  "derive_uses has decl =
     (case field decl (js ''uses'') of
        JArr uses \<Rightarrow>
          if length uses = 0 then Some (Invalid_Uses, [])
          else (let unknown = filter (\<lambda>u. \<not> usable_path u) uses in
            if length unknown > 0 then Some (Invalid_Uses, unknown)
            else (let missing = filter (\<lambda>u. \<not> (case u of JStr s \<Rightarrow> has s | _ \<Rightarrow> False)) uses in
              if length missing > 0 then Some (Missing_Capabilities, missing) else None))
      | _ \<Rightarrow> Some (Invalid_Uses, []))"

fun derive_all :: "(jsstring \<Rightarrow> bool) \<Rightarrow> (jsstring, jsval) jsmap \<Rightarrow> jsstring list \<Rightarrow> fs_disabled_trace list
    \<Rightarrow> jsstring list \<times> fs_disabled_trace list" where
  "derive_all has [] en traces = (en, traces)"
| "derive_all has ((name, decl) # rest) en traces =
     (case derive_uses has decl of
        None \<Rightarrow> derive_all has rest en traces
      | Some (reason, paths) \<Rightarrow>
          derive_all has rest (removeAll name en)
            (traces @ [\<lparr>tr_featureSet = name, tr_reason = reason,
               tr_selectedByConfig = (name \<in> set en), tr_paths = paths\<rparr>]))"

definition initializeServer ::
  "feature_sets \<Rightarrow> jsstring \<Rightarrow> feature_sets_raw option \<Rightarrow> fs_config \<Rightarrow> capability_grant option
    \<Rightarrow> feature_sets \<times> fs_update \<times> fs_disabled_trace list" where
  "initializeServer servers serverId raw config grant =
     (let decl = declared_of raw;
          disablePatterns = (case disabledFeatureSets config of None \<Rightarrow> [] | Some ps \<Rightarrow> ps);
          toEnable = (case enabledFeatureSets config of
              None \<Rightarrow> keys decl
            | Some ps \<Rightarrow> resolvePatterns ps decl);
          toDisable = resolvePatterns disablePatterns decl;
          en1 = js_add_all toEnable [];
          en2 = fold removeAll toDisable en1;
          (en3, traces) = (case grant of
              None \<Rightarrow> (en2, [])
            | Some g \<Rightarrow> derive_all (grant_has g) decl en2 []);
          disabled = filter (\<lambda>n. n \<notin> set en3) (keys decl)
      in (AList.update serverId \<lparr>declared = decl, enabled = en3\<rparr> servers,
          \<lparr>up_enabled = (if length en3 > 0 then Some en3 else None),
           up_disabled = (if length disabled > 0 then Some disabled else None)\<rparr>,
          traces))"

definition removeServer :: "feature_sets \<Rightarrow> jsstring \<Rightarrow> feature_sets" where
  "removeServer servers serverId = AList.delete serverId servers"

definition isEnabled :: "feature_sets \<Rightarrow> jsstring \<Rightarrow> jsstring \<Rightarrow> bool" where
  "isEnabled servers serverId featureSet =
     (case map_of servers serverId of
        None \<Rightarrow> False
      | Some state \<Rightarrow> featureSet \<in> set (enabled state))"

datatype fs_error = UNKNOWN_FEATURE_SET jsstring | FEATURE_SET_NOT_ENABLED jsstring

definition error_code :: "fs_error \<Rightarrow> int" where
  "error_code e = (case e of FEATURE_SET_NOT_ENABLED _ \<Rightarrow> -32001 | UNKNOWN_FEATURE_SET _ \<Rightarrow> -32003)"

definition validateInbound :: "feature_sets \<Rightarrow> jsstring \<Rightarrow> jsstring \<Rightarrow> fs_error + unit" where
  "validateInbound servers serverId featureSet =
     (case map_of servers serverId of
        None \<Rightarrow> Inl (UNKNOWN_FEATURE_SET featureSet)
      | Some state \<Rightarrow>
          if \<not> in_object featureSet (declared state) then Inl (UNKNOWN_FEATURE_SET featureSet)
          else if featureSet \<notin> set (enabled state) then Inl (FEATURE_SET_NOT_ENABLED featureSet)
          else Inr ())"

definition enable :: "feature_sets \<Rightarrow> jsstring \<Rightarrow> jsstring list \<Rightarrow> feature_sets" where
  "enable servers serverId patterns =
     (case map_of servers serverId of
        None \<Rightarrow> servers
      | Some state \<Rightarrow>
          AList.update serverId
            (state\<lparr>enabled := js_add_all (resolvePatterns patterns (declared state)) (enabled state)\<rparr>)
            servers)"

definition disable :: "feature_sets \<Rightarrow> jsstring \<Rightarrow> jsstring list \<Rightarrow> feature_sets" where
  "disable servers serverId patterns =
     (case map_of servers serverId of
        None \<Rightarrow> servers
      | Some state \<Rightarrow>
          AList.update serverId
            (state\<lparr>enabled := fold removeAll (resolvePatterns patterns (declared state)) (enabled state)\<rparr>)
            servers)"

record fs_changed =
  fs_added :: "(jsstring, jsval) jsmap option"
  fs_removed :: "jsstring list option"

definition declare_name :: "jsstring \<times> jsval \<Rightarrow> (jsstring, jsval) jsmap \<Rightarrow> (jsstring, jsval) jsmap" where
  "declare_name nd m = js_assign (fst nd) (snd nd) m"

definition handleFeatureSetsChanged :: "feature_sets \<Rightarrow> jsstring \<Rightarrow> fs_changed \<Rightarrow> feature_sets" where
  "handleFeatureSetsChanged servers serverId params =
     (case map_of servers serverId of
        None \<Rightarrow> servers
      | Some state \<Rightarrow>
          (let added = (case fs_added params of None \<Rightarrow> [] | Some a \<Rightarrow> a);
               removed = (case fs_removed params of None \<Rightarrow> [] | Some r \<Rightarrow> r)
           in AList.update serverId
             \<lparr>declared = fold AList.delete removed (fold declare_name added (declared state)),
              enabled = fold removeAll removed (enabled state)\<rparr> servers))"

definition getDeclaredFeatureSets :: "feature_sets \<Rightarrow> jsstring \<Rightarrow> (jsstring, jsval) jsmap option" where
  "getDeclaredFeatureSets servers serverId = map_option declared (map_of servers serverId)"

definition getEnabledFeatureSets :: "feature_sets \<Rightarrow> jsstring \<Rightarrow> jsstring list" where
  "getEnabledFeatureSets servers serverId =
     (case map_of servers serverId of None \<Rightarrow> [] | Some state \<Rightarrow> enabled state)"


subsection \<open>Pattern resolution and derivation\<close>

lemma resolve_inner:
  "set (fold (\<lambda>name matched. if wildcardMatch pattern name then js_add name matched else matched) ns ms) =
     set ms \<union> {n \<in> set ns. wildcardMatch pattern n}"
  by (induction ns arbitrary: ms) auto

lemma resolvePatterns_set:
  "set (resolvePatterns patterns decl) = {n \<in> set (keys decl). \<exists>p \<in> set patterns. wildcardMatch p n}"
proof -
  have "set (fold (\<lambda>pattern matched.
         fold (\<lambda>name matched. if wildcardMatch pattern name then js_add name matched else matched)
           (keys decl) matched) patterns ms) =
      set ms \<union> {n \<in> set (keys decl). \<exists>p \<in> set patterns. wildcardMatch p n}" for ms
    by (induction patterns arbitrary: ms) (auto simp: resolve_inner)
  then show ?thesis by (simp add: resolvePatterns_def)
qed

lemma set_remove_all [simp]: "set (fold removeAll ns xs) = set xs - set ns"
  by (induction ns arbitrary: xs) auto

lemma distinct_remove_all [simp]: "distinct xs \<Longrightarrow> distinct (fold removeAll ns xs)"
  by (induction ns arbitrary: xs) (auto simp: distinct_removeAll)

lemma derive_all_set:
  "set (fst (derive_all has decl en traces)) =
     set en - {n. \<exists>d. (n, d) \<in> set decl \<and> derive_uses has d \<noteq> None}"
  by (induction has decl en traces rule: derive_all.induct) (auto split: option.splits)

lemma derive_all_distinct: "distinct en \<Longrightarrow> distinct (fst (derive_all has decl en traces))"
  by (induction has decl en traces rule: derive_all.induct)
     (auto simp: distinct_removeAll split: option.splits)

text \<open>What a usable declaration looks like.\<close>

definition uses_of :: "jsval \<Rightarrow> jsstring list" where
  "uses_of d = (case field d (js ''uses'') of
     JArr us \<Rightarrow> map (\<lambda>u. case u of JStr s \<Rightarrow> s | _ \<Rightarrow> []) us | _ \<Rightarrow> [])"

definition well_used :: "jsval \<Rightarrow> bool" where
  "well_used d \<longleftrightarrow> (\<exists>us. field d (js ''uses'') = JArr (map JStr us) \<and> us \<noteq> [] \<and>
     list_all isKnownCapabilityPath us)"

lemma uses_of_strings: "field d (js ''uses'') = JArr (map JStr us) \<Longrightarrow> uses_of d = us"
  by (simp add: uses_of_def comp_def)

lemma usable_strings: "list_all usable_path vs \<Longrightarrow> \<exists>us. vs = map JStr us \<and> list_all isKnownCapabilityPath us"
proof (induction vs)
  case (Cons v vs)
  then obtain us u where "vs = map JStr us" "list_all isKnownCapabilityPath us" "v = JStr u"
    by (cases v) auto
  then show ?case using Cons.prems by (intro exI [of _ "u # us"]) auto
qed simp

lemma derive_uses_None:
  "derive_uses has d = None \<longleftrightarrow> well_used d \<and> list_all has (uses_of d)"
proof
  assume n: "derive_uses has d = None"
  obtain vs where f: "field d (js ''uses'') = JArr vs"
    using n by (auto simp: derive_uses_def split: jsval.splits)
  have vs: "vs \<noteq> []" "list_all usable_path vs"
      "list_all (\<lambda>u. case u of JStr s \<Rightarrow> has s | _ \<Rightarrow> False) vs"
    using n by (simp_all add: f derive_uses_def Let_def list_all_iff filter_empty_conv split: if_splits)
  obtain us where us: "vs = map JStr us" "list_all isKnownCapabilityPath us"
    using usable_strings [OF vs(2)] by blast
  then show "well_used d \<and> list_all has (uses_of d)"
    using vs f by (auto simp: well_used_def uses_of_def list_all_iff)
next
  assume "well_used d \<and> list_all has (uses_of d)"
  then show "derive_uses has d = None"
    by (auto simp: well_used_def uses_of_strings derive_uses_def list_all_iff Let_def filter_empty_conv)
qed

subsection \<open>Initialization is exact\<close>

definition raw_wf :: "feature_sets_raw option \<Rightarrow> bool" where
  "raw_wf raw = (case raw of Some (RecordForm m) \<Rightarrow> distinct (keys m) | _ \<Rightarrow> True)"

lemma declared_of_distinct: "raw_wf raw \<Longrightarrow> distinct (keys (declared_of raw))"
proof -
  have "distinct (keys m) \<Longrightarrow> distinct (keys (fold (\<lambda>(name, d). AList.update name d) ds m))"
    for ds and m :: "(jsstring, jsval) jsmap"
    by (induction ds arbitrary: m) auto
  then show "raw_wf raw \<Longrightarrow> ?thesis"
    by (auto simp: raw_wf_def declared_of_def split: option.splits feature_sets_raw.splits)
qed

text \<open>What the host's configuration selects, before any derivation.\<close>

definition selected :: "fs_config \<Rightarrow> jsstring \<Rightarrow> bool" where
  "selected cfg n \<longleftrightarrow>
     (\<forall>ps. enabledFeatureSets cfg = Some ps \<longrightarrow> (\<exists>p \<in> set ps. wildcardMatch p n)) \<and>
     (\<forall>ps. disabledFeatureSets cfg = Some ps \<longrightarrow> \<not> (\<exists>p \<in> set ps. wildcardMatch p n))"

lemma initializeServer_state:
  "\<exists>en. fst (initializeServer servers s raw cfg grant) =
      AList.update s \<lparr>declared = declared_of raw, enabled = en\<rparr> servers \<and>
    distinct en \<and>
    set en = {n \<in> set (keys (declared_of raw)). selected cfg n \<and>
      (\<forall>g. grant = Some g \<longrightarrow> (\<forall>d. (n, d) \<in> set (declared_of raw) \<longrightarrow> derive_uses (grant_has g) d = None))}
    \<and> up_enabled (fst (snd (initializeServer servers s raw cfg grant))) = (if en = [] then None else Some en)"
proof -
  let ?decl = "declared_of raw"
  define en2 where "en2 = fold removeAll
      (resolvePatterns (case disabledFeatureSets cfg of None \<Rightarrow> [] | Some ps \<Rightarrow> ps) ?decl)
      (js_add_all (case enabledFeatureSets cfg of
              None \<Rightarrow> keys ?decl
            | Some ps \<Rightarrow> resolvePatterns ps ?decl) [])"
  define en3 where "en3 = (case grant of None \<Rightarrow> en2 | Some g \<Rightarrow> fst (derive_all (grant_has g) ?decl en2 []))"
  have 2: "set en2 = {n \<in> set (keys ?decl). selected cfg n}" "distinct en2"
    by (cases "enabledFeatureSets cfg"; cases "disabledFeatureSets cfg";
        auto simp: en2_def resolvePatterns_set selected_def)+
  have 3: "set en3 = {n \<in> set (keys ?decl). selected cfg n \<and>
      (\<forall>g. grant = Some g \<longrightarrow> (\<forall>d. (n, d) \<in> set ?decl \<longrightarrow> derive_uses (grant_has g) d = None))}"
    using 2(1) by (auto simp: en3_def derive_all_set split: option.splits)
  have "distinct en3" using 2(2) derive_all_distinct by (auto simp: en3_def split: option.splits)
  moreover have "fst (initializeServer servers s raw cfg grant) =
      AList.update s \<lparr>declared = ?decl, enabled = en3\<rparr> servers \<and>
      up_enabled (fst (snd (initializeServer servers s raw cfg grant))) = (if en3 = [] then None else Some en3)"
    by (simp add: initializeServer_def Let_def en3_def en2_def [symmetric]
        split: option.splits prod.splits)
  ultimately show ?thesis using 3 by blast
qed

lemma isEnabled_init:
  assumes "raw_wf raw"
  shows "isEnabled (fst (initializeServer servers s raw cfg grant)) s n \<longleftrightarrow>
    (\<exists>d. map_of (declared_of raw) n = Some d \<and> selected cfg n \<and>
       (\<forall>g. grant = Some g \<longrightarrow> well_used d \<and> list_all (grant_has g) (uses_of d)))"
proof -
  obtain en where en: "fst (initializeServer servers s raw cfg grant) =
      AList.update s \<lparr>declared = declared_of raw, enabled = en\<rparr> servers"
    "set en = {n \<in> set (keys (declared_of raw)). selected cfg n \<and>
      (\<forall>g. grant = Some g \<longrightarrow> (\<forall>d. (n, d) \<in> set (declared_of raw) \<longrightarrow> derive_uses (grant_has g) d = None))}"
    using initializeServer_state [of servers s raw cfg grant] by metis
  have dist: "distinct (keys (declared_of raw))" using declared_of_distinct [OF assms] .
  have "isEnabled (fst (initializeServer servers s raw cfg grant)) s n \<longleftrightarrow> n \<in> set en"
    by (simp add: en(1) isEnabled_def)
  also have "\<dots> \<longleftrightarrow> (\<exists>d. map_of (declared_of raw) n = Some d \<and> selected cfg n \<and>
       (\<forall>g. grant = Some g \<longrightarrow> derive_uses (grant_has g) d = None))"
  proof (cases "map_of (declared_of raw) n")
    case None
    then have "n \<notin> set (keys (declared_of raw))" by (simp add: map_of_eq_None_iff)
    then show ?thesis using None by (simp add: en(2))
  next
    case (Some d)
    then have "n \<in> set (keys (declared_of raw))"
      by (auto dest: map_of_SomeD intro: rev_image_eqI)
    moreover have "(n, d') \<in> set (declared_of raw) \<longleftrightarrow> d' = d" for d'
      using map_of_eq_Some_iff [OF dist, of n d'] Some by auto
    ultimately show ?thesis using Some by (simp add: en(2))
  qed
  finally show ?thesis by (simp add: derive_uses_None)
qed




text \<open>
  Taking capabilities away can only disable. Initializing against a reduced grant
  enables a feature set exactly when the full grant would and none of the capabilities its
  declaration uses was taken away.
\<close>

theorem reduction_only_disables:
  assumes "raw_wf raw"
  shows "isEnabled (fst (initializeServer servers s raw cfg (Some (grant_without g ps)))) s n \<longleftrightarrow>
    isEnabled (fst (initializeServer servers s raw cfg (Some g))) s n \<and>
    (\<forall>d. map_of (declared_of raw) n = Some d \<longrightarrow> set (uses_of d) \<inter> set ps = {})"
  using isEnabled_init [OF assms, of servers s cfg "Some g" n]
    isEnabled_init [OF assms, of servers s cfg "Some (grant_without g ps)" n]
  by (auto simp: conn_grant.requirements_narrow)

lemma reduction_only_disables_witness:
  "\<not> isEnabled (fst (initializeServer [] (js ''s'')
     (Some (ArrayForm [(js ''m'', JObj [(js ''uses'', JArr [JStr (js ''tools'')])])]))
     \<lparr>enabledFeatureSets = None, disabledFeatureSets = None\<rparr>
     (Some (grant_without \<lparr>granted = [js ''tools''], deniedPaths = []\<rparr> [js ''tools''])))) (js ''s'') (js ''m'')"
  by (subst reduction_only_disables)
     (simp_all add: raw_wf_def declared_of_def uses_of_def own_def)

subsection \<open>The gate's invariant\<close>

text \<open>Only declared names are enabled, and no name is enabled twice.\<close>

definition state_ok :: "server_state \<Rightarrow> bool" where
  "state_ok st \<longleftrightarrow> distinct (enabled st) \<and> set (enabled st) \<subseteq> set (keys (declared st))"

definition servers_ok :: "feature_sets \<Rightarrow> bool" where
  "servers_ok servers \<longleftrightarrow> (\<forall>s st. map_of servers s = Some st \<longrightarrow> state_ok st)"

lemma servers_ok_update [inv_intros]:
  "servers_ok servers \<Longrightarrow> state_ok st \<Longrightarrow> servers_ok (AList.update s st servers)"
  by (auto simp: servers_ok_def)

lemma servers_ok_lookup: "servers_ok servers \<Longrightarrow> map_of servers s = Some st \<Longrightarrow> state_ok st"
  by (auto simp: servers_ok_def)

lemma initializeServer_ok [inv_intros]:
  "servers_ok servers \<Longrightarrow> servers_ok (fst (initializeServer servers s raw cfg grant))"
proof -
  assume ok: "servers_ok servers"
  obtain en where en: "fst (initializeServer servers s raw cfg grant) =
      AList.update s \<lparr>declared = declared_of raw, enabled = en\<rparr> servers"
    "distinct en" "set en \<subseteq> set (keys (declared_of raw))"
    using initializeServer_state [of servers s raw cfg grant] by auto
  then show ?thesis using ok by (auto simp: state_ok_def intro: servers_ok_update)
qed

lemma removeServer_ok [inv_intros]: "servers_ok servers \<Longrightarrow> servers_ok (removeServer servers s)"
  by (auto simp: servers_ok_def removeServer_def)

lemma enable_ok [inv_intros]: "servers_ok servers \<Longrightarrow> servers_ok (enable servers s ps)"
  by (auto simp: enable_def state_ok_def resolvePatterns_set
      intro!: servers_ok_update dest: servers_ok_lookup split: option.splits)

lemma state_ok_without:
  "state_ok st \<Longrightarrow> state_ok (st\<lparr>enabled := fold removeAll ns (enabled st)\<rparr>)"
  by (auto simp: state_ok_def)

lemma disable_ok [inv_intros]: "servers_ok servers \<Longrightarrow> servers_ok (disable servers s ps)"
  by (auto simp: disable_def intro!: servers_ok_update state_ok_without
      dest: servers_ok_lookup split: option.splits)

lemma fst_delete [simp]: "fst ` set (AList.delete k m) = fst ` set m - {k}"
  by (metis delete_keys set_map set_removeAll)

lemma fst_delete_all [simp]: "fst ` set (fold AList.delete ns m) = fst ` set m - set ns"
  by (induction ns arbitrary: m) auto

lemma fst_declare_all: "fst ` set m \<subseteq> fst ` set (fold declare_name nds m)"
proof (induction nds arbitrary: m)
  case (Cons nd nds)
  have "fst ` set m \<subseteq> fst ` set (declare_name nd m)"
    unfolding declare_name_def by (rule fst_js_assign)
  then show ?case using Cons.IH [of "declare_name nd m"] by simp
qed simp

lemma handleFeatureSetsChanged_ok [inv_intros]:
  assumes ok: "servers_ok servers"
  shows "servers_ok (handleFeatureSetsChanged servers s params)"
proof (cases "map_of servers s")
  case None
  then show ?thesis using ok by (simp add: handleFeatureSetsChanged_def)
next
  case (Some st)
  have "state_ok \<lparr>declared = fold AList.delete rs (fold declare_name as (declared st)),
      enabled = fold removeAll rs (enabled st)\<rparr>" for rs as
    using servers_ok_lookup [OF ok Some] fst_declare_all [of "declared st" as]
    by (auto simp: state_ok_def)
  then show ?thesis
    using ok Some by (simp add: handleFeatureSetsChanged_def Let_def servers_ok_update)
qed

text \<open>Every call a host can make, and the gate's answers in any state they lead to.\<close>

datatype fs_call =
    Initialize jsstring "feature_sets_raw option" fs_config "capability_grant option"
  | Remove_Server jsstring
  | Enable jsstring "jsstring list"
  | Disable jsstring "jsstring list"
  | Changed jsstring fs_changed

fun fs_step :: "fs_call \<Rightarrow> feature_sets \<Rightarrow> feature_sets" where
  "fs_step (Initialize s raw cfg grant) servers = fst (initializeServer servers s raw cfg grant)"
| "fs_step (Remove_Server s) servers = removeServer servers s"
| "fs_step (Enable s ps) servers = enable servers s ps"
| "fs_step (Disable s ps) servers = disable servers s ps"
| "fs_step (Changed s params) servers = handleFeatureSetsChanged servers s params"

lemma fs_step_ok: "servers_ok servers \<Longrightarrow> servers_ok (fs_step call servers)"
  by (cases call) (simp_all add: inv_intros)

lemma fs_run_ok: "servers_ok servers \<Longrightarrow> servers_ok (fold fs_step calls servers)"
  by (induction calls arbitrary: servers) (simp_all add: fs_step_ok)

lemma servers_ok_empty [simp]: "servers_ok []"
  by (simp add: servers_ok_def)

text \<open>
  C24: the gate lets a message through exactly when its feature set is enabled, in every
  state a sequence of calls can reach; a message tagged with anything else is refused with
  one of the two protocol errors, and everything enabled is still declared.
\<close>

theorem validateInbound_iff_enabled:
  "(validateInbound (fold fs_step calls []) s n = Inr () \<longleftrightarrow> isEnabled (fold fs_step calls []) s n) \<and>
   set (getEnabledFeatureSets (fold fs_step calls []) s) \<subseteq>
     (case getDeclaredFeatureSets (fold fs_step calls []) s of None \<Rightarrow> {} | Some m \<Rightarrow> set (keys m))"
proof (cases "map_of (fold fs_step calls []) s")
  case None
  then show ?thesis
    by (simp add: validateInbound_def isEnabled_def getEnabledFeatureSets_def getDeclaredFeatureSets_def)
next
  case (Some st)
  have "state_ok st" using servers_ok_lookup [OF fs_run_ok Some] by simp
  then show ?thesis using Some
    by (auto simp: validateInbound_def isEnabled_def getEnabledFeatureSets_def
        getDeclaredFeatureSets_def state_ok_def in_object_def)
qed

text \<open>
  A name re-declared by \<open>featureSets/changed\<close> keeps its enablement. The handler's
  comment says added feature sets default to disabled; one that was enabled before and is
  added again (with any declaration) stays enabled, and no derivation looks at it.
\<close>

theorem redeclared_stays_enabled:
  assumes "isEnabled servers s n"
  shows "isEnabled (handleFeatureSetsChanged servers s \<lparr>fs_added = Some [(n, d)], fs_removed = None\<rparr>) s n"
  using assms by (auto simp: isEnabled_def handleFeatureSetsChanged_def split: option.splits)

lemma redeclared_stays_enabled_witness:
  "isEnabled (handleFeatureSetsChanged [(js ''s'', \<lparr>declared = [(js ''m'', JObj [])], enabled = [js ''m'']\<rparr>)]
     (js ''s'') \<lparr>fs_added = Some [(js ''m'', JObj [])], fs_removed = None\<rparr>) (js ''s'') (js ''m'')"
  by (rule redeclared_stays_enabled) (simp add: isEnabled_def)

end
