(* ===== verification/Json_Patch.thy ===== *)
theory Json_Patch
  imports Js_Values
begin

section \<open>JSON Patch (src/mcpl/checkpoint-manager.ts, applyJsonPatch)\<close>

text \<open>
  The document is cloned before it is patched, but an operation's \<open>value\<close> is placed in it
  as it is: a later operation of the same patch that writes below that place writes into the
  operation. A document here is a tree whose arrays and objects remember the operation they
  came from (\<open>Some i\<close>) or that they are the clone's own (\<open>None\<close>). A value has one place, so
  what an operation's value has become is read off the tree, or off the parts that were
  taken out of it.

  \<open>Threw\<close> is an exception; \<open>Exotic\<close> an input whose outcome the model leaves open: an array
  subscript that is not a plain decimal index, or a key that only the prototype of an object
  knows.
\<close>

datatype tree =
    Atom jsval
  | Arr "nat option" "tree list"
  | Obj "nat option" "(jsstring \<times> tree) list"

datatype 'a patched = Done 'a | Threw | Exotic

datatype patch_kind = Add | Remove | Replace | Test | Move | Copy

record patch_op =
  op_kind :: patch_kind
  op_path :: jsstring
  op_value :: jsval

fun clone :: "nat option \<Rightarrow> jsval \<Rightarrow> tree" where
  "clone tag (JArr xs) = Arr tag (map (clone None) xs)"
| "clone tag (JObj es) = Obj tag (map (\<lambda>(k, v). (k, clone None v)) es)"
| "clone tag v = Atom v"

fun erase :: "tree \<Rightarrow> jsval" where
  "erase (Atom v) = v"
| "erase (Arr tag xs) = JArr (map erase xs)"
| "erase (Obj tag es) = JObj (map (\<lambda>(k, v). (k, erase v)) es)"

subsection \<open>Pointers\<close>

abbreviation tilde :: code_unit where "tilde \<equiv> 0x7E"

text \<open>\<open>s.replace(/ab/g, c)\<close> for a pattern of two units.\<close>

fun replace_pair :: "code_unit \<Rightarrow> code_unit \<Rightarrow> code_unit \<Rightarrow> jsstring \<Rightarrow> jsstring" where
  "replace_pair a b c (x # y # s) =
     (if x = a \<and> y = b then c # replace_pair a b c s else x # replace_pair a b c (y # s))"
| "replace_pair a b c s = s"

definition parsePointer :: "jsstring \<Rightarrow> jsstring list patched" where
  "parsePointer pointer =
     (if pointer = [] then Done []
      else if hd pointer \<noteq> slash then Threw
      else Done (map (\<lambda>s. replace_pair tilde 0x30 tilde (replace_pair tilde 0x31 slash s))
                   (split_on slash (tl pointer))))"

text \<open>
  \<open>Number(key)\<close> on the keys the model covers: the empty string is 0, a string of decimal
  digits below the largest array index is its value.
\<close>

definition is_digit :: "code_unit \<Rightarrow> bool" where
  "is_digit c \<longleftrightarrow> 0x30 \<le> c \<and> c \<le> 0x39"

definition array_index :: "jsstring \<Rightarrow> nat option" where
  "array_index key =
     (let n = fold (\<lambda>c n. 10 * n + (unat c - 0x30)) key 0 in
      if list_all is_digit key \<and> n < 2 ^ 32 - 1 then Some n else None)"

text \<open>\<open>current[seg]\<close> of \<open>navigateTo\<close>; a missing element or member is undefined.\<close>

fun child_of :: "tree \<Rightarrow> jsstring \<Rightarrow> tree patched" where
  "child_of (Arr tag xs) key =
     (case array_index key of
        None \<Rightarrow> Exotic
      | Some n \<Rightarrow> Done (if n < length xs then xs ! n else Atom JUndef))"
| "child_of (Obj tag es) key =
     (case map_of es key of
        Some v \<Rightarrow> Done v
      | None \<Rightarrow> if key \<in> set object_prototype_names then Exotic else Done (Atom JUndef))"
| "child_of (Atom v) key = Threw"

fun set_child :: "tree \<Rightarrow> jsstring \<Rightarrow> tree \<Rightarrow> tree" where
  "set_child (Arr tag xs) key v =
     (case array_index key of None \<Rightarrow> Arr tag xs | Some n \<Rightarrow> Arr tag (xs[n := v]))"
| "set_child (Obj tag es) key v = Obj tag (AList.update key v es)"
| "set_child (Atom a) key v = Atom a"

text \<open>
  The mutations. Each returns the changed container and the subtrees it took out. Assigning
  to a property of a number, boolean or string throws (modules are strict code), deleting
  one does not.
\<close>

definition write_primitive :: "jsval \<Rightarrow> jsstring \<Rightarrow> (tree \<times> tree list) patched" where
  "write_primitive a key =
     (if a = JUndef \<or> a = JNull then Threw
      else if key = js ''__proto__'' then Exotic else Threw)"

definition assign_member ::
  "nat option \<Rightarrow> (jsstring \<times> tree) list \<Rightarrow> jsstring \<Rightarrow> tree \<Rightarrow> (tree \<times> tree list) patched" where
  "assign_member tag es key v =
     (case map_of es key of
        Some old \<Rightarrow> Done (Obj tag (AList.update key v es), [old])
      | None \<Rightarrow>
          if key = js ''__proto__'' then Exotic
          else Done (Obj tag (AList.update key v es), []))"

fun add_at :: "tree \<Rightarrow> tree \<Rightarrow> jsstring \<Rightarrow> (tree \<times> tree list) patched" where
  "add_at v (Arr tag xs) key =
     (if key = js ''-'' then Done (Arr tag (xs @ [v]), [])
      else (case array_index key of
          None \<Rightarrow> Exotic
        | Some n \<Rightarrow> Done (Arr tag (take n xs @ v # drop n xs), [])))"
| "add_at v (Obj tag es) key = assign_member tag es key v"
| "add_at v (Atom a) key = write_primitive a key"

fun replace_at :: "tree \<Rightarrow> tree \<Rightarrow> jsstring \<Rightarrow> (tree \<times> tree list) patched" where
  "replace_at v (Arr tag xs) key =
     (case array_index key of
        None \<Rightarrow> Exotic
      | Some n \<Rightarrow>
          if n < length xs then Done (Arr tag (xs[n := v]), [xs ! n])
          else Done (Arr tag (xs @ replicate (n - length xs) (Atom JUndef) @ [v]), []))"
| "replace_at v (Obj tag es) key = assign_member tag es key v"
| "replace_at v (Atom a) key = write_primitive a key"

fun remove_at :: "tree \<Rightarrow> jsstring \<Rightarrow> (tree \<times> tree list) patched" where
  "remove_at (Arr tag xs) key =
     (case array_index key of
        None \<Rightarrow> Exotic
      | Some n \<Rightarrow> Done (Arr tag (take n xs @ drop (Suc n) xs), take 1 (drop n xs)))"
| "remove_at (Obj tag es) key =
     Done (Obj tag (AList.delete key es), (case map_of es key of None \<Rightarrow> [] | Some old \<Rightarrow> [old]))"
| "remove_at (Atom a) key =
     (case a of JUndef \<Rightarrow> Threw | JNull \<Rightarrow> Threw | JStr s \<Rightarrow> Exotic | _ \<Rightarrow> Done (Atom a, []))"

text \<open>\<open>test\<close> reads; it changes nothing.\<close>

fun test_at :: "jsval \<Rightarrow> tree \<Rightarrow> jsstring \<Rightarrow> (tree \<times> tree list) patched" where
  "test_at expected (Atom a) key = (if a = JUndef \<or> a = JNull then Threw else Exotic)"
| "test_at expected parent key =
     (case child_of parent key of
        Done actual \<Rightarrow> if same_json (erase actual) expected then Done (parent, []) else Threw
      | Threw \<Rightarrow> Threw
      | Exotic \<Rightarrow> Exotic)"

text \<open>Walk to the parent of the last segment and mutate it there.\<close>

fun at_parent :: "(tree \<Rightarrow> jsstring \<Rightarrow> (tree \<times> tree list) patched) \<Rightarrow> tree \<Rightarrow> jsstring list
    \<Rightarrow> (tree \<times> tree list) patched" where
  "at_parent f doc [] = Threw"
| "at_parent f doc [key] = f doc key"
| "at_parent f doc (seg # seg' # segs) =
     (case child_of doc seg of
        Done child \<Rightarrow>
          (case at_parent f child (seg' # segs) of
             Done (child', out) \<Rightarrow> Done (set_child doc seg child', out)
           | Threw \<Rightarrow> Threw
           | Exotic \<Rightarrow> Exotic)
      | Threw \<Rightarrow> Threw
      | Exotic \<Rightarrow> Exotic)"

text \<open>
  At the empty path \<open>add\<close> and \<open>replace\<close> take the whole document. \<open>remove\<close> and \<open>test\<close> index
  the document by \<open>undefined\<close>: on an array \<open>Number(undefined)\<close> is not a number, so \<open>remove\<close>
  splices at 0 and \<open>test\<close> reads an undefined element; on an object the key is
  \<open>undefined\<close>.
\<close>

definition remove_root :: "tree \<Rightarrow> (tree \<times> tree list) patched" where
  "remove_root doc =
     (case doc of
        Arr tag xs \<Rightarrow> Done (Arr tag (drop 1 xs), take 1 xs)
      | _ \<Rightarrow> remove_at doc (js ''undefined''))"

definition test_root :: "jsval \<Rightarrow> tree \<Rightarrow> (tree \<times> tree list) patched" where
  "test_root expected doc =
     (case doc of
        Arr tag xs \<Rightarrow> if same_json JUndef expected then Done (doc, []) else Threw
      | _ \<Rightarrow> test_at expected doc (js ''undefined''))"

definition apply_op :: "nat \<Rightarrow> patch_op \<Rightarrow> tree \<Rightarrow> (tree \<times> tree list) patched" where
  "apply_op i op doc =
     (case parsePointer (op_path op) of
        Done segments \<Rightarrow>
          (case op_kind op of
             Add \<Rightarrow> if segments = [] then Done (clone (Some i) (op_value op), [doc])
                    else at_parent (add_at (clone (Some i) (op_value op))) doc segments
           | Replace \<Rightarrow> if segments = [] then Done (clone (Some i) (op_value op), [doc])
                    else at_parent (replace_at (clone (Some i) (op_value op))) doc segments
           | Remove \<Rightarrow> if segments = [] then remove_root doc else at_parent remove_at doc segments
           | Test \<Rightarrow> if segments = [] then test_root (op_value op) doc
                    else at_parent (test_at (op_value op)) doc segments
           | Move \<Rightarrow> Threw
           | Copy \<Rightarrow> Threw)
      | Threw \<Rightarrow> Threw
      | Exotic \<Rightarrow> Exotic)"

text \<open>The loop: the outcome, and every tree in which an operation's value may now live.\<close>

fun apply_ops :: "nat \<Rightarrow> patch_op list \<Rightarrow> tree \<Rightarrow> tree list \<Rightarrow> tree patched \<times> tree list" where
  "apply_ops i [] doc out = (Done doc, doc # out)"
| "apply_ops i (op # ops) doc out =
     (case apply_op i op doc of
        Done (doc', gone) \<Rightarrow> apply_ops (Suc i) ops doc' (gone @ out)
      | Threw \<Rightarrow> (Threw, doc # out)
      | Exotic \<Rightarrow> (Exotic, doc # out))"

fun find_tag :: "nat \<Rightarrow> tree \<Rightarrow> jsval list" where
  "find_tag i (Atom v) = []"
| "find_tag i (Arr tag xs) =
     (if tag = Some i then [erase (Arr tag xs)] else concat (map (find_tag i) xs))"
| "find_tag i (Obj tag es) =
     (if tag = Some i then [erase (Obj tag es)] else concat (map (\<lambda>(k, v). find_tag i v) es))"

definition value_after :: "tree list \<Rightarrow> nat \<Rightarrow> patch_op \<Rightarrow> patch_op" where
  "value_after trees i op =
     (case concat (map (find_tag i) trees) of [] \<Rightarrow> op | v # _ \<Rightarrow> op\<lparr>op_value := v\<rparr>)"

fun map_patched :: "('a \<Rightarrow> 'b) \<Rightarrow> 'a patched \<Rightarrow> 'b patched" where
  "map_patched f (Done a) = Done (f a)"
| "map_patched f Threw = Threw"
| "map_patched f Exotic = Exotic"

text \<open>The call: its result, and the operations as it leaves them.\<close>

definition applyJsonPatch :: "jsval \<Rightarrow> patch_op list \<Rightarrow> jsval patched \<times> patch_op list" where
  "applyJsonPatch doc ops =
     (let (r, trees) = apply_ops 0 ops (clone None doc) []
      in (map_patched erase r,
          map (\<lambda>(i, op). value_after trees i op) (zip [0..<length ops] ops)))"


subsection \<open>Tags do not matter for the result\<close>

fun untag :: "tree \<Rightarrow> tree" where
  "untag (Atom v) = Atom v"
| "untag (Arr tag xs) = Arr None (map untag xs)"
| "untag (Obj tag es) = Obj None (map (\<lambda>(k, v). (k, untag v)) es)"

fun proper :: "tree \<Rightarrow> bool" where
  "proper (Atom v) = (case v of JArr _ \<Rightarrow> False | JObj _ \<Rightarrow> False | _ \<Rightarrow> True)"
| "proper (Arr tag xs) = list_all proper xs"
| "proper (Obj tag es) = list_all (\<lambda>(k, v). proper v) es"

lemma clone_proper: "proper (clone tag v)"
  by (induction tag v rule: clone.induct) (auto simp: list_all_iff)

lemma clone_children: "proper t \<Longrightarrow> clone None (erase t) = untag t"
  by (induction t rule: erase.induct) (auto simp: list_all_iff split: jsval.splits)

lemma untag_clone: "untag (clone tag v) = clone None v"
proof (induction tag v rule: clone.induct)
  case (2 tag es)
  then show ?case by force
qed auto

lemma erase_untag [simp]: "erase (untag t) = erase t"
proof (induction t rule: untag.induct)
  case (3 tag es)
  then show ?case by force
qed auto

lemma erase_clone: "erase (clone tag v) = v"
proof (induction tag v rule: clone.induct)
  case (2 tag es)
  have "map (\<lambda>(k, v). (k, erase (clone None v))) es = es"
    by (rule map_idI) (use 2 in force)
  then show ?case by (simp add: comp_def case_prod_beta')
qed (auto intro: map_idI)

lemma map_of_untag:
  "map_of (map (\<lambda>(k, v). (k, f v)) es) k = map_option f (map_of es k)"
  by (induction es) auto

lemma update_untag:
  "AList.update k (f v) (map (\<lambda>(k, v). (k, f v)) es) = map (\<lambda>(k, v). (k, f v)) (AList.update k v es)"
  by (induction es) auto

lemma delete_untag:
  "AList.delete k (map (\<lambda>(k, v). (k, f v)) es) = map (\<lambda>(k, v). (k, f v)) (AList.delete k es)"
  by (induction es) (auto simp: AList.delete_eq)

abbreviation untag2 :: "(tree \<times> tree list) patched \<Rightarrow> (tree \<times> tree list) patched" where
  "untag2 \<equiv> map_patched (map_prod untag (map untag))"

lemma child_untag: "child_of (untag t) key = map_patched untag (child_of t key)"
  by (cases t) (auto simp: map_of_untag split: option.splits)

lemma set_child_untag: "set_child (untag t) key (untag c) = untag (set_child t key c)"
  by (cases t) (auto simp: map_update update_untag split: option.splits)

lemma assign_untag:
  "assign_member None (map (\<lambda>(k, v). (k, untag v)) es) key (untag c) =
     untag2 (assign_member tag es key c)"
  by (auto simp: assign_member_def map_of_untag update_untag split: option.splits)

lemma write_untag: "untag2 (write_primitive a key) = write_primitive a key"
  by (simp add: write_primitive_def)

lemma add_untag: "add_at (untag c) (untag t) key = untag2 (add_at c t key)"
  by (cases t) (auto simp: assign_untag write_untag take_map drop_map split: option.splits)

lemma replace_untag: "replace_at (untag c) (untag t) key = untag2 (replace_at c t key)"
  by (cases t) (auto simp: assign_untag write_untag map_update split: option.splits)

lemma remove_untag: "remove_at (untag t) key = untag2 (remove_at t key)"
  by (cases t) (auto simp: map_of_untag delete_untag take_map drop_map split: option.splits jsval.splits)

lemma test_untag: "test_at e (untag t) key = untag2 (test_at e t key)"
  by (cases t) (auto simp: map_of_untag split: option.splits)

lemma at_parent_untag:
  "(\<And>t key. f (untag t) key = untag2 (f' t key)) \<Longrightarrow>
     at_parent f (untag t) segs = untag2 (at_parent f' t segs)"
proof (induction f' t segs rule: at_parent.induct)
  case (3 f' doc seg seg' segs)
  show ?case
  proof (cases "child_of doc seg")
    case (Done child)
    then have "at_parent f (untag child) (seg' # segs) = untag2 (at_parent f' child (seg' # segs))"
      using 3 by simp
    then show ?thesis using Done
      by (auto simp: child_untag set_child_untag split: patched.split)
  qed (simp_all add: child_untag)
qed simp_all

lemma root_untag:
  "remove_root (untag t) = untag2 (remove_root t)" "test_root e (untag t) = untag2 (test_root e t)"
  by (cases t; simp add: remove_root_def test_root_def map_of_untag delete_untag take_map drop_map
      split: option.split jsval.split)+

lemma untag_untag [simp]: "untag (untag t) = untag t"
proof (induction t rule: untag.induct)
  case (3 tag es)
  then show ?case by force
qed auto

lemma clone_untag [simp]: "untag (clone tag v) = clone None v"
  by (rule untag_clone)

lemma add_canon: "untag2 (at_parent (add_at (clone tag v)) t segs) =
    at_parent (add_at (clone None v)) (untag t) segs"
  by (rule at_parent_untag [symmetric]) (metis add_untag clone_untag)

lemma replace_canon: "untag2 (at_parent (replace_at (clone tag v)) t segs) =
    at_parent (replace_at (clone None v)) (untag t) segs"
  by (rule at_parent_untag [symmetric]) (metis replace_untag clone_untag)

lemma remove_canon: "untag2 (at_parent remove_at t segs) = at_parent remove_at (untag t) segs"
  by (rule at_parent_untag [symmetric]) (rule remove_untag)

lemma test_canon: "untag2 (at_parent (test_at e) t segs) = at_parent (test_at e) (untag t) segs"
  by (rule at_parent_untag [symmetric]) (rule test_untag)

lemma apply_op_canon:
  assumes "untag t = untag u"
  shows "untag2 (apply_op i op t) = untag2 (apply_op j op u)"
  using assms
  by (auto simp: apply_op_def add_canon replace_canon remove_canon test_canon root_untag [symmetric]
      split: patched.split patch_kind.split)

lemma apply_ops_canon:
  "untag t = untag u \<Longrightarrow>
     map_patched untag (fst (apply_ops i ops t out)) = map_patched untag (fst (apply_ops j ops u out'))"
proof (induction ops arbitrary: i j t u out out')
  case (Cons op ops)
  have c: "untag2 (apply_op i op t) = untag2 (apply_op j op u)"
    using Cons.prems by (rule apply_op_canon)
  show ?case
  proof (cases "apply_op i op t")
    case (Done r)
    obtain t' o1 where r: "r = (t', o1)" by force
    from c Done r obtain u' o2 where u: "apply_op j op u = Done (u', o2)" "untag t' = untag u'"
      by (cases "apply_op j op u") auto
    have "map_patched untag (fst (apply_ops (Suc i) ops t' (o1 @ out))) =
        map_patched untag (fst (apply_ops (Suc j) ops u' (o2 @ out')))"
      using u(2) by (rule Cons.IH)
    then show ?thesis using Done r u(1) by simp
  qed (use c in \<open>cases "apply_op j op u"; simp\<close>)+
qed simp

lemma apply_ops_append:
  "fst (apply_ops i (ops @ ops') t out) =
     (case fst (apply_ops i ops t out) of
        Done t' \<Rightarrow> fst (apply_ops (i + length ops) ops' t' (tl (snd (apply_ops i ops t out))))
      | Threw \<Rightarrow> Threw
      | Exotic \<Rightarrow> Exotic)"
  by (induction i ops t out rule: apply_ops.induct) (auto split: patched.split)

subsection \<open>Trees stay proper\<close>

lemma map_of_proper: "list_all (\<lambda>(k, v). proper v) es \<Longrightarrow> map_of es k = Some v \<Longrightarrow> proper v"
  by (auto simp: list_all_iff dest: map_of_SomeD)

lemma update_proper:
  "list_all (\<lambda>(k, v). proper v) es \<Longrightarrow> proper v \<Longrightarrow> list_all (\<lambda>(k, v). proper v) (AList.update k v es)"
  by (induction es) auto

lemma delete_proper:
  "list_all (\<lambda>(k, v). proper v) es \<Longrightarrow> list_all (\<lambda>(k, v). proper v) (AList.delete k es)"
  by (auto simp: list_all_iff AList.delete_eq)

lemma child_proper: "proper t \<Longrightarrow> child_of t key = Done c \<Longrightarrow> proper c"
  by (cases t) (auto simp: list_all_iff dest: map_of_SomeD split: option.splits if_splits)

lemma set_child_proper: "proper t \<Longrightarrow> proper c \<Longrightarrow> proper (set_child t key c)"
  by (cases t) (auto simp: list_all_iff update_proper[unfolded list_all_iff]
      dest!: set_update_subset_insert [THEN subsetD] split: option.splits)

lemma assign_proper:
  "list_all (\<lambda>(k, v). proper v) es \<Longrightarrow> proper c \<Longrightarrow> assign_member tag es key c = Done (t', out) \<Longrightarrow> proper t'"
  by (auto simp: assign_member_def update_proper split: option.splits if_splits)

lemma at_parent_proper:
  assumes f: "\<And>t key t' out. proper t \<Longrightarrow> f t key = Done (t', out) \<Longrightarrow> proper t'"
  shows "proper t \<Longrightarrow> at_parent f t segs = Done (t', out) \<Longrightarrow> proper t'"
proof (induction segs arbitrary: t t' out)
  case (Cons seg segs)
  show ?case
  proof (cases segs)
    case Nil
    then show ?thesis using Cons.prems f by auto
  next
    case (Cons seg' rest)
    with Cons.prems obtain child child' where c: "child_of t seg = Done child"
        "at_parent f child segs = Done (child', out)" "t' = set_child t seg child'"
      by (auto split: patched.splits)
    have "proper child" using child_proper [OF Cons.prems(1) c(1)] .
    then have "proper child'" using Cons.IH c(2) by blast
    then show ?thesis using set_child_proper [OF Cons.prems(1)] c(3) by blast
  qed
qed simp

lemma add_proper: "proper c \<Longrightarrow> proper t \<Longrightarrow> add_at c t key = Done (t', out) \<Longrightarrow> proper t'"
  by (cases t) (auto simp: write_primitive_def list_all_iff dest!: in_set_takeD in_set_dropD
      intro: assign_proper split: option.splits if_splits)

lemma replace_proper: "proper c \<Longrightarrow> proper t \<Longrightarrow> replace_at c t key = Done (t', out) \<Longrightarrow> proper t'"
  by (cases t) (auto simp: write_primitive_def list_all_iff
      dest!: set_update_subset_insert [THEN subsetD] intro: assign_proper split: option.splits if_splits)

lemma remove_proper: "proper t \<Longrightarrow> remove_at t key = Done (t', out) \<Longrightarrow> proper t'"
  by (cases t) (auto simp: list_all_iff AList.delete_eq dest!: in_set_takeD in_set_dropD
      split: option.splits jsval.splits)

lemma test_proper: "proper t \<Longrightarrow> test_at e t key = Done (t', out) \<Longrightarrow> proper t'"
  by (cases t) (auto split: option.splits if_splits)

lemma remove_root_proper: "proper t \<Longrightarrow> remove_root t = Done (t', out) \<Longrightarrow> proper t'"
  by (cases t) (auto simp: remove_root_def list_all_iff AList.delete_eq dest!: in_set_dropD
      split: jsval.splits)

lemma test_root_proper: "proper t \<Longrightarrow> test_root e t = Done (t', out) \<Longrightarrow> proper t'"
  by (cases t) (auto simp: test_root_def split: if_splits option.splits)

lemma apply_op_proper:
  assumes p: "proper t" and a: "apply_op i op t = Done (t', out)"
  shows "proper t'"
proof -
  obtain segs where segs: "parsePointer (op_path op) = Done segs"
    using a by (auto simp: apply_op_def split: patched.splits)
  note at = at_parent_proper [OF _ p]
  show ?thesis
  proof (cases "op_kind op")
    case Add
    then show ?thesis
      using a segs at [of "add_at (clone (Some i) (op_value op))" segs t' out]
        add_proper [OF clone_proper] clone_proper
      by (auto simp: apply_op_def split: if_splits)
  next
    case Replace
    then show ?thesis
      using a segs at [of "replace_at (clone (Some i) (op_value op))" segs t' out]
        replace_proper [OF clone_proper] clone_proper
      by (auto simp: apply_op_def split: if_splits)
  next
    case Remove
    then show ?thesis
      using a segs at [of remove_at segs t' out] remove_proper remove_root_proper [OF p]
      by (auto simp: apply_op_def split: if_splits)
  next
    case Test
    then show ?thesis
      using a segs at [of "test_at (op_value op)" segs t' out] test_proper test_root_proper [OF p]
      by (auto simp: apply_op_def split: if_splits)
  qed (use a segs in \<open>auto simp: apply_op_def\<close>)
qed

lemma apply_ops_proper:
  "proper t \<Longrightarrow> fst (apply_ops i ops t out) = Done t' \<Longrightarrow> proper t'"
  by (induction i ops t out rule: apply_ops.induct)
     (auto dest: apply_op_proper split: patched.splits)


text \<open>
  Patches compose. Applying one patch after another gives the result of their
  concatenation, failures included: a patch is a sequence of independent steps on the
  document, whatever the bookkeeping of its operations' values is.
\<close>

theorem patch_append:
  "fst (applyJsonPatch doc (ops1 @ ops2)) =
     (case fst (applyJsonPatch doc ops1) of
        Done d \<Rightarrow> fst (applyJsonPatch d ops2)
      | Threw \<Rightarrow> Threw
      | Exotic \<Rightarrow> Exotic)"
proof -
  have run: "fst (applyJsonPatch d ops) = map_patched erase (fst (apply_ops 0 ops (clone None d) []))" for d ops
    by (simp add: applyJsonPatch_def split: prod.split)
  let ?r = "apply_ops 0 ops1 (clone None doc) []"
  show ?thesis
  proof (cases "fst ?r")
    case (Done t)
    have "proper t" using Done by (rule apply_ops_proper [OF clone_proper])
    then have "untag (clone None (erase t)) = untag t" by (simp add: clone_children)
    then have "map_patched untag (fst (apply_ops 0 ops2 (clone None (erase t)) [])) =
        map_patched untag (fst (apply_ops (length ops1) ops2 t (tl (snd ?r))))"
      by (rule apply_ops_canon)
    then have "map_patched erase (fst (apply_ops 0 ops2 (clone None (erase t)) [])) =
        map_patched erase (fst (apply_ops (length ops1) ops2 t (tl (snd ?r))))"
      by (cases "fst (apply_ops 0 ops2 (clone None (erase t)) [])";
          cases "fst (apply_ops (length ops1) ops2 t (tl (snd ?r)))")
         (auto, metis erase_untag)
    then show ?thesis using Done by (simp add: run apply_ops_append)
  qed (simp_all add: run apply_ops_append)
qed

subsection \<open>What a patch does to its own operations\<close>

fun primitive :: "jsval \<Rightarrow> bool" where
  "primitive (JArr xs) = False"
| "primitive (JObj es) = False"
| "primitive v = True"

lemma clone_primitive: "primitive v \<Longrightarrow> clone tag v = clone None v"
  by (cases v) auto

lemma apply_op_primitive:
  "primitive (op_value op) \<Longrightarrow> untag t = t \<Longrightarrow> untag2 (apply_op i op t) = apply_op i op t"
  using clone_primitive [of "op_value op" "Some i"]
  by (auto simp: apply_op_def add_canon replace_canon remove_canon test_canon root_untag [symmetric]
      split: patched.split patch_kind.split)

lemma apply_ops_primitive:
  "list_all (\<lambda>op. primitive (op_value op)) ops \<Longrightarrow> untag t = t \<Longrightarrow> \<forall>u \<in> set out. untag u = u \<Longrightarrow>
     \<forall>u \<in> set (snd (apply_ops i ops t out)). untag u = u"
proof (induction i ops t out rule: apply_ops.induct)
  case (2 i op ops doc out)
  have c: "untag2 (apply_op i op doc) = apply_op i op doc"
    using 2(2,3) by (intro apply_op_primitive) auto
  show ?case
  proof (cases "apply_op i op doc")
    case (Done r)
    obtain t' o1 where r: "r = (t', o1)" by force
    then have "untag t' = t'" "map untag o1 = o1" using c Done by auto
    then have "\<forall>u \<in> set (o1 @ out). untag u = u" using 2(4) by (metis UnE map_eq_conv map_ident set_append)
    then show ?thesis using 2(1) [OF Done r [symmetric]] 2(2) \<open>untag t' = t'\<close> Done r by simp
  qed (use 2 in auto)
qed simp

lemma find_tag_untag: "find_tag i (untag t) = []"
  by (induction t rule: untag.induct) auto

lemma primitive_patch_same:
  assumes "list_all (\<lambda>op. primitive (op_value op)) ops"
  shows "snd (applyJsonPatch doc ops) = ops"
proof -
  obtain r trees where a: "apply_ops 0 ops (clone None doc) [] = (r, trees)" by force
  have "untag (clone None doc) = clone None doc" by simp
  then have "\<forall>u \<in> set trees. untag u = u"
    using apply_ops_primitive [OF assms, of "clone None doc" "[]" 0] a by simp
  then have "find_tag i u = []" if "u \<in> set trees" for i u
    using that by (metis find_tag_untag)
  then have c: "concat (map (find_tag i) trees) = []" for i by simp
  have "value_after trees i op = op" for i op by (simp only: value_after_def c list.case)
  then show ?thesis by (simp add: applyJsonPatch_def a case_prod_beta')
qed

text \<open>
  A patch whose operations carry no arrays or objects leaves its operations as they
  were, so it may be kept and applied again.
\<close>

theorem primitive_patch_unchanged:
  "list_all (\<lambda>op. primitive (op_value op)) ops \<Longrightarrow> snd (applyJsonPatch doc ops) = ops"
  by (rule primitive_patch_same)

lemma primitive_patch_unchanged_witness:
  "snd (applyJsonPatch (JObj []) [\<lparr>op_kind = Add, op_path = js ''/a'', op_value = JNull\<rparr>]) =
     [\<lparr>op_kind = Add, op_path = js ''/a'', op_value = JNull\<rparr>]"
  by (rule primitive_patch_unchanged) simp

text \<open>
  A patch that creates an array and then appends to it rewrites its own first
  operation. The document it gives is right, but the patch that is kept afterwards creates
  the array with the element in it, so applying it again gives the element twice.
\<close>

definition create_then_append :: "patch_op list" where
  "create_then_append =
     [\<lparr>op_kind = Add, op_path = js ''/a'', op_value = JArr []\<rparr>,
      \<lparr>op_kind = Add, op_path = js ''/a/-'', op_value = JTrue\<rparr>]"

theorem replayed_patch_differs:
  "fst (applyJsonPatch (JObj []) create_then_append) = Done (JObj [(js ''a'', JArr [JTrue])]) \<and>
   fst (applyJsonPatch (JObj []) (snd (applyJsonPatch (JObj []) create_then_append))) =
     Done (JObj [(js ''a'', JArr [JTrue, JTrue])])"
  by code_simp

text \<open>
  A test of the whole document never succeeds on a value: at the empty path the code
  reads the document at the key \<open>undefined\<close>, so it fails on every array and on every object
  without such a member, also when the expected value is the document itself.
\<close>

theorem whole_document_test_fails:
  assumes "v \<noteq> JUndef"
  shows "fst (applyJsonPatch (JArr xs) [\<lparr>op_kind = Test, op_path = [], op_value = v\<rparr>]) = Threw \<and>
    (js ''undefined'' \<notin> set (keys es) \<longrightarrow>
     fst (applyJsonPatch (JObj es) [\<lparr>op_kind = Test, op_path = [], op_value = v\<rparr>]) = Threw)"
proof -
  have u: "\<not> same_json JUndef v" using assms by (cases v) (auto simp: same_json_def)
  have p: "js ''undefined'' \<notin> set object_prototype_names" by (simp add: object_prototype_names_def)
  show ?thesis using u p
    by (simp add: applyJsonPatch_def apply_op_def parsePointer_def test_root_def map_of_untag
        map_of_eq_None_iff [THEN iffD2])
qed

lemma whole_document_test_fails_witness:
  "fst (applyJsonPatch (JArr []) [\<lparr>op_kind = Test, op_path = [], op_value = JArr []\<rparr>]) = Threw"
  using whole_document_test_fails [of "JArr []" "[]" "[]"] by simp

end
