(* ===== verification/Checkpoints.thy ===== *)
theory Checkpoints
  imports Json_Patch
begin

section \<open>Checkpoint trees (src/mcpl/checkpoint-manager.ts, CheckpointManager)\<close>

text \<open>
  Per server and feature set a tree of checkpoints. A host-managed tree also holds the state
  at its current checkpoint and can rebuild the state at any other from the snapshots and
  patches along the way to it. What the manager writes to the store and traces is returned
  as a list of effects; a read of the store is an argument. A patch the model leaves open
  makes the call's outcome \<open>Open\<close>, and a walk up the parents that never ends \<open>Diverges\<close>.
\<close>

record cp_node =
  n_parent :: "jsstring option"
  n_children :: "jsstring list"
  n_data :: jsval
  n_patch :: "patch_op list option"

type_synonym cp_nodes = "(jsstring, cp_node) jsmap"

record fs_tree =
  t_hostState :: bool
  t_rollback :: bool
  t_current :: "jsstring option"
  t_state :: jsval
  t_nodes :: cp_nodes

type_synonym cp_trees = "(jsstring, fs_tree) jsmap"

record state_checkpoint =
  cp_id :: jsstring
  cp_parent :: "jsstring option"
  cp_data :: jsval
  cp_patch :: "patch_op list option"

record stored_tree =
  s_hostState :: bool
  s_rollback :: bool
  s_current :: "jsstring option"
  s_nodes :: cp_nodes

datatype stored_trees =
    Read_Fails
  | Nothing_Stored
  | Not_Trees
  | Stored_Trees "(jsstring, stored_tree) jsmap"

datatype cp_effect =
    Write_State jsstring jsval
  | Write_Trees "(jsstring, stored_tree) jsmap"
  | Trace_Registered jsstring jsstring bool bool
  | Trace_Recorded jsstring jsstring jsstring "jsstring option" bool bool
  | Trace_Rollback jsstring jsstring jsstring

datatype cp_error =
    No_Stateful_Set jsstring
  | Checkpoint_Not_Found jsstring
  | State_Unreadable jsstring
  | Trees_Unreadable
  | Trees_Malformed

datatype 'a outcome = Returns 'a | Throws cp_error | Diverges | Open

abbreviation colon :: code_unit where "colon \<equiv> 0x3A"

definition tree_key :: "jsstring \<Rightarrow> jsstring \<Rightarrow> jsstring" where
  "tree_key serverId featureSet = serverId @ colon # featureSet"

definition state_id :: "jsstring \<Rightarrow> jsstring \<Rightarrow> jsstring" where
  "state_id serverId featureSet = js ''mcpl/state'' @ slash # serverId @ slash # featureSet"

subsection \<open>Persistence\<close>

definition persist_tree :: "cp_trees \<Rightarrow> (jsstring, stored_tree) jsmap" where
  "persist_tree trees =
     fold (\<lambda>(key, t). js_assign key
         \<lparr>s_hostState = t_hostState t, s_rollback = t_rollback t, s_current = t_current t,
          s_nodes = fold (\<lambda>(i, n). js_assign i n) (t_nodes t) []\<rparr>)
       trees []"

definition persistTree :: "cp_trees \<Rightarrow> cp_effect" where
  "persistTree trees = Write_Trees (persist_tree trees)"

text \<open>What a read of a state slot gives: \<open>Inl\<close> when registering or reading it fails.\<close>

definition loadHostState ::
  "(jsstring \<Rightarrow> unit + jsval) \<Rightarrow> jsstring \<Rightarrow> jsstring \<Rightarrow> fs_tree \<Rightarrow> cp_error + fs_tree" where
  "loadHostState read serverId featureSet tree =
     (case read (state_id serverId featureSet) of
        Inl _ \<Rightarrow> Inl (State_Unreadable (state_id serverId featureSet))
      | Inr existing \<Rightarrow>
          Inr (if existing \<noteq> JNull \<and> existing \<noteq> JUndef then tree\<lparr>t_state := existing\<rparr> else tree))"

fun load_host_states ::
  "(jsstring \<Rightarrow> unit + jsval) \<Rightarrow> jsstring \<Rightarrow> cp_trees \<Rightarrow> cp_trees \<Rightarrow> cp_trees \<times> cp_error option" where
  "load_host_states read serverId [] trees = (trees, None)"
| "load_host_states read serverId ((key, tree) # rest) trees =
     (if \<not> t_hostState tree \<or> t_state tree \<noteq> JUndef \<or> \<not> startsWith key (serverId @ [colon])
      then load_host_states read serverId rest trees
      else (case loadHostState read serverId (drop (length (serverId @ [colon])) key) tree of
          Inl e \<Rightarrow> (trees, Some e)
        | Inr tree' \<Rightarrow> load_host_states read serverId rest (AList.update key tree' trees)))"

definition loadHostStates ::
  "(jsstring \<Rightarrow> unit + jsval) \<Rightarrow> jsstring \<Rightarrow> cp_trees \<Rightarrow> cp_trees \<times> cp_error option" where
  "loadHostStates read serverId trees = load_host_states read serverId trees trees"

definition load_tree :: "stored_tree \<Rightarrow> fs_tree" where
  "load_tree entry =
     \<lparr>t_hostState = s_hostState entry, t_rollback = s_rollback entry, t_current = s_current entry,
      t_state = JUndef, t_nodes = fold (\<lambda>(i, n). AList.update i n) (s_nodes entry) []\<rparr>"

definition loadFromStore :: "stored_trees \<Rightarrow> cp_error + cp_trees" where
  "loadFromStore stored =
     (case stored of
        Read_Fails \<Rightarrow> Inl Trees_Unreadable
      | Nothing_Stored \<Rightarrow> Inr []
      | Not_Trees \<Rightarrow> Inl Trees_Malformed
      | Stored_Trees entries \<Rightarrow>
          Inr (fold (\<lambda>(key, entry). AList.update key (load_tree entry)) entries []))"

subsection \<open>Registration\<close>

definition new_tree :: "bool \<Rightarrow> bool \<Rightarrow> fs_tree" where
  "new_tree host rb =
     \<lparr>t_hostState = host, t_rollback = rb, t_current = None, t_state = JUndef, t_nodes = []\<rparr>"

definition registerFeatureSet ::
  "(jsstring \<Rightarrow> unit + jsval) \<Rightarrow> jsstring \<Rightarrow> jsstring \<Rightarrow> bool \<Rightarrow> bool \<Rightarrow> cp_trees
    \<Rightarrow> (cp_trees \<times> cp_effect list) outcome" where
  "registerFeatureSet read serverId featureSet host rb trees =
     (let key = tree_key serverId featureSet in
      if map_of trees key \<noteq> None then Returns (trees, [])
      else (case (if host then loadHostState read serverId featureSet (new_tree host rb)
                  else Inr (new_tree host rb)) of
          Inl e \<Rightarrow> Throws e
        | Inr tree \<Rightarrow>
            (let trees' = AList.update key tree trees in
             Returns (trees', [Trace_Registered serverId featureSet host rb, persistTree trees']))))"

subsection \<open>Recording\<close>

definition or_empty :: "jsval \<Rightarrow> jsval" where
  "or_empty v = (if v = JUndef \<or> v = JNull then JObj [] else v)"

definition link_child :: "jsstring option \<Rightarrow> jsstring \<Rightarrow> cp_nodes \<Rightarrow> cp_nodes" where
  "link_child parent child nodes =
     (case parent of
        None \<Rightarrow> nodes
      | Some p \<Rightarrow>
          if p = [] then nodes
          else (case map_of nodes p of
              None \<Rightarrow> nodes
            | Some n \<Rightarrow> AList.update p (n\<lparr>n_children := n_children n @ [child]\<rparr>) nodes))"

text \<open>
  The tree after one checkpoint. The node keeps the very patch that was applied, so it keeps
  what applying it made of it.
\<close>

definition record_in_tree :: "state_checkpoint \<Rightarrow> fs_tree \<Rightarrow> fs_tree option" where
  "record_in_tree c tree =
     (let node = \<lparr>n_parent = cp_parent c, n_children = [], n_data = cp_data c, n_patch = cp_patch c\<rparr>;
          linked = link_child (cp_parent c) (cp_id c) (t_nodes tree);
          tree1 = tree\<lparr>t_nodes := AList.update (cp_id c) node linked, t_current := Some (cp_id c)\<rparr>
      in if \<not> t_hostState tree then Some tree1
         else if cp_data c \<noteq> JUndef then Some (tree1\<lparr>t_state := cp_data c\<rparr>)
         else (case cp_patch c of
             None \<Rightarrow> Some tree1
           | Some patch \<Rightarrow>
               (let (r, patch') = applyJsonPatch (or_empty (t_state tree)) patch;
                    tree2 = tree1\<lparr>t_nodes :=
                      AList.update (cp_id c) (node\<lparr>n_patch := Some patch'\<rparr>) linked\<rparr>
                in case r of
                     Done st \<Rightarrow> Some (tree2\<lparr>t_state := st\<rparr>)
                   | Threw \<Rightarrow> Some tree2
                   | Exotic \<Rightarrow> None)))"

definition recordCheckpoint ::
  "jsstring \<Rightarrow> jsstring \<Rightarrow> state_checkpoint \<Rightarrow> cp_trees \<Rightarrow> (cp_trees \<times> cp_effect list) outcome" where
  "recordCheckpoint serverId featureSet c trees =
     (let key = tree_key serverId featureSet in
      case map_of trees key of
        None \<Rightarrow> Returns (trees, [])
      | Some tree \<Rightarrow>
          (case record_in_tree c tree of
             None \<Rightarrow> Open
           | Some tree' \<Rightarrow>
               (let trees' = AList.update key tree' trees in
                Returns (trees',
                  (if t_hostState tree then [Write_State (state_id serverId featureSet) (t_state tree')] else [])
                  @ [Trace_Recorded serverId featureSet (cp_id c) (cp_parent c)
                       (cp_data c \<noteq> JUndef) (cp_patch c \<noteq> None),
                     persistTree trees']))))"

subsection \<open>Queries\<close>

definition getCurrentState :: "jsstring \<Rightarrow> jsstring \<Rightarrow> cp_trees \<Rightarrow> jsval" where
  "getCurrentState serverId featureSet trees =
     (case map_of trees (tree_key serverId featureSet) of None \<Rightarrow> JUndef | Some t \<Rightarrow> t_state t)"

definition getCurrentCheckpoint :: "jsstring \<Rightarrow> jsstring \<Rightarrow> cp_trees \<Rightarrow> jsstring option" where
  "getCurrentCheckpoint serverId featureSet trees =
     (case map_of trees (tree_key serverId featureSet) of None \<Rightarrow> None | Some t \<Rightarrow> t_current t)"

definition isStateful :: "jsstring \<Rightarrow> jsstring \<Rightarrow> cp_trees \<Rightarrow> bool" where
  "isStateful serverId featureSet trees \<longleftrightarrow> map_of trees (tree_key serverId featureSet) \<noteq> None"

definition isHostManaged :: "jsstring \<Rightarrow> jsstring \<Rightarrow> cp_trees \<Rightarrow> bool" where
  "isHostManaged serverId featureSet trees =
     (case map_of trees (tree_key serverId featureSet) of None \<Rightarrow> False | Some t \<Rightarrow> t_hostState t)"

fun single_match :: "jsstring \<Rightarrow> cp_trees \<Rightarrow> jsstring option \<Rightarrow> jsstring option" where
  "single_match prefix [] match = match"
| "single_match prefix ((key, tree) # rest) match =
     (if \<not> startsWith key prefix \<or> t_hostState tree then single_match prefix rest match
      else if match \<noteq> None then None
      else single_match prefix rest (Some (drop (length prefix) key)))"

definition getStatefulFeatureSet :: "jsstring \<Rightarrow> jsstring option \<Rightarrow> cp_trees \<Rightarrow> jsstring option" where
  "getStatefulFeatureSet serverId featureSet trees =
     (case featureSet of
        Some f \<Rightarrow>
          (case map_of trees (tree_key serverId f) of
             Some tree \<Rightarrow> if \<not> t_hostState tree then Some f else None
           | None \<Rightarrow> None)
      | None \<Rightarrow> single_match (serverId @ [colon]) trees None)"

fun more_than_one :: "jsstring \<Rightarrow> cp_trees \<Rightarrow> nat \<Rightarrow> bool" where
  "more_than_one prefix [] n = False"
| "more_than_one prefix ((key, tree) # rest) n =
     (if startsWith key prefix \<and> \<not> t_hostState tree then
        (if Suc n > 1 then True else more_than_one prefix rest (Suc n))
      else more_than_one prefix rest n)"

definition hasAmbiguousServerManagedFeatureSets :: "jsstring \<Rightarrow> cp_trees \<Rightarrow> bool" where
  "hasAmbiguousServerManagedFeatureSets serverId trees = more_than_one (serverId @ [colon]) trees 0"

definition getHostManagedFeatureSet :: "jsstring \<Rightarrow> cp_trees \<Rightarrow> jsstring option" where
  "getHostManagedFeatureSet serverId trees =
     map_option (\<lambda>(key, tree). drop (length (serverId @ [colon])) key)
       (find (\<lambda>(key, tree). startsWith key (serverId @ [colon]) \<and> t_hostState tree) trees)"

subsection \<open>Rollback\<close>

text \<open>The walk up the parents: \<open>None\<close> when it never ends.\<close>

partial_function (option) ancestors :: "cp_nodes \<Rightarrow> jsstring option \<Rightarrow> jsstring list \<Rightarrow> jsstring list option" where
  "ancestors nodes current path =
     (case current of
        None \<Rightarrow> Some path
      | Some c \<Rightarrow>
          (case map_of nodes c of
             None \<Rightarrow> Some path
           | Some node \<Rightarrow> ancestors nodes (n_parent node) (c # path)))"

text \<open>The walk down: the state, and the nodes, whose patches are applied in place.\<close>

fun replay :: "cp_nodes \<Rightarrow> jsstring list \<Rightarrow> jsval \<Rightarrow> (jsval \<times> cp_nodes) option" where
  "replay nodes [] st = Some (st, nodes)"
| "replay nodes (c # cs) st =
     (case map_of nodes c of
        None \<Rightarrow> replay nodes cs st
      | Some node \<Rightarrow>
          if n_data node \<noteq> JUndef then replay nodes cs (n_data node)
          else (case n_patch node of
              None \<Rightarrow> replay nodes cs st
            | Some patch \<Rightarrow>
                (let (r, patch') = applyJsonPatch st patch;
                     nodes' = AList.update c (node\<lparr>n_patch := Some patch'\<rparr>) nodes
                 in case r of
                      Done st' \<Rightarrow> replay nodes' cs st'
                    | Threw \<Rightarrow> replay nodes' cs st
                    | Exotic \<Rightarrow> None)))"

definition reconstructState :: "fs_tree \<Rightarrow> jsstring \<Rightarrow> (jsval \<times> cp_nodes) outcome" where
  "reconstructState tree checkpoint =
     (case ancestors (t_nodes tree) (Some checkpoint) [] of
        None \<Rightarrow> Diverges
      | Some path \<Rightarrow>
          (case replay (t_nodes tree) path (JObj []) of
             None \<Rightarrow> Open
           | Some r \<Rightarrow> Returns r))"

definition rollbackTo ::
  "jsstring \<Rightarrow> jsstring \<Rightarrow> jsstring \<Rightarrow> cp_trees \<Rightarrow> (jsval \<times> cp_trees \<times> cp_effect list) outcome" where
  "rollbackTo serverId featureSet checkpoint trees =
     (let key = tree_key serverId featureSet in
      case map_of trees key of
        None \<Rightarrow> Throws (No_Stateful_Set key)
      | Some tree \<Rightarrow>
          (case map_of (t_nodes tree) checkpoint of
             None \<Rightarrow> Throws (Checkpoint_Not_Found checkpoint)
           | Some node \<Rightarrow>
               (let tree1 = tree\<lparr>t_current := Some checkpoint\<rparr> in
                if \<not> t_hostState tree then
                  (let trees' = AList.update key tree1 trees in
                   Returns (t_state tree, trees',
                     [Trace_Rollback serverId featureSet checkpoint, persistTree trees']))
                else (case reconstructState tree1 checkpoint of
                    Returns (st, nodes') \<Rightarrow>
                      (let trees' = AList.update key (tree1\<lparr>t_state := st, t_nodes := nodes'\<rparr>) trees in
                       Returns (st, trees',
                         [Write_State (state_id serverId featureSet) st,
                          Trace_Rollback serverId featureSet checkpoint, persistTree trees']))
                  | Throws e \<Rightarrow> Throws e
                  | Diverges \<Rightarrow> Diverges
                  | Open \<Rightarrow> Open))))"

definition removeServer :: "jsstring \<Rightarrow> cp_trees \<Rightarrow> cp_trees \<times> cp_effect list" where
  "removeServer serverId trees =
     (let toRemove = filter (\<lambda>key. startsWith key (serverId @ [colon])) (keys trees);
          trees' = fold AList.delete toRemove trees
      in (trees', if length toRemove > 0 then [persistTree trees'] else []))"


subsection \<open>The walk up\<close>

text \<open>\<open>chain nodes current cs\<close>: walking up from \<open>current\<close> visits \<open>cs\<close> and ends at a root.\<close>

fun chain :: "cp_nodes \<Rightarrow> jsstring option \<Rightarrow> jsstring list \<Rightarrow> bool" where
  "chain nodes current [] = (current = None)"
| "chain nodes current (c # cs) =
     (current = Some c \<and>
      (case map_of nodes c of None \<Rightarrow> False | Some n \<Rightarrow> chain nodes (n_parent n) cs))"

lemma chain_ancestors: "chain nodes current cs \<Longrightarrow> ancestors nodes current path = Some (rev cs @ path)"
proof (induction cs arbitrary: current path)
  case Nil
  then show ?case by (simp add: ancestors.simps)
next
  case (Cons c cs)
  then show ?case by (auto simp: ancestors.simps [of nodes "Some c"] split: option.splits)
qed

definition same_steps :: "cp_nodes \<Rightarrow> cp_nodes \<Rightarrow> jsstring set \<Rightarrow> bool" where
  "same_steps nodes nodes' C \<longleftrightarrow> (\<forall>c \<in> C. \<exists>n n'. map_of nodes c = Some n \<and> map_of nodes' c = Some n' \<and>
     n_parent n = n_parent n' \<and> n_data n = n_data n' \<and> n_patch n = n_patch n')"

lemma chain_known: "chain nodes current cs \<Longrightarrow> c \<in> set cs \<Longrightarrow> map_of nodes c \<noteq> None"
  by (induction cs arbitrary: current) (auto split: option.splits)

lemma chain_same: "chain nodes current cs \<Longrightarrow> same_steps nodes nodes' (set cs) \<Longrightarrow> chain nodes' current cs"
proof (induction cs arbitrary: current)
  case (Cons c cs)
  obtain n n' where n: "map_of nodes c = Some n" "map_of nodes' c = Some n'" "n_parent n = n_parent n'"
    using Cons.prems(2) by (auto simp: same_steps_def)
  have "same_steps nodes nodes' (set cs)" using Cons.prems(2) by (auto simp: same_steps_def)
  then show ?case using Cons n by auto
qed simp

text \<open>A walk that can only stay inside a set of nodes whose parents are in the set again.\<close>

lemma ancestors_trapped:
  assumes "\<forall>c \<in> S. \<exists>n p. map_of nodes c = Some n \<and> n_parent n = Some p \<and> p \<in> S" "c \<in> S"
  shows "ancestors nodes (Some c) path = None"
proof (rule ccontr)
  assume "ancestors nodes (Some c) path \<noteq> None"
  then obtain r where "ancestors nodes (Some c) path = Some r" by auto
  moreover have "nds = nodes \<longrightarrow> cur \<notin> Some ` S" if "ancestors nds cur path = Some r" for nds cur path r
  proof (rule ancestors.raw_induct [where P = "\<lambda>nds cur path r. nds = nodes \<longrightarrow> cur \<notin> Some ` S", OF _ that])
    fix f nds cur path y
    assume IH: "\<And>nds cur path y. f nds cur path = Some y \<Longrightarrow> nds = nodes \<longrightarrow> cur \<notin> Some ` S"
      and eq: "(case cur of None \<Rightarrow> Some path
        | Some c \<Rightarrow> (case map_of nds c of None \<Rightarrow> Some path
            | Some node \<Rightarrow> f nds (n_parent node) (c # path))) = Some y"
    show "nds = nodes \<longrightarrow> cur \<notin> Some ` S"
    proof (intro impI notI)
      assume nds: "nds = nodes" and "cur \<in> Some ` S"
      then obtain c where c: "cur = Some c" "c \<in> S" by auto
      then obtain n p where n: "map_of nodes c = Some n" "n_parent n = Some p" "p \<in> S"
        using assms(1) by blast
      have "f nodes (Some p) (c # path) = Some y" using eq c n nds by simp
      then have "Some p \<notin> Some ` S" using IH by blast
      then show False using n by blast
    qed
  qed
  ultimately show False using assms(2) by blast
qed

subsection \<open>Replaying primitive patches\<close>

definition prim_patch :: "patch_op list option \<Rightarrow> bool" where
  "prim_patch p = (case p of None \<Rightarrow> True | Some ops \<Rightarrow> list_all (\<lambda>op. primitive (op_value op)) ops)"

text \<open>One node's effect on a state, when its patch stays as it is.\<close>

definition node_step :: "cp_node \<Rightarrow> jsval \<Rightarrow> jsval option" where
  "node_step n st =
     (if n_data n \<noteq> JUndef then Some (n_data n)
      else (case n_patch n of
          None \<Rightarrow> Some st
        | Some ops \<Rightarrow> (case fst (applyJsonPatch st ops) of
            Done st' \<Rightarrow> Some st' | Threw \<Rightarrow> Some st | Exotic \<Rightarrow> None)))"

fun states :: "cp_nodes \<Rightarrow> jsstring list \<Rightarrow> jsval \<Rightarrow> jsval option" where
  "states nodes [] st = Some st"
| "states nodes (c # cs) st =
     (case map_of nodes c of
        None \<Rightarrow> None
      | Some n \<Rightarrow> (case node_step n st of None \<Rightarrow> None | Some st' \<Rightarrow> states nodes cs st'))"

lemma same_steps_refl: "\<forall>c \<in> C. map_of nodes c \<noteq> None \<Longrightarrow> same_steps nodes nodes C"
  by (auto simp: same_steps_def)

lemma same_steps_map:
  "map_of nodes' = map_of nodes \<Longrightarrow> \<forall>c \<in> C. \<exists>n. map_of nodes c = Some n \<Longrightarrow> same_steps nodes nodes' C"
  by (auto simp: same_steps_def)

lemma states_same: "states nodes cs st = Some r \<Longrightarrow> same_steps nodes nodes' (set cs) \<Longrightarrow> states nodes' cs st = Some r"
proof (induction cs arbitrary: st)
  case (Cons c cs)
  obtain n n' where n: "map_of nodes c = Some n" "map_of nodes' c = Some n'"
      "n_data n = n_data n'" "n_patch n = n_patch n'"
    using Cons.prems(2) by (auto simp: same_steps_def)
  have "node_step n = node_step n'" by (intro ext) (simp add: node_step_def n)
  moreover have "same_steps nodes nodes' (set cs)" using Cons.prems(2) by (auto simp: same_steps_def)
  ultimately show ?case using Cons n by (auto split: option.splits)
qed simp

lemma states_known: "states nodes cs st = Some r \<Longrightarrow> c \<in> set cs \<Longrightarrow> \<exists>n. map_of nodes c = Some n"
  by (induction cs arbitrary: st) (auto split: option.splits)

lemma states_append:
  "states nodes (cs @ ds) st = (case states nodes cs st of None \<Rightarrow> None | Some st' \<Rightarrow> states nodes ds st')"
  by (induction cs arbitrary: st) (auto split: option.split)

lemma prim_apply: "prim_patch (Some ops) \<Longrightarrow> snd (applyJsonPatch st ops) = ops"
proof -
  assume "prim_patch (Some ops)"
  then have a: "list_all (\<lambda>op. primitive (op_value op)) ops" by (simp add: prim_patch_def)
  show ?thesis by (rule primitive_patch_same [OF a])
qed

lemma replay_states:
  "states nodes cs st = Some r \<Longrightarrow>
     (\<forall>c \<in> set cs. \<forall>n. map_of nodes c = Some n \<longrightarrow> prim_patch (n_patch n)) \<Longrightarrow>
     \<exists>nodes'. replay nodes cs st = Some (r, nodes') \<and> map_of nodes' = map_of nodes"
proof (induction cs arbitrary: nodes st)
  case (Cons c cs)
  obtain n st' where n: "map_of nodes c = Some n" "node_step n st = Some st'" "states nodes cs st' = Some r"
    using Cons.prems(1) by (auto split: option.splits)
  show ?case
  proof (cases "n_data n = JUndef \<and> n_patch n \<noteq> None")
    case False
    then have "replay nodes (c # cs) st = replay nodes cs st'"
      using n by (auto simp: node_step_def)
    then show ?thesis using Cons.IH [OF n(3)] Cons.prems(2) by simp
  next
    case True
    then obtain ops where ops: "n_patch n = Some ops" by auto
    then have same: "snd (applyJsonPatch st ops) = ops"
      using Cons.prems(2) n(1) prim_apply by (metis list.set_intros(1))
    let ?nodes = "AList.update c (n\<lparr>n_patch := Some ops\<rparr>) nodes"
    have "n\<lparr>n_patch := Some ops\<rparr> = n" using ops by simp
    then have m: "map_of ?nodes = map_of nodes" using n(1) by (simp add: fun_upd_idem)
    have "states ?nodes cs st' = Some r"
      using states_known [OF n(3)] by (intro states_same [OF n(3)] same_steps_map [OF m]) blast
    moreover have step: "replay nodes (c # cs) st = replay ?nodes cs st'"
      using n(1,2) True ops same
      by (auto simp: node_step_def Let_def split: patched.splits prod.splits)
    moreover have "\<forall>c \<in> set cs. \<forall>n. map_of ?nodes c = Some n \<longrightarrow> prim_patch (n_patch n)"
      using Cons.prems(2) by (simp only: m) simp
    ultimately obtain nodes' where "replay ?nodes cs st' = Some (r, nodes')" "map_of nodes' = map_of ?nodes"
      using Cons.IH [of ?nodes st'] by blast
    then show ?thesis using step m by metis
  qed
qed simp


subsection \<open>A linear history\<close>

fun record_all :: "state_checkpoint list \<Rightarrow> fs_tree \<Rightarrow> fs_tree option" where
  "record_all [] t = Some t"
| "record_all (c # cs) t =
     (case record_in_tree c t of None \<Rightarrow> None | Some t' \<Rightarrow> record_all cs t')"

text \<open>
  Every checkpoint is new, its parent is the one before it, and it leaves a state; its patch
  carries no array or object.
\<close>

fun linear :: "state_checkpoint list \<Rightarrow> fs_tree \<Rightarrow> bool" where
  "linear [] t = True"
| "linear (c # cs) t =
     (cp_parent c = t_current t \<and> cp_id c \<notin> set (keys (t_nodes t)) \<and> prim_patch (cp_patch c) \<and>
      (case record_in_tree c t of
         None \<Rightarrow> False
       | Some t' \<Rightarrow> t_state t' \<noteq> JNull \<and> t_state t' \<noteq> JUndef \<and> linear cs t'))"

definition on_line :: "fs_tree \<Rightarrow> jsstring list \<Rightarrow> bool" where
  "on_line t ids \<longleftrightarrow>
     t_hostState t \<and> chain (t_nodes t) (t_current t) ids \<and> set (keys (t_nodes t)) = set ids \<and>
     (\<forall>c n. map_of (t_nodes t) c = Some n \<longrightarrow> prim_patch (n_patch n)) \<and>
     states (t_nodes t) (rev ids) (JObj []) = Some (or_empty (t_state t))"

lemma on_line_new: "on_line (new_tree True rb) []"
  by (simp add: on_line_def new_tree_def or_empty_def)

lemma link_same: "same_steps nodes (link_child p c nodes) (set (keys nodes))"
  unfolding same_steps_def
proof
  fix k assume "k \<in> set (keys nodes)"
  then obtain n where "map_of nodes k = Some n" by (metis map_of_eq_None_iff not_None_eq set_map)
  then show "\<exists>n n'. map_of nodes k = Some n \<and> map_of (link_child p c nodes) k = Some n' \<and>
      n_parent n = n_parent n' \<and> n_data n = n_data n' \<and> n_patch n = n_patch n'"
    by (auto simp: link_child_def split: option.split)
qed

lemma link_prim:
  "\<forall>c n. map_of nodes c = Some n \<longrightarrow> prim_patch (n_patch n) \<Longrightarrow>
     \<forall>c n. map_of (link_child p k nodes) c = Some n \<longrightarrow> prim_patch (n_patch n)"
  by (auto simp: link_child_def split: option.split)

lemma link_keys: "set (keys (link_child p c nodes)) = set (keys nodes)"
  by (auto simp: link_child_def dom_update split: option.split dest: map_of_SomeD)
     (metis fst_conv image_eqI map_of_SomeD)+

lemma or_empty_id: "v \<noteq> JNull \<Longrightarrow> v \<noteq> JUndef \<Longrightarrow> or_empty v = v"
  by (simp add: or_empty_def)

lemma record_step:
  assumes host: "t_hostState t" and prim: "prim_patch (cp_patch c)"
    and r: "record_in_tree c t = Some t'" and state: "t_state t' \<noteq> JNull" "t_state t' \<noteq> JUndef"
  shows "\<exists>n. t_nodes t' = AList.update (cp_id c) n (link_child (cp_parent c) (cp_id c) (t_nodes t)) \<and>
    n_parent n = cp_parent c \<and> n_patch n = cp_patch c \<and> t_current t' = Some (cp_id c) \<and> t_hostState t' \<and>
    node_step n (or_empty (t_state t)) = Some (or_empty (t_state t'))"
proof (intro exI)
  let ?n = "\<lparr>n_parent = cp_parent c, n_children = [], n_data = cp_data c, n_patch = cp_patch c\<rparr>"
  show "t_nodes t' = AList.update (cp_id c) ?n (link_child (cp_parent c) (cp_id c) (t_nodes t)) \<and>
    n_parent ?n = cp_parent c \<and> n_patch ?n = cp_patch c \<and> t_current t' = Some (cp_id c) \<and> t_hostState t' \<and>
    node_step ?n (or_empty (t_state t)) = Some (or_empty (t_state t'))"
  proof (cases "cp_data c \<noteq> JUndef \<or> cp_patch c = None")
    case True
    then show ?thesis using r host state
      by (cases "cp_patch c") (auto simp: record_in_tree_def Let_def node_step_def or_empty_def split: if_splits)
  next
    case False
    then obtain ops where ops: "cp_patch c = Some ops" by auto
    then have same: "snd (applyJsonPatch (or_empty (t_state t)) ops) = ops"
      using prim prim_apply by simp
    show ?thesis using ops False r host state same
      by (auto simp: record_in_tree_def Let_def node_step_def or_empty_id
          split: prod.splits patched.splits)
  qed
qed

lemma on_line_step:
  assumes I: "on_line t ids" and lin: "cp_parent c = t_current t" "cp_id c \<notin> set (keys (t_nodes t))"
      "prim_patch (cp_patch c)"
    and r: "record_in_tree c t = Some t'" "t_state t' \<noteq> JNull" "t_state t' \<noteq> JUndef"
  shows "on_line t' (cp_id c # ids) \<and> same_steps (t_nodes t) (t_nodes t') (set ids)"
proof -
  let ?L = "link_child (cp_parent c) (cp_id c) (t_nodes t)"
  obtain n where n: "t_nodes t' = AList.update (cp_id c) n ?L" "n_parent n = cp_parent c"
      "n_patch n = cp_patch c" "t_current t' = Some (cp_id c)" "t_hostState t'"
      "node_step n (or_empty (t_state t)) = Some (or_empty (t_state t'))"
    using record_step [OF _ lin(3) r] I by (auto simp: on_line_def)
  have ids: "set (keys (t_nodes t)) = set ids" "cp_id c \<notin> set ids"
    using I lin(2) by (auto simp: on_line_def)
  have at: "map_of (t_nodes t') k = map_of ?L k" if "k \<in> set ids" for k
    using that ids(2) by (auto simp: n(1))
  have same: "same_steps (t_nodes t) (t_nodes t') (set ids)"
    using link_same [of "t_nodes t" "cp_parent c" "cp_id c"] at
    unfolding same_steps_def ids(1) by metis
  have chain: "chain (t_nodes t') (t_current t') (cp_id c # ids)"
    using chain_same [OF _ same] I n lin(1) by (simp add: on_line_def)
  have "set (keys (t_nodes t')) = set (cp_id c # ids)"
    using link_keys [of "cp_parent c" "cp_id c" "t_nodes t"] ids by (simp add: n(1) dom_update)
  moreover have "\<forall>k m. map_of (t_nodes t') k = Some m \<longrightarrow> prim_patch (n_patch m)"
    using link_prim [of "t_nodes t" "cp_parent c" "cp_id c"] I lin(3) n(3) by (auto simp: on_line_def n(1))
  moreover have "states (t_nodes t') (rev ids) (JObj []) = Some (or_empty (t_state t))"
    using states_same [of "t_nodes t" "rev ids" "JObj []" "or_empty (t_state t)" "t_nodes t'"] I same
    by (simp add: on_line_def)
  then have "states (t_nodes t') (rev (cp_id c # ids)) (JObj []) = Some (or_empty (t_state t'))"
    using n(6) by (simp add: states_append n(1))
  ultimately show ?thesis using chain n(5) same by (simp add: on_line_def)
qed

lemma on_line_run:
  "on_line t ids \<Longrightarrow> linear cs t \<Longrightarrow> record_all cs t = Some t' \<Longrightarrow>
     on_line t' (rev (map cp_id cs) @ ids) \<and> same_steps (t_nodes t) (t_nodes t') (set ids) \<and>
     (cs \<noteq> [] \<longrightarrow> t_current t' = Some (cp_id (last cs)) \<and> or_empty (t_state t') = t_state t')"
proof (induction cs arbitrary: t ids)
  case Nil
  then show ?case by (auto simp: on_line_def same_steps_def)
      (metis map_of_eq_None_iff not_None_eq set_map)
next
  case (Cons c cs)
  obtain t1 where t1: "record_in_tree c t = Some t1" "t_state t1 \<noteq> JNull" "t_state t1 \<noteq> JUndef"
      "linear cs t1" "record_all cs t1 = Some t'"
    using Cons.prems(2,3) by (auto split: option.splits)
  have 1: "on_line t1 (cp_id c # ids)" "same_steps (t_nodes t) (t_nodes t1) (set ids)"
    using on_line_step [OF Cons.prems(1) _ _ _ t1(1-3)] Cons.prems(2) by auto
  then have 2: "on_line t' (rev (map cp_id cs) @ cp_id c # ids)"
      "same_steps (t_nodes t1) (t_nodes t') (set (cp_id c # ids))"
      "cs \<noteq> [] \<longrightarrow> t_current t' = Some (cp_id (last cs)) \<and> or_empty (t_state t') = t_state t'"
    using Cons.IH [OF 1(1) t1(4,5)] by auto
  have "same_steps (t_nodes t) (t_nodes t') (set ids)"
    using 1(2) 2(2) by (fastforce simp: same_steps_def)
  moreover have "cs = [] \<Longrightarrow> t_current t' = Some (cp_id c) \<and> or_empty (t_state t') = t_state t'"
    using t1 1(1) by (auto simp: on_line_def or_empty_def)
  ultimately show ?case using 2 by (cases cs) auto
qed

lemma linear_append: "linear (cs @ ds) t \<Longrightarrow> record_all cs t = Some t' \<Longrightarrow> linear cs t \<and> linear ds t'"
  by (induction cs arbitrary: t) (auto split: option.splits)

lemma record_all_append:
  "record_all (cs @ ds) t = (case record_all cs t of None \<Rightarrow> None | Some t' \<Rightarrow> record_all ds t')"
  by (induction cs arbitrary: t) (auto split: option.split)


lemma chain_drop: "chain nodes current (cs @ c # ds) \<Longrightarrow> chain nodes (Some c) (c # ds)"
proof (induction cs arbitrary: current)
  case (Cons a cs)
  then obtain n :: cp_node where "chain nodes (n_parent n) (cs @ c # ds)" by (auto split: option.splits)
  then show ?case by (rule Cons.IH)
qed auto

lemma reconstruct_current [simp]: "reconstructState (t\<lparr>t_current := x\<rparr>) c = reconstructState t c"
  by (simp add: reconstructState_def cong: option.case_cong)

lemma reconstruct_earlier:
  assumes t1: "on_line t1 ids" "ids = c # rest" and t2: "on_line t2 (later @ ids)"
    and same: "same_steps (t_nodes t1) (t_nodes t2) (set ids)"
  shows "\<exists>nodes'. reconstructState t2 c = Returns (or_empty (t_state t1), nodes')"
proof -
  have "chain (t_nodes t2) (t_current t2) (later @ c # rest)" using t2 t1(2) by (simp add: on_line_def)
  then have "chain (t_nodes t2) (Some c) ids" unfolding t1(2) by (rule chain_drop)
  then have anc: "ancestors (t_nodes t2) (Some c) [] = Some (rev ids)"
    using chain_ancestors by fastforce
  have "states (t_nodes t1) (rev ids) (JObj []) = Some (or_empty (t_state t1))"
    using t1(1) by (simp add: on_line_def)
  then have "states (t_nodes t2) (rev ids) (JObj []) = Some (or_empty (t_state t1))"
    by (rule states_same) (simp add: same)
  moreover have "\<forall>c \<in> set (rev ids). \<forall>n. map_of (t_nodes t2) c = Some n \<longrightarrow> prim_patch (n_patch n)"
    using t2 by (simp add: on_line_def)
  ultimately obtain nodes' where "replay (t_nodes t2) (rev ids) (JObj []) = Some (or_empty (t_state t1), nodes')"
    using replay_states by blast
  then show ?thesis by (simp add: reconstructState_def anc)
qed


definition sample_history :: "state_checkpoint list" where
  "sample_history =
     [\<lparr>cp_id = js ''a'', cp_parent = None, cp_data = JObj [(js ''n'', JNum 1)], cp_patch = None\<rparr>,
      \<lparr>cp_id = js ''b'', cp_parent = Some (js ''a''), cp_data = JUndef,
       cp_patch = Some [\<lparr>op_kind = Replace, op_path = js ''/n'', op_value = JNum 2\<rparr>]\<rparr>]"


text \<open>
  Rolling back to a checkpoint that is its own parent never returns. A server that
  records one (ids and parents are its own strings) makes the host's next rollback to it
  loop for ever.
\<close>

theorem self_parent_diverges:
  assumes "map_of trees (tree_key s f) = Some t" "t_hostState t" "cp_parent c = Some (cp_id c)"
    "cp_data c \<noteq> JUndef" "recordCheckpoint s f c trees = Returns (trees', effects)"
  shows "rollbackTo s f (cp_id c) trees' = Diverges"
proof -
  obtain t' where t': "record_in_tree c t = Some t'" "trees' = AList.update (tree_key s f) t' trees"
    using assms by (auto simp: recordCheckpoint_def Let_def split: option.splits)
  let ?n = "\<lparr>n_parent = cp_parent c, n_children = [], n_data = cp_data c, n_patch = cp_patch c\<rparr>"
  have n: "map_of (t_nodes t') (cp_id c) = Some ?n" "t_hostState t'"
    using t'(1) assms by (auto simp: record_in_tree_def Let_def)
  have "ancestors (t_nodes t') (Some (cp_id c)) [] = None"
    using n(1) assms(3) by (intro ancestors_trapped [of "{cp_id c}"]) auto
  then show ?thesis
    using n t'(2) by (simp add: rollbackTo_def reconstructState_def Let_def)
qed

definition own_parent :: "state_checkpoint" where
  "own_parent = \<lparr>cp_id = js ''a'', cp_parent = Some (js ''a''), cp_data = JNull, cp_patch = None\<rparr>"

lemma self_parent_diverges_witness:
  "rollbackTo (js ''s'') (js ''f'') (js ''a'')
     (case recordCheckpoint (js ''s'') (js ''f'') own_parent [(tree_key (js ''s'') (js ''f''), new_tree True True)]
      of Returns (trees', effects) \<Rightarrow> trees') = Diverges"
proof -
  let ?T = "[(tree_key (js ''s'') (js ''f''), new_tree True True)]"
  obtain trees' effects where r: "recordCheckpoint (js ''s'') (js ''f'') own_parent ?T = Returns (trees', effects)"
    by (simp add: recordCheckpoint_def record_in_tree_def own_parent_def new_tree_def Let_def)
  then have "rollbackTo (js ''s'') (js ''f'') (cp_id own_parent) trees' = Diverges"
    by (intro self_parent_diverges [of ?T _ _ "new_tree True True", OF _ _ _ _ r])
       (simp_all add: own_parent_def new_tree_def)
  then show ?thesis using r by (simp add: own_parent_def)
qed


text \<open>
  a checkpoint's patch is a delta from its parent, but the code applies it to the state
  it currently has. Recording a branch (a patch whose parent is not the current checkpoint)
  leaves a state that rolling back to that very checkpoint does not give.
\<close>

definition branching_history :: "state_checkpoint list" where
  "branching_history =
     [\<lparr>cp_id = js ''a'', cp_parent = None, cp_data = JObj [], cp_patch = None\<rparr>,
      \<lparr>cp_id = js ''b'', cp_parent = Some (js ''a''), cp_data = JObj [(js ''x'', JNull)], cp_patch = None\<rparr>,
      \<lparr>cp_id = js ''c'', cp_parent = Some (js ''a''), cp_data = JUndef,
       cp_patch = Some [\<lparr>op_kind = Add, op_path = js ''/y'', op_value = JTrue\<rparr>]\<rparr>]"

theorem branch_patches_the_wrong_state:
  "map_option t_state (record_all branching_history (new_tree True True)) =
     Some (JObj [(js ''x'', JNull), (js ''y'', JTrue)]) \<and>
   (\<exists>nodes'. reconstructState (the (record_all branching_history (new_tree True True))) (js ''c'') =
     Returns (JObj [(js ''y'', JTrue)], nodes'))"
proof
  show "map_option t_state (record_all branching_history (new_tree True True)) =
     Some (JObj [(js ''x'', JNull), (js ''y'', JTrue)])"
    by code_simp
  let ?t = "the (record_all branching_history (new_tree True True))"
  have "chain (t_nodes ?t) (Some (js ''c'')) [js ''c'', js ''a'']" by code_simp
  from chain_ancestors [OF this, of "[]"]
  have anc: "ancestors (t_nodes ?t) (Some (js ''c'')) [] = Some [js ''a'', js ''c'']" by simp
  have "map_option fst (replay (t_nodes ?t) [js ''a'', js ''c''] (JObj [])) = Some (JObj [(js ''y'', JTrue)])"
    by code_simp
  then show "\<exists>nodes'. reconstructState ?t (js ''c'') = Returns (JObj [(js ''y'', JTrue)], nodes')"
    by (auto simp: reconstructState_def anc)
qed

subsection \<open>Servers and their trees\<close>

text \<open>
  Removing a server drops exactly the trees whose key starts with the server's id and a
  colon, and keeps every other. Keys join server and feature set with a colon, so these are
  the server's own trees, and also those of any server whose id continues the removed one
  with a colon.
\<close>

theorem removal_exact:
  "(map_of (fst (removeServer s trees)) k =
     (if startsWith k (s @ [colon]) then None else map_of trees k)) \<and>
   startsWith (tree_key s f) (s @ [colon]) \<and> startsWith (tree_key (s @ colon # rest) f) (s @ [colon])"
proof -
  have "map_of (fold AList.delete (filter P (keys ts)) ts) k = (if P k then None else map_of ts k)"
    for P and ts :: cp_trees
    by (auto simp: jsmap.get_del_all map_of_eq_None_iff [THEN iffD2])
  then show ?thesis by (simp add: removeServer_def Let_def startsWith_iff tree_key_def)
qed

subsection \<open>Storing and loading\<close>

lemma update_new: "k \<notin> set (keys m) \<Longrightarrow> AList.update k v m = m @ [(k, v)]"
  by (induction m) auto

lemma fold_update_distinct:
  "distinct (keys m @ keys acc) \<Longrightarrow>
     fold (\<lambda>(k, v). AList.update k (g v)) m acc = acc @ map (\<lambda>(k, v). (k, g v)) m"
proof (induction m arbitrary: acc)
  case (Cons kv m)
  obtain k v where kv: "kv = (k, v)" by force
  have "AList.update k (g v) acc = acc @ [(k, g v)]"
    using Cons.prems kv by (intro update_new) auto
  then show ?case using Cons.IH [of "acc @ [(k, g v)]"] Cons.prems kv by auto
qed simp

lemma fold_assign_distinct:
  assumes "distinct (keys m)" "js ''__proto__'' \<notin> set (keys m)"
  shows "fold (\<lambda>(k, v). js_assign k (g v)) m [] = map (\<lambda>(k, v). (k, g v)) m"
proof -
  have "fold (\<lambda>(k, v). js_assign k (g v)) m [] = fold (\<lambda>(k, v). AList.update k (g v)) m []"
    using assms(2) by (intro fold_cong) (force simp: js_assign_def)+
  then show ?thesis using fold_update_distinct [of m "[]" g] assms(1) by simp
qed

definition storable :: "cp_trees \<Rightarrow> bool" where
  "storable trees \<longleftrightarrow> distinct (keys trees) \<and> js ''__proto__'' \<notin> set (keys trees) \<and>
     (\<forall>(k, t) \<in> set trees. distinct (keys (t_nodes t)) \<and> js ''__proto__'' \<notin> set (keys (t_nodes t)))"

definition unread :: "fs_tree \<Rightarrow> fs_tree" where
  "unread t = t\<lparr>t_state := JUndef\<rparr>"

text \<open>
  What is stored is what is loaded. Trees without a checkpoint named \<open>__proto__\<close>,
  stored and loaded again, are the same trees with the host-managed states unread (each is
  stored under its own id), node for node and in the same order.
\<close>

theorem store_load_roundtrip:
  assumes "storable trees"
  shows "loadFromStore (Stored_Trees (persist_tree trees)) = Inr (map (\<lambda>(k, t). (k, unread t)) trees)"
proof -
  define ser where "ser t = \<lparr>s_hostState = t_hostState t, s_rollback = t_rollback t, s_current = t_current t,
      s_nodes = fold (\<lambda>(i, n). js_assign i n) (t_nodes t) []\<rparr>" for t :: fs_tree
  have p: "persist_tree trees = map (\<lambda>(k, t). (k, ser t)) trees"
    using fold_assign_distinct [of trees ser] assms by (simp add: persist_tree_def ser_def storable_def)
  have "loadFromStore (Stored_Trees (persist_tree trees)) =
      Inr (fold (\<lambda>(k, e). AList.update k (load_tree e)) (map (\<lambda>(k, t). (k, ser t)) trees) [])"
    by (simp add: loadFromStore_def p)
  also have "\<dots> = Inr (map (\<lambda>(k, e). (k, load_tree e)) (map (\<lambda>(k, t). (k, ser t)) trees))"
    using assms by (subst fold_update_distinct) (auto simp: storable_def comp_def case_prod_beta')
  also have "\<dots> = Inr (map (\<lambda>(k, t). (k, unread t)) trees)"
  proof -
    have "load_tree (ser t) = unread t" if "(k, t) \<in> set trees" for k and t :: fs_tree
    proof -
      have nodes: "distinct (keys (t_nodes t))" "js ''__proto__'' \<notin> set (keys (t_nodes t))"
        using assms that by (auto simp: storable_def)
      have "fold (\<lambda>(i, n). js_assign i n) (t_nodes t) [] = t_nodes t"
        using fold_assign_distinct [OF nodes, of "\<lambda>n. n"] by simp
      moreover have "fold (\<lambda>(i, n). AList.update i n) (t_nodes t) [] = t_nodes t"
        using fold_update_distinct [of "t_nodes t" "[]" "\<lambda>n. n"] nodes(1) by simp
      ultimately show ?thesis by (simp add: load_tree_def ser_def unread_def)
    qed
    then show ?thesis by auto
  qed
  finally show ?thesis .
qed

lemma store_load_roundtrip_witness:
  "loadFromStore (Stored_Trees (persist_tree [(js ''s:f'', new_tree True False)])) =
     Inr [(js ''s:f'', unread (new_tree True False))]"
  by (subst store_load_roundtrip) (simp_all add: storable_def new_tree_def)

lemma single_match_Some:
  "single_match prefix trees (Some m) =
     (if \<exists>(k, t) \<in> set trees. startsWith k prefix \<and> \<not> t_hostState t then None else Some m)"
  by (induction prefix trees "Some m" rule: single_match.induct) auto

lemma single_match_None:
  "single_match prefix trees None =
     (case filter (\<lambda>(k, t). startsWith k prefix \<and> \<not> t_hostState t) trees of
        [e] \<Rightarrow> Some (drop (length prefix) (fst e))
      | _ \<Rightarrow> None)"
proof (induction trees)
  case (Cons e trees)
  obtain k t where e: "e = (k, t)" by force
  show ?case
  proof (cases "startsWith k prefix \<and> \<not> t_hostState t")
    case True
    have "filter (\<lambda>(k, t). startsWith k prefix \<and> \<not> t_hostState t) trees = [] \<longleftrightarrow>
        \<not> (\<exists>(k, t) \<in> set trees. startsWith k prefix \<and> \<not> t_hostState t)"
      by (auto simp: filter_empty_conv)
    then show ?thesis using True by (auto simp: e single_match_Some split: list.split)
  qed (use Cons in \<open>auto simp: e\<close>)
qed simp

lemma more_than_one_iff:
  "more_than_one prefix trees n \<longleftrightarrow>
     (let m = length (filter (\<lambda>(k, t). startsWith k prefix \<and> \<not> t_hostState t) trees) in
      0 < m \<and> 1 < n + m)"
  by (induction prefix trees n rule: more_than_one.induct) (auto simp: Let_def)

text \<open>
  An untagged tool is routed only when there is no choice. Without an explicit feature
  set the manager answers one exactly when the server has a single server-managed tree, and
  reports ambiguity exactly when it has more; so when it answers none and there is no
  ambiguity the server has no such tree.
\<close>

theorem untagged_choice:
  "(getStatefulFeatureSet s None trees =
     (case filter (\<lambda>(k, t). startsWith k (s @ [colon]) \<and> \<not> t_hostState t) trees of
        [e] \<Rightarrow> Some (drop (length (s @ [colon])) (fst e))
      | _ \<Rightarrow> None)) \<and>
   (hasAmbiguousServerManagedFeatureSets s trees \<longleftrightarrow>
     1 < length (filter (\<lambda>(k, t). startsWith k (s @ [colon]) \<and> \<not> t_hostState t) trees))"
  unfolding getStatefulFeatureSet_def hasAmbiguousServerManagedFeatureSets_def
  by (auto simp: single_match_None more_than_one_iff Let_def)

end
