(* ===== verification/Json_Text.thy ===== *)
theory Json_Text
  imports Prelude
begin

section \<open>JSON text of strings\<close>

text \<open>
  \<open>JSON.stringify\<close> on strings and on arrays of strings, to the code unit: quotation marks
  and backslashes escaped, control characters as their short escape or \<open>\u\<close> and four
  hexadecimal digits, a surrogate without its partner likewise. \<open>parse_string\<close> reads it
  back, so the text determines the string; keys that the code makes this way cannot collide.
\<close>

abbreviation quote_mark :: code_unit where "quote_mark \<equiv> 0x22"
abbreviation backslash :: code_unit where "backslash \<equiv> 0x5C"

definition high_surrogate :: "code_unit \<Rightarrow> bool" where
  "high_surrogate c \<longleftrightarrow> 0xD800 \<le> c \<and> c \<le> 0xDBFF"

definition low_surrogate :: "code_unit \<Rightarrow> bool" where
  "low_surrogate c \<longleftrightarrow> 0xDC00 \<le> c \<and> c \<le> 0xDFFF"

definition hex_digit :: "nat \<Rightarrow> code_unit" where
  "hex_digit n = (if n < 10 then 0x30 + of_nat n else 0x57 + of_nat n)"

definition hex4 :: "code_unit \<Rightarrow> jsstring" where
  "hex4 c = map hex_digit
     [unat c div 4096, unat c div 256 mod 16, unat c div 16 mod 16, unat c mod 16]"

definition u_escape :: "code_unit \<Rightarrow> jsstring" where
  "u_escape c = backslash # 0x75 # hex4 c"

text \<open>One unit that is not part of a surrogate pair.\<close>

definition quote_unit :: "code_unit \<Rightarrow> jsstring" where
  "quote_unit c =
     (if c = quote_mark then [backslash, quote_mark]
      else if c = backslash then [backslash, backslash]
      else if c = 0x08 then [backslash, 0x62]
      else if c = 0x0C then [backslash, 0x66]
      else if c = LF then [backslash, 0x6E]
      else if c = CR then [backslash, 0x72]
      else if c = 0x09 then [backslash, 0x74]
      else if c < 0x20 \<or> high_surrogate c \<or> low_surrogate c then u_escape c
      else [c])"

fun quote_units :: "jsstring \<Rightarrow> jsstring" where
  "quote_units [] = []"
| "quote_units [c] = quote_unit c"
| "quote_units (c # d # s) =
     (if high_surrogate c \<and> low_surrogate d then c # d # quote_units s
      else quote_unit c @ quote_units (d # s))"

definition json_string :: "jsstring \<Rightarrow> jsstring" where
  "json_string s = quote_mark # quote_units s @ [quote_mark]"

text \<open>\<open>JSON.stringify([a, b])\<close>, an undefined element written \<open>null\<close>.\<close>

definition json_pair :: "jsstring option \<Rightarrow> jsstring \<Rightarrow> jsstring" where
  "json_pair a b =
     0x5B # (case a of None \<Rightarrow> js ''null'' | Some s \<Rightarrow> json_string s) @ 0x2C # json_string b @ [0x5D]"

subsection \<open>Reading back\<close>

definition hex_value :: "code_unit \<Rightarrow> nat" where
  "hex_value c = (if unat c < 0x3A then unat c - 0x30 else unat c - 0x57)"

fun parse_units :: "jsstring \<Rightarrow> (jsstring \<times> jsstring) option" where
  "parse_units [] = None"
| "parse_units (c # s) =
     (if c = quote_mark then Some ([], s)
      else if c = backslash then
        (case s of
           e # s' \<Rightarrow>
             (if e = 0x75 then
                (case s' of
                   a # b # d # f # s'' \<Rightarrow>
                     map_option (apfst ((#) (of_nat (4096 * hex_value a + 256 * hex_value b + 16 * hex_value d + hex_value f))))
                       (parse_units s'')
                 | _ \<Rightarrow> None)
              else map_option (apfst ((#)
                  (if e = 0x62 then 0x08 else if e = 0x66 then 0x0C else if e = 0x6E then LF
                   else if e = 0x72 then CR else if e = 0x74 then 0x09 else e))) (parse_units s'))
         | [] \<Rightarrow> None)
      else map_option (apfst ((#) c)) (parse_units s))"

lemma hex_value_digit: "n < 16 \<Longrightarrow> hex_value (hex_digit n) = n"
proof -
  have "list_all (\<lambda>n. hex_value (hex_digit n) = n) [0..<16]" by code_simp
  then show "n < 16 \<Longrightarrow> hex_value (hex_digit n) = n" by (simp add: list_all_iff)
qed

lemma hex4_value:
  "4096 * (n div 4096) + 256 * (n div 256 mod 16) + 16 * (n div 16 mod 16) + n mod 16 = (n::nat)"
proof -
  define a where "a = n div 16"
  define b where "b = n div 16 div 16"
  define c where "c = n div 16 div 16 div 16"
  define p where "p = n mod 16"
  define q where "q = n div 16 mod 16"
  define r where "r = n div 16 div 16 mod 16"
  have "n = 16 * a + p" "a = 16 * b + q" "b = 16 * c + r"
    by (simp_all add: a_def b_def c_def p_def q_def r_def)
  then have "4096 * c + 256 * r + 16 * q + p = n" by linarith
  then show ?thesis
    by (simp add: a_def b_def c_def p_def q_def r_def div_mult2_eq [symmetric])
qed

lemma parse_u_escape:
  "parse_units (u_escape c @ s) = map_option (apfst ((#) c)) (parse_units s)"
proof -
  have "unat c < 65536" using unsigned_less [of c, where ?'a = nat] by simp
  then have "unat c div 4096 < 16" by simp
  moreover have "(of_nat (4096 * (unat c div 4096) + 256 * (unat c div 256 mod 16) +
      16 * (unat c div 16 mod 16) + unat c mod 16) :: code_unit) = c"
    by (simp only: hex4_value) simp
  ultimately show ?thesis
    by (simp add: u_escape_def hex4_def hex_value_digit)
qed

lemma parse_quote_unit:
  "parse_units (quote_unit c @ s) = map_option (apfst ((#) c)) (parse_units s)"
  by (auto simp: quote_unit_def parse_u_escape)

lemma parse_quote_units: "parse_units (quote_units s @ quote_mark # rest) = Some (s, rest)"
proof (induction s rule: quote_units.induct)
  case (3 c d s)
  have "high_surrogate c \<Longrightarrow> c \<noteq> quote_mark \<and> c \<noteq> backslash"
    "low_surrogate d \<Longrightarrow> d \<noteq> quote_mark \<and> d \<noteq> backslash"
    by (auto simp: high_surrogate_def low_surrogate_def)
  then show ?case using 3 by (auto simp: parse_quote_unit)
qed (auto simp: parse_quote_unit)

lemma json_string_head:
  "json_string s @ x = json_string t @ y \<Longrightarrow> s = t \<and> x = y"
proof -
  assume "json_string s @ x = json_string t @ y"
  then have "parse_units (quote_units s @ quote_mark # x) = parse_units (quote_units t @ quote_mark # y)"
    by (simp add: json_string_def)
  then show ?thesis by (simp add: parse_quote_units)
qed

lemma json_string_inj: "json_string s = json_string t \<longleftrightarrow> s = t"
  using json_string_head [of s "[]" t "[]"] by auto

lemma json_pair_inj: "json_pair a b = json_pair a' b' \<longleftrightarrow> a = a' \<and> b = b'"
proof
  assume eq: "json_pair a b = json_pair a' b'"
  show "a = a' \<and> b = b'"
  proof (cases a; cases a')
    fix s t assume "a = Some s" "a' = Some t"
    then show ?thesis using eq by (auto simp: json_pair_def json_string_inj dest!: json_string_head)
  next
    assume "a = None" "a' = None"
    then show ?thesis using eq by (auto simp: json_pair_def json_string_inj)
  next
    fix t assume "a = None" "a' = Some t"
    then show ?thesis using eq by (simp add: json_pair_def json_string_def js_def)
  next
    fix s assume "a = Some s" "a' = None"
    then show ?thesis using eq by (simp add: json_pair_def json_string_def js_def)
  qed
qed simp


subsection \<open>Decimal numerals\<close>

text \<open>A whole number inside a template literal.\<close>

fun decimal :: "nat \<Rightarrow> jsstring" where
  "decimal n =
     (if n < 10 then [0x30 + of_nat n] else decimal (n div 10) @ [0x30 + of_nat (n mod 10)])"

declare decimal.simps [simp del]

definition decimal_value :: "jsstring \<Rightarrow> nat" where
  "decimal_value s = fold (\<lambda>c n. 10 * n + (unat c - 0x30)) s 0"

lemma digit_value: "n < 10 \<Longrightarrow> unat (0x30 + of_nat n :: code_unit) - 0x30 = n"
proof -
  have "list_all (\<lambda>n. unat (0x30 + of_nat n :: code_unit) - 0x30 = n) [0..<10]" by code_simp
  then show "n < 10 \<Longrightarrow> unat (0x30 + of_nat n :: code_unit) - 0x30 = n" by (simp add: list_all_iff)
qed

lemma decimal_value_decimal: "decimal_value (decimal n) = n"
proof (induction n rule: decimal.induct)
  case (1 n)
  show ?case
  proof (cases "n < 10")
    case True
    then show ?thesis by (simp add: decimal.simps [of n] decimal_value_def digit_value)
  next
    case False
    then have "fold (\<lambda>c n. 10 * n + (unat c - 0x30)) (decimal (n div 10)) 0 = n div 10"
      using 1 by (simp add: decimal_value_def)
    then show ?thesis using False
      by (simp add: decimal.simps [of n] decimal_value_def digit_value)
  qed
qed

lemma decimal_inj [simp]: "decimal m = decimal n \<longleftrightarrow> m = n"
  by (metis decimal_value_decimal)

end
