(* ===== verification/Conversation_Router.thy ===== *)
theory Conversation_Router
  imports Json_Text
begin

section \<open>Conversation routing (src/mcpl/conversation-router.ts)\<close>

text \<open>
  The table from channels to conversation forks and the counters that keep their names
  apart. The clock is an argument, as the code allows; \<open>sha256\<close> stands for the hexadecimal
  digest of node's crypto module and is an argument of what names a fork.
\<close>

record channel_ref =
  cr_serverId :: jsstring
  cr_channelId :: jsstring

definition destinationKey :: "channel_ref \<Rightarrow> jsstring" where
  "destinationKey ch = json_pair (Some (cr_serverId ch)) (cr_channelId ch)"

definition sameChannel :: "channel_ref option \<Rightarrow> channel_ref option \<Rightarrow> bool" where
  "sameChannel a b =
     (case (a, b) of
        (Some x, Some y) \<Rightarrow> cr_serverId x = cr_serverId y \<and> cr_channelId x = cr_channelId y
      | (None, None) \<Rightarrow> True
      | _ \<Rightarrow> False)"

datatype bind_rule = Bind_Always | Bind_Mention | Bind_Never
datatype trigger_rule = Trigger_Always | Trigger_Mention
datatype channel_kind = Dm | Group_Dm | Channel_Kind

record router_config =
  templateAgent :: jsstring
  bindRules :: "channel_kind \<Rightarrow> bind_rule option"
  triggerRules :: "channel_kind \<Rightarrow> trigger_rule option"
  cfg_idleTtlMs :: "int option"
  cfg_closurePrompt :: "jsstring option"
  cfg_agentPrefix :: "jsstring option"

record binding =
  b_channelId :: jsstring
  b_serverId :: jsstring
  b_agentName :: jsstring
  b_generation :: nat
  b_boundAt :: int
  b_lastActivity :: int

record message_facts =
  f_channelId :: jsstring
  f_serverId :: "jsstring option"
  f_mentioned :: bool
  f_kind :: channel_kind

datatype routing_decision =
    Existing jsstring bool
  | Spawn jsstring nat bool
  | Unbound

record router =
  r_config :: router_config
  r_bindings :: "(jsstring, binding) jsmap"
  r_generations :: "(jsstring, nat) jsmap"

definition new_router :: "router_config \<Rightarrow> router" where
  "new_router config = \<lparr>r_config = config, r_bindings = [], r_generations = []\<rparr>"

definition idleTtlMs :: "router \<Rightarrow> int" where
  "idleTtlMs r = (case cfg_idleTtlMs (r_config r) of None \<Rightarrow> 12 * 60 * 60 * 1000 | Some t \<Rightarrow> t)"

definition DEFAULT_CLOSURE_PROMPT :: "jsstring \<Rightarrow> jsstring" where
  "DEFAULT_CLOSURE_PROMPT systemTag =
     js ''['' @ systemTag @
     js ''] This engagement is closing due to inactivity. Finalize your work: post any promised results to the channel and record outstanding threads as unresolved. Do not ask follow-up questions.''"

definition closurePrompt :: "jsstring \<Rightarrow> router \<Rightarrow> jsstring" where
  "closurePrompt systemTag r =
     (case cfg_closurePrompt (r_config r) of None \<Rightarrow> DEFAULT_CLOSURE_PROMPT systemTag | Some p \<Rightarrow> p)"

subsection \<open>Fork names\<close>

definition name_char :: "code_unit \<Rightarrow> bool" where
  "name_char c \<longleftrightarrow>
     (0x41 \<le> c \<and> c \<le> 0x5A) \<or> (0x61 \<le> c \<and> c \<le> 0x7A) \<or> (0x30 \<le> c \<and> c \<le> 0x39) \<or> c = 0x5F \<or> c = 0x2D"

text \<open>\<open>replace(/[^A-Za-z0-9_-]+/g, '-')\<close>: each run of other characters becomes one dash.\<close>

fun dash_runs :: "bool \<Rightarrow> jsstring \<Rightarrow> jsstring" where
  "dash_runs inside [] = []"
| "dash_runs inside (c # s) =
     (if name_char c then c # dash_runs False s
      else if inside then dash_runs True s
      else 0x2D # dash_runs True s)"

definition forkAgentName ::
  "(jsstring \<Rightarrow> jsstring) \<Rightarrow> jsstring \<Rightarrow> jsstring option \<Rightarrow> jsstring \<Rightarrow> nat \<Rightarrow> jsstring" where
  "forkAgentName sha256 prefix serverId channelId generation =
     (let readable = take 64 (dash_runs False channelId);
          hash = take 16 (sha256 (json_pair serverId channelId))
      in prefix @ js ''-'' @ readable @ js ''-g'' @ decimal generation @ js ''-'' @ hash)"

subsection \<open>Routing\<close>

definition shouldTrigger :: "router \<Rightarrow> message_facts \<Rightarrow> bool" where
  "shouldTrigger r facts =
     (let rule = (case triggerRules (r_config r) (f_kind facts) of
          Some t \<Rightarrow> t
        | None \<Rightarrow> if f_kind facts = Dm then Trigger_Always else Trigger_Mention)
      in rule = Trigger_Always \<or> f_mentioned facts)"

definition generation_of :: "router \<Rightarrow> jsstring \<Rightarrow> nat" where
  "generation_of r channelId =
     (case map_of (r_generations r) channelId of None \<Rightarrow> 0 | Some g \<Rightarrow> g)"

definition facts_channel :: "message_facts \<Rightarrow> channel_ref" where
  "facts_channel facts =
     \<lparr>cr_serverId = (case f_serverId facts of None \<Rightarrow> [] | Some s \<Rightarrow> s), cr_channelId = f_channelId facts\<rparr>"

definition agent_prefix :: "router \<Rightarrow> jsstring" where
  "agent_prefix r =
     (case cfg_agentPrefix (r_config r) of None \<Rightarrow> js ''conversation'' | Some p \<Rightarrow> p)"

definition route :: "(jsstring \<Rightarrow> jsstring) \<Rightarrow> router \<Rightarrow> message_facts \<Rightarrow> routing_decision" where
  "route sha256 r facts =
     (case map_of (r_bindings r) (destinationKey (facts_channel facts)) of
        Some b \<Rightarrow> Existing (b_agentName b) (shouldTrigger r facts)
      | None \<Rightarrow>
          (let rule = (case bindRules (r_config r) (f_kind facts) of
               Some br \<Rightarrow> br
             | None \<Rightarrow> if f_kind facts = Channel_Kind then Bind_Mention else Bind_Always);
               binds = (rule = Bind_Always \<or> rule = Bind_Mention \<and> f_mentioned facts)
           in if \<not> binds then Unbound
              else (let generation = generation_of r (f_channelId facts) + 1 in
                Spawn (forkAgentName sha256 (agent_prefix r) (f_serverId facts) (f_channelId facts) generation)
                  generation (shouldTrigger r facts))))"

definition bind :: "channel_ref \<Rightarrow> jsstring \<Rightarrow> nat \<Rightarrow> int \<Rightarrow> router \<Rightarrow> router" where
  "bind ch agentName generation now r =
     r\<lparr>r_generations := AList.update (cr_channelId ch)
          (max (generation_of r (cr_channelId ch)) generation) (r_generations r),
       r_bindings := AList.update (destinationKey ch)
          \<lparr>b_channelId = cr_channelId ch, b_serverId = cr_serverId ch, b_agentName = agentName,
           b_generation = generation, b_boundAt = now, b_lastActivity = now\<rparr> (r_bindings r)\<rparr>"

definition touch :: "channel_ref \<Rightarrow> int \<Rightarrow> router \<Rightarrow> router" where
  "touch ch now r =
     (case map_of (r_bindings r) (destinationKey ch) of
        None \<Rightarrow> r
      | Some b \<Rightarrow> r\<lparr>r_bindings := AList.update (destinationKey ch) (b\<lparr>b_lastActivity := now\<rparr>) (r_bindings r)\<rparr>)"

definition unbind :: "channel_ref \<Rightarrow> router \<Rightarrow> router" where
  "unbind ch r = r\<lparr>r_bindings := AList.delete (destinationKey ch) (r_bindings r)\<rparr>"

definition getBinding :: "router \<Rightarrow> channel_ref \<Rightarrow> binding option" where
  "getBinding r ch = map_of (r_bindings r) (destinationKey ch)"

definition getBindings :: "router \<Rightarrow> binding list" where
  "getBindings r = map snd (r_bindings r)"

definition channelForAgent :: "router \<Rightarrow> jsstring \<Rightarrow> channel_ref option" where
  "channelForAgent r agentName =
     map_option (\<lambda>b. \<lparr>cr_serverId = b_serverId b, cr_channelId = b_channelId b\<rparr>)
       (find (\<lambda>b. b_agentName b = agentName) (getBindings r))"

definition expired :: "router \<Rightarrow> int \<Rightarrow> binding list" where
  "expired r now = filter (\<lambda>b. now - b_lastActivity b \<ge> idleTtlMs r) (getBindings r)"

record channel_meta =
  is_im :: bool
  is_mpim :: bool

definition classifyChannel :: "channel_meta option \<Rightarrow> jsstring option \<Rightarrow> channel_kind" where
  "classifyChannel meta channelType =
     (if (case meta of None \<Rightarrow> False | Some m \<Rightarrow> is_im m) then Dm
      else if (case meta of None \<Rightarrow> False | Some m \<Rightarrow> is_mpim m) then Group_Dm
      else if channelType = Some (js ''im'') then Dm
      else if channelType = Some (js ''mpim'') then Group_Dm
      else Channel_Kind)"

definition exportGenerations :: "router \<Rightarrow> (jsstring \<times> nat) list" where
  "exportGenerations r = r_generations r"

text \<open>An entry whose value is not a number (\<open>None\<close>) is passed over.\<close>

definition raise_generation :: "jsstring \<times> nat option \<Rightarrow> router \<Rightarrow> router" where
  "raise_generation e r =
     (case snd e of
        None \<Rightarrow> r
      | Some g \<Rightarrow>
          if g > generation_of r (fst e)
          then r\<lparr>r_generations := AList.update (fst e) g (r_generations r)\<rparr> else r)"

definition hydrateGenerations :: "(jsstring \<times> nat option) list \<Rightarrow> router \<Rightarrow> router" where
  "hydrateGenerations es r = fold raise_generation es r"


subsection \<open>Keys and counters\<close>

lemma destinationKey_inj [simp]: "destinationKey a = destinationKey b \<longleftrightarrow> a = b"
proof
  assume "destinationKey a = destinationKey b"
  then have "cr_serverId a = cr_serverId b" "cr_channelId a = cr_channelId b"
    by (auto simp: destinationKey_def json_pair_inj)
  then show "a = b" by simp
qed simp

lemma generation_update:
  "generation_of (r\<lparr>r_generations := AList.update c g (r_generations r)\<rparr>) k =
     (if k = c then g else generation_of r k)"
  by (simp add: generation_of_def)

text \<open>The counters as an interface: what raises them never lowers one.\<close>

locale rising_counters =
  fixes counter :: "'s \<Rightarrow> 'k \<Rightarrow> nat" and raise_to :: "'k \<Rightarrow> nat \<Rightarrow> 's \<Rightarrow> 's"
  assumes counter_raise: "counter (raise_to k n s) j = (if j = k then max (counter s k) n else counter s j)"
begin

lemma raise_mono: "counter s j \<le> counter (raise_to k n s) j"
  by (simp add: counter_raise)

lemma raise_reaches: "n \<le> counter (raise_to k n s) k"
  by (simp add: counter_raise)

lemma raise_all_mono: "counter s j \<le> counter (fold (\<lambda>(k, n). raise_to k n) kns s) j"
proof (induction kns arbitrary: s)
  case (Cons kn kns)
  obtain k n where "kn = (k, n)" by force
  then show ?case using Cons.IH [of "raise_to k n s"] raise_mono [of s j k n] by auto
qed simp

lemma raise_all_reaches: "(k, n) \<in> set kns \<Longrightarrow> n \<le> counter (fold (\<lambda>(k, n). raise_to k n) kns s) k"
proof (induction kns arbitrary: s)
  case (Cons kn kns)
  then show ?case
    using raise_all_mono [of "raise_to k n s" k kns] raise_reaches [of n k s] by auto
qed simp

end

definition raise_counter :: "jsstring \<Rightarrow> nat \<Rightarrow> router \<Rightarrow> router" where
  "raise_counter c g r = raise_generation (c, Some g) r"

interpretation gens: rising_counters generation_of raise_counter
  by unfold_locales (auto simp: raise_counter_def raise_generation_def generation_update)

lemma generation_bind:
  "generation_of (bind ch a g now r) k =
     (if k = cr_channelId ch then max (generation_of r k) g else generation_of r k)"
  by (simp add: bind_def generation_of_def)

lemma generation_touch [simp]: "generation_of (touch ch now r) k = generation_of r k"
  by (auto simp: touch_def generation_of_def split: option.split)

lemma generation_unbind [simp]: "generation_of (unbind ch r) k = generation_of r k"
  by (simp add: unbind_def generation_of_def)

lemma hydrate_raise:
  "hydrateGenerations es r =
     fold (\<lambda>(c, g). raise_counter c g) (concat (map (\<lambda>(c, g). case g of None \<Rightarrow> [] | Some n \<Rightarrow> [(c, n)]) es)) r"
  unfolding hydrateGenerations_def
  by (induction es arbitrary: r) (auto simp: raise_counter_def raise_generation_def split: option.split)

subsection \<open>Runs\<close>

datatype router_call =
    Bind channel_ref jsstring nat int
  | Touch channel_ref int
  | Unbind channel_ref
  | Hydrate "(jsstring \<times> nat option) list"

fun router_step :: "router_call \<Rightarrow> router \<Rightarrow> router" where
  "router_step (Bind ch a g now) r = bind ch a g now r"
| "router_step (Touch ch now) r = touch ch now r"
| "router_step (Unbind ch) r = unbind ch r"
| "router_step (Hydrate es) r = hydrateGenerations es r"

text \<open>The generations a call takes for a channel id.\<close>

fun takes :: "router_call \<Rightarrow> jsstring \<Rightarrow> nat \<Rightarrow> bool" where
  "takes (Bind ch a g' now) c g = (cr_channelId ch = c \<and> g = g')"
| "takes (Hydrate es) c g = ((c, Some g) \<in> set es)"
| "takes _ c g = False"

lemma step_mono: "generation_of r c \<le> generation_of (router_step call r) c"
  by (cases call) (auto simp: generation_bind hydrate_raise gens.raise_all_mono)

lemma step_takes: "takes call c g \<Longrightarrow> g \<le> generation_of (router_step call r) c"
  by (cases call) (auto simp: generation_bind hydrate_raise intro!: gens.raise_all_reaches intro: bexI [rotated])

lemma run_mono: "generation_of r c \<le> generation_of (fold router_step calls r) c"
proof (induction calls arbitrary: r)
  case (Cons call calls)
  then show ?case using step_mono [of r c call] le_trans by fastforce
qed simp

lemma run_takes: "call \<in> set calls \<Longrightarrow> takes call c g \<Longrightarrow> g \<le> generation_of (fold router_step calls r) c"
proof (induction calls arbitrary: r)
  case (Cons x calls)
  then show ?case
    using step_takes [of call c g r] run_mono [of "router_step call r" c calls] le_trans by fastforce
qed simp

lemma route_Spawn:
  "route h r facts = Spawn name g trig \<Longrightarrow>
     g = generation_of r (f_channelId facts) + 1 \<and>
     name = forkAgentName h (agent_prefix r) (f_serverId facts) (f_channelId facts) g"
  by (auto simp: route_def Let_def split: option.splits if_splits)

lemma forkAgentName_generation:
  "forkAgentName h p s c g = forkAgentName h p s c g' \<longleftrightarrow> g = g'"
  by (simp add: forkAgentName_def Let_def)

text \<open>
  C37: a fork's name is never used twice. After any sequence of binds, touches, unbinds and
  hydrations from any router, the fork a message would spawn has a generation above every
  one bound or hydrated for its channel id before, and a name that differs from the name of
  each of those generations.
\<close>

theorem spawn_is_new:
  assumes spawn: "route h (fold router_step calls r) facts = Spawn name g trig"
    and earlier: "call \<in> set calls" "takes call (f_channelId facts) g'"
  shows "g' < g \<and> name \<noteq> forkAgentName h (agent_prefix (fold router_step calls r))
    (f_serverId facts) (f_channelId facts) g'"
proof -
  have "g' \<le> generation_of (fold router_step calls r) (f_channelId facts)"
    using run_takes [OF earlier] .
  then show ?thesis using route_Spawn [OF spawn] by (auto simp: forkAgentName_generation)
qed

definition plain_config :: router_config where
  "plain_config = \<lparr>templateAgent = js ''main'', bindRules = (\<lambda>k. None), triggerRules = (\<lambda>k. None),
     cfg_idleTtlMs = None, cfg_closurePrompt = None, cfg_agentPrefix = None\<rparr>"

definition dm_facts :: message_facts where
  "dm_facts = \<lparr>f_channelId = js ''D1'', f_serverId = Some (js ''slack''), f_mentioned = False, f_kind = Dm\<rparr>"

lemma spawn_is_new_witness:
  "\<exists>name g trig. route (\<lambda>s. s)
      (fold router_step [Bind (facts_channel dm_facts) (js ''x'') 4 0, Unbind (facts_channel dm_facts)]
        (new_router plain_config)) dm_facts = Spawn name g trig \<and> 4 < g"
proof -
  let ?calls = "[Bind (facts_channel dm_facts) (js ''x'') 4 0, Unbind (facts_channel dm_facts)]"
  obtain name g trig where s: "route (\<lambda>s. s) (fold router_step ?calls (new_router plain_config)) dm_facts = Spawn name g trig"
    by (simp add: route_def bind_def unbind_def new_router_def plain_config_def dm_facts_def Let_def)
  have "4 < g"
    using spawn_is_new [OF s, of "Bind (facts_channel dm_facts) (js ''x'') 4 0" 4]
    by (simp add: facts_channel_def)
  then show ?thesis using s by blast
qed

text \<open>
  Channels do not share a conversation. Binding one channel changes the binding of that
  channel alone: two servers' channels with one id, and channel ids that hold whatever the
  key is made of, stay apart.
\<close>

theorem bind_is_local:
  "getBinding (bind ch a g now r) ch' =
     (if ch' = ch then Some \<lparr>b_channelId = cr_channelId ch, b_serverId = cr_serverId ch, b_agentName = a,
        b_generation = g, b_boundAt = now, b_lastActivity = now\<rparr>
      else getBinding r ch')"
  by (simp add: getBinding_def bind_def)

lemma fold_raise_distinct:
  "distinct (keys m) \<Longrightarrow> generation_of (fold (\<lambda>(c, g). raise_counter c g) m r) k =
     (case map_of m k of None \<Rightarrow> generation_of r k | Some g \<Rightarrow> max (generation_of r k) g)"
proof (induction m arbitrary: r)
  case (Cons cg m)
  obtain c g where cg: "cg = (c, g)" by force
  have "c \<notin> set (keys m) \<Longrightarrow> map_of m c = None" by (simp add: map_of_eq_None_iff)
  then show ?case using Cons cg by (auto simp: gens.counter_raise split: option.split)
qed simp

text \<open>
  A restart keeps the counters. Hydrating a fresh router from what another exported
  gives every channel the same next generation.
\<close>

theorem restart_keeps_generations:
  assumes "distinct (keys (r_generations r))"
  shows "generation_of (hydrateGenerations (map (\<lambda>(c, g). (c, Some g)) (exportGenerations r)) (new_router config)) k =
    generation_of r k"
proof -
  have "concat (map (\<lambda>(c, g). case g of None \<Rightarrow> [] | Some n \<Rightarrow> [(c, n)]) (map (\<lambda>(c, g). (c, Some g)) m)) = m"
    for m :: "(jsstring \<times> nat) list"
    by (induction m) auto
  then show ?thesis
    using fold_raise_distinct [OF assms, of "new_router config" k]
    by (simp add: hydrate_raise exportGenerations_def new_router_def generation_of_def split: option.split)
qed

lemma restart_keeps_generations_witness:
  "generation_of (hydrateGenerations (map (\<lambda>(c, g). (c, Some g))
      (exportGenerations (bind (facts_channel dm_facts) (js ''x'') 4 0 (new_router plain_config))))
      (new_router plain_config)) (js ''D1'') = 4"
  by (subst restart_keeps_generations)
     (simp_all add: bind_def new_router_def generation_of_def facts_channel_def dm_facts_def)

end
