(* ===== verification/Record_Journal.thy ===== *)
theory Record_Journal
  imports Prelude
begin

section \<open>The record journal (src/record-journal.ts)\<close>

text \<open>
  An append-only journal of entries with checkpoints that bound its replay. Record ids are
  the numbers the code compares. What the store does with a call is the call's last
  argument: whether the store's own append threw, whether reading the returned reference or
  the durability barrier failed after it, or the record was written. The records a process
  sees are a list of ids and records.
\<close>

datatype ('e, 's) jrecord = Entry_Record 'e | Checkpoint_Record nat 's

record journal =
  lastEntryId :: nat
  sinceCheckpoint :: nat
  unreconciled :: bool
  unreadable :: bool

datatype journal_error =
    Store_Append_Failed
  | Failed_After_Append
  | Sync_Failed_Before
  | Needs_Reopen
  | Needs_Load
  | Record_Unreadable nat

datatype write_outcome = Append_Throws | Ref_Unreadable nat | Barrier_Fails nat | Written nat

definition new_journal :: journal where
  "new_journal = \<lparr>lastEntryId = 0, sinceCheckpoint = 0, unreconciled = False, unreadable = False\<rparr>"

definition entriesSinceCheckpoint :: "journal \<Rightarrow> nat" where
  "entriesSinceCheckpoint j = sinceCheckpoint j"

definition needsReconcile :: "journal \<Rightarrow> bool" where "needsReconcile j = unreconciled j"

definition needsReopen :: "journal \<Rightarrow> bool" where "needsReopen j = unreadable j"

subsection \<open>Writing\<close>

definition assertReconciled :: "journal \<Rightarrow> journal_error option" where
  "assertReconciled j =
     (if unreadable j then Some Needs_Reopen
      else if unreconciled j then Some Needs_Load else None)"

text \<open>\<open>write\<close>, with \<open>onWritten\<close> as the update it makes of the journal.\<close>

definition write_record ::
  "(nat \<Rightarrow> journal \<Rightarrow> journal) \<Rightarrow> write_outcome \<Rightarrow> journal \<Rightarrow> journal \<times> (journal_error + nat)" where
  "write_record onWritten out j =
     (case out of
        Append_Throws \<Rightarrow> (j\<lparr>unreadable := True\<rparr>, Inl Store_Append_Failed)
      | Ref_Unreadable i \<Rightarrow> (j\<lparr>unreconciled := True\<rparr>, Inl Failed_After_Append)
      | Barrier_Fails i \<Rightarrow> ((onWritten i j)\<lparr>unreconciled := True\<rparr>, Inl Failed_After_Append)
      | Written i \<Rightarrow> (onWritten i j, Inr i))"

definition entry_written :: "nat \<Rightarrow> journal \<Rightarrow> journal" where
  "entry_written i j =
     j\<lparr>lastEntryId := (if i > lastEntryId j then i else lastEntryId j),
       sinceCheckpoint := Suc (sinceCheckpoint j)\<rparr>"

text \<open>\<open>pre_sync\<close>: whether the barrier before the append, when asked for, succeeds.\<close>

definition append_entry ::
  "bool \<Rightarrow> bool \<Rightarrow> write_outcome \<Rightarrow> journal \<Rightarrow> journal \<times> (journal_error + nat)" where
  "append_entry afterCommittedState pre_sync out j =
     (case assertReconciled j of
        Some e \<Rightarrow> (j, Inl e)
      | None \<Rightarrow>
          if afterCommittedState \<and> \<not> pre_sync then (j, Inl Sync_Failed_Before)
          else write_record entry_written out j)"

definition checkpoint_written :: "nat \<Rightarrow> journal \<Rightarrow> journal" where
  "checkpoint_written i j = j\<lparr>sinceCheckpoint := 0\<rparr>"

text \<open>The payload a checkpoint writes, and the call.\<close>

definition checkpoint_payload :: "'s \<Rightarrow> journal \<Rightarrow> ('e, 's) jrecord" where
  "checkpoint_payload snapshot j = Checkpoint_Record (lastEntryId j) snapshot"

definition checkpoint :: "write_outcome \<Rightarrow> journal \<Rightarrow> journal \<times> (journal_error + nat)" where
  "checkpoint out j =
     (case assertReconciled j of
        Some e \<Rightarrow> (j, Inl e)
      | None \<Rightarrow> write_record checkpoint_written out j)"

subsection \<open>Loading\<close>

text \<open>The ids listed under each of the two record types, with what reading them gives.\<close>

fun entry_ids :: "(nat \<times> ('e, 's) jrecord) list \<Rightarrow> (nat \<times> 'e) list" where
  "entry_ids [] = []"
| "entry_ids ((i, Entry_Record e) # rs) = (i, e) # entry_ids rs"
| "entry_ids ((i, Checkpoint_Record t s) # rs) = entry_ids rs"

fun checkpoint_ids :: "(nat \<times> ('e, 's) jrecord) list \<Rightarrow> (nat \<times> nat \<times> 's) list" where
  "checkpoint_ids [] = []"
| "checkpoint_ids ((i, Entry_Record e) # rs) = checkpoint_ids rs"
| "checkpoint_ids ((i, Checkpoint_Record t s) # rs) = (i, t, s) # checkpoint_ids rs"

text \<open>The highest id wins.\<close>

fun latest_checkpoint :: "(nat \<times> 'c) list \<Rightarrow> (nat \<times> 'c) option \<Rightarrow> (nat \<times> 'c) option" where
  "latest_checkpoint [] best = best"
| "latest_checkpoint ((i, c) # cs) best =
     latest_checkpoint cs
       (case best of None \<Rightarrow> Some (i, c) | Some b \<Rightarrow> if i > fst b then Some (i, c) else best)"

record ('e, 's) journal_load =
  jl_snapshot :: "'s option"
  jl_entries :: "(nat \<times> 'e) list"

text \<open>
  \<open>readable\<close> says which records can be read; the load throws on the first it needs and
  cannot, and then leaves the journal as it was.
\<close>

definition load ::
  "(nat \<Rightarrow> bool) \<Rightarrow> (nat \<times> ('e, 's) jrecord) list \<Rightarrow> journal
    \<Rightarrow> journal \<times> (journal_error + ('e, 's) journal_load)" where
  "load readable log j =
     (let best = latest_checkpoint (checkpoint_ids log) None;
          through = (case best of None \<Rightarrow> 0 | Some (i, t, s) \<Rightarrow> t);
          snapshot = (case best of None \<Rightarrow> None | Some (i, t, s) \<Rightarrow> Some s);
          tail = sort_key fst (filter (\<lambda>(i, e). i > through) (entry_ids log));
          broken = (case best of None \<Rightarrow> [] | Some b \<Rightarrow> if readable (fst b) then [] else [fst b]) @
            filter (\<lambda>i. \<not> readable i) (map fst tail)
      in case broken of
           i # _ \<Rightarrow> (j, Inl (Record_Unreadable i))
         | [] \<Rightarrow> (j\<lparr>lastEntryId := (if length tail > 0 then fst (last tail) else through),
                   sinceCheckpoint := length tail, unreconciled := False\<rparr>,
                 Inr \<lparr>jl_snapshot = snapshot, jl_entries = tail\<rparr>))"

subsection \<open>The journal in its world\<close>

text \<open>
  One writer on one store: the records this process sees, those a failed append may have
  left in the store's log unseen, the journal, and the state its caller has reduced. The
  caller follows the protocol of the documentation: it reduces an entry when the append
  returned, checkpoints what it has reduced, and takes what a load gives. The store gives
  every record an id above all earlier ones.
\<close>

record ('e, 's) world =
  w_log :: "(nat \<times> ('e, 's) jrecord) list"
  w_hidden :: "(nat \<times> ('e, 's) jrecord) list"
  w_journal :: journal
  w_state :: 's

definition store_takes ::
  "write_outcome \<Rightarrow> bool \<Rightarrow> nat \<Rightarrow> ('e, 's) jrecord \<Rightarrow> ('e, 's) world \<Rightarrow> ('e, 's) world" where
  "store_takes out lost i r w =
     (if out = Append_Throws
      then (if lost then w else w\<lparr>w_hidden := w_hidden w @ [(i, r)]\<rparr>)
      else w\<lparr>w_log := w_log w @ [(i, r)]\<rparr>)"

definition do_append ::
  "('s \<Rightarrow> 'e \<Rightarrow> 's) \<Rightarrow> 'e \<Rightarrow> bool \<Rightarrow> bool \<Rightarrow> write_outcome \<Rightarrow> bool \<Rightarrow> nat \<Rightarrow> ('e, 's) world \<Rightarrow> ('e, 's) world" where
  "do_append red e aft pre out lost i w =
     (let (j, r) = append_entry aft pre out (w_journal w);
          w' = (case r of
              Inl Sync_Failed_Before \<Rightarrow> w
            | Inl Needs_Reopen \<Rightarrow> w
            | Inl Needs_Load \<Rightarrow> w
            | _ \<Rightarrow> store_takes out lost i (Entry_Record e) w)
      in w'\<lparr>w_journal := j, w_state := (case r of Inr _ \<Rightarrow> red (w_state w) e | Inl _ \<Rightarrow> w_state w)\<rparr>)"

definition do_checkpoint ::
  "write_outcome \<Rightarrow> bool \<Rightarrow> nat \<Rightarrow> ('e, 's) world \<Rightarrow> ('e, 's) world" where
  "do_checkpoint out lost i w =
     (let (j, r) = checkpoint out (w_journal w);
          w' = (case r of
              Inl Needs_Reopen \<Rightarrow> w
            | Inl Needs_Load \<Rightarrow> w
            | _ \<Rightarrow> store_takes out lost i (checkpoint_payload (w_state w) (w_journal w)) w)
      in w'\<lparr>w_journal := j\<rparr>)"

definition loaded_state :: "('s \<Rightarrow> 'e \<Rightarrow> 's) \<Rightarrow> 's \<Rightarrow> ('e, 's) journal_load \<Rightarrow> 's" where
  "loaded_state red s0 l =
     foldl red (case jl_snapshot l of None \<Rightarrow> s0 | Some s \<Rightarrow> s) (map snd (jl_entries l))"

definition do_load :: "('s \<Rightarrow> 'e \<Rightarrow> 's) \<Rightarrow> 's \<Rightarrow> (nat \<Rightarrow> bool) \<Rightarrow> ('e, 's) world \<Rightarrow> ('e, 's) world" where
  "do_load red s0 readable w =
     (case load readable (w_log w) (w_journal w) of
        (j, Inl e) \<Rightarrow> w
      | (j, Inr l) \<Rightarrow> w\<lparr>w_journal := j, w_state := loaded_state red s0 l\<rparr>)"

text \<open>Reopening the store shows what the log holds; the next journal loads before it writes.\<close>

definition do_reopen :: "('s \<Rightarrow> 'e \<Rightarrow> 's) \<Rightarrow> 's \<Rightarrow> ('e, 's) world \<Rightarrow> ('e, 's) world" where
  "do_reopen red s0 w =
     do_load red s0 (\<lambda>i. True) (w\<lparr>w_log := w_log w @ w_hidden w, w_hidden := [], w_journal := new_journal\<rparr>)"

definition fresh_id :: "nat \<Rightarrow> ('e, 's) world \<Rightarrow> bool" where
  "fresh_id i w \<longleftrightarrow> 0 < i \<and> (\<forall>k \<in> set (map fst (w_log w @ w_hidden w)). k < i)"

definition outcome_of :: "nat \<Rightarrow> write_outcome \<Rightarrow> bool" where
  "outcome_of i out \<longleftrightarrow> out \<in> {Append_Throws, Ref_Unreadable i, Barrier_Fails i, Written i}"

definition new_world :: "'s \<Rightarrow> ('e, 's) world" where
  "new_world s0 = \<lparr>w_log = [], w_hidden = [], w_journal = new_journal, w_state = s0\<rparr>"

inductive reachable :: "('s \<Rightarrow> 'e \<Rightarrow> 's) \<Rightarrow> 's \<Rightarrow> ('e, 's) world \<Rightarrow> bool" for red s0 where
  start: "reachable red s0 (new_world s0)"
| append: "reachable red s0 w \<Longrightarrow> fresh_id i w \<Longrightarrow> outcome_of i out \<Longrightarrow>
    reachable red s0 (do_append red e aft pre out lost i w)"
| checkpoint: "reachable red s0 w \<Longrightarrow> fresh_id i w \<Longrightarrow> outcome_of i out \<Longrightarrow>
    reachable red s0 (do_checkpoint out lost i w)"
| load: "reachable red s0 w \<Longrightarrow> reachable red s0 (do_load red s0 readable w)"
| reopen: "reachable red s0 w \<Longrightarrow> reachable red s0 (do_reopen red s0 w)"

subsection \<open>Replay\<close>

definition reduce :: "('s \<Rightarrow> 'e \<Rightarrow> 's) \<Rightarrow> 's \<Rightarrow> (nat \<times> 'e) list \<Rightarrow> 's" where
  "reduce red s0 es = foldl red s0 (map snd es)"

definition upto :: "nat \<Rightarrow> (nat \<times> 'e) list \<Rightarrow> (nat \<times> 'e) list" where
  "upto t es = filter (\<lambda>(i, e). i \<le> t) es"

lemma entry_ids_append [simp]: "entry_ids (xs @ ys) = entry_ids xs @ entry_ids ys"
  by (induction xs rule: entry_ids.induct) auto

lemma checkpoint_ids_append [simp]: "checkpoint_ids (xs @ ys) = checkpoint_ids xs @ checkpoint_ids ys"
  by (induction xs rule: checkpoint_ids.induct) auto

lemma entry_ids_mem: "(i, e) \<in> set (entry_ids log) \<Longrightarrow> i \<in> fst ` set log"
  by (induction log rule: entry_ids.induct) auto

lemma checkpoint_ids_mem: "(i, t, s) \<in> set (checkpoint_ids log) \<Longrightarrow> i \<in> fst ` set log"
  by (induction log rule: checkpoint_ids.induct) auto

lemma entry_ids_sorted: "sorted_wrt (<) (map fst log) \<Longrightarrow> sorted_wrt (<) (map fst (entry_ids log))"
  by (induction log rule: entry_ids.induct) (auto dest!: entry_ids_mem)

lemma latest_checkpoint_mem:
  "latest_checkpoint cs best = Some b \<Longrightarrow> b \<in> set cs \<or> best = Some b"
  by (induction cs best rule: latest_checkpoint.induct) (auto split: option.splits if_splits)

lemma split_at:
  "sorted_wrt (<) (map fst es) \<Longrightarrow> es = upto t es @ filter (\<lambda>(i, e). i > t) es"
proof (induction es)
  case (Cons ie es)
  obtain i e where ie: "ie = (i, e)" by force
  show ?case
  proof (cases "i \<le> t")
    case True
    then show ?thesis using Cons ie by (auto simp: upto_def)
  next
    case False
    then have "upto t es = []" using Cons.prems ie by (auto simp: upto_def filter_empty_conv)
    moreover have "filter (\<lambda>(i, e). i > t) es = es"
      using Cons.prems ie False by (auto intro!: filter_True)
    ultimately show ?thesis using False ie by (auto simp: upto_def)
  qed
qed (simp add: upto_def)

definition checkpoints_true :: "('s \<Rightarrow> 'e \<Rightarrow> 's) \<Rightarrow> 's \<Rightarrow> (nat \<times> ('e, 's) jrecord) list \<Rightarrow> bool" where
  "checkpoints_true red s0 log \<longleftrightarrow>
     (\<forall>(i, t, s) \<in> set (checkpoint_ids log). t < i \<and> s = reduce red s0 (upto t (entry_ids log)))"

lemma best_mem: "latest_checkpoint cs None = Some b \<Longrightarrow> b \<in> set cs"
  using latest_checkpoint_mem [of cs None b] by simp

lemma load_replay:
  assumes sorted: "sorted_wrt (<) (map fst log)" and pos: "\<forall>i \<in> fst ` set log. 0 < i"
    and cp: "checkpoints_true red s0 log"
    and l: "load readable log j = (j', Inr l)"
  shows "loaded_state red s0 l = reduce red s0 (entry_ids log) \<and>
    (\<forall>(i, e) \<in> set (entry_ids log). i \<le> lastEntryId j') \<and>
    (lastEntryId j' = 0 \<or> (\<exists>i \<in> fst ` set log. lastEntryId j' \<le> i)) \<and>
    \<not> unreconciled j' \<and> unreadable j' = unreadable j"
proof -
  let ?es = "entry_ids log"
  define best where "best = latest_checkpoint (checkpoint_ids log) None"
  define t where "t = (case best of None \<Rightarrow> 0 | Some (i, t, s) \<Rightarrow> t)"
  define tail where "tail = filter (\<lambda>(i, e). i > t) ?es"
  have es: "sorted_wrt (<) (map fst ?es)" using entry_ids_sorted [OF sorted] .
  have tail_sorted: "sorted_wrt (<) (map fst tail)"
    using es unfolding tail_def by (induction ?es) (auto simp: sorted_wrt_map sorted_wrt_filter)
  then have sk: "sort_key fst tail = tail"
    by (intro sort_key_id_if_sorted) (simp add: strict_sorted_imp_sorted)
  have j': "j' = j\<lparr>lastEntryId := (if length tail > 0 then fst (last tail) else t),
      sinceCheckpoint := length tail, unreconciled := False\<rparr>"
    and snap: "jl_snapshot l = (case best of None \<Rightarrow> None | Some (i, t, s) \<Rightarrow> Some s)"
    and ents: "jl_entries l = tail"
    using l sk by (auto simp: load_def Let_def best_def [symmetric] t_def [symmetric] tail_def [symmetric]
        split: list.splits)
  have split: "?es = upto t ?es @ tail" unfolding tail_def by (rule split_at [OF es])
  have state: "(case jl_snapshot l of None \<Rightarrow> s0 | Some s \<Rightarrow> s) = reduce red s0 (upto t ?es)"
  proof (cases best)
    case None
    have "upto t ?es = []" using pos None
      by (auto simp: upto_def t_def filter_empty_conv dest!: entry_ids_mem)
    then show ?thesis using None snap by (simp add: reduce_def)
  next
    case (Some b)
    then have "b \<in> set (checkpoint_ids log)" using latest_checkpoint_mem [of "checkpoint_ids log" None b] best_def by simp
    then show ?thesis using Some snap cp by (cases b) (auto simp: checkpoints_true_def t_def)
  qed
  have "loaded_state red s0 l = reduce red s0 (upto t ?es @ tail)"
    by (simp add: loaded_state_def state ents reduce_def)
  moreover have "i \<le> lastEntryId j'" if "(i, e) \<in> set ?es" for i e
  proof (cases "tail = []")
    case True
    then have "(i, e) \<in> set (upto t ?es)" using that split by (metis append_Nil2)
    then show ?thesis using True j' by (auto simp: upto_def)
  next
    case False
    have "(i, e) \<in> set (upto t ?es) \<or> (i, e) \<in> set tail" using that split by (metis Un_iff set_append)
    then show ?thesis
    proof
      assume "(i, e) \<in> set (upto t ?es)"
      moreover have "t < fst (last tail)" using False last_in_set [OF False] by (auto simp: tail_def)
      ultimately show ?thesis using j' False by (auto simp: upto_def)
    next
      assume "(i, e) \<in> set tail"
      then show ?thesis using False j' tail_sorted
        by (cases tail rule: rev_cases) (auto simp: sorted_wrt_append)
    qed
  qed
  moreover have "lastEntryId j' = 0 \<or> (\<exists>i \<in> fst ` set log. lastEntryId j' \<le> i)"
  proof (cases "tail = []")
    case False
    have "fst (last tail) \<in> fst ` set log"
      using last_in_set [OF False] entry_ids_mem by (fastforce simp: tail_def)
    moreover have "lastEntryId j' = fst (last tail)" using False j' by simp
    ultimately show ?thesis by (metis order_refl)
  next
    case True
    show ?thesis
    proof (cases best)
      case None
      then show ?thesis using True j' by (simp add: t_def)
    next
      case (Some b)
      obtain i t' s where b: "b = (i, t', s)" by (cases b)
      have "b \<in> set (checkpoint_ids log)" using Some latest_checkpoint_mem [of "checkpoint_ids log" None b] best_def by simp
      then have "t' < i" "i \<in> fst ` set log" using cp b checkpoint_ids_mem by (auto simp: checkpoints_true_def)
      moreover have "lastEntryId j' = t'" using True j' Some b by (simp add: t_def)
      ultimately show ?thesis by (metis less_imp_le)
    qed
  qed
  ultimately show ?thesis using split j' by auto
qed


subsection \<open>The invariant\<close>

definition all_records :: "('e, 's) world \<Rightarrow> (nat \<times> ('e, 's) jrecord) list" where
  "all_records w = w_log w @ w_hidden w"

definition jinv :: "('s \<Rightarrow> 'e \<Rightarrow> 's) \<Rightarrow> 's \<Rightarrow> ('e, 's) world \<Rightarrow> bool" where
  "jinv red s0 w \<longleftrightarrow>
     sorted_wrt (<) (map fst (all_records w)) \<and> (\<forall>i \<in> fst ` set (all_records w). 0 < i) \<and>
     checkpoints_true red s0 (all_records w) \<and>
     (\<not> unreadable (w_journal w) \<longrightarrow> w_hidden w = [] \<and>
       (\<not> unreconciled (w_journal w) \<longrightarrow>
         w_state w = reduce red s0 (entry_ids (w_log w)) \<and>
         (\<forall>(i, e) \<in> set (entry_ids (w_log w)). i \<le> lastEntryId (w_journal w)) \<and>
         (lastEntryId (w_journal w) = 0 \<or>
           (\<exists>i \<in> fst ` set (w_log w). lastEntryId (w_journal w) \<le> i))))"

lemma jinv_new: "jinv red s0 (new_world s0)"
  by (simp add: jinv_def all_records_def new_world_def new_journal_def checkpoints_true_def reduce_def)

lemma upto_snoc: "t < i \<Longrightarrow> upto t (es @ [(i, e)]) = upto t es"
  by (simp add: upto_def)

lemma upto_all: "\<forall>(i, e) \<in> set es. i \<le> t \<Longrightarrow> upto t es = es"
  by (auto simp: upto_def intro!: filter_True)

lemma true_snoc_entry:
  assumes "checkpoints_true red s0 log" "\<forall>k \<in> fst ` set log. k < i"
  shows "checkpoints_true red s0 (log @ [(i, Entry_Record e)])"
  using assms(1) unfolding checkpoints_true_def
proof (intro ballI, clarsimp)
  fix j t s
  assume "\<forall>x \<in> set (checkpoint_ids log). case x of (i, t, s) \<Rightarrow> t < i \<and> s = reduce red s0 (upto t (entry_ids log))"
    and m: "(j, t, s) \<in> set (checkpoint_ids log)"
  then have "t < j" "s = reduce red s0 (upto t (entry_ids log))" by auto
  moreover have "j < i" using checkpoint_ids_mem [OF m] assms(2) by auto
  ultimately show "t < j \<and> s = reduce red s0 (upto t (entry_ids log @ [(i, e)]))"
    by (simp add: upto_snoc)
qed

lemma true_snoc_checkpoint:
  assumes "checkpoints_true red s0 log" "t < i" "s = reduce red s0 (entry_ids log)"
    "\<forall>(k, e) \<in> set (entry_ids log). k \<le> t"
  shows "checkpoints_true red s0 (log @ [(i, Checkpoint_Record t s)])"
  using assms upto_all [OF assms(4)] by (auto simp: checkpoints_true_def)

lemma sorted_snoc:
  "sorted_wrt (<) (map fst log) \<Longrightarrow> \<forall>k \<in> fst ` set log. k < (i::nat) \<Longrightarrow>
     sorted_wrt (<) (map fst (log @ [(i, r)]))"
  by (auto simp: sorted_wrt_append)

lemma reduce_snoc: "reduce red s0 (es @ [(i, e)]) = red (reduce red s0 es) e"
  by (simp add: reduce_def)

text \<open>A write reaches the store only from a journal that is reconciled and readable.\<close>

lemma jinv_append:
  assumes I: "jinv red s0 w" and f: "fresh_id i w" and out: "outcome_of i out"
  shows "jinv red s0 (do_append red e aft pre out lost i w)"
proof (cases "unreadable (w_journal w) \<or> unreconciled (w_journal w) \<or> (aft \<and> \<not> pre)")
  case True
  then show ?thesis using I
    by (auto simp: do_append_def append_entry_def assertReconciled_def Let_def jinv_def all_records_def
        split: if_splits)
next
  case False
  have log: "all_records w = w_log w" "w_hidden w = []" "w_state w = reduce red s0 (entry_ids (w_log w))"
      "\<forall>(i, e) \<in> set (entry_ids (w_log w)). i \<le> lastEntryId (w_journal w)"
    using I False by (auto simp: jinv_def all_records_def)
  have fr: "0 < i" "\<forall>k \<in> fst ` set (w_log w). k < i" using f log by (auto simp: fresh_id_def)
  have last: "lastEntryId (w_journal w) < i" using I False fr by (auto simp: jinv_def)
  let ?L = "w_log w @ [(i, Entry_Record e)]"
  have new: "sorted_wrt (<) (map fst ?L)" "\<forall>k \<in> fst ` set ?L. 0 < k" "checkpoints_true red s0 ?L"
    using I log fr sorted_snoc [of "w_log w" i] true_snoc_entry [of red s0 "w_log w" i e]
    by (auto simp: jinv_def)
  consider "out = Append_Throws" | "out = Ref_Unreadable i" | "out = Barrier_Fails i" | "out = Written i"
    using out by (auto simp: outcome_of_def)
  then show ?thesis
  proof cases
    case 1
    then show ?thesis using False I log new
      by (auto simp: do_append_def append_entry_def assertReconciled_def Let_def jinv_def all_records_def
          write_record_def store_takes_def)
  next
    case 2
    then show ?thesis using False log new
      by (auto simp: do_append_def append_entry_def assertReconciled_def Let_def jinv_def all_records_def
          write_record_def store_takes_def)
  next
    case 3
    then show ?thesis using False log new
      by (auto simp: do_append_def append_entry_def assertReconciled_def Let_def jinv_def all_records_def
          write_record_def store_takes_def entry_written_def)
  next
    case 4
    then show ?thesis using False log new last
      by (auto simp: do_append_def append_entry_def assertReconciled_def Let_def jinv_def all_records_def
          write_record_def store_takes_def entry_written_def reduce_snoc)
  qed
qed

lemma jinv_checkpoint:
  assumes I: "jinv red s0 w" and f: "fresh_id i w" and out: "outcome_of i out"
  shows "jinv red s0 (do_checkpoint out lost i w)"
proof (cases "unreadable (w_journal w) \<or> unreconciled (w_journal w)")
  case True
  then show ?thesis using I
    by (auto simp: do_checkpoint_def checkpoint_def assertReconciled_def Let_def jinv_def all_records_def
        split: if_splits)
next
  case False
  have log: "all_records w = w_log w" "w_hidden w = []" "w_state w = reduce red s0 (entry_ids (w_log w))"
      "\<forall>(i, e) \<in> set (entry_ids (w_log w)). i \<le> lastEntryId (w_journal w)"
    using I False by (auto simp: jinv_def all_records_def)
  have fr: "0 < i" "\<forall>k \<in> fst ` set (w_log w). k < i" using f log by (auto simp: fresh_id_def)
  have last: "lastEntryId (w_journal w) < i" using I False fr by (auto simp: jinv_def)
  let ?r = "Checkpoint_Record (lastEntryId (w_journal w)) (w_state w)"
  let ?L = "w_log w @ [(i, ?r)]"
  have new: "sorted_wrt (<) (map fst ?L)" "\<forall>k \<in> fst ` set ?L. 0 < k" "checkpoints_true red s0 ?L"
    using I log fr last sorted_snoc [of "w_log w" i]
      true_snoc_checkpoint [of red s0 "w_log w" "lastEntryId (w_journal w)" i "w_state w"]
    by (auto simp: jinv_def)
  consider "out = Append_Throws" | "out = Ref_Unreadable i" | "out = Barrier_Fails i" | "out = Written i"
    using out by (auto simp: outcome_of_def)
  then show ?thesis
  proof cases
    case 1
    then show ?thesis using False I log new
      by (auto simp: do_checkpoint_def checkpoint_def assertReconciled_def Let_def jinv_def all_records_def
          write_record_def store_takes_def checkpoint_payload_def)
  next
    case 2
    then show ?thesis using False log new
      by (simp add: do_checkpoint_def checkpoint_def assertReconciled_def Let_def jinv_def all_records_def
          write_record_def store_takes_def checkpoint_payload_def)
  next
    case 3
    then show ?thesis using False log new
      by (simp add: do_checkpoint_def checkpoint_def assertReconciled_def Let_def jinv_def all_records_def
          write_record_def store_takes_def checkpoint_payload_def checkpoint_written_def)
  next
    case 4
    then show ?thesis using False I log new
      by (auto simp: do_checkpoint_def checkpoint_def assertReconciled_def Let_def jinv_def all_records_def
          write_record_def store_takes_def checkpoint_payload_def checkpoint_written_def)
  qed
qed


lemma true_prefix:
  assumes cp: "checkpoints_true red s0 (log @ hid)" and sorted: "sorted_wrt (<) (map fst (log @ hid))"
  shows "checkpoints_true red s0 log"
  unfolding checkpoints_true_def
proof (intro ballI, clarsimp)
  fix i t s assume m: "(i, t, s) \<in> set (checkpoint_ids log)"
  have 1: "t < i" "s = reduce red s0 (upto t (entry_ids log @ entry_ids hid))"
    using bspec [OF cp [unfolded checkpoints_true_def], of "(i, t, s)"] m by simp_all
  have "t < k" if "(k, e) \<in> set (entry_ids hid)" for k e
  proof -
    have "\<forall>x \<in> fst ` set log. \<forall>y \<in> fst ` set hid. x < y"
      using sorted by (auto simp: sorted_wrt_append)
    then have "i < k" using checkpoint_ids_mem [OF m] entry_ids_mem [OF that] by blast
    then show ?thesis using 1(1) by simp
  qed
  then have "upto t (entry_ids hid) = []" by (fastforce simp: upto_def filter_empty_conv)
  then show "t < i \<and> s = reduce red s0 (upto t (entry_ids log))"
    using 1 by (simp add: upto_def)
qed

lemma jinv_visible:
  assumes "jinv red s0 w"
  shows "sorted_wrt (<) (map fst (w_log w))" "\<forall>i \<in> fst ` set (w_log w). 0 < i"
    "checkpoints_true red s0 (w_log w)"
  using assms true_prefix [of red s0 "w_log w" "w_hidden w"]
  by (auto simp: jinv_def all_records_def sorted_wrt_append)

lemma jinv_load:
  assumes I: "jinv red s0 w"
  shows "jinv red s0 (do_load red s0 readable w)"
proof (cases "load readable (w_log w) (w_journal w)")
  case (Pair j r)
  show ?thesis
  proof (cases r)
    case (Inl e)
    then show ?thesis using I Pair by (simp add: do_load_def)
  next
    case (Inr l)
    note L = load_replay [OF jinv_visible [OF I], of readable "w_journal w" j l]
    have "do_load red s0 readable w = w\<lparr>w_journal := j, w_state := loaded_state red s0 l\<rparr>"
      using Pair Inr by (simp add: do_load_def)
    then show ?thesis using I L Pair Inr by (auto simp: jinv_def all_records_def)
  qed
qed

lemma load_all: "\<exists>j' l. load (\<lambda>i. True) log j = (j', Inr l)"
  by (cases "latest_checkpoint (checkpoint_ids log) None") (auto simp: load_def Let_def)

lemma jinv_reopen:
  assumes I: "jinv red s0 w"
  shows "jinv red s0 (do_reopen red s0 w)"
proof -
  let ?log = "w_log w @ w_hidden w"
  obtain j l where jl: "load (\<lambda>i. True) ?log new_journal = (j, Inr l)" using load_all by blast
  have all: "sorted_wrt (<) (map fst ?log)" "\<forall>i \<in> fst ` set ?log. 0 < i" "checkpoints_true red s0 ?log"
    using I by (auto simp: jinv_def all_records_def)
  note L = load_replay [OF all jl]
  have "do_reopen red s0 w =
      w\<lparr>w_log := ?log, w_hidden := [], w_journal := j, w_state := loaded_state red s0 l\<rparr>"
    by (simp add: do_reopen_def do_load_def jl)
  then show ?thesis using L all by (auto simp: jinv_def all_records_def)
qed

lemma reachable_inv: "reachable red s0 w \<Longrightarrow> jinv red s0 w"
  by (induction rule: reachable.induct)
     (simp_all add: jinv_new jinv_append jinv_checkpoint jinv_load jinv_reopen)


text \<open>
  C13: nothing appended is lost to a checkpoint. In every reachable world of one writer and
  its store, whatever writes failed and how, a load gives a snapshot and a tail that
  together reduce to exactly what all entries the process can see reduce to; and a journal
  that will write is one whose caller has reduced all of them.
\<close>

theorem load_replays_everything:
  assumes "reachable red s0 w" "load readable (w_log w) (w_journal w) = (j', Inr l)"
  shows "loaded_state red s0 l = reduce red s0 (entry_ids (w_log w)) \<and>
    (assertReconciled (w_journal w) = None \<longrightarrow> w_state w = reduce red s0 (entry_ids (w_log w)))"
  using load_replay [OF jinv_visible [OF reachable_inv [OF assms(1)]] assms(2)]
    reachable_inv [OF assms(1)]
  by (auto simp: jinv_def assertReconciled_def)

definition sample_world :: "(nat, nat list) world" where
  "sample_world =
     do_append (\<lambda>s e. s @ [e]) 8 False True (Barrier_Fails 3) False 3
       (do_checkpoint (Written 2) False 2
         (do_append (\<lambda>s e. s @ [e]) 7 False True (Written 1) False 1 (new_world [])))"

lemma load_replays_everything_witness:
  "w_state sample_world = [7] \<and>
   (case load (\<lambda>i. True) (w_log sample_world) (w_journal sample_world) of
      (j, Inl e) \<Rightarrow> False
    | (j, Inr l) \<Rightarrow> loaded_state (\<lambda>s e. s @ [e]) [] l = [7, 8])"
proof -
  have r1: "reachable (\<lambda>s e. s @ [e]) [] (do_append (\<lambda>s e. s @ [e]) (7::nat) False True (Written 1) False 1 (new_world []))"
    by (intro reachable.append reachable.start) (simp_all add: fresh_id_def new_world_def outcome_of_def)
  have r2: "reachable (\<lambda>s e. s @ [e]) [] (do_checkpoint (Written 2) False 2
      (do_append (\<lambda>s e. s @ [e]) (7::nat) False True (Written 1) False 1 (new_world [])))"
    by (intro reachable.checkpoint r1)
       (simp_all add: fresh_id_def outcome_of_def do_append_def append_entry_def assertReconciled_def
         new_world_def new_journal_def write_record_def store_takes_def entry_written_def)
  have r: "reachable (\<lambda>s e. s @ [e]) [] sample_world"
    unfolding sample_world_def
    by (intro reachable.append r2)
       (simp_all add: fresh_id_def outcome_of_def do_append_def append_entry_def assertReconciled_def
         do_checkpoint_def checkpoint_def checkpoint_written_def checkpoint_payload_def
         new_world_def new_journal_def write_record_def store_takes_def entry_written_def)
  obtain j l where jl: "load (\<lambda>i. True) (w_log sample_world) (w_journal sample_world) = (j, Inr l)"
    using load_all by blast
  have "w_state sample_world = [7]" by code_simp
  moreover have "reduce (\<lambda>s e. s @ [e]) [] (entry_ids (w_log sample_world)) = [7, 8]" by code_simp
  ultimately show ?thesis using load_replays_everything [OF r jl] jl by simp
qed

lemma load_flags:
  "load readable log j = (j', Inr l) \<Longrightarrow> unreadable j' = unreadable j \<and> \<not> unreconciled j'"
  by (auto simp: load_def Let_def split: list.splits)



end
