(* ===== verification/Line_Reader.thy ===== *)
theory Line_Reader
  imports Prelude
begin

section \<open>Line reading (src/line-reader.ts)\<close>

text \<open>
  Lines from a stream of decoded ch: ended by a line feed, a carriage return, or the two
  together even when a chunk ends between them. A chunk is the ch node's decoder gave.
  What the handlers were called with is the list of events; a line's handler may call the
  returned \<open>stop\<close>, which \<open>stops\<close> decides from the lines delivered so far.
\<close>

datatype line_event = Line jsstring | Too_Long nat | End_Of_Input

record line_reader =
  lr_partial :: jsstring
  lr_endedAtCr :: bool
  lr_stopped :: bool
  lr_events :: "line_event list"

definition new_reader :: line_reader where
  "new_reader = \<lparr>lr_partial = [], lr_endedAtCr = False, lr_stopped = False, lr_events = []\<rparr>"

definition refuse :: "nat \<Rightarrow> line_reader \<Rightarrow> line_reader" where
  "refuse maxChars r =
     r\<lparr>lr_stopped := True, lr_partial := [], lr_events := lr_events r @ [Too_Long maxChars]\<rparr>"

definition deliver :: "(line_event list \<Rightarrow> bool) \<Rightarrow> jsstring \<Rightarrow> line_reader \<Rightarrow> line_reader" where
  "deliver stops line r =
     (let es = lr_events r @ [Line line] in
      r\<lparr>lr_events := es, lr_stopped := (lr_stopped r \<or> stops es)\<rparr>)"

text \<open>The loop over one chunk, from index \<open>i\<close> with the current line begun at \<open>from\<close>.\<close>

function take_loop ::
  "(line_event list \<Rightarrow> bool) \<Rightarrow> nat \<Rightarrow> jsstring \<Rightarrow> nat \<Rightarrow> nat \<Rightarrow> line_reader \<Rightarrow> line_reader" where
  "take_loop stops maxChars ch start i r =
     (if i < length ch \<and> \<not> lr_stopped r then
        (if ch ! i \<noteq> LF \<and> ch ! i \<noteq> CR then take_loop stops maxChars ch start (Suc i) r
         else if length (lr_partial r) + (i - start) > maxChars then refuse maxChars r
         else
           (let line = lr_partial r @ take (i - start) (drop start ch);
                atEnd = (ch ! i = CR \<and> i + 1 = length ch);
                i' = (if ch ! i = CR \<and> i + 1 \<noteq> length ch \<and> ch ! (i + 1) = LF then i + 1 else i);
                r' = r\<lparr>lr_partial := [], lr_endedAtCr := (atEnd \<or> lr_endedAtCr r)\<rparr>
            in take_loop stops maxChars ch (i' + 1) (i' + 1) (deliver stops line r')))
      else if lr_stopped r then r
      else if length (lr_partial r) + (length ch - start) > maxChars then refuse maxChars r
      else r\<lparr>lr_partial := lr_partial r @ drop start ch\<rparr>)"
  by pat_completeness auto
termination
  by (relation "measure (\<lambda>(stops, maxChars, ch, start, i, r). length ch - i)") (auto simp: Let_def)

declare take_loop.simps [simp del]

definition take_text :: "(line_event list \<Rightarrow> bool) \<Rightarrow> nat \<Rightarrow> jsstring \<Rightarrow> line_reader \<Rightarrow> line_reader" where
  "take_text stops maxChars ch r =
     (if lr_endedAtCr r \<and> length ch > 0 then
        (let start = (if ch ! 0 = LF then 1 else 0)
         in take_loop stops maxChars ch start start (r\<lparr>lr_endedAtCr := False\<rparr>))
      else take_loop stops maxChars ch 0 0 r)"

text \<open>Once stopped the stream's handlers are taken off it.\<close>

definition onData :: "(line_event list \<Rightarrow> bool) \<Rightarrow> nat \<Rightarrow> jsstring \<Rightarrow> line_reader \<Rightarrow> line_reader" where
  "onData stops maxChars ch r = (if lr_stopped r then r else take_text stops maxChars ch r)"

definition onStreamEnd :: "(line_event list \<Rightarrow> bool) \<Rightarrow> nat \<Rightarrow> jsstring \<Rightarrow> line_reader \<Rightarrow> line_reader" where
  "onStreamEnd stops maxChars rest r =
     (if lr_stopped r then r
      else
        (let r1 = take_text stops maxChars rest r;
             r2 = (if \<not> lr_stopped r1 \<and> length (lr_partial r1) > 0
               then deliver stops (lr_partial r1) (r1\<lparr>lr_partial := []\<rparr>) else r1)
         in if lr_stopped r2 then r2
            else r2\<lparr>lr_stopped := True, lr_events := lr_events r2 @ [End_Of_Input]\<rparr>))"

text \<open>Every U+2028 and then every U+2029 is replaced by its JSON escape.\<close>

definition escapeLineSeparators :: "jsstring \<Rightarrow> jsstring" where
  "escapeLineSeparators json =
     concat (map (\<lambda>c. if c = 0x2029 then 0x5C # js ''u2029'' else [c])
       (concat (map (\<lambda>c. if c = 0x2028 then 0x5C # js ''u2028'' else [c]) json)))"

subsection \<open>One unit at a time\<close>

text \<open>The same reader fed unit by unit: what chunks must not be able to change.\<close>

definition unit_step :: "(line_event list \<Rightarrow> bool) \<Rightarrow> nat \<Rightarrow> code_unit \<Rightarrow> line_reader \<Rightarrow> line_reader" where
  "unit_step stops maxChars c r =
     (if lr_stopped r then r
      else if lr_endedAtCr r \<and> c = LF then r\<lparr>lr_endedAtCr := False\<rparr>
      else if c = LF \<or> c = CR then
        deliver stops (lr_partial r) (r\<lparr>lr_partial := [], lr_endedAtCr := (c = CR)\<rparr>)
      else if length (lr_partial r) + 1 > maxChars then refuse maxChars (r\<lparr>lr_endedAtCr := False\<rparr>)
      else r\<lparr>lr_partial := lr_partial r @ [c], lr_endedAtCr := False\<rparr>)"

text \<open>Equal but for the flag of a reader that has stopped, which nothing reads.\<close>

definition same_reader :: "line_reader \<Rightarrow> line_reader \<Rightarrow> bool" where
  "same_reader a b \<longleftrightarrow> lr_events a = lr_events b \<and> lr_stopped a = lr_stopped b \<and>
     lr_partial a = lr_partial b \<and> (\<not> lr_stopped a \<longrightarrow> lr_endedAtCr a = lr_endedAtCr b)"

lemma fold_stopped: "lr_stopped r \<Longrightarrow> fold (unit_step stops m) ch r = r"
  by (induction ch) (auto simp: unit_step_def)

lemma deliver_simps [simp]:
  "lr_partial (deliver stops l r) = lr_partial r" "lr_endedAtCr (deliver stops l r) = lr_endedAtCr r"
  "lr_events (deliver stops l r) = lr_events r @ [Line l]"
  "lr_stopped (deliver stops l r) \<longleftrightarrow> lr_stopped r \<or> stops (lr_events r @ [Line l])"
  by (simp_all add: deliver_def Let_def)

lemma deliver_flag: "(deliver stops l r)\<lparr>lr_endedAtCr := e\<rparr> = deliver stops l (r\<lparr>lr_endedAtCr := e\<rparr>)"
  by (simp add: deliver_def Let_def)

lemma flag_false [simp]: "\<not> lr_endedAtCr r \<Longrightarrow> r\<lparr>lr_endedAtCr := False\<rparr> = r"
  by (cases r) simp

text \<open>Reading units that end no line.\<close>

lemma fold_plain:
  "\<forall>c \<in> set us. c \<noteq> LF \<and> c \<noteq> CR \<Longrightarrow> \<not> lr_stopped r \<Longrightarrow> \<not> lr_endedAtCr r \<Longrightarrow> length (lr_partial r) \<le> m \<Longrightarrow>
     fold (unit_step stops m) us r =
       (if length (lr_partial r) + length us > m then refuse m r else r\<lparr>lr_partial := lr_partial r @ us\<rparr>)"
proof (induction us arbitrary: r)
  case (Cons c us)
  show ?case
  proof (cases "length (lr_partial r) + 1 > m")
    case True
    then have "unit_step stops m c r = refuse m r" using Cons.prems by (simp add: unit_step_def)
    then show ?thesis using True by (simp add: fold_stopped refuse_def)
  next
    case False
    then have "unit_step stops m c r = r\<lparr>lr_partial := lr_partial r @ [c]\<rparr>"
      using Cons.prems by (simp add: unit_step_def)
    then show ?thesis using False Cons.prems Cons.IH [of "r\<lparr>lr_partial := lr_partial r @ [c]\<rparr>"]
      by (auto simp: refuse_def)
  qed
qed simp

text \<open>The flag is only read by the next unit, and only if that is a line feed.\<close>

lemma flag_unread:
  "lr_stopped r \<or> (us \<noteq> [] \<and> hd us \<noteq> LF) \<Longrightarrow>
     same_reader (fold (unit_step stops m) us (r\<lparr>lr_endedAtCr := a\<rparr>))
       (fold (unit_step stops m) us (r\<lparr>lr_endedAtCr := b\<rparr>))"
proof (cases "lr_stopped r")
  case True
  then show ?thesis by (simp add: fold_stopped same_reader_def)
next
  case False
  assume "lr_stopped r \<or> (us \<noteq> [] \<and> hd us \<noteq> LF)"
  with False obtain c cs where us: "us = c # cs" "c \<noteq> LF" by (cases us) auto
  have "unit_step stops m c (r\<lparr>lr_endedAtCr := a\<rparr>) = unit_step stops m c (r\<lparr>lr_endedAtCr := b\<rparr>)"
    using False us(2) by (simp add: unit_step_def)
  then show ?thesis by (simp add: us(1) same_reader_def)
qed

lemma flag_unread_deliver:
  "us \<noteq> [] \<Longrightarrow> hd us \<noteq> LF \<Longrightarrow>
     same_reader (fold (unit_step stops m) us (deliver stops' l (r\<lparr>lr_partial := [], lr_endedAtCr := a\<rparr>)))
       (fold (unit_step stops m) us (deliver stops' l (r\<lparr>lr_partial := [], lr_endedAtCr := b\<rparr>)))"
  using flag_unread [of "deliver stops' l (r\<lparr>lr_partial := []\<rparr>)" us stops m a b]
  by (simp add: deliver_flag)

lemma same_reader_refl [simp]: "same_reader r r"
  by (simp add: same_reader_def)

lemma same_reader_trans: "same_reader a b \<Longrightarrow> same_reader b c \<Longrightarrow> same_reader a c"
  by (auto simp: same_reader_def)

lemma split_at_index:
  "start \<le> i \<Longrightarrow> i < length ch \<Longrightarrow>
     drop start ch = take (i - start) (drop start ch) @ ch ! i # drop (Suc i) ch"
  by (metis Cons_nth_drop_Suc append_take_drop_id drop_drop le_add_diff_inverse2)

lemma take_loop_units:
  assumes "\<forall>k. start \<le> k \<and> k < i \<longrightarrow> ch ! k \<noteq> LF \<and> ch ! k \<noteq> CR" "start \<le> i" "i \<le> length ch"
    "length (lr_partial r) \<le> m" "lr_endedAtCr r \<longrightarrow> start = length ch"
  shows "same_reader (take_loop stops m ch start i r) (fold (unit_step stops m) (drop start ch) r)"
  using assms
proof (induction "length ch - i" arbitrary: start i r rule: less_induct)
  case less
  let ?F = "fold (unit_step stops m)"
  let ?us = "take (i - start) (drop start ch)"
  have plain: "\<forall>c \<in> set ?us. c \<noteq> LF \<and> c \<noteq> CR"
  proof
    fix c assume "c \<in> set ?us"
    then obtain k where "k < i - start" "c = ch ! (start + k)"
      using less.prems(2,3) by (auto simp: in_set_conv_nth)
    then show "c \<noteq> LF \<and> c \<noteq> CR" using less.prems(1) by auto
  qed
  have len: "length ?us = i - start" using less.prems(2,3) by simp
  consider (stopped) "lr_stopped r" | (at_end) "\<not> lr_stopped r" "i = length ch"
    | (plain) "\<not> lr_stopped r" "i < length ch" "ch ! i \<noteq> LF" "ch ! i \<noteq> CR"
    | (line) "\<not> lr_stopped r" "i < length ch" "ch ! i = LF \<or> ch ! i = CR"
    using less.prems(3) by linarith
  then show ?case
  proof cases
    case stopped
    then show ?thesis by (simp add: take_loop.simps fold_stopped)
  next
    case at_end
    show ?thesis
    proof (cases "lr_endedAtCr r")
      case True
      then have "start = length ch" using less.prems(5) by blast
      then show ?thesis using at_end less.prems(4) by (simp add: take_loop.simps same_reader_def)
    next
      case False
      have us: "?us = drop start ch" using at_end by simp
      show ?thesis using at_end fold_plain [OF plain at_end(1) False less.prems(4), of stops]
        by (simp add: us take_loop.simps [of stops m ch start "length ch"])
    qed
  next
    case plain
    have "same_reader (take_loop stops m ch start (Suc i) r) (?F (drop start ch) r)"
      using less.prems plain by (intro less.hyps) (auto simp: less_Suc_eq)
    then show ?thesis using plain by (simp add: take_loop.simps [of stops m ch start i])
  next
    case line
    have flag: "\<not> lr_endedAtCr r" using less.prems(2,5) line(2) by auto
    have split: "?F (drop start ch) r = ?F (drop (Suc i) ch) (unit_step stops m (ch ! i) (?F ?us r))"
      by (subst split_at_index [OF less.prems(2) line(2)]) simp
    note us = fold_plain [OF \<open>\<forall>c \<in> set ?us. c \<noteq> LF \<and> c \<noteq> CR\<close> line(1) flag less.prems(4), of stops]
    show ?thesis
    proof (cases "length (lr_partial r) + (i - start) > m")
      case True
      then have "?F (drop start ch) r = refuse m r"
        unfolding split us len by (simp add: unit_step_def refuse_def fold_stopped)
      then show ?thesis using True line by (auto simp: take_loop.simps [of stops m ch start i])
    next
      case False
      let ?d = "\<lambda>e. deliver stops (lr_partial r @ ?us) (r\<lparr>lr_partial := [], lr_endedAtCr := e\<rparr>)"
      have ref: "?F (drop start ch) r = ?F (drop (Suc i) ch) (?d (ch ! i = CR))"
        using False line flag unfolding split us len by (auto simp: unit_step_def)
      have IH: "same_reader (take_loop stops m ch j j (?d e)) (?F (drop j ch) (?d e))"
        if "i < j" "j \<le> length ch" "e \<longrightarrow> j = length ch" for j e
        using that by (intro less.hyps) auto
      have code: "take_loop stops m ch start i r =
          (let j = (if ch ! i = CR \<and> i + 1 \<noteq> length ch \<and> ch ! (i + 1) = LF then i + 1 else i)
           in take_loop stops m ch (j + 1) (j + 1) (?d (ch ! i = CR \<and> i + 1 = length ch)))"
        using False line flag by (subst take_loop.simps) (auto simp: Let_def)
      consider (lf) "ch ! i = LF" | (last) "ch ! i = CR" "i + 1 = length ch"
        | (crlf) "ch ! i = CR" "i + 1 < length ch" "ch ! (i + 1) = LF"
        | (cr) "ch ! i = CR" "i + 1 < length ch" "ch ! (i + 1) \<noteq> LF"
        using line by linarith
      then show ?thesis
      proof cases
        case lf
        then show ?thesis using IH [of "Suc i" False] line by (simp add: code ref Let_def)
      next
        case last
        then show ?thesis using IH [of "Suc i" True] line by (simp add: code ref Let_def)
      next
        case crlf
        have "drop (Suc i) ch = LF # drop (Suc (Suc i)) ch"
          using crlf by (metis Cons_nth_drop_Suc Suc_eq_plus1)
        then have "?F (drop (Suc i) ch) (?d True) = ?F (drop (Suc (Suc i)) ch) (unit_step stops m LF (?d True))"
          by simp
        moreover have "same_reader (?F (drop (Suc (Suc i)) ch) (?d False))
            (?F (drop (Suc (Suc i)) ch) (unit_step stops m LF (?d True)))"
        proof (cases "lr_stopped (?d True)")
          case True
          then have "lr_stopped (?d False)" by (simp add: deliver_def Let_def)
          then show ?thesis using True
            by (simp add: fold_stopped unit_step_def) (simp add: deliver_def Let_def same_reader_def)
        next
          case False
          then have "unit_step stops m LF (?d True) = ?d False"
            by (simp add: unit_step_def deliver_flag)
          then show ?thesis by simp
        qed
        ultimately show ?thesis
          using IH [of "Suc (Suc i)" False] crlf by (auto simp: code ref Let_def intro: same_reader_trans)
      next
        case cr
        have hd: "drop (Suc i) ch \<noteq> []" "hd (drop (Suc i) ch) \<noteq> LF"
          using cr by (simp_all add: hd_drop_conv_nth)
        have "same_reader (?F (drop (Suc i) ch) (?d False)) (?F (drop (Suc i) ch) (?d True))"
          using hd by (intro flag_unread_deliver)
        then show ?thesis
          using IH [of "Suc i" False] cr by (auto simp: code ref Let_def intro: same_reader_trans)
      qed
    qed
  qed
qed

subsection \<open>Chunks\<close>

lemma same_fold: "same_reader a b \<Longrightarrow> same_reader (fold (unit_step stops m) us a) (fold (unit_step stops m) us b)"
proof (cases "lr_stopped a")
  case True
  assume "same_reader a b"
  with True show ?thesis by (simp add: fold_stopped same_reader_def)
next
  case False
  assume "same_reader a b"
  with False have "a = b" by (cases a, cases b) (simp add: same_reader_def)
  then show ?thesis by simp
qed

lemma onData_units:
  assumes "length (lr_partial r) \<le> m"
  shows "same_reader (onData stops m ch r) (fold (unit_step stops m) ch r)"
proof (cases "lr_stopped r")
  case True
  then show ?thesis by (simp add: onData_def fold_stopped)
next
  case False
  show ?thesis
  proof (cases "lr_endedAtCr r \<and> ch \<noteq> []")
    case True
    let ?r = "r\<lparr>lr_endedAtCr := False\<rparr>"
    have rT: "r\<lparr>lr_endedAtCr := True\<rparr> = r" using True by (cases r) simp
    show ?thesis
    proof (cases "ch ! 0 = LF")
      case LF: True
      have cs: "ch = LF # drop 1 ch" using LF True by (cases ch) auto
      have "fold (unit_step stops m) ch r = fold (unit_step stops m) (drop 1 ch) ?r"
        using True False by (subst cs) (simp add: unit_step_def)
      then show ?thesis
        using take_loop_units [of 1 1 ch ?r m stops] assms True False LF
        by (cases ch) (auto simp: onData_def take_text_def Let_def)
    next
      case noLF: False
      have "same_reader (fold (unit_step stops m) ch ?r) (fold (unit_step stops m) ch r)"
        using flag_unread [of r ch stops m False True] True noLF rT by (cases ch) auto
      then show ?thesis
        using take_loop_units [of 0 0 ch ?r m stops] assms True False noLF
        by (auto simp: onData_def take_text_def Let_def intro: same_reader_trans)
    qed
  next
    case plain: False
    then show ?thesis
      using take_loop_units [of 0 0 ch r m stops] assms False
      by (auto simp: onData_def take_text_def)
  qed
qed

lemma unit_step_partial: "length (lr_partial r) \<le> m \<Longrightarrow> length (lr_partial (unit_step stops m c r)) \<le> m"
  by (auto simp: unit_step_def refuse_def)

lemma fold_unit_partial: "length (lr_partial r) \<le> m \<Longrightarrow> length (lr_partial (fold (unit_step stops m) us r)) \<le> m"
  by (induction us arbitrary: r) (auto simp: unit_step_partial)

lemma chunks_units:
  "same_reader (fold (onData stops m) chunks new_reader) (fold (unit_step stops m) (concat chunks) new_reader)"
proof (induction chunks rule: rev_induct)
  case (snoc ch chunks)
  let ?r = "fold (onData stops m) chunks new_reader"
  have "lr_partial ?r = lr_partial (fold (unit_step stops m) (concat chunks) new_reader)"
    using snoc by (simp add: same_reader_def)
  then have "length (lr_partial ?r) \<le> m" by (simp add: fold_unit_partial new_reader_def)
  then show ?case
    using same_reader_trans [OF onData_units [of ?r m stops ch] same_fold [OF snoc]] by simp
qed simp

definition end_step :: "(line_event list \<Rightarrow> bool) \<Rightarrow> line_reader \<Rightarrow> line_reader" where
  "end_step stops r =
     (if lr_stopped r then r
      else
        (let r2 = (if lr_partial r \<noteq> [] then deliver stops (lr_partial r) (r\<lparr>lr_partial := []\<rparr>) else r)
         in if lr_stopped r2 then r2
            else r2\<lparr>lr_stopped := True, lr_events := lr_events r2 @ [End_Of_Input]\<rparr>))"

lemma onStreamEnd_split: "onStreamEnd stops m rest r = end_step stops (onData stops m rest r)"
  by (simp add: onStreamEnd_def end_step_def onData_def Let_def)

lemma end_step_same: "same_reader a b \<Longrightarrow> lr_events (end_step stops a) = lr_events (end_step stops b)"
  by (auto simp: end_step_def same_reader_def Let_def deliver_def)

text \<open>Everything a run shows: what its handlers were called with.\<close>

definition read_chunks :: "(line_event list \<Rightarrow> bool) \<Rightarrow> nat \<Rightarrow> jsstring list \<Rightarrow> jsstring \<Rightarrow> line_event list" where
  "read_chunks stops m chunks rest = lr_events (onStreamEnd stops m rest (fold (onData stops m) chunks new_reader))"

lemma read_chunks_units:
  "read_chunks stops m chunks rest =
     lr_events (end_step stops (fold (unit_step stops m) (concat chunks @ rest) new_reader))"
  using end_step_same [OF chunks_units [of stops m "chunks @ [rest]"]]
  by (simp add: read_chunks_def onStreamEnd_split)

text \<open>
  Where the input is cut into chunks does not matter: two runs over the same text call
  the handlers with the same lines, the same refusal and the same end, also when a chunk ends
  between a carriage return and its line feed, and whenever a handler stops the reader.
\<close>

theorem chunking_invisible:
  assumes "concat chunks @ rest = concat chunks' @ rest'"
  shows "read_chunks stops m chunks rest = read_chunks stops m chunks' rest'"
  using assms by (simp add: read_chunks_units)

theorem chunking_invisible_witness:
  "read_chunks (\<lambda>es. False) 9 [[0x61, CR], [LF, 0x62]] [] = read_chunks (\<lambda>es. False) 9 [] [0x61, CR, LF, 0x62]"
  by (rule chunking_invisible) simp

subsection \<open>The lines of a text\<close>

fun text_lines :: "jsstring \<Rightarrow> jsstring \<Rightarrow> jsstring list" where
  "text_lines p [] = (if p = [] then [] else [p])"
| "text_lines p (c # cs) =
     (if c = LF then p # text_lines [] cs
      else if c = CR then p # text_lines [] (drop (if cs \<noteq> [] \<and> hd cs = LF then 1 else 0) cs)
      else text_lines (p @ [c]) cs)"

lemma text_lines_first: "\<exists>q ls. text_lines p cs = (p @ q) # ls \<or> (p = [] \<and> text_lines p cs = [])"
proof (induction p cs rule: text_lines.induct)
  case (2 p c cs)
  then show ?case by (auto simp: Cons_eq_append_conv)
qed auto

text \<open>Reading on with \<open>p\<close> held adds the lines of the rest, and the end.\<close>

lemma units_lines:
  "lr_stopped r = False \<Longrightarrow> lr_endedAtCr r = False \<Longrightarrow> \<forall>l \<in> set (text_lines (lr_partial r) us). length l \<le> m \<Longrightarrow>
     lr_events (end_step (\<lambda>_. False) (fold (unit_step (\<lambda>_. False) m) us r)) =
       lr_events r @ map Line (text_lines (lr_partial r) us) @ [End_Of_Input]"
proof (induction "lr_partial r" us arbitrary: r rule: text_lines.induct)
  case 1
  then show ?case by (auto simp: end_step_def deliver_def Let_def)
next
  case (2 c cs)
  let ?d = "\<lambda>e. deliver (\<lambda>_. False) (lr_partial r) (r\<lparr>lr_partial := [], lr_endedAtCr := e\<rparr>)"
  have d: "lr_stopped (?d e) = False" "lr_events (?d e) = lr_events r @ [Line (lr_partial r)]" for e
    using 2 by (simp_all add: deliver_def Let_def)
  consider (lf) "c = LF" | (cr) "c = CR" | (other) "c \<noteq> LF" "c \<noteq> CR" by blast
  then show ?case
  proof cases
    case lf
    then show ?thesis using "2.hyps"(1) [of "?d False"] "2.prems" by (simp add: d unit_step_def)
  next
    case cr
    then have noLF: "c \<noteq> LF" by simp
    let ?r = "drop (if cs \<noteq> [] \<and> hd cs = LF then 1 else 0) cs"
    have IH: "lr_events (end_step (\<lambda>_. False) (fold (unit_step (\<lambda>_. False) m) ?r (?d False))) =
        lr_events r @ Line (lr_partial r) # map Line (text_lines [] ?r) @ [End_Of_Input]"
      using "2.hyps"(2) [OF noLF cr, of "?d False"] "2.prems" cr by (simp add: d)
    have step: "unit_step (\<lambda>_. False) m c r = ?d True" using cr "2.prems" by (simp add: unit_step_def)
    have "same_reader (fold (unit_step (\<lambda>_. False) m) cs (?d True)) (fold (unit_step (\<lambda>_. False) m) ?r (?d False))" if "cs \<noteq> []"
    proof (cases cs)
      case (Cons a ds)
      show ?thesis
      proof (cases "a = LF")
        case True
        have "unit_step (\<lambda>_. False) m LF (?d True) = ?d False"
          using "2.prems" by (simp add: unit_step_def d deliver_flag)
        then show ?thesis by (simp add: Cons True)
      next
        case False
        then have "?r = cs" by (simp add: Cons)
        then show ?thesis using False Cons by (simp only:) (intro flag_unread_deliver, auto)
      qed
    qed (use that in simp)
    moreover have "lr_events (end_step (\<lambda>_. False) (?d True)) = lr_events (end_step (\<lambda>_. False) (?d False))"
      by (simp add: end_step_def deliver_def Let_def)
    ultimately have "lr_events (end_step (\<lambda>_. False) (fold (unit_step (\<lambda>_. False) m) cs (?d True))) =
        lr_events (end_step (\<lambda>_. False) (fold (unit_step (\<lambda>_. False) m) ?r (?d False)))"
      by (cases "cs = []") (auto intro: end_step_same)
    then show ?thesis using IH step cr by simp
  next
    case other
    obtain q ls where "text_lines (lr_partial r @ [c]) cs = ((lr_partial r @ [c]) @ q) # ls"
      using text_lines_first [of "lr_partial r @ [c]" cs] by auto
    then have "length (lr_partial r) + 1 \<le> m" using "2.prems" other by auto
    then have "unit_step (\<lambda>_. False) m c r = r\<lparr>lr_partial := lr_partial r @ [c]\<rparr>"
      using other "2.prems" by (simp add: unit_step_def)
    then show ?thesis
      using "2.hyps"(3) [of "r\<lparr>lr_partial := lr_partial r @ [c]\<rparr>"] other "2.prems" by simp
  qed
qed

text \<open>
  C25: a text whose lines all fit is delivered as exactly its lines, ended by LF, CR or CRLF
  each, a last unended one included, and then its end, however it was cut into chunks.
\<close>

theorem lines_delivered:
  assumes "\<forall>l \<in> set (text_lines [] (concat chunks @ rest)). length l \<le> m"
  shows "read_chunks (\<lambda>_. False) m chunks rest =
    map Line (text_lines [] (concat chunks @ rest)) @ [End_Of_Input]"
  using units_lines [of new_reader "concat chunks @ rest" m] assms
  by (simp add: read_chunks_units new_reader_def)

theorem lines_delivered_witness:
  "read_chunks (\<lambda>_. False) 2 [[0x61, CR], [LF, CR, 0x62]] [] =
     [Line [0x61], Line [], Line [0x62], End_Of_Input]"
  using lines_delivered [of "[[0x61, CR], [LF, CR, 0x62]]" "[]" 2] by simp

text \<open>Lengths, and what comes last.\<close>

definition short_lines :: "nat \<Rightarrow> line_reader \<Rightarrow> bool" where
  "short_lines m r \<longleftrightarrow> length (lr_partial r) \<le> m \<and> (\<forall>l. Line l \<in> set (lr_events r) \<longrightarrow> length l \<le> m)
     \<and> (\<not> lr_stopped r \<longrightarrow> (\<forall>e \<in> set (lr_events r). \<exists>l. e = Line l))
     \<and> (\<forall>e \<in> set (butlast (lr_events r)). \<exists>l. e = Line l)"

lemma short_lines_step: "short_lines m r \<Longrightarrow> short_lines m (unit_step stops m c r)"
  by (auto simp: short_lines_def unit_step_def refuse_def deliver_def Let_def)

lemma short_lines_units: "short_lines m r \<Longrightarrow> short_lines m (fold (unit_step stops m) us r)"
  by (induction us arbitrary: r) (auto simp: short_lines_step)

lemma short_lines_end: "short_lines m r \<Longrightarrow> short_lines m (end_step stops r)"
  by (auto simp: short_lines_def end_step_def deliver_def Let_def)

text \<open>
  Whatever the chunks and the handlers, no line longer than the limit is delivered, and
  nothing follows a refusal or the end.
\<close>

theorem delivered_bounded:
  "(\<forall>l \<in> set (read_chunks stops m chunks rest). case l of Line s \<Rightarrow> length s \<le> m | _ \<Rightarrow> True) \<and>
   (\<forall>e \<in> set (butlast (read_chunks stops m chunks rest)). case e of Line s \<Rightarrow> True | _ \<Rightarrow> False)"
proof -
  have "short_lines m new_reader" by (simp add: short_lines_def new_reader_def)
  then have s: "short_lines m (end_step stops (fold (unit_step stops m) (concat chunks @ rest) new_reader))"
    by (intro short_lines_end short_lines_units)
  show ?thesis unfolding read_chunks_units using s
    by (auto simp: short_lines_def split: line_event.splits)
qed

theorem delivered_bounded_witness:
  "list_all (\<lambda>l. case l of Line s \<Rightarrow> length s \<le> 1 | _ \<Rightarrow> True) (read_chunks (\<lambda>_. False) 1 [[0x61, 0x62]] [])"
  using delivered_bounded [of "\<lambda>_. False" 1 "[[0x61, 0x62]]" "[]"] unfolding list_all_iff by blast

text \<open>An escaped text has neither separator, so it is one line to every reader.\<close>

lemma escaped_has_no_separator:
  "0x2028 \<notin> set (escapeLineSeparators json) \<and> 0x2029 \<notin> set (escapeLineSeparators json)"
  by (auto simp: escapeLineSeparators_def js_def split: if_splits)

end
