(* ===== verification/Utf8.thy ===== *)
theory Utf8
  imports Json_Text
begin

section \<open>UTF-8 as the runtime writes and reads it\<close>

text \<open>
  What \<open>Buffer.write\<close> and \<open>TextDecoder\<close> (fatal, with byte-order marks kept) do with a
  JavaScript string: surrogate pairs are one code point of four bytes, a lone surrogate is
  written as U+FFFD, and bytes that are not the shortest form of a code point that is no
  surrogate are refused.
\<close>

type_synonym byte = "8 word"

definition byte_of :: "nat \<Rightarrow> byte" where
  "byte_of n = of_nat n"

lemma unat_byte [simp]: "n < 256 \<Longrightarrow> unat (byte_of n) = n"
  by (simp add: byte_of_def unat_of_nat)

lemma high_surrogate_iff: "high_surrogate u \<longleftrightarrow> 0xD800 \<le> unat u \<and> unat u \<le> 0xDBFF"
  by (simp add: high_surrogate_def word_le_nat_alt)

lemma low_surrogate_iff: "low_surrogate u \<longleftrightarrow> 0xDC00 \<le> unat u \<and> unat u \<le> 0xDFFF"
  by (simp add: low_surrogate_def word_le_nat_alt)

fun code_points :: "jsstring \<Rightarrow> nat list" where
  "code_points [] = []"
| "code_points [u] = [if high_surrogate u \<or> low_surrogate u then 0xFFFD else unat u]"
| "code_points (u # v # vs) =
     (if high_surrogate u \<and> low_surrogate v
      then (0x10000 + (unat u - 0xD800) * 0x400 + (unat v - 0xDC00)) # code_points vs
      else (if high_surrogate u \<or> low_surrogate u then 0xFFFD else unat u) # code_points (v # vs))"

definition utf8_char :: "nat \<Rightarrow> byte list" where
  "utf8_char p =
     (if p < 0x80 then [byte_of p]
      else if p < 0x800 then [byte_of (0xC0 + p div 0x40), byte_of (0x80 + p mod 0x40)]
      else if p < 0x10000 then
        [byte_of (0xE0 + p div 0x1000), byte_of (0x80 + p div 0x40 mod 0x40), byte_of (0x80 + p mod 0x40)]
      else
        [byte_of (0xF0 + p div 0x40000), byte_of (0x80 + p div 0x1000 mod 0x40),
         byte_of (0x80 + p div 0x40 mod 0x40), byte_of (0x80 + p mod 0x40)])"

definition utf8_encode :: "jsstring \<Rightarrow> byte list" where
  "utf8_encode s = concat (map utf8_char (code_points s))"

definition units_of :: "nat \<Rightarrow> jsstring" where
  "units_of p =
     (if p < 0x10000 then [of_nat p]
      else [of_nat (0xD800 + (p - 0x10000) div 0x400), of_nat (0xDC00 + (p - 0x10000) mod 0x400)])"

definition continues :: "byte \<Rightarrow> bool" where
  "continues b \<longleftrightarrow> 0x80 \<le> unat b \<and> unat b \<le> 0xBF"

definition scalar :: "nat \<Rightarrow> bool" where
  "scalar p \<longleftrightarrow> p \<le> 0x10FFFF \<and> \<not> (0xD800 \<le> p \<and> p \<le> 0xDFFF)"

definition point2 :: "byte \<Rightarrow> byte \<Rightarrow> nat" where
  "point2 a b = (unat a - 0xC0) * 0x40 + (unat b - 0x80)"

definition point3 :: "byte \<Rightarrow> byte \<Rightarrow> byte \<Rightarrow> nat" where
  "point3 a b c = (unat a - 0xE0) * 0x1000 + (unat b - 0x80) * 0x40 + (unat c - 0x80)"

definition point4 :: "byte \<Rightarrow> byte \<Rightarrow> byte \<Rightarrow> byte \<Rightarrow> nat" where
  "point4 a b c d =
     (unat a - 0xF0) * 0x40000 + (unat b - 0x80) * 0x1000 + (unat c - 0x80) * 0x40 + (unat d - 0x80)"

fun utf8_decode :: "byte list \<Rightarrow> jsstring option" where
  "utf8_decode [] = Some []"
| "utf8_decode (a # bs) =
     (if unat a < 0x80 then map_option ((@) (units_of (unat a))) (utf8_decode bs)
      else if 0xC2 \<le> unat a \<and> unat a \<le> 0xDF then
        (case bs of b # r \<Rightarrow>
           if continues b then map_option ((@) (units_of (point2 a b))) (utf8_decode r) else None
         | _ \<Rightarrow> None)
      else if 0xE0 \<le> unat a \<and> unat a \<le> 0xEF then
        (case bs of b # c # r \<Rightarrow>
           if continues b \<and> continues c \<and> 0x800 \<le> point3 a b c \<and> scalar (point3 a b c)
           then map_option ((@) (units_of (point3 a b c))) (utf8_decode r) else None
         | _ \<Rightarrow> None)
      else if 0xF0 \<le> unat a \<and> unat a \<le> 0xF4 then
        (case bs of b # c # d # r \<Rightarrow>
           if continues b \<and> continues c \<and> continues d \<and> 0x10000 \<le> point4 a b c d \<and> scalar (point4 a b c d)
           then map_option ((@) (units_of (point4 a b c d))) (utf8_decode r) else None
         | _ \<Rightarrow> None)
      else None)"

subsection \<open>Round trip\<close>

lemma div_mod_step: "(p::nat) div (m * k) * (m * k) + p div m mod k * m = p div m * m"
proof -
  have "p div m = p div m div k * k + p div m mod k" by simp
  then have "p div m * m = (p div m div k * k + p div m mod k) * m" by (rule arg_cong)
  then show ?thesis by (simp only: div_mult2_eq distrib_right mult.assoc mult.commute [of k m])
qed

lemma div_mod_parts3: "(p::nat) div 0x1000 * 0x1000 + p div 0x40 mod 0x40 * 0x40 + p mod 0x40 = p"
  using div_mod_step [of p "0x40" "0x40"] div_mult_mod_eq [of p "0x40"] by simp

lemma div_mod_parts4:
  "(p::nat) div 0x40000 * 0x40000 + p div 0x1000 mod 0x40 * 0x1000 + p div 0x40 mod 0x40 * 0x40 + p mod 0x40 = p"
  using div_mod_step [of p "0x1000" "0x40"] div_mod_parts3 [of p] by simp

lemma mod64: "(n::nat) mod 64 \<le> 63"
  using mod_less_divisor [of 64 n] by simp

lemma decode_point:
  assumes "scalar p"
  shows "utf8_decode (utf8_char p @ r) = map_option ((@) (units_of p)) (utf8_decode r)"
proof -
  consider (one) "p < 0x80" | (two) "0x80 \<le> p" "p < 0x800" | (three) "0x800 \<le> p" "p < 0x10000"
    | (four) "0x10000 \<le> p" "p \<le> 0x10FFFF"
    using assms by (fastforce simp: scalar_def)
  then show ?thesis
  proof cases
    case one
    then show ?thesis by (simp add: utf8_char_def)
  next
    case two
    let ?a = "byte_of (0xC0 + p div 0x40)" and ?b = "byte_of (0x80 + p mod 0x40)"
    have a: "unat ?a = 0xC0 + p div 0x40" "2 \<le> p div 0x40" "p div 0x40 < 0x20" using two by simp_all
    have b: "unat ?b = 0x80 + p mod 0x40" by simp
    have "point2 ?a ?b = p" by (simp add: point2_def a(1) b)
    then show ?thesis using two a b mod64 by (simp add: utf8_char_def continues_def)
  next
    case three
    let ?a = "byte_of (0xE0 + p div 0x1000)" and ?b = "byte_of (0x80 + p div 0x40 mod 0x40)"
      and ?c = "byte_of (0x80 + p mod 0x40)"
    have a: "unat ?a = 0xE0 + p div 0x1000" "p div 0x1000 < 0x10" using three by simp_all
    have b: "unat ?b = 0x80 + p div 0x40 mod 0x40" "unat ?c = 0x80 + p mod 0x40" by simp_all
    have "point3 ?a ?b ?c = p" using div_mod_parts3 [of p] by (simp add: point3_def a(1) b)
    then show ?thesis using three a b assms mod64 by (simp add: utf8_char_def continues_def)
  next
    case four
    let ?a = "byte_of (0xF0 + p div 0x40000)" and ?b = "byte_of (0x80 + p div 0x1000 mod 0x40)"
      and ?c = "byte_of (0x80 + p div 0x40 mod 0x40)" and ?d = "byte_of (0x80 + p mod 0x40)"
    have a: "unat ?a = 0xF0 + p div 0x40000" "p div 0x40000 < 5" using four by simp_all
    have b: "unat ?b = 0x80 + p div 0x1000 mod 0x40" "unat ?c = 0x80 + p div 0x40 mod 0x40"
      "unat ?d = 0x80 + p mod 0x40" by simp_all
    have "point4 ?a ?b ?c ?d = p" using div_mod_parts4 [of p] by (simp add: point4_def a(1) b)
    then show ?thesis using four a b assms mod64 by (simp add: utf8_char_def continues_def)
  qed
qed

text \<open>A string without lone surrogates, which is what \<open>JSON.stringify\<close> produces.\<close>

fun well_formed :: "jsstring \<Rightarrow> bool" where
  "well_formed [] \<longleftrightarrow> True"
| "well_formed [u] \<longleftrightarrow> \<not> high_surrogate u \<and> \<not> low_surrogate u"
| "well_formed (u # v # vs) \<longleftrightarrow>
     (if high_surrogate u \<and> low_surrogate v then well_formed vs
      else \<not> high_surrogate u \<and> \<not> low_surrogate u \<and> well_formed (v # vs))"

lemma unit_bound: "unat (u :: code_unit) < 0x10000"
  using unsigned_less [of u] by simp

lemma units_of_unit: "units_of (unat (u :: code_unit)) = [u]"
  by (simp add: units_of_def unit_bound)

lemma units_of_pair:
  assumes "high_surrogate u" "low_surrogate v"
  shows "units_of (0x10000 + (unat u - 0xD800) * 0x400 + (unat v - 0xDC00)) = [u, v]"
proof -
  have v: "unat v - 0xDC00 < 0x400" using assms(2) by (auto simp: low_surrogate_iff)
  have "((unat u - 0xD800) * 0x400 + (unat v - 0xDC00)) div 0x400 = unat u - 0xD800"
    using v by (simp add: div_mult_self3)
  moreover have "((unat u - 0xD800) * 0x400 + (unat v - 0xDC00)) mod 0x400 = unat v - 0xDC00"
    using v by simp
  moreover have u: "of_nat (0xD800 + (unat u - 0xD800)) = u" and w: "of_nat (0xDC00 + (unat v - 0xDC00)) = v"
    using assms by (simp_all add: high_surrogate_iff low_surrogate_iff del: of_nat_add)
  ultimately show ?thesis
    by (simp add: units_of_def add.assoc del: of_nat_add)
qed

lemma code_points_scalar: "p \<in> set (code_points s) \<Longrightarrow> scalar p"
proof (induction s arbitrary: p rule: code_points.induct)
  case (2 u)
  then show ?case using unit_bound [of u] by (auto simp: scalar_def high_surrogate_iff low_surrogate_iff split: if_splits)
next
  case (3 u v vs)
  have "scalar (0x10000 + (unat u - 0xD800) * 0x400 + (unat v - 0xDC00))" if "high_surrogate u" "low_surrogate v"
    using that by (auto simp: scalar_def high_surrogate_iff low_surrogate_iff)
  moreover have "scalar (unat u)" if "\<not> high_surrogate u" "\<not> low_surrogate u"
    using that unit_bound [of u] by (auto simp: scalar_def high_surrogate_iff low_surrogate_iff)
  ultimately show ?case using 3 by (auto simp: scalar_def split: if_splits)
qed simp

lemma units_code_points: "well_formed s \<Longrightarrow> concat (map units_of (code_points s)) = s"
  by (induction s rule: code_points.induct) (auto simp: units_of_unit units_of_pair split: if_splits)

lemma decode_points:
  "\<forall>p \<in> set ps. scalar p \<Longrightarrow> utf8_decode (concat (map utf8_char ps)) = Some (concat (map units_of ps))"
  by (induction ps) (simp_all add: decode_point del: utf8_decode.simps(2))

theorem utf8_roundtrip: "well_formed s \<Longrightarrow> utf8_decode (utf8_encode s) = Some s"
  using decode_points [of "code_points s"] code_points_scalar [of _ s]
  by (simp add: utf8_encode_def units_code_points)

end
