(* ===== verification/Frames.thy ===== *)
theory Frames
  imports Utf8
begin

section \<open>Frames between the host and a script's child (src/code-execution/isolate/frames.ts)\<close>

text \<open>
  Four bytes of big-endian length and a body whose first byte is its kind. \<open>JSON.stringify\<close>
  and \<open>JSON.parse\<close> are parameters; UTF-8 is the one of \<open>Utf8\<close>. A thrown \<open>FrameError\<close>
  is a value of \<open>frame_error\<close>. An infinite limit is \<open>None\<close>.
\<close>

datatype frame_error =
    Frame_Too_Long nat nat | Not_A_Value | Length_Out_Of_Range
  | Announced_Too_Long nat nat | Empty_Frame | Ended_Inside nat | Short_Result
  | Kind_Not_Taken byte | Not_Utf8 | Too_Many_Values nat | Not_Json

definition MAX_FRAME_BYTES :: nat where "MAX_FRAME_BYTES = 64 * 1024 * 1024"
definition HEADER_BYTES :: nat where "HEADER_BYTES = 4"
definition JSON_KIND :: byte where "JSON_KIND = 0"
definition RESULT_KIND :: byte where "RESULT_KIND = 1"
definition RESULT_HEADER_BYTES :: nat where "RESULT_HEADER_BYTES = 1 + 1 + 4"

subsection \<open>Counting the values of a JSON text\<close>

definition is_blank :: "code_unit \<Rightarrow> bool" where
  "is_blank c \<longleftrightarrow> c = 0x20 \<or> c = LF \<or> c = CR \<or> c = 0x09"

definition over :: "nat \<Rightarrow> nat option \<Rightarrow> bool" where
  "over n limit = (case limit of None \<Rightarrow> False | Some m \<Rightarrow> n > m)"

fun count_values :: "nat option \<Rightarrow> bool \<Rightarrow> nat \<Rightarrow> jsstring \<Rightarrow> nat" where
  "count_values lim inString n [] = n"
| "count_values lim True n (c # s) =
     (if c = 0x5C then count_values lim True n (drop 1 s)
      else if c = 0x22 then count_values lim False n s
      else count_values lim True n s)"
| "count_values lim False n (c # s) =
     (if c = 0x22 then count_values lim True n s
      else if c = 0x7B \<or> c = 0x5B then
        (let rest = dropWhile is_blank s in
         if rest = [] \<or> (hd rest \<noteq> 0x7D \<and> hd rest \<noteq> 0x5D) then
           (if over (n + 1) lim then n + 1 else count_values lim False (n + 1) s)
         else count_values lim False n s)
      else if c = 0x2C then
        (if over (n + 1) lim then n + 1 else count_values lim False (n + 1) s)
      else count_values lim False n s)"

definition countJsonValues :: "nat option \<Rightarrow> jsstring \<Rightarrow> nat" where
  "countJsonValues stopAfter s = count_values stopAfter False 1 s"

subsection \<open>Encoding\<close>

definition uint32_be :: "nat \<Rightarrow> byte list" where
  "uint32_be n =
     [byte_of (n div 0x1000000 mod 0x100), byte_of (n div 0x10000 mod 0x100),
      byte_of (n div 0x100 mod 0x100), byte_of (n mod 0x100)]"

definition read_uint32_be :: "byte list \<Rightarrow> nat" where
  "read_uint32_be bs =
     unat (bs ! 0) * 0x1000000 + unat (bs ! 1) * 0x10000 + unat (bs ! 2) * 0x100 + unat (bs ! 3)"

text \<open>\<open>writeUInt32BE\<close> throws a RangeError for a number of more than 32 bits.\<close>

definition frame :: "byte list \<Rightarrow> nat \<Rightarrow> frame_error + byte list" where
  "frame body maxFrameBytes =
     (if length body > maxFrameBytes then Inl (Frame_Too_Long (length body) maxFrameBytes)
      else if length body \<ge> 2 ^ 32 then Inl Length_Out_Of_Range
      else Inr (uint32_be (length body) @ body))"

definition encodeFrame :: "('v \<Rightarrow> jsstring option) \<Rightarrow> 'v \<Rightarrow> nat \<Rightarrow> frame_error + byte list" where
  "encodeFrame stringify message maxFrameBytes =
     (case stringify message of
        None \<Rightarrow> Inl Not_A_Value
      | Some json \<Rightarrow> frame (JSON_KIND # utf8_encode json) maxFrameBytes)"

text \<open>\<open>id >>> 0\<close> is the number modulo 2 to the 32.\<close>

definition encodeResultFrame :: "int \<Rightarrow> bool \<Rightarrow> jsstring \<Rightarrow> nat \<Rightarrow> frame_error + byte list" where
  "encodeResultFrame ident ok json maxFrameBytes =
     (let bodyLength = RESULT_HEADER_BYTES + length (utf8_encode json) in
      if bodyLength > maxFrameBytes then Inl (Frame_Too_Long bodyLength maxFrameBytes)
      else if bodyLength \<ge> 2 ^ 32 then Inl Length_Out_Of_Range
      else Inr (uint32_be bodyLength @ RESULT_KIND # (if ok then 1 else 0)
                  # uint32_be (nat (ident mod 2 ^ 32)) @ utf8_encode json))"

subsection \<open>The decoder\<close>

datatype 'v frame_value = Message 'v | Result_Frame nat bool "byte list"

record frame_config =
  fc_maxFrameBytes :: nat
  fc_takesResults :: bool
  fc_maxValues :: "nat option"

text \<open>The header's bytes so far, the body as its length and its bytes so far, and the error.\<close>

record frame_decoder =
  fd_header :: "byte list"
  fd_body :: "(nat \<times> byte list) option"
  fd_broken :: "frame_error option"

definition new_decoder :: frame_decoder where
  "new_decoder = \<lparr>fd_header = [], fd_body = None, fd_broken = None\<rparr>"

definition fail :: "frame_error \<Rightarrow> frame_decoder \<Rightarrow> frame_decoder" where
  "fail e d = d\<lparr>fd_broken := Some e, fd_body := None\<rparr>"

definition decode_json ::
  "(jsstring \<Rightarrow> 'v option) \<Rightarrow> nat option \<Rightarrow> byte list \<Rightarrow> frame_error + 'v" where
  "decode_json parse maxValues bytes =
     (case utf8_decode bytes of
        None \<Rightarrow> Inl Not_Utf8
      | Some t \<Rightarrow>
          if over (countJsonValues maxValues t) maxValues then Inl (Too_Many_Values (the maxValues))
          else (case parse t of None \<Rightarrow> Inl Not_Json | Some v \<Rightarrow> Inr v))"

definition decode ::
  "(jsstring \<Rightarrow> 'v option) \<Rightarrow> frame_config \<Rightarrow> byte list \<Rightarrow> frame_error + 'v frame_value" where
  "decode parse cfg body =
     (if body ! 0 = RESULT_KIND \<and> fc_takesResults cfg then
        (if length body < RESULT_HEADER_BYTES then Inl Short_Result
         else Inr (Result_Frame (read_uint32_be (drop 2 body)) (body ! 1 = 1) (drop RESULT_HEADER_BYTES body)))
      else if body ! 0 \<noteq> JSON_KIND then Inl (Kind_Not_Taken (body ! 0))
      else map_sum id Message (decode_json parse (fc_maxValues cfg) (drop 1 body)))"

text \<open>
  One round of the loop's first half: the header takes what it lacks. \<open>None\<close> is the break,
  an error the header's failure, otherwise a body is open.
\<close>

definition open_body :: "frame_config \<Rightarrow> frame_decoder \<Rightarrow> frame_decoder" where
  "open_body cfg d =
     (let len = read_uint32_be (fd_header d) in
      if len > fc_maxFrameBytes cfg then fail (Announced_Too_Long len (fc_maxFrameBytes cfg)) d
      else if len = 0 then fail Empty_Frame d
      else d\<lparr>fd_body := Some (len, [])\<rparr>)"

definition take_header :: "frame_config \<Rightarrow> byte list \<Rightarrow> frame_decoder \<Rightarrow> frame_decoder \<times> byte list" where
  "take_header cfg chunk d =
     (case fd_body d of
        Some b \<Rightarrow> (d, chunk)
      | None \<Rightarrow>
          (let n = min (HEADER_BYTES - length (fd_header d)) (length chunk);
               d1 = d\<lparr>fd_header := fd_header d @ take n chunk\<rparr>
           in (if length (fd_header d1) < HEADER_BYTES then d1 else open_body cfg d1, drop n chunk)))"

definition finish_body ::
  "(jsstring \<Rightarrow> 'v option) \<Rightarrow> frame_config \<Rightarrow> byte list \<Rightarrow> frame_decoder \<Rightarrow> frame_decoder \<times> 'v frame_value list" where
  "finish_body parse cfg body d =
     (let d1 = d\<lparr>fd_body := None, fd_header := []\<rparr>
      in case decode parse cfg body of Inl e \<Rightarrow> (fail e d1, []) | Inr v \<Rightarrow> (d1, [v]))"

text \<open>The loop over a chunk; the values so far are lost when a frame fails.\<close>

function push_loop ::
  "(jsstring \<Rightarrow> 'v option) \<Rightarrow> frame_config \<Rightarrow> byte list \<Rightarrow> frame_decoder \<Rightarrow> 'v frame_value list
     \<Rightarrow> frame_decoder \<times> (frame_error + 'v frame_value list)" where
  "push_loop parse cfg chunk d vs =
     (if chunk = [] then (d, Inr vs)
      else
        (let (d1, rest) = take_header cfg chunk d in
         case fd_broken d1 of
           Some e \<Rightarrow> (d1, Inl e)
         | None \<Rightarrow>
             (case fd_body d1 of
                None \<Rightarrow> (d1, Inr vs)
              | Some (len, filled) \<Rightarrow>
                  (let n = min (len - length filled) (length rest);
                       filled' = filled @ take n rest
                   in if length filled' < len then (d1\<lparr>fd_body := Some (len, filled')\<rparr>, Inr vs)
                      else
                        (let (d2, ws) = finish_body parse cfg filled' d1 in
                         case fd_broken d2 of
                           Some e \<Rightarrow> (d2, Inl e)
                         | None \<Rightarrow> push_loop parse cfg (drop n rest) d2 (vs @ ws))))))"
  by pat_completeness auto

definition full_body :: "frame_decoder \<Rightarrow> nat" where
  "full_body d = (case fd_body d of None \<Rightarrow> 0 | Some (len, f) \<Rightarrow> if len \<le> length f then 1 else 0)"

lemma open_body_open:
  "fd_body d = None \<Longrightarrow> fd_broken (open_body cfg d) = None \<Longrightarrow> fd_body (open_body cfg d) = Some (len, f) \<Longrightarrow> f = [] \<and> 0 < len"
  by (auto simp: open_body_def fail_def Let_def split: if_splits)

lemma take_header_progress:
  assumes "take_header cfg chunk d = (d1, rest)" "fd_broken d1 = None" "fd_body d1 = Some (len, f)"
    "chunk \<noteq> []" "\<not> length f + min (len - length f) (length rest) < len"
  shows "2 * length (drop (min (len - length f) (length rest)) rest) < 2 * length chunk + full_body d"
proof (cases "fd_body d")
  case (Some b)
  then show ?thesis using assms by (cases "length f < len") (auto simp: take_header_def full_body_def)
next
  case None
  let ?n = "min (HEADER_BYTES - length (fd_header d)) (length chunk)"
  have rest: "rest = drop ?n chunk" and d1: "d1 = (if length (fd_header d) + ?n < HEADER_BYTES
      then d\<lparr>fd_header := fd_header d @ take ?n chunk\<rparr> else open_body cfg (d\<lparr>fd_header := fd_header d @ take ?n chunk\<rparr>))"
    using assms(1) None by (auto simp: take_header_def Let_def)
  have "f = [] \<and> 0 < len"
    using d1 assms(2,3) None open_body_open [of "d\<lparr>fd_header := fd_header d @ take ?n chunk\<rparr>" cfg len f]
    by (auto split: if_splits)
  then show ?thesis using rest assms(4,5) None by (cases chunk) (auto simp: full_body_def)
qed

lemma push_progress:
  assumes "chunk \<noteq> []" "(d1, rest) = take_header cfg chunk d" "fd_broken d1 = None" "fd_body d1 = Some (len, f)"
    "\<not> length f + min (len - length f) (length rest) < len" "(d2, ws) = finish_body parse cfg body d1"
  shows "2 * (length rest - (len - length f)) + full_body d2 < 2 * length chunk + full_body d"
proof -
  have "full_body d2 = 0"
    using assms(6) by (auto simp: full_body_def finish_body_def fail_def Let_def split: sum.splits)
  moreover have "length rest - (len - length f) = length (drop (min (len - length f) (length rest)) rest)" by simp
  ultimately show ?thesis
    using take_header_progress [OF assms(2) [symmetric] assms(3,4,1,5)] by linarith
qed

termination push_loop
  by (relation "measure (\<lambda>(parse, cfg, chunk, d, vs). 2 * length chunk + full_body d)")
    (auto intro: push_progress)

declare push_loop.simps [simp del]

definition push ::
  "(jsstring \<Rightarrow> 'v option) \<Rightarrow> frame_config \<Rightarrow> byte list \<Rightarrow> frame_decoder
     \<Rightarrow> frame_decoder \<times> (frame_error + 'v frame_value list)" where
  "push parse cfg chunk d =
     (case fd_broken d of Some e \<Rightarrow> (d, Inl e) | None \<Rightarrow> push_loop parse cfg chunk d [])"

definition end_stream :: "frame_decoder \<Rightarrow> frame_decoder \<times> (frame_error + unit)" where
  "end_stream d =
     (case fd_broken d of
        Some e \<Rightarrow> (d, Inl e)
      | None \<Rightarrow>
          if fd_header d \<noteq> [] \<or> fd_body d \<noteq> None then
            (let e = Ended_Inside (case fd_body d of None \<Rightarrow> length (fd_header d) | Some (_, f) \<Rightarrow> length f)
             in (fail e d, Inl e))
          else (d, Inr ()))"

subsection \<open>One byte at a time\<close>

definition feed_byte ::
  "(jsstring \<Rightarrow> 'v option) \<Rightarrow> frame_config \<Rightarrow> byte \<Rightarrow> frame_decoder \<Rightarrow> frame_decoder \<times> 'v frame_value list" where
  "feed_byte parse cfg b d =
     (if fd_broken d \<noteq> None then (d, [])
      else case fd_body d of
        None \<Rightarrow>
          (let d1 = d\<lparr>fd_header := fd_header d @ [b]\<rparr>
           in (if length (fd_header d1) < HEADER_BYTES then d1 else open_body cfg d1, []))
      | Some (len, f) \<Rightarrow>
          if length f + 1 < len then (d\<lparr>fd_body := Some (len, f @ [b])\<rparr>, [])
          else finish_body parse cfg (f @ [b]) d)"

fun feed ::
  "(jsstring \<Rightarrow> 'v option) \<Rightarrow> frame_config \<Rightarrow> byte list \<Rightarrow> frame_decoder \<Rightarrow> frame_decoder \<times> 'v frame_value list" where
  "feed parse cfg [] d = (d, [])"
| "feed parse cfg (b # bs) d =
     (let (d1, vs) = feed_byte parse cfg b d; (d2, ws) = feed parse cfg bs d1 in (d2, vs @ ws))"

text \<open>An unbroken decoder waits for a header byte, or for at least one byte of an open body.\<close>

definition waiting :: "frame_config \<Rightarrow> frame_decoder \<Rightarrow> bool" where
  "waiting cfg d \<longleftrightarrow> length (fd_header d) \<le> HEADER_BYTES \<and>
     (case fd_body d of
        None \<Rightarrow> fd_broken d = None \<longrightarrow> length (fd_header d) < HEADER_BYTES
      | Some (len, f) \<Rightarrow> length f < len \<and> len \<le> fc_maxFrameBytes cfg \<and> length (fd_header d) = HEADER_BYTES)"

lemma feed_append:
  "feed parse cfg (as @ bs) d =
     (let (d1, vs) = feed parse cfg as d; (d2, ws) = feed parse cfg bs d1 in (d2, vs @ ws))"
  by (induction as arbitrary: d) (auto simp: Let_def split: prod.splits)

lemma feed_broken: "fd_broken d \<noteq> None \<Longrightarrow> feed parse cfg bs d = (d, [])"
  by (induction bs) (auto simp: feed_byte_def)

lemma feed_header:
  "fd_broken d = None \<Longrightarrow> fd_body d = None \<Longrightarrow> length (fd_header d) + length us < HEADER_BYTES \<Longrightarrow>
     feed parse cfg us d = (d\<lparr>fd_header := fd_header d @ us\<rparr>, [])"
  by (induction us arbitrary: d) (simp_all add: feed_byte_def)

lemma feed_body:
  "fd_broken d = None \<Longrightarrow> fd_body d = Some (len, f) \<Longrightarrow> length f + length us < len \<Longrightarrow>
     feed parse cfg us d = (d\<lparr>fd_body := Some (len, f @ us)\<rparr>, [])"
proof (induction us arbitrary: d f)
  case Nil
  then show ?case by (cases d) simp
next
  case (Cons b us)
  then show ?case using Cons.IH [of "d\<lparr>fd_body := Some (len, f @ [b])\<rparr>" "f @ [b]"]
    by (simp add: feed_byte_def)
qed

lemma feed_header_last:
  assumes "fd_broken d = None" "fd_body d = None" "length (fd_header d) + length us = HEADER_BYTES" "us \<noteq> []"
  shows "feed parse cfg us d = (open_body cfg (d\<lparr>fd_header := fd_header d @ us\<rparr>), [])"
proof -
  obtain ys b where us: "us = ys @ [b]" using assms(4) rev_exhaust by blast
  have "feed parse cfg ys d = (d\<lparr>fd_header := fd_header d @ ys\<rparr>, [])"
    using assms us by (intro feed_header) (auto simp: HEADER_BYTES_def)
  then show ?thesis using assms by (simp add: us feed_append feed_byte_def)
qed

lemma finish_body_update: "finish_body parse cfg b (d\<lparr>fd_body := x\<rparr>) = finish_body parse cfg b d"
  by (simp add: finish_body_def)

lemma feed_body_last:
  assumes "fd_broken d = None" "fd_body d = Some (len, f)" "length f + length us = len" "us \<noteq> []"
  shows "feed parse cfg us d = finish_body parse cfg (f @ us) d"
proof -
  obtain ys b where us: "us = ys @ [b]" using assms(4) rev_exhaust by blast
  have "feed parse cfg ys d = (d\<lparr>fd_body := Some (len, f @ ys)\<rparr>, [])"
    using assms us by (intro feed_body) auto
  then show ?thesis using assms
    by (auto simp: us feed_append feed_byte_def finish_body_update split: prod.splits)
qed

lemma open_body_waiting:
  "fd_body d = None \<Longrightarrow> length (fd_header d) = HEADER_BYTES \<Longrightarrow> waiting cfg (open_body cfg d)"
  by (auto simp: waiting_def open_body_def fail_def Let_def)

lemma finish_body_waiting: "finish_body parse cfg body d = (d2, ws) \<Longrightarrow> waiting cfg d2"
  by (auto simp: finish_body_def waiting_def fail_def HEADER_BYTES_def Let_def split: sum.splits)

lemma feed_byte_waiting: "waiting cfg d \<Longrightarrow> waiting cfg (fst (feed_byte parse cfg b d))"
proof (cases "fd_broken d")
  case None
  assume w: "waiting cfg d"
  show ?thesis
  proof (cases "fd_body d")
    case body: None
    show ?thesis
    proof (cases "Suc (length (fd_header d)) < HEADER_BYTES")
      case True
      then show ?thesis using w None body by (simp add: feed_byte_def waiting_def)
    next
      case False
      then have "length (fd_header d @ [b]) = HEADER_BYTES" using w None body by (simp add: waiting_def)
      then show ?thesis using None body False by (simp add: feed_byte_def open_body_waiting)
    qed
  next
    case (Some x)
    obtain len f where x: "x = (len, f)" by (cases x)
    show ?thesis
    proof (cases "length f + 1 < len")
      case True
      then show ?thesis using w None Some x by (simp add: feed_byte_def waiting_def)
    next
      case False
      then show ?thesis using None Some x
        by (cases "finish_body parse cfg (f @ [b]) d") (auto simp: feed_byte_def dest: finish_body_waiting)
    qed
  qed
qed (simp add: feed_byte_def)

lemma feed_waiting: "waiting cfg d \<Longrightarrow> waiting cfg (fst (feed parse cfg bs d))"
proof (induction bs arbitrary: d)
  case (Cons b bs)
  then show ?case using feed_byte_waiting [of cfg d parse b] by (auto split: prod.splits) (metis fst_conv)
qed simp

subsection \<open>A chunk is its bytes\<close>

text \<open>When the header is complete the loop goes on as if the rest were the chunk.\<close>

lemma loop_after_header:
  assumes "fd_broken d = None" "fd_body d = None" "length (fd_header d) < HEADER_BYTES"
    "HEADER_BYTES \<le> length (fd_header d) + length chunk"
  shows "push_loop parse cfg chunk d vs =
    (let n = HEADER_BYTES - length (fd_header d);
         d1 = open_body cfg (d\<lparr>fd_header := fd_header d @ take n chunk\<rparr>)
     in case fd_broken d1 of Some e \<Rightarrow> (d1, Inl e) | None \<Rightarrow> push_loop parse cfg (drop n chunk) d1 vs)"
proof -
  let ?n = "HEADER_BYTES - length (fd_header d)"
  let ?d1 = "open_body cfg (d\<lparr>fd_header := fd_header d @ take ?n chunk\<rparr>)"
  have ne: "chunk \<noteq> []" using assms(3,4) by auto
  have th: "take_header cfg chunk d = (?d1, drop ?n chunk)"
    using assms by (simp add: take_header_def min_absorb1 Let_def)
  define e where "e = ?d1"
  have th: "take_header cfg chunk d = (e, drop ?n chunk)" using th by (simp add: e_def)
  show ?thesis
  proof (cases "fd_broken e")
    case (Some err)
    then show ?thesis using ne by (simp add: push_loop.simps [of parse cfg chunk d vs] th e_def [symmetric])
  next
    case None
    obtain len where body: "fd_body e = Some (len, [])" and pos: "0 < len"
      using None by (auto simp: e_def open_body_def fail_def Let_def split: if_splits)
    have same: "e\<lparr>fd_body := Some (len, [])\<rparr> = e" using body by (cases e) simp
    show ?thesis
    proof (cases "drop ?n chunk = []")
      case True
      then show ?thesis using ne None body pos same
        by (simp add: push_loop.simps [of parse cfg chunk d vs] push_loop.simps [of parse cfg "[]"] th
            e_def [symmetric] del: drop_eq_Nil)
    next
      case False
      have "take_header cfg (drop ?n chunk) e = (e, drop ?n chunk)"
        by (simp add: take_header_def body)
      then show ?thesis using ne None False
        by (simp add: push_loop.simps [of parse cfg chunk d vs] Let_def
            push_loop.simps [of parse cfg "drop ?n chunk" e vs] th e_def [symmetric] del: drop_eq_Nil)
    qed
  qed
qed

text \<open>An open body takes what it lacks.\<close>

lemma loop_in_body:
  assumes "fd_broken d = None" "fd_body d = Some (len, f)" "length f < len"
  shows "push_loop parse cfg chunk d vs =
    (if length f + length chunk < len then (d\<lparr>fd_body := Some (len, f @ chunk)\<rparr>, Inr vs)
     else
       (let n = len - length f; (d2, ws) = finish_body parse cfg (f @ take n chunk) d
        in case fd_broken d2 of Some e \<Rightarrow> (d2, Inl e)
           | None \<Rightarrow> push_loop parse cfg (drop n chunk) d2 (vs @ ws)))"
proof (cases "chunk = []")
  case True
  then show ?thesis using assms by (cases d) (simp add: push_loop.simps)
next
  case False
  have th: "take_header cfg chunk d = (d, chunk)" using assms(2) by (simp add: take_header_def)
  note step = push_loop.simps [of parse cfg chunk d vs]
  show ?thesis
  proof (cases "length f + length chunk < len")
    case True
    then have "min (len - length f) (length chunk) = length chunk" by simp
    then show ?thesis using True th False assms by (simp add: step)
  next
    case full: False
    then have "len - length f \<le> length chunk" by simp
    then show ?thesis using full th False assms
      by (cases "finish_body parse cfg (f @ take (len - length f) chunk) d")
        (simp add: step Let_def min_absorb1 split: option.splits)
  qed
qed

lemma push_loop_feed:
  assumes "fd_broken d = None" "waiting cfg d"
  shows "push_loop parse cfg chunk d vs =
    (let (d', ws) = feed parse cfg chunk d in
     (d', case fd_broken d' of Some e \<Rightarrow> Inl e | None \<Rightarrow> Inr (vs @ ws)))"
  using assms
proof (induction "length chunk" arbitrary: chunk d vs rule: less_induct)
  case less
  show ?case
  proof (cases "fd_body d")
    case None
    let ?n = "HEADER_BYTES - length (fd_header d)"
    have h: "length (fd_header d) < HEADER_BYTES" using less.prems None by (simp add: waiting_def)
    show ?thesis
    proof (cases "length (fd_header d) + length chunk < HEADER_BYTES")
      case True
      have "take_header cfg chunk d = (d\<lparr>fd_header := fd_header d @ chunk\<rparr>, [])"
        using True None by (simp add: take_header_def min_def)
      then show ?thesis using True None less.prems(1) feed_header [OF less.prems(1) None True, of parse cfg]
        by (cases "chunk = []") (simp_all add: push_loop.simps)
    next
      case False
      let ?d1 = "open_body cfg (d\<lparr>fd_header := fd_header d @ take ?n chunk\<rparr>)"
      have "feed parse cfg (take ?n chunk) d = (?d1, [])"
        using False h less.prems None by (intro feed_header_last) (auto simp: HEADER_BYTES_def)
      then have feed: "feed parse cfg chunk d = feed parse cfg (drop ?n chunk) ?d1"
        using feed_append [of parse cfg "take ?n chunk" "drop ?n chunk" d] by (simp add: case_prod_beta)
      have "waiting cfg ?d1" using None h False by (intro open_body_waiting) auto
      then have "fd_broken ?d1 = None \<Longrightarrow> push_loop parse cfg (drop ?n chunk) ?d1 vs =
          (let (d', ws) = feed parse cfg (drop ?n chunk) ?d1 in
           (d', case fd_broken d' of Some e \<Rightarrow> Inl e | None \<Rightarrow> Inr (vs @ ws)))"
        using False h by (intro less.hyps) auto
      then show ?thesis using False
        by (auto simp: loop_after_header [OF less.prems(1) None h] feed feed_broken Let_def split: option.splits)
    qed
  next
    case (Some x)
    obtain len f where x: "fd_body d = Some (len, f)" using Some by (cases x) simp
    have f: "length f < len" using less.prems x by (simp add: waiting_def)
    show ?thesis
    proof (cases "length f + length chunk < len")
      case True
      then show ?thesis using less.prems
        by (simp add: loop_in_body [OF less.prems(1) x f] feed_body [OF less.prems(1) x, of chunk parse cfg])
    next
      case False
      let ?n = "len - length f"
      obtain d2 ws where fin: "finish_body parse cfg (f @ take ?n chunk) d = (d2, ws)" by fastforce
      have "length f + length (take ?n chunk) = len" "take ?n chunk \<noteq> []" using False f by auto
      from feed_body_last [OF less.prems(1) x this, of parse cfg]
      have "feed parse cfg (take ?n chunk) d = (d2, ws)" by (simp only: fin)
      then have feed: "feed parse cfg chunk d = (let (d3, us) = feed parse cfg (drop ?n chunk) d2 in (d3, ws @ us))"
        using feed_append [of parse cfg "take ?n chunk" "drop ?n chunk" d] by simp
      have "waiting cfg d2" using fin by (rule finish_body_waiting)
      then have IH: "fd_broken d2 = None \<Longrightarrow> push_loop parse cfg (drop ?n chunk) d2 (vs @ ws) =
          (let (d', us) = feed parse cfg (drop ?n chunk) d2 in
           (d', case fd_broken d' of Some e \<Rightarrow> Inl e | None \<Rightarrow> Inr ((vs @ ws) @ us)))"
        using False f by (intro less.hyps) auto
      show ?thesis
      proof (cases "fd_broken d2")
        case None
        then show ?thesis using False IH
          by (simp add: loop_in_body [OF less.prems(1) x f] feed fin case_prod_beta Let_def split: option.splits)
      next
        case (Some e)
        then show ?thesis using False
          by (simp add: loop_in_body [OF less.prems(1) x f] feed fin feed_broken)
      qed
    qed
  qed
qed

lemma push_feed:
  "waiting cfg d \<Longrightarrow> push parse cfg chunk d =
     (let (d', ws) = feed parse cfg chunk d in
      (d', case fd_broken d' of Some e \<Rightarrow> Inl e | None \<Rightarrow> Inr ws))"
  by (cases "fd_broken d") (simp_all add: push_def push_loop_feed feed_broken split: prod.splits option.splits)

text \<open>Pushing the chunks of a stream, until one of them is refused.\<close>

fun push_all ::
  "(jsstring \<Rightarrow> 'v option) \<Rightarrow> frame_config \<Rightarrow> byte list list \<Rightarrow> frame_decoder
     \<Rightarrow> frame_decoder \<times> (frame_error + 'v frame_value list)" where
  "push_all parse cfg [] d = (d, Inr [])"
| "push_all parse cfg (c # cs) d =
     (case push parse cfg c d of
        (d1, Inl e) \<Rightarrow> (d1, Inl e)
      | (d1, Inr vs) \<Rightarrow>
          (case push_all parse cfg cs d1 of
             (d2, Inl e) \<Rightarrow> (d2, Inl e)
           | (d2, Inr ws) \<Rightarrow> (d2, Inr (vs @ ws))))"

lemma push_all_feed:
  "waiting cfg d \<Longrightarrow> fd_broken d = None \<Longrightarrow> push_all parse cfg chunks d =
     (let (d', ws) = feed parse cfg (concat chunks) d in
      (d', case fd_broken d' of Some e \<Rightarrow> Inl e | None \<Rightarrow> Inr ws))"
proof (induction chunks arbitrary: d)
  case (Cons c cs)
  obtain d1 vs where f: "feed parse cfg c d = (d1, vs)" by fastforce
  have w: "waiting cfg d1" using feed_waiting [OF Cons.prems(1), of parse c] f by simp
  obtain d2 ws where g: "feed parse cfg (concat cs) d1 = (d2, ws)" by fastforce
  show ?case
  proof (cases "fd_broken d1")
    case None
    then show ?thesis using Cons.IH [OF w None] Cons.prems
      by (simp add: push_feed f g feed_append split: option.splits)
  next
    case (Some e)
    then show ?thesis using Cons.prems g
      by (simp add: push_feed f feed_append feed_broken)
  qed
qed simp

lemma new_decoder_waiting: "waiting cfg new_decoder" "fd_broken new_decoder = None"
  by (simp_all add: new_decoder_def waiting_def HEADER_BYTES_def)

text \<open>
  How a stream is cut into chunks changes neither the values a decoder gives nor the
  error it ends with nor what it holds afterwards.
\<close>

theorem frames_chunking_invisible:
  assumes "concat chunks = concat chunks'"
  shows "push_all parse cfg chunks new_decoder = push_all parse cfg chunks' new_decoder"
  using assms by (simp add: push_all_feed new_decoder_waiting)

theorem frames_chunking_invisible_witness:
  "push_all (Some :: jsstring \<Rightarrow> jsstring option) cfg [[0], [0, 0, 2], [0, 0x31]] new_decoder =
     push_all Some cfg [[0, 0, 0, 2, 0, 0x31]] new_decoder"
  by (rule frames_chunking_invisible) simp

text \<open>
  After any chunks the decoder holds at most a header and one body whose announced
  length is within the limit.
\<close>

theorem held_bytes_bounded:
  "case push_all parse cfg chunks new_decoder of (d, r) \<Rightarrow>
     length (fd_header d) \<le> 4 \<and>
     (case fd_body d of None \<Rightarrow> True | Some (len, f) \<Rightarrow> length f < len \<and> len \<le> fc_maxFrameBytes cfg)"
proof -
  obtain d vs where f: "feed parse cfg (concat chunks) new_decoder = (d, vs)" by fastforce
  have "waiting cfg d"
    using feed_waiting [OF new_decoder_waiting(1), of cfg parse "concat chunks"] f by simp
  moreover obtain r where "push_all parse cfg chunks new_decoder = (d, r)"
    by (simp add: push_all_feed [OF new_decoder_waiting] f)
  ultimately show ?thesis by (auto simp: waiting_def HEADER_BYTES_def split: option.splits)
qed

subsection \<open>Round trip\<close>

lemma read_write_uint32: "n < 2 ^ 32 \<Longrightarrow> read_uint32_be (uint32_be n) = n"
proof -
  assume "n < 2 ^ 32"
  then have "n div 0x1000000 < 0x100" by (simp add: less_mult_imp_div_less)
  then show ?thesis
    using div_mod_step [of n "0x10000" "0x100"] div_mod_step [of n "0x100" "0x100"]
      div_mult_mod_eq [of n "0x100"]
    by (simp add: read_uint32_be_def uint32_be_def)
qed

lemma read_uint32_prefix: "read_uint32_be (uint32_be n @ rest) = read_uint32_be (uint32_be n)"
  by (simp add: read_uint32_be_def uint32_be_def)

lemma length_uint32 [simp]: "length (uint32_be n) = 4"
  by (simp add: uint32_be_def)

lemma feed_frame:
  assumes "body \<noteq> []" "length body \<le> fc_maxFrameBytes cfg" "length body < 2 ^ 32"
    "decode parse cfg body = Inr v"
  shows "feed parse cfg (uint32_be (length body) @ body) new_decoder = (new_decoder, [v])"
proof -
  let ?d = "new_decoder\<lparr>fd_header := uint32_be (length body), fd_body := Some (length body, [])\<rparr>"
  have "feed parse cfg (uint32_be (length body)) new_decoder =
      (open_body cfg (new_decoder\<lparr>fd_header := [] @ uint32_be (length body)\<rparr>), [])"
    using feed_header_last [of new_decoder "uint32_be (length body)" parse cfg]
    by (simp add: new_decoder_def HEADER_BYTES_def uint32_be_def)
  moreover have "open_body cfg (new_decoder\<lparr>fd_header := [] @ uint32_be (length body)\<rparr>) = ?d"
    using assms by (simp add: open_body_def read_write_uint32 Let_def)
  moreover have "feed parse cfg body ?d = finish_body parse cfg ([] @ body) ?d"
    using assms(1) by (intro feed_body_last [where len = "length body"]) (simp_all add: new_decoder_def)
  moreover have "finish_body parse cfg body ?d = (new_decoder, [v])"
    using assms(4) by (simp add: finish_body_def new_decoder_def)
  ultimately show ?thesis by (simp add: feed_append)
qed

datatype 'v outgoing = Send 'v | Send_Result int bool jsstring

fun encode_out :: "('v \<Rightarrow> jsstring option) \<Rightarrow> nat \<Rightarrow> 'v outgoing \<Rightarrow> frame_error + byte list" where
  "encode_out stringify m (Send v) = encodeFrame stringify v m"
| "encode_out stringify m (Send_Result i ok json) = encodeResultFrame i ok json m"

fun received :: "'v outgoing \<Rightarrow> 'v frame_value" where
  "received (Send v) = Message v"
| "received (Send_Result i ok json) = Result_Frame (nat (i mod 2 ^ 32)) ok (utf8_encode json)"

text \<open>What the receiver must allow: enough values for a message, results at all for a result.\<close>

fun taken_by ::
  "('v \<Rightarrow> jsstring option) \<Rightarrow> (jsstring \<Rightarrow> 'v option) \<Rightarrow> frame_config \<Rightarrow> 'v outgoing \<Rightarrow> bool" where
  "taken_by stringify parse cfg (Send v) \<longleftrightarrow>
     (case stringify v of
        None \<Rightarrow> False
      | Some t \<Rightarrow> well_formed t \<and> parse t = Some v \<and> \<not> over (countJsonValues (fc_maxValues cfg) t) (fc_maxValues cfg))"
| "taken_by stringify parse cfg (Send_Result i ok json) \<longleftrightarrow> fc_takesResults cfg"

lemma feed_encoded:
  assumes "encode_out stringify m out = Inr bytes" "m \<le> fc_maxFrameBytes cfg"
    "taken_by stringify parse cfg out"
  shows "feed parse cfg bytes new_decoder = (new_decoder, [received out])"
proof (cases out)
  case (Send v)
  obtain t where t: "stringify v = Some t" "well_formed t" "parse t = Some v"
      "\<not> over (countJsonValues (fc_maxValues cfg) t) (fc_maxValues cfg)"
    using assms(3) Send by (auto split: option.splits)
  let ?body = "JSON_KIND # utf8_encode t"
  have b: "length ?body \<le> m" "length ?body < 2 ^ 32" "bytes = uint32_be (length ?body) @ ?body"
    using assms(1) Send t(1) by (auto simp: encodeFrame_def frame_def split: if_splits)
  have "decode parse cfg ?body = Inr (Message v)"
    using t by (simp add: decode_def decode_json_def utf8_roundtrip JSON_KIND_def RESULT_KIND_def)
  then show ?thesis using feed_frame [of ?body cfg parse "Message v"] b assms(2) Send by simp
next
  case (Send_Result i ok json)
  let ?id = "nat (i mod 2 ^ 32)"
  let ?body = "RESULT_KIND # (if ok then 1 else 0) # uint32_be ?id @ utf8_encode json"
  have b: "length ?body \<le> m" "length ?body < 2 ^ 32" "bytes = uint32_be (length ?body) @ ?body"
    using assms(1) Send_Result
    by (auto simp: encodeResultFrame_def RESULT_HEADER_BYTES_def Let_def split: if_splits)
  have id: "?id < 2 ^ 32" by (simp add: nat_less_iff)
  have "decode parse cfg ?body = Inr (Result_Frame ?id ok (utf8_encode json))"
    using assms(3) Send_Result read_write_uint32 [OF id]
    by (simp add: decode_def RESULT_HEADER_BYTES_def read_uint32_prefix) 
  then show ?thesis
    using feed_frame [of ?body cfg parse "Result_Frame ?id ok (utf8_encode json)"] b assms(2) Send_Result
    by simp
qed

fun encode_all :: "('v \<Rightarrow> jsstring option) \<Rightarrow> nat \<Rightarrow> 'v outgoing list \<Rightarrow> frame_error + byte list" where
  "encode_all stringify m [] = Inr []"
| "encode_all stringify m (v # vs) =
     (case encode_out stringify m v of
        Inl e \<Rightarrow> Inl e
      | Inr b \<Rightarrow> (case encode_all stringify m vs of Inl e \<Rightarrow> Inl e | Inr bs \<Rightarrow> Inr (b @ bs)))"

lemma feed_all:
  "encode_all stringify m outs = Inr bytes \<Longrightarrow> m \<le> fc_maxFrameBytes cfg \<Longrightarrow>
     list_all (taken_by stringify parse cfg) outs \<Longrightarrow>
     feed parse cfg bytes new_decoder = (new_decoder, map received outs)"
proof (induction outs arbitrary: bytes)
  case (Cons v vs)
  obtain b bs where b: "encode_out stringify m v = Inr b" "encode_all stringify m vs = Inr bs" "bytes = b @ bs"
    using Cons.prems(1) by (auto split: sum.splits)
  then show ?case using Cons feed_encoded [OF b(1) Cons.prems(2)] by (simp add: feed_append)
qed simp

text \<open>
  C15: what one side encodes the other decodes to the same messages and results, in order,
  whatever the chunks, and the stream may end after them.
\<close>

theorem frames_roundtrip:
  assumes "encode_all stringify m outs = Inr bytes" "m \<le> fc_maxFrameBytes cfg"
    "list_all (taken_by stringify parse cfg) outs" "concat chunks = bytes"
  shows "push_all parse cfg chunks new_decoder = (new_decoder, Inr (map received outs)) \<and>
    end_stream new_decoder = (new_decoder, Inr ())"
  using feed_all [OF assms(1-3)] assms(4)
  by (simp add: push_all_feed new_decoder_waiting) (simp add: end_stream_def new_decoder_def)

theorem frames_roundtrip_witness:
  "push_all (\<lambda>t. if t = js ''[1]'' then Some (1::nat) else None) \<lparr>fc_maxFrameBytes = 9, fc_takesResults = True, fc_maxValues = Some 2\<rparr>
     [[0, 0, 0, 4], [0, 0x5B, 0x31], [0x5D], [0, 0, 0, 6, 1, 1, 0, 0, 0, 7]] new_decoder =
   (new_decoder, Inr [Message 1, Result_Frame 7 True []])"
proof -
  let ?parse = "\<lambda>t. if t = js ''[1]'' then Some (1::nat) else None" and ?str = "\<lambda>n::nat. Some (js ''[1]'')"
  let ?cfg = "\<lparr>fc_maxFrameBytes = 9, fc_takesResults = True, fc_maxValues = Some 2\<rparr>"
  let ?outs = "[Send 1, Send_Result 7 True []] :: nat outgoing list"
  let ?bytes = "[0, 0, 0, 4, 0, 0x5B, 0x31, 0x5D, 0, 0, 0, 6, 1, 1, 0, 0, 0, 7] :: byte list"
  have "encode_all ?str 9 ?outs = Inr ?bytes"
    by (simp add: encodeFrame_def encodeResultFrame_def frame_def utf8_encode_def utf8_char_def js_def
        uint32_be_def byte_of_def JSON_KIND_def RESULT_KIND_def RESULT_HEADER_BYTES_def
        high_surrogate_iff low_surrogate_iff)
  moreover have "list_all (taken_by ?str ?parse ?cfg) ?outs"
    by (simp add: js_def high_surrogate_iff low_surrogate_iff countJsonValues_def over_def is_blank_def)
  ultimately show ?thesis
    using frames_roundtrip [of ?str 9 ?outs ?bytes ?cfg ?parse
        "[[0, 0, 0, 4], [0, 0x5B, 0x31], [0x5D], [0, 0, 0, 6, 1, 1, 0, 0, 0, 7]]"]
    by (simp add: utf8_encode_def del: push_all.simps)
qed

subsection \<open>Counting is exact\<close>

text \<open>JSON texts by their layout, with the number of values they hold.\<close>

definition scalar_unit :: "code_unit \<Rightarrow> bool" where
  "scalar_unit c \<longleftrightarrow> c \<notin> {0x22, 0x5C, 0x7B, 0x7D, 0x5B, 0x5D, 0x2C, 0x3A} \<and> \<not> is_blank c"

inductive string_body :: "jsstring \<Rightarrow> bool" where
  body_end: "string_body []"
| body_unit: "c \<noteq> 0x22 \<Longrightarrow> c \<noteq> 0x5C \<Longrightarrow> string_body s \<Longrightarrow> string_body (c # s)"
| body_escape: "string_body s \<Longrightarrow> string_body (0x5C # c # s)"

inductive json_text :: "jsstring \<Rightarrow> nat \<Rightarrow> bool"
  and elements :: "jsstring \<Rightarrow> nat \<Rightarrow> bool"
  and members :: "jsstring \<Rightarrow> nat \<Rightarrow> bool" where
  text_scalar: "w \<noteq> [] \<Longrightarrow> \<forall>c \<in> set w. scalar_unit c \<Longrightarrow> json_text w 1"
| text_string: "string_body b \<Longrightarrow> json_text (0x22 # b @ [0x22]) 1"
| text_blank_before: "is_blank c \<Longrightarrow> json_text w n \<Longrightarrow> json_text (c # w) n"
| text_blank_after: "json_text w n \<Longrightarrow> is_blank c \<Longrightarrow> json_text (w @ [c]) n"
| text_empty_array: "\<forall>c \<in> set bl. is_blank c \<Longrightarrow> json_text (0x5B # bl @ [0x5D]) 1"
| text_empty_object: "\<forall>c \<in> set bl. is_blank c \<Longrightarrow> json_text (0x7B # bl @ [0x7D]) 1"
| text_array: "elements es n \<Longrightarrow> json_text (0x5B # es @ [0x5D]) (n + 1)"
| text_object: "members ms n \<Longrightarrow> json_text (0x7B # ms @ [0x7D]) (n + 1)"
| elements_one: "json_text w n \<Longrightarrow> elements w n"
| elements_more: "json_text w n \<Longrightarrow> elements es k \<Longrightarrow> elements (w @ 0x2C # es) (n + k)"
| members_one:
    "\<forall>c \<in> set bl. is_blank c \<Longrightarrow> string_body b \<Longrightarrow> \<forall>c \<in> set bl'. is_blank c \<Longrightarrow> json_text w n \<Longrightarrow>
       members (bl @ 0x22 # b @ 0x22 # bl' @ 0x3A # w) n"
| members_more: "members m n \<Longrightarrow> members ms k \<Longrightarrow> members (m @ 0x2C # ms) (n + k)"

lemma is_blank_plain: "is_blank c \<Longrightarrow> c \<notin> {0x22, 0x5C, 0x7B, 0x7D, 0x5B, 0x5D, 0x2C, 0x3A}"
  by (auto simp: is_blank_def)

lemma count_plain:
  "\<forall>c \<in> set w. c \<notin> {0x22, 0x7B, 0x5B, 0x2C} \<Longrightarrow> count_values lim False n (w @ s) = count_values lim False n s"
  by (induction w) auto

lemma count_blanks:
  "\<forall>c \<in> set w. is_blank c \<Longrightarrow> count_values lim False n (w @ s) = count_values lim False n s"
  using is_blank_plain by (intro count_plain) auto

lemma count_string:
  "string_body b \<Longrightarrow> count_values lim True n (b @ 0x22 # s) = count_values lim False n s"
  by (induction rule: string_body.induct) auto

text \<open>A value's first unit closes nothing.\<close>

definition opens :: "jsstring \<Rightarrow> bool" where
  "opens w \<longleftrightarrow> (\<forall>s. let rest = dropWhile is_blank (w @ s) in rest \<noteq> [] \<and> hd rest \<noteq> 0x7D \<and> hd rest \<noteq> 0x5D)"

lemma opens_append: "opens w \<Longrightarrow> opens (w @ v)"
  unfolding opens_def append_assoc by blast

lemma opens_blanks: "\<forall>c \<in> set bl. is_blank c \<Longrightarrow> opens w \<Longrightarrow> opens (bl @ w)"
  by (simp add: opens_def dropWhile_append2)

lemma opens_hd: "w \<noteq> [] \<Longrightarrow> \<not> is_blank (hd w) \<Longrightarrow> hd w \<noteq> 0x7D \<Longrightarrow> hd w \<noteq> 0x5D \<Longrightarrow> opens w"
  by (cases w) (auto simp: opens_def)

lemma opens_Cons: "\<not> is_blank c \<Longrightarrow> c \<noteq> 0x7D \<Longrightarrow> c \<noteq> 0x5D \<Longrightarrow> opens (c # w)"
  by (rule opens_hd) simp_all

lemma opening_count:
  "opens w \<Longrightarrow> c = 0x7B \<or> c = 0x5B \<Longrightarrow>
     count_values None False n (c # w @ s) = count_values None False (n + 1) (w @ s)"
  by (auto simp: opens_def over_def Let_def)

lemma empty_count:
  "\<forall>c \<in> set bl. is_blank c \<Longrightarrow> count_values None False n (0x5B # bl @ 0x5D # s) = count_values None False n s"
  "\<forall>c \<in> set bl. is_blank c \<Longrightarrow> count_values None False n (0x7B # bl @ 0x7D # s) = count_values None False n s"
  by (simp_all add: dropWhile_append2 count_blanks is_blank_def)

lemma closing_count:
  "count_values lim False n (0x5D # s) = count_values lim False n s"
  "count_values lim False n (0x7D # s) = count_values lim False n s"
  by simp_all

lemma comma_count: "count_values None False n (0x2C # s) = count_values None False (n + 1) s"
  by (simp add: over_def)

lemma text_opens:
  "json_text w n \<Longrightarrow> opens w" "elements es k \<Longrightarrow> opens es" "members ms j \<Longrightarrow> opens ms"
proof (induction rule: json_text_elements_members.inducts)
  case (text_scalar w)
  then show ?case by (intro opens_hd) (cases w, auto simp: scalar_unit_def)+
next
  case (text_blank_before c w n)
  then show ?case using opens_blanks [of "[c]" w] by simp
next
  case (members_one bl b bl' w n)
  then show ?case by (intro opens_blanks opens_Cons) (simp_all add: is_blank_def)
next
  case (text_blank_after w n c)
  then show ?case by (intro opens_append)
next
  case (elements_more w n es k)
  then show ?case by (intro opens_append)
next
  case (members_more m n ms k)
  then show ?case by (intro opens_append)
qed (simp_all add: opens_Cons is_blank_def)

lemma count_layout:
  "json_text w n \<Longrightarrow> count_values None False (k + 1) (w @ s) = count_values None False (k + n) s"
  "elements w n \<Longrightarrow> count_values None False (k + 1) (w @ s) = count_values None False (k + n) s"
  "members w n \<Longrightarrow> count_values None False (k + 1) (w @ s) = count_values None False (k + n) s"
proof (induction arbitrary: k s and k s and k s rule: json_text_elements_members.inducts)
  case (text_scalar w)
  then show ?case using count_plain [of w None "k + 1" s] by (auto simp: scalar_unit_def)
next
  case (text_string b)
  then show ?case by (simp add: count_string)
next
  case (text_blank_before c w n)
  then show ?case using count_blanks [of "[c]" None "k + 1" "w @ s"] by simp
next
  case (text_blank_after w n c)
  then show ?case using count_blanks [of "[c]" None "k + n" s] by simp
next
  case (text_empty_array bl)
  then show ?case by (simp add: empty_count del: count_values.simps)
next
  case (text_empty_object bl)
  then show ?case by (simp add: empty_count del: count_values.simps)
next
  case (text_array es n)
  have "count_values None False (k + 1) (0x5B # es @ [0x5D] @ s) = count_values None False ((k + 1) + 1) (es @ [0x5D] @ s)"
    using text_opens(2) [OF text_array(1)] by (intro opening_count) auto
  also have "\<dots> = count_values None False (k + 1 + n) ([0x5D] @ s)" by (rule text_array.IH)
  finally show ?case by (simp add: closing_count add.commute add.left_commute del: count_values.simps)
next
  case (text_object ms n)
  have "count_values None False (k + 1) (0x7B # ms @ [0x7D] @ s) = count_values None False ((k + 1) + 1) (ms @ [0x7D] @ s)"
    using text_opens(3) [OF text_object(1)] by (intro opening_count) auto
  also have "\<dots> = count_values None False (k + 1 + n) ([0x7D] @ s)" by (rule text_object.IH)
  finally show ?case by (simp add: closing_count add.commute add.left_commute del: count_values.simps)
next
  case (elements_more w n es m)
  then show ?case by (simp add: comma_count add.assoc [symmetric] del: count_values.simps)
next
  case (members_one bl b bl' w n)
  then show ?case by (simp add: count_blanks count_string)
next
  case (members_more m n ms j)
  then show ?case by (simp add: comma_count add.assoc [symmetric] del: count_values.simps)
qed simp

lemma count_grows: "n \<le> count_values None st n s"
proof (induction "None :: nat option" st n s rule: count_values.induct)
qed (auto simp: over_def Let_def)

lemma count_limit:
  "n \<le> m \<Longrightarrow> count_values (Some m) st n s > m \<longleftrightarrow> count_values None st n s > m"
proof (induction "Some m" st n s rule: count_values.induct)
  case (3 n c s)
  then show ?case using count_grows [of "n + 1" False s]
    by (auto simp: over_def Let_def)
qed (auto simp: over_def Let_def)

text \<open>
  On a JSON text, with any blanks, the count is the number of values in it, and
  counting with a limit passes the limit exactly when that number does.
\<close>

theorem countJsonValues_exact:
  assumes "json_text w n"
  shows "countJsonValues None w = n \<and> (0 < m \<longrightarrow> (over (countJsonValues (Some m) w) (Some m) \<longleftrightarrow> n > m))"
proof -
  have n: "countJsonValues None w = n"
    using count_layout(1) [OF assms, of 0 "[]"] by (simp add: countJsonValues_def)
  then show ?thesis using count_limit [of 1 m False w] by (simp add: countJsonValues_def over_def)
qed

theorem countJsonValues_exact_witness:
  "countJsonValues None (js ''[1, {}]'') = 3"
proof -
  have "json_text (0x20 # 0x7B # [] @ [0x7D]) 1"
    by (intro text_blank_before text_empty_object) (simp_all add: is_blank_def)
  moreover have "json_text [0x31] 1" by (rule text_scalar) (simp_all add: scalar_unit_def is_blank_def)
  ultimately have "json_text (0x5B # ([0x31] @ 0x2C # 0x20 # 0x7B # [] @ [0x7D]) @ [0x5D]) ((1 + 1) + 1)"
    by (intro text_array elements_more elements_one)
  moreover have "0x5B # ([0x31] @ 0x2C # 0x20 # 0x7B # [] @ [0x7D]) @ [0x5D] = js ''[1, {}]''"
    by (simp add: js_def)
  ultimately have "json_text (js ''[1, {}]'') 3" by (simp add: numeral_3_eq_3)
  then show ?thesis using countJsonValues_exact by blast
qed

end
