(* ===== verification/Admission.thy ===== *)
theory Admission
  imports Js_Values
begin

section \<open>Admission of inbound events (src/admission/admit.ts)\<close>

text \<open>
  One decision per event before any side effect. The policy the framework hands in is a
  parameter: its functions read a state \<open>'s\<close>, and the two that commit, the suppress rules
  and the gate's \<open>evaluate\<close>, return the next one.
\<close>

datatype lane = Channel_Lane | Push_Lane

record envelope =
  env_lane :: lane
  env_serverId :: jsstring
  env_channelId :: "jsstring option"
  env_messageId :: jsstring
  env_authorId :: "jsstring option"
  env_tags :: "jsstring list option"
  env_addressed :: bool
  env_vetoed :: bool
  env_targetAgents :: "jsstring list option"
  env_gateContent :: jsstring
  env_gateMetadata :: jsobject

record hold_record =
  hold_epochId :: jsstring
  hold_serverId :: jsstring
  hold_channelId :: jsstring

record 's wake_gate =
  gate_evaluate :: "envelope \<Rightarrow> 's \<Rightarrow> bool \<times> 's"
  gate_probe :: "envelope \<Rightarrow> 's \<Rightarrow> bool"

record 's admission_policy =
  untargetedRecipients :: "'s \<Rightarrow> jsstring list"
  holdFor :: "jsstring \<Rightarrow> jsstring \<Rightarrow> 's \<Rightarrow> hold_record option"
  the_gate :: "'s wake_gate option"
  suppressionFor :: "(envelope \<Rightarrow> 's \<Rightarrow> jsstring option \<times> 's) option"

record admission_decision =
  ad_recipients :: "jsstring list"
  ad_held :: "hold_record option"
  ad_suppressed :: "jsstring option"
  ad_wake :: bool
  ad_gatePass :: bool
  ad_locus :: bool

definition admit :: "envelope \<Rightarrow> 's admission_policy \<Rightarrow> 's \<Rightarrow> admission_decision \<times> 's" where
  "admit env policy s =
     (let recipients = (case env_targetAgents env of Some ts \<Rightarrow> ts | None \<Rightarrow> untargetedRecipients policy s);
          (rule, s1) = (case suppressionFor policy of None \<Rightarrow> (None, s) | Some f \<Rightarrow> f env s)
      in case rule of
        Some r \<Rightarrow>
          (\<lparr>ad_recipients = recipients, ad_held = None, ad_suppressed = Some r,
            ad_wake = False, ad_gatePass = False, ad_locus = False\<rparr>, s1)
      | None \<Rightarrow>
          (let held = (case env_channelId env of
                         Some c \<Rightarrow> if c \<noteq> [] then holdFor policy (env_serverId env) c s1 else None
                       | None \<Rightarrow> None)
           in case held of
             Some h \<Rightarrow>
               (let pass = (if env_vetoed env then False
                            else (case the_gate policy of Some g \<Rightarrow> gate_probe g env s1 | None \<Rightarrow> True))
                in (\<lparr>ad_recipients = recipients, ad_held = Some h, ad_suppressed = None,
                     ad_wake = False, ad_gatePass = pass, ad_locus = False\<rparr>, s1))
           | None \<Rightarrow>
               if env_vetoed env then
                 (\<lparr>ad_recipients = recipients, ad_held = None, ad_suppressed = None,
                   ad_wake = False, ad_gatePass = False, ad_locus = True\<rparr>, s1)
               else
                 (let (pass, s2) = (case the_gate policy of Some g \<Rightarrow> gate_evaluate g env s1 | None \<Rightarrow> (True, s1))
                  in (\<lparr>ad_recipients = recipients, ad_held = None, ad_suppressed = None,
                       ad_wake = pass, ad_gatePass = pass, ad_locus = True\<rparr>, s2))))"

subsection \<open>What a decision rules out\<close>

lemmas admit_cases = admit_def Let_def prod.case_eq_if

text \<open>
  An event that is suppressed, held or vetoed leaves no trace in the gate: replacing the
  gate's evaluation by any other changes neither the decision nor the state. Nobody is woken
  for such an event, and it counts as the latest inbound exactly when it is neither
  suppressed nor held.
\<close>

theorem undelivered_leaves_gate_alone:
  assumes "the_gate policy = Some g"
    "ad_suppressed (fst (admit env policy s)) \<noteq> None \<or> ad_held (fst (admit env policy s)) \<noteq> None \<or> env_vetoed env"
  shows "admit env (policy\<lparr>the_gate := Some (g\<lparr>gate_evaluate := f\<rparr>)\<rparr>) s = admit env policy s \<and>
    \<not> ad_wake (fst (admit env policy s)) \<and>
    (ad_locus (fst (admit env policy s)) \<longleftrightarrow>
       ad_suppressed (fst (admit env policy s)) = None \<and> ad_held (fst (admit env policy s)) = None)"
  using assms by (simp add: admit_cases split: option.splits if_splits)

definition sample_policy :: "nat admission_policy" where
  "sample_policy =
     \<lparr>untargetedRecipients = (\<lambda>_. [js ''resident'']),
      holdFor = (\<lambda>sv c _. Some \<lparr>hold_epochId = js ''e1'', hold_serverId = sv, hold_channelId = c\<rparr>),
      the_gate = Some \<lparr>gate_evaluate = (\<lambda>_ n. (True, n + 1)), gate_probe = (\<lambda>_ _. True)\<rparr>,
      suppressionFor = None\<rparr>"

definition sample_event :: envelope where
  "sample_event =
     \<lparr>env_lane = Channel_Lane, env_serverId = js ''zulip'', env_channelId = Some (js ''general''),
      env_messageId = js ''m1'', env_authorId = None, env_tags = None, env_addressed = False, env_vetoed = False,
      env_targetAgents = None, env_gateContent = [], env_gateMetadata = []\<rparr>"

theorem undelivered_leaves_gate_alone_witness:
  "\<not> ad_wake (fst (admit sample_event sample_policy 0)) \<and> ad_gatePass (fst (admit sample_event sample_policy 0))"
proof -
  have "ad_held (fst (admit sample_event sample_policy 0)) \<noteq> None"
    by (simp add: sample_event_def sample_policy_def admit_def Let_def)
  then show ?thesis
    using undelivered_leaves_gate_alone
      [of sample_policy "\<lparr>gate_evaluate = (\<lambda>_ n. (True, n + 1)), gate_probe = (\<lambda>_ _. True)\<rparr>" sample_event 0]
    by (simp add: sample_event_def sample_policy_def admit_def Let_def)
qed

text \<open>
  A delivered event is shown to the gate exactly once, after the suppress rules have
  committed: a gate that counts its evaluations counts one, and one whose event goes
  elsewhere counts none.
\<close>

theorem evaluated_once_when_delivered:
  fixes policy :: "(nat \<times> 'q) admission_policy"
  assumes "the_gate policy = Some \<lparr>gate_evaluate = (\<lambda>e (n, q). (v e q, n + 1, q)), gate_probe = p\<rparr>"
    "\<And>f e n q. suppressionFor policy = Some f \<Longrightarrow> fst (snd (f e (n, q))) = n"
  shows "fst (snd (admit env policy (n, q))) =
    n + (if ad_suppressed (fst (admit env policy (n, q))) = None \<and> ad_held (fst (admit env policy (n, q))) = None
            \<and> \<not> env_vetoed env then 1 else 0)"
  using assms(1) assms(2) [of _ env n q]
  by (auto simp: admit_cases split: option.splits if_splits)

theorem evaluated_once_when_delivered_witness:
  "fst (snd (admit (sample_event\<lparr>env_channelId := None\<rparr>)
     \<lparr>untargetedRecipients = (\<lambda>_. []), holdFor = (\<lambda>_ _ _. None),
      the_gate = Some \<lparr>gate_evaluate = (\<lambda>e (n, q). (True, n + 1, q)), gate_probe = (\<lambda>_ _. True)\<rparr>,
      suppressionFor = None\<rparr> (3 :: nat, ()))) = 4"
  by (subst evaluated_once_when_delivered [where v = "\<lambda>_ _. True" and p = "\<lambda>_ _. True"])
    (simp_all add: sample_event_def admit_def)

end
