(* ===== verification/Usage_Tracker.thy ===== *)
theory Usage_Tracker
  imports Js_Values
begin

section \<open>Token usage and cost (src/usage/usage-tracker.ts)\<close>

text \<open>
  Tallies per agent, one shared by every ephemeral agent, and the totals. A count is a number
  the tally sums exactly (token counts are integers far below 2 to the 53); a reported count
  that is no finite number is any value but \<open>JNum\<close>. What a cost's total is and what \<open>+\<close>
  makes of two of them, which is floating point, is left to the parameter \<open>addNum\<close>.
\<close>

record usage =
  u_inputTokens :: rat
  u_outputTokens :: rat
  u_cacheCreationTokens :: rat
  u_cacheReadTokens :: rat
  u_estimatedCost :: "(jsval \<times> jsval) option"
  u_mixedCurrencies :: bool

record reported =
  r_inputTokens :: jsval
  r_outputTokens :: jsval
  r_cacheCreationTokens :: jsval
  r_cacheReadTokens :: jsval

definition emptyUsage :: usage where
  "emptyUsage = \<lparr>u_inputTokens = 0, u_outputTokens = 0, u_cacheCreationTokens = 0, u_cacheReadTokens = 0,
     u_estimatedCost = None, u_mixedCurrencies = False\<rparr>"

fun finite_count :: "jsval \<Rightarrow> rat" where
  "finite_count (JNum n) = n"
| "finite_count _ = 0"

definition accumulateUsage ::
  "(jsval \<Rightarrow> jsval \<Rightarrow> jsval) \<Rightarrow> usage \<Rightarrow> reported \<Rightarrow> (jsval \<times> jsval) option \<Rightarrow> bool \<Rightarrow> usage" where
  "accumulateUsage addNum target tokens cost mixed =
     (let t = target
        \<lparr>u_inputTokens := u_inputTokens target + finite_count (r_inputTokens tokens),
         u_outputTokens := u_outputTokens target + finite_count (r_outputTokens tokens),
         u_cacheCreationTokens := u_cacheCreationTokens target + finite_count (r_cacheCreationTokens tokens),
         u_cacheReadTokens := u_cacheReadTokens target + finite_count (r_cacheReadTokens tokens)\<rparr>
      in if u_mixedCurrencies target then t
         else if mixed \<or> (case (cost, u_estimatedCost target) of
                            (Some (_, c), Some (_, c')) \<Rightarrow> c' \<noteq> c | _ \<Rightarrow> False)
         then t\<lparr>u_estimatedCost := None, u_mixedCurrencies := True\<rparr>
         else
           (case cost of
              None \<Rightarrow> t
            | Some (amount, currency) \<Rightarrow>
                (let (amount0, currency0) =
                   (case u_estimatedCost target of None \<Rightarrow> (JNum 0, currency) | Some tc \<Rightarrow> tc)
                 in t\<lparr>u_estimatedCost := Some (addNum amount0 amount, currency0)\<rparr>)))"

subsection \<open>Stored usage\<close>

fun stored_count :: "jsval \<Rightarrow> rat option" where
  "stored_count JNull = Some 0"
| "stored_count (JNum n) = Some n"
| "stored_count _ = None"

fun is_object :: "jsval \<Rightarrow> bool" where
  "is_object (JObj _) = True"
| "is_object (JArr _) = True"
| "is_object _ = False"

definition parseUsage :: "jsval \<Rightarrow> usage option" where
  "parseUsage raw =
     (if \<not> is_object raw then None
      else
        (case (stored_count (field raw (js ''inputTokens'')), stored_count (field raw (js ''outputTokens''))) of
           (Some i, Some out) \<Rightarrow>
             (let mixed = (field raw (js ''mixedCurrencies'') = JTrue);
                  cost = field raw (js ''estimatedCost'')
              in Some
                \<lparr>u_inputTokens = i, u_outputTokens = out,
                 u_cacheCreationTokens = finite_count (field raw (js ''cacheCreationTokens'')),
                 u_cacheReadTokens = finite_count (field raw (js ''cacheReadTokens'')),
                 u_estimatedCost =
                   (if \<not> mixed \<and> is_object cost
                    then Some (field cost (js ''total''), field cost (js ''currency'')) else None),
                 u_mixedCurrencies = mixed\<rparr>)
         | _ \<Rightarrow> None))"

datatype usage_problem = Not_A_Record | Bad_Totals | Bad_ByAgent

definition persistedUsageProblem :: "jsval \<Rightarrow> usage_problem option" where
  "persistedUsageProblem v =
     (case v of
        JObj _ \<Rightarrow>
          if parseUsage (field v (js ''totals'')) = None then Some Bad_Totals
          else (case field v (js ''byAgent'') of
                  JUndef \<Rightarrow> None | JArr _ \<Rightarrow> None | _ \<Rightarrow> Some Bad_ByAgent)
      | _ \<Rightarrow> Some Not_A_Record)"

subsection \<open>The tracker\<close>

record tally =
  tl_usage :: usage
  tl_inferenceCount :: rat

record usage_tracker =
  ut_totals :: usage
  ut_byAgent :: "(jsstring, tally) jsmap"
  ut_ephemeral :: "tally option"
  ut_inferenceCount :: rat

definition emptyTally :: tally where
  "emptyTally = \<lparr>tl_usage = emptyUsage, tl_inferenceCount = 0\<rparr>"

definition new_tracker :: usage_tracker where
  "new_tracker = \<lparr>ut_totals = emptyUsage, ut_byAgent = [], ut_ephemeral = None, ut_inferenceCount = 0\<rparr>"

definition as_reported :: "usage \<Rightarrow> reported" where
  "as_reported u =
     \<lparr>r_inputTokens = JNum (u_inputTokens u), r_outputTokens = JNum (u_outputTokens u),
      r_cacheCreationTokens = JNum (u_cacheCreationTokens u), r_cacheReadTokens = JNum (u_cacheReadTokens u)\<rparr>"

definition addTally :: "(jsval \<Rightarrow> jsval \<Rightarrow> jsval) \<Rightarrow> tally \<Rightarrow> usage \<Rightarrow> rat \<Rightarrow> tally" where
  "addTally addNum target u n =
     target\<lparr>tl_usage := accumulateUsage addNum (tl_usage target) (as_reported u) (u_estimatedCost u) (u_mixedCurrencies u),
            tl_inferenceCount := tl_inferenceCount target + n\<rparr>"

definition restore_entry ::
  "(jsval \<Rightarrow> jsval \<Rightarrow> jsval) \<Rightarrow> (jsstring \<Rightarrow> bool) \<Rightarrow> jsval \<Rightarrow> usage_tracker \<Rightarrow> usage_tracker" where
  "restore_entry addNum wasEphemeral item t =
     (if \<not> is_object item then t
      else
        (case (parseUsage (field item (js ''usage'')), field item (js ''agentName'')) of
           (Some u, JStr name) \<Rightarrow>
             (let n = finite_count (field item (js ''inferenceCount'')) in
              if field item (js ''ephemeral'') = JTrue \<or> wasEphemeral name
              then t\<lparr>ut_ephemeral := Some (addTally addNum
                       (case ut_ephemeral t of None \<Rightarrow> emptyTally | Some e \<Rightarrow> e) u n)\<rparr>
              else t\<lparr>ut_byAgent := AList.update name \<lparr>tl_usage = u, tl_inferenceCount = n\<rparr> (ut_byAgent t)\<rparr>)
         | _ \<Rightarrow> t))"

definition tallies :: "usage_tracker \<Rightarrow> tally list" where
  "tallies t = map snd (ut_byAgent t) @ (case ut_ephemeral t of None \<Rightarrow> [] | Some e \<Rightarrow> [e])"

definition currencies_of :: "usage list \<Rightarrow> jsval list" where
  "currencies_of us = List.map_filter (\<lambda>u. map_option snd (u_estimatedCost u)) us"

definition restoreFrom ::
  "(jsval \<Rightarrow> jsval \<Rightarrow> jsval) \<Rightarrow> (jsstring \<Rightarrow> bool) \<Rightarrow> jsval \<Rightarrow> usage_tracker \<Rightarrow> usage_tracker" where
  "restoreFrom addNum wasEphemeral state t =
     (case parseUsage (field state (js ''totals'')) of
        None \<Rightarrow> t
      | Some totals \<Rightarrow>
          (let t1 = t\<lparr>ut_totals := totals, ut_inferenceCount := finite_count (field state (js ''inferenceCount''))\<rparr>;
               t2 = (case field state (js ''byAgent'') of
                       JArr items \<Rightarrow> fold (restore_entry addNum wasEphemeral) items t1 | _ \<Rightarrow> t1);
               us = map tl_usage (tallies t2);
               currencies = set (currencies_of us) \<union> set (currencies_of [ut_totals t2])
           in if \<not> u_mixedCurrencies (ut_totals t2)
                 \<and> (card currencies > 1 \<or> list_ex u_mixedCurrencies us)
              then t2\<lparr>ut_totals := (ut_totals t2)\<lparr>u_estimatedCost := None, u_mixedCurrencies := True\<rparr>\<rparr>
              else t2))"

definition restored_tracker :: "(jsval \<Rightarrow> jsval \<Rightarrow> jsval) \<Rightarrow> (jsstring \<Rightarrow> bool) \<Rightarrow> jsval \<Rightarrow> usage_tracker" where
  "restored_tracker addNum wasEphemeral state = restoreFrom addNum wasEphemeral state new_tracker"

record usage_updated =
  uu_totals :: usage
  uu_agentName :: jsstring
  uu_inferenceCount :: rat

definition or_zero :: "jsval \<Rightarrow> jsval" where
  "or_zero v = (if v = JUndef \<or> v = JNull then JNum 0 else v)"

definition count_one ::
  "(jsval \<Rightarrow> jsval \<Rightarrow> jsval) \<Rightarrow> reported \<Rightarrow> (jsval \<times> jsval) option \<Rightarrow> tally \<Rightarrow> tally" where
  "count_one addNum tokens cost a =
     a\<lparr>tl_usage := accumulateUsage addNum (tl_usage a) tokens cost False,
       tl_inferenceCount := tl_inferenceCount a + 1\<rparr>"

definition onInferenceCompleted ::
  "(jsval \<Rightarrow> jsval \<Rightarrow> jsval) \<Rightarrow> jsstring \<Rightarrow> reported \<Rightarrow> (jsval \<times> jsval) option \<Rightarrow> bool
     \<Rightarrow> usage_tracker \<Rightarrow> usage_tracker \<times> usage_updated" where
  "onInferenceCompleted addNum agentName reported cost ephemeral t =
     (let tokens = reported
        \<lparr>r_cacheCreationTokens := or_zero (r_cacheCreationTokens reported),
         r_cacheReadTokens := or_zero (r_cacheReadTokens reported)\<rparr>;
          t1 = t\<lparr>ut_totals := accumulateUsage addNum (ut_totals t) tokens cost False,
                 ut_inferenceCount := ut_inferenceCount t + 1\<rparr>;
          agent = (case (if ephemeral then ut_ephemeral t else map_of (ut_byAgent t) agentName) of
                     None \<Rightarrow> emptyTally | Some a \<Rightarrow> a);
          agent' = count_one addNum tokens cost agent;
          t2 = (if ephemeral then t1\<lparr>ut_ephemeral := Some agent'\<rparr>
                else t1\<lparr>ut_byAgent := AList.update agentName agent' (ut_byAgent t1)\<rparr>)
      in (t2, \<lparr>uu_totals = ut_totals t2, uu_agentName = agentName, uu_inferenceCount = ut_inferenceCount t2\<rparr>))"

definition EPHEMERAL_USAGE_NAME :: jsstring where
  "EPHEMERAL_USAGE_NAME = js ''ephemeral agents''"

text \<open>A snapshot is what is stored: an absent cost is an undefined member.\<close>

definition snapshotUsage :: "usage \<Rightarrow> jsval" where
  "snapshotUsage u = JObj
     ([(js ''inputTokens'', JNum (u_inputTokens u)), (js ''outputTokens'', JNum (u_outputTokens u)),
       (js ''cacheCreationTokens'', JNum (u_cacheCreationTokens u)),
       (js ''cacheReadTokens'', JNum (u_cacheReadTokens u))]
      @ (if u_mixedCurrencies u then [(js ''mixedCurrencies'', JTrue)] else [])
      @ [(js ''estimatedCost'',
          case u_estimatedCost u of None \<Rightarrow> JUndef
          | Some (amount, currency) \<Rightarrow> JObj [(js ''total'', amount), (js ''currency'', currency)])])"

definition snapshot_entry :: "jsstring \<Rightarrow> tally \<Rightarrow> jsobject" where
  "snapshot_entry name a =
     [(js ''agentName'', JStr name), (js ''usage'', snapshotUsage (tl_usage a)),
      (js ''inferenceCount'', JNum (tl_inferenceCount a))]"

definition getSnapshot :: "usage_tracker \<Rightarrow> jsval" where
  "getSnapshot t =
     (let byAgent = map (\<lambda>(name, a). JObj (snapshot_entry name a)) (ut_byAgent t)
        @ (case ut_ephemeral t of None \<Rightarrow> []
           | Some e \<Rightarrow> [JObj (snapshot_entry EPHEMERAL_USAGE_NAME e @ [(js ''ephemeral'', JTrue)])])
      in JObj [(js ''totals'', snapshotUsage (ut_totals t)), (js ''byAgent'', JArr byAgent),
               (js ''inferenceCount'', JNum (ut_inferenceCount t))])"

subsection \<open>Completed inferences\<close>

record completion =
  co_agentName :: jsstring
  co_reported :: reported
  co_cost :: "(jsval \<times> jsval) option"
  co_ephemeral :: bool

definition complete_one :: "(jsval \<Rightarrow> jsval \<Rightarrow> jsval) \<Rightarrow> completion \<Rightarrow> usage_tracker \<Rightarrow> usage_tracker" where
  "complete_one addNum c t = fst (onInferenceCompleted addNum (co_agentName c) (co_reported c) (co_cost c) (co_ephemeral c) t)"

definition completed :: "(jsval \<Rightarrow> jsval \<Rightarrow> jsval) \<Rightarrow> completion list \<Rightarrow> usage_tracker" where
  "completed addNum cs = fold (complete_one addNum) cs new_tracker"

definition with_defaults :: "reported \<Rightarrow> reported" where
  "with_defaults r = r\<lparr>r_cacheCreationTokens := or_zero (r_cacheCreationTokens r),
     r_cacheReadTokens := or_zero (r_cacheReadTokens r)\<rparr>"

definition counted :: "(jsval \<Rightarrow> jsval \<Rightarrow> jsval) \<Rightarrow> completion \<Rightarrow> tally \<Rightarrow> tally" where
  "counted addNum c = count_one addNum (with_defaults (co_reported c)) (co_cost c)"

lemma complete_one_simps [simp]:
  "ut_totals (complete_one addNum c t) = accumulateUsage addNum (ut_totals t) (with_defaults (co_reported c)) (co_cost c) False"
  "ut_inferenceCount (complete_one addNum c t) = ut_inferenceCount t + 1"
  "ut_ephemeral (complete_one addNum c t) = (if co_ephemeral c
     then Some (counted addNum c (case ut_ephemeral t of None \<Rightarrow> emptyTally | Some a \<Rightarrow> a)) else ut_ephemeral t)"
  "ut_byAgent (complete_one addNum c t) = (if co_ephemeral c then ut_byAgent t
     else AList.update (co_agentName c)
       (counted addNum c (case map_of (ut_byAgent t) (co_agentName c) of None \<Rightarrow> emptyTally | Some a \<Rightarrow> a)) (ut_byAgent t))"
  by (simp_all add: complete_one_def onInferenceCompleted_def with_defaults_def counted_def Let_def)

lemma completed_snoc: "completed addNum (cs @ [c]) = complete_one addNum c (completed addNum cs)"
  by (simp add: completed_def)

lemma completed_Nil: "completed addNum [] = new_tracker"
  by (simp add: completed_def)

lemma distinct_agents: "distinct (keys (ut_byAgent (completed addNum cs)))"
  by (induction cs rule: rev_induct) (simp_all add: completed_snoc completed_Nil new_tracker_def)

text \<open>Replacing a map's value changes a sum over its values by the difference.\<close>

lemma sum_update:
  fixes f :: "'v \<Rightarrow> rat"
  assumes "distinct (keys m)"
  shows "sum_list (map (f \<circ> snd) (AList.update k v m)) =
    sum_list (map (f \<circ> snd) m) + f v - (case map_of m k of None \<Rightarrow> 0 | Some w \<Rightarrow> f w)"
  using assms by (induction m) (auto split: option.splits dest: map_of_SomeD)

text \<open>One of the four counters: what it adds and where it starts.\<close>

locale usage_counter =
  fixes f :: "usage \<Rightarrow> rat" and g :: "reported \<Rightarrow> rat"
  assumes f_empty: "f emptyUsage = 0"
    and f_accumulate: "f (accumulateUsage addNum u r cost mixed) = f u + g r"
begin

definition total :: "usage_tracker \<Rightarrow> rat" where
  "total t = sum_list (map (f \<circ> tl_usage) (tallies t))"

lemma total_complete:
  "distinct (keys (ut_byAgent t)) \<Longrightarrow> total (complete_one addNum c t) = total t + g (with_defaults (co_reported c))"
  using sum_update [of "ut_byAgent t" "f \<circ> tl_usage" "co_agentName c"]
  by (auto simp: total_def tallies_def counted_def count_one_def f_accumulate emptyTally_def f_empty o_assoc
      split: option.splits)

lemma totals_sum: "f (ut_totals (completed addNum cs)) = sum_list (map (f \<circ> tl_usage) (tallies (completed addNum cs)))"
proof (induction cs rule: rev_induct)
  case Nil
  then show ?case by (simp add: completed_Nil new_tracker_def tallies_def f_empty)
next
  case (snoc c cs)
  then show ?case
    using total_complete [OF distinct_agents [of addNum cs], of addNum c]
    by (simp add: completed_snoc f_accumulate total_def o_def)
qed

end

interpretation input_tokens: usage_counter u_inputTokens "\<lambda>r. finite_count (r_inputTokens r)"
  by unfold_locales (simp_all add: emptyUsage_def accumulateUsage_def Let_def split: option.splits prod.splits)

interpretation output_tokens: usage_counter u_outputTokens "\<lambda>r. finite_count (r_outputTokens r)"
  by unfold_locales (simp_all add: emptyUsage_def accumulateUsage_def Let_def split: option.splits prod.splits)

interpretation cache_creation: usage_counter u_cacheCreationTokens "\<lambda>r. finite_count (r_cacheCreationTokens r)"
  by unfold_locales (simp_all add: emptyUsage_def accumulateUsage_def Let_def split: option.splits prod.splits)

interpretation cache_read: usage_counter u_cacheReadTokens "\<lambda>r. finite_count (r_cacheReadTokens r)"
  by unfold_locales (simp_all add: emptyUsage_def accumulateUsage_def Let_def split: option.splits prod.splits)

lemma inference_count_sum:
  "ut_inferenceCount (completed addNum cs) = sum_list (map tl_inferenceCount (tallies (completed addNum cs)))"
proof (induction cs rule: rev_induct)
  case (snoc c cs)
  then show ?case
    using sum_update [OF distinct_agents [of addNum cs], of tl_inferenceCount "co_agentName c"]
    by (auto simp: completed_snoc tallies_def counted_def count_one_def emptyTally_def split: option.splits)
qed (simp add: completed_Nil new_tracker_def tallies_def)

text \<open>
  However many inferences of whichever agents completed, the totals are the sums of the
  tallies, in every counter and in the number of inferences: nothing is counted twice or for
  nobody, whatever a provider's report lacks.
\<close>

theorem totals_are_the_sums:
  "let t = completed addNum cs; us = map tl_usage (tallies t) in
   u_inputTokens (ut_totals t) = sum_list (map u_inputTokens us) \<and>
   u_outputTokens (ut_totals t) = sum_list (map u_outputTokens us) \<and>
   u_cacheCreationTokens (ut_totals t) = sum_list (map u_cacheCreationTokens us) \<and>
   u_cacheReadTokens (ut_totals t) = sum_list (map u_cacheReadTokens us) \<and>
   ut_inferenceCount t = sum_list (map tl_inferenceCount (tallies t)) \<and>
   ut_inferenceCount t = of_nat (length cs)"
proof -
  have "ut_inferenceCount (completed addNum cs) = of_nat (length cs)"
    by (induction cs rule: rev_induct) (simp_all add: completed_snoc completed_Nil new_tracker_def)
  then show ?thesis
    using input_tokens.totals_sum [of addNum cs] output_tokens.totals_sum [of addNum cs]
      cache_creation.totals_sum [of addNum cs] cache_read.totals_sum [of addNum cs] inference_count_sum [of addNum cs]
    by (simp add: Let_def)
qed

subsection \<open>Costs\<close>

definition costs :: "completion list \<Rightarrow> (jsval \<times> jsval) list" where
  "costs cs = List.map_filter co_cost cs"

definition total_cost :: "(jsval \<Rightarrow> jsval \<Rightarrow> jsval) \<Rightarrow> (jsval \<times> jsval) list \<Rightarrow> (jsval \<times> jsval) option" where
  "total_cost addNum ps = (if ps = [] then None else Some (foldl addNum (JNum 0) (map fst ps), snd (hd ps)))"

lemma total_cost_snoc:
  "total_cost addNum (ps @ [(x, c)]) =
     Some (case total_cost addNum ps of None \<Rightarrow> (addNum (JNum 0) x, c) | Some (y, d) \<Rightarrow> (addNum y x, d))"
  by (cases ps) (auto simp: total_cost_def)

lemma costs_snoc: "costs (cs @ [c]) = costs cs @ (case co_cost c of None \<Rightarrow> [] | Some p \<Rightarrow> [p])"
  by (simp add: costs_def List.map_filter_def split: option.splits)

definition one_currency :: "(jsval \<times> jsval) list \<Rightarrow> bool" where
  "one_currency ps \<longleftrightarrow> (\<forall>p \<in> set ps. snd p = snd (hd ps))"

lemma one_currency_snoc:
  "one_currency (ps @ [(x, c)]) \<longleftrightarrow> one_currency ps \<and> (case total_cost addNum ps of None \<Rightarrow> True | Some (_, d) \<Rightarrow> d = c)"
  by (cases ps) (auto simp: one_currency_def total_cost_def)

lemma accumulate_cost:
  assumes "u_mixedCurrencies u \<longleftrightarrow> \<not> one_currency ps" "u_estimatedCost u = (if one_currency ps then total_cost addNum ps else None)"
  shows "let ps' = ps @ (case cost of None \<Rightarrow> [] | Some p \<Rightarrow> [p]); v = accumulateUsage addNum u r cost False in
    (u_mixedCurrencies v \<longleftrightarrow> \<not> one_currency ps') \<and>
    u_estimatedCost v = (if one_currency ps' then total_cost addNum ps' else None)"
proof (cases cost)
  case None
  then show ?thesis using assms by (simp add: accumulateUsage_def Let_def)
next
  case (Some p)
  obtain x c where p: "p = (x, c)" by (cases p)
  show ?thesis
  proof (cases "one_currency ps")
    case False
    then have "\<not> one_currency (ps @ [(x, c)])" using one_currency_snoc [of ps x c addNum] by simp
    then show ?thesis using assms Some p False by (simp add: accumulateUsage_def Let_def)
  next
    case True
    then show ?thesis using assms Some p one_currency_snoc [of ps x c addNum] total_cost_snoc [of addNum ps x c]
      by (auto simp: accumulateUsage_def Let_def split: option.splits prod.splits)
  qed
qed

text \<open>
  The total cost is the sum of the reported costs, in their currency, as long as they
  have one currency; once two have met it is absent, marked, and stays so.
\<close>

theorem cost_total_exact:
  "let u = ut_totals (completed addNum cs) in
   (u_mixedCurrencies u \<longleftrightarrow> \<not> one_currency (costs cs)) \<and>
   u_estimatedCost u = (if one_currency (costs cs) then total_cost addNum (costs cs) else None)"
proof (induction cs rule: rev_induct)
  case Nil
  then show ?case by (simp add: completed_Nil new_tracker_def emptyUsage_def costs_def total_cost_def one_currency_def
        List.map_filter_def)
next
  case (snoc c cs)
  then show ?case
    using accumulate_cost [of "ut_totals (completed addNum cs)" "costs cs" addNum "co_cost c" "with_defaults (co_reported c)"]
    by (simp add: completed_snoc costs_snoc Let_def)
qed

subsection \<open>Each agent by itself\<close>

definition own_completions :: "completion list \<Rightarrow> jsstring \<Rightarrow> completion list" where
  "own_completions cs name = filter (\<lambda>c. \<not> co_ephemeral c \<and> co_agentName c = name) cs"

definition tally_of :: "(jsval \<Rightarrow> jsval \<Rightarrow> jsval) \<Rightarrow> completion list \<Rightarrow> tally option" where
  "tally_of addNum cs = (if cs = [] then None else Some (fold (counted addNum) cs emptyTally))"

text \<open>
  An agent's tally depends on its own inferences alone, in their order, and the shared
  one on those of ephemeral agents alone, also when an agent of either kind has the name of
  another or of the shared entry.
\<close>

theorem tallies_independent:
  "map_of (ut_byAgent (completed addNum cs)) name = tally_of addNum (own_completions cs name) \<and>
   ut_ephemeral (completed addNum cs) = tally_of addNum (filter co_ephemeral cs)"
  by (induction cs rule: rev_induct)
    (auto simp: completed_Nil new_tracker_def tally_of_def own_completions_def completed_snoc split: option.splits)

subsection \<open>Restoring a snapshot\<close>

definition neat :: "usage \<Rightarrow> bool" where
  "neat u \<longleftrightarrow> (u_mixedCurrencies u \<longrightarrow> u_estimatedCost u = None) \<and>
     (\<forall>x c. u_estimatedCost u = Some (x, c) \<longrightarrow> (\<exists>n. x = JNum n))"

definition covered_by :: "usage \<Rightarrow> usage \<Rightarrow> bool" where
  "covered_by u tot \<longleftrightarrow> (\<not> u_mixedCurrencies tot \<longrightarrow> \<not> u_mixedCurrencies u \<and>
     (\<forall>x c. u_estimatedCost u = Some (x, c) \<longrightarrow> (\<exists>y. u_estimatedCost tot = Some (y, c))))"

lemma covered_empty: "covered_by emptyUsage tot" "neat emptyUsage"
  by (simp_all add: covered_by_def neat_def emptyUsage_def)

lemma covered_both: "covered_by u tot \<Longrightarrow> covered_by (accumulateUsage addNum u r cost False) (accumulateUsage addNum tot r cost False)"
  by (auto simp: covered_by_def accumulateUsage_def Let_def split: option.splits prod.splits if_splits)

lemma covered_total: "covered_by u tot \<Longrightarrow> covered_by u (accumulateUsage addNum tot r cost False)"
  by (auto simp: covered_by_def accumulateUsage_def Let_def split: option.splits prod.splits if_splits)

definition adds_numbers :: "(jsval \<Rightarrow> jsval \<Rightarrow> jsval) \<Rightarrow> bool" where
  "adds_numbers addNum \<longleftrightarrow> (\<forall>a b. \<exists>n. addNum (JNum a) (JNum b) = JNum n) \<and> (\<forall>b. addNum (JNum 0) (JNum b) = JNum b)"

lemma neat_accumulate:
  "adds_numbers addNum \<Longrightarrow> neat u \<Longrightarrow> (\<And>x c. cost = Some (x, c) \<Longrightarrow> \<exists>n. x = JNum n) \<Longrightarrow>
     neat (accumulateUsage addNum u r cost False)"
  by (cases cost; cases "u_estimatedCost u")
    (auto simp: neat_def accumulateUsage_def adds_numbers_def Let_def split: prod.splits if_splits; metis)+

lemma set_update: "set (map snd (AList.update k v m)) \<subseteq> insert v (set (map snd m))"
  by (induction m) auto

lemma update_fresh: "k \<notin> set (keys m) \<Longrightarrow> AList.update k v m = m @ [(k, v)]"
  by (induction m) auto

definition consistent :: "usage_tracker \<Rightarrow> bool" where
  "consistent t \<longleftrightarrow> neat (ut_totals t) \<and>
     (\<forall>a \<in> set (tallies t). neat (tl_usage a) \<and> covered_by (tl_usage a) (ut_totals t))"

lemma consistent_completed:
  assumes "adds_numbers addNum" "\<And>c x y. c \<in> set cs \<Longrightarrow> co_cost c = Some (x, y) \<Longrightarrow> \<exists>n. x = JNum n"
  shows "consistent (completed addNum cs)"
  using assms(2)
proof (induction cs rule: rev_induct)
  case Nil
  then show ?case by (simp add: completed_Nil new_tracker_def consistent_def tallies_def covered_empty)
next
  case (snoc c cs)
  let ?t = "completed addNum cs"
  have inv: "consistent ?t" by (rule snoc.IH) (rule snoc.prems, auto)
  have num: "\<exists>n. x = JNum n" if "co_cost c = Some (x, y)" for x y
    using that by (intro snoc.prems [of c x y]) simp_all
  let ?old = "case (if co_ephemeral c then ut_ephemeral ?t else map_of (ut_byAgent ?t) (co_agentName c)) of
    None \<Rightarrow> emptyTally | Some a \<Rightarrow> a"
  let ?tot = "ut_totals (complete_one addNum c ?t)"
  have old: "neat (tl_usage ?old)" "covered_by (tl_usage ?old) (ut_totals ?t)"
    using inv covered_empty
    by (auto simp: consistent_def tallies_def emptyTally_def split: option.splits dest!: map_of_SomeD) force+
  have new: "neat (tl_usage (counted addNum c ?old))" "covered_by (tl_usage (counted addNum c ?old)) ?tot"
    using neat_accumulate [OF assms(1) old(1) num] covered_both [OF old(2)]
    by (simp_all add: counted_def count_one_def)
  have "set (tallies (complete_one addNum c ?t)) \<subseteq> insert (counted addNum c ?old) (set (tallies ?t))"
  proof (cases "co_ephemeral c")
    case True
    then show ?thesis by (auto simp: tallies_def split: option.splits)
  next
    case False
    then have "ut_byAgent (complete_one addNum c ?t) = AList.update (co_agentName c) (counted addNum c ?old) (ut_byAgent ?t)"
      "ut_ephemeral (complete_one addNum c ?t) = ut_ephemeral ?t" by simp_all
    then show ?thesis using set_update [of "co_agentName c" "counted addNum c ?old" "ut_byAgent ?t"]
      unfolding tallies_def set_append by (metis Un_insert_left Un_mono order_refl)
  qed
  moreover have "neat (tl_usage a) \<and> covered_by (tl_usage a) ?tot" if "a \<in> set (tallies ?t)" for a
    using inv that by (auto simp: consistent_def intro: covered_total)
  moreover have "neat ?tot" using inv num by (simp add: consistent_def neat_accumulate [OF assms(1)])
  ultimately show ?case using new by (auto simp: completed_snoc consistent_def simp del: complete_one_simps)
qed

lemma parse_snapshot: "neat u \<Longrightarrow> parseUsage (snapshotUsage u) = Some u"
  by (auto simp: parseUsage_def snapshotUsage_def own_Cons neat_def split: option.splits)

lemma restore_agent:
  "neat (tl_usage a) \<Longrightarrow> restore_entry addNum (\<lambda>_. False) (JObj (snapshot_entry name a)) t =
     t\<lparr>ut_byAgent := AList.update name a (ut_byAgent t)\<rparr>"
  by (cases a) (simp add: restore_entry_def snapshot_entry_def own_Cons parse_snapshot)

lemma restore_agents:
  "\<forall>(name, a) \<in> set m. neat (tl_usage a) \<Longrightarrow> distinct (keys (ut_byAgent t) @ keys m) \<Longrightarrow>
     fold (restore_entry addNum (\<lambda>_. False)) (map (\<lambda>(name, a). JObj (snapshot_entry name a)) m) t =
       t\<lparr>ut_byAgent := ut_byAgent t @ m\<rparr>"
proof (induction m arbitrary: t)
  case (Cons p m)
  obtain name a where p: "p = (name, a)" by (cases p)
  have "AList.update name a (ut_byAgent t) = ut_byAgent t @ [(name, a)]"
    using Cons.prems(2) p by (simp add: update_fresh)
  then show ?case using Cons p by (simp add: restore_agent)
qed simp

lemma restore_ephemeral:
  assumes "neat (tl_usage e)" "adds_numbers addNum" "ut_ephemeral t = None"
  shows "restore_entry addNum (\<lambda>_. False) (JObj (snapshot_entry name e @ [(js ''ephemeral'', JTrue)])) t =
     t\<lparr>ut_ephemeral := Some e\<rparr>"
proof -
  have "addTally addNum emptyTally (tl_usage e) (tl_inferenceCount e) = e"
    using assms(1,2)
    by (cases "u_estimatedCost (tl_usage e)")
      (auto simp: addTally_def emptyTally_def emptyUsage_def accumulateUsage_def as_reported_def neat_def
        adds_numbers_def Let_def intro!: tally.equality usage.equality)
  then show ?thesis using assms by (simp add: restore_entry_def snapshot_entry_def own_Cons parse_snapshot)
qed

lemma set_currencies: "set (currencies_of us) = {c. \<exists>u \<in> set us. \<exists>x. u_estimatedCost u = Some (x, c)}"
  by (induction us) (auto simp: currencies_of_def List.map_filter_def split: option.splits)

lemma one_currency_in_totals:
  assumes "consistent t" "\<not> u_mixedCurrencies (ut_totals t)"
  shows "card (set (currencies_of (map tl_usage (tallies t))) \<union> set (currencies_of [ut_totals t])) \<le> 1"
    "\<not> list_ex u_mixedCurrencies (map tl_usage (tallies t))"
proof -
  have t: "covered_by (tl_usage a) (ut_totals t)" if "a \<in> set (tallies t)" for a
    using assms(1) that by (simp add: consistent_def)
  then show "\<not> list_ex u_mixedCurrencies (map tl_usage (tallies t))"
    using assms(2) by (auto simp: list_ex_iff covered_by_def)
  have "set (currencies_of (map tl_usage (tallies t))) \<union> set (currencies_of [ut_totals t])
      \<subseteq> (case u_estimatedCost (ut_totals t) of None \<Rightarrow> {} | Some (x, c) \<Rightarrow> {c})"
  proof
    fix c assume "c \<in> set (currencies_of (map tl_usage (tallies t))) \<union> set (currencies_of [ut_totals t])"
    then obtain y where "u_estimatedCost (ut_totals t) = Some (y, c)"
      using t assms(2) by (auto simp: set_currencies covered_by_def) blast
    then show "c \<in> (case u_estimatedCost (ut_totals t) of None \<Rightarrow> {} | Some (x, c) \<Rightarrow> {c})" by simp
  qed
  moreover have "card (case u_estimatedCost (ut_totals t) of None \<Rightarrow> {} | Some (x, c) \<Rightarrow> {c}) \<le> 1"
    "finite (case u_estimatedCost (ut_totals t) of None \<Rightarrow> {} | Some (x, c) \<Rightarrow> {c})"
    by (auto split: option.splits)
  ultimately show "card (set (currencies_of (map tl_usage (tallies t))) \<union> set (currencies_of [ut_totals t])) \<le> 1"
    using card_mono order_trans by meson
qed

lemma restore_all:
  assumes "consistent t" "distinct (keys (ut_byAgent t))" "adds_numbers addNum"
  shows "restored_tracker addNum (\<lambda>_. False) (getSnapshot t) = t"
proof -
  let ?t1 = "new_tracker\<lparr>ut_totals := ut_totals t, ut_inferenceCount := ut_inferenceCount t\<rparr>"
  let ?agents = "map (\<lambda>(name, a). JObj (snapshot_entry name a)) (ut_byAgent t)"
  let ?eph = "case ut_ephemeral t of None \<Rightarrow> [] | Some e \<Rightarrow> [JObj (snapshot_entry EPHEMERAL_USAGE_NAME e @ [(js ''ephemeral'', JTrue)])]"
  have neat: "neat (tl_usage a)" if "a \<in> set (tallies t)" for a
    using assms(1) that by (simp add: consistent_def)
  have "fold (restore_entry addNum (\<lambda>_. False)) ?agents ?t1 = ?t1\<lparr>ut_byAgent := ut_byAgent t\<rparr>"
    using neat assms(2) by (subst restore_agents) (force simp: tallies_def new_tracker_def)+
  then have "fold (restore_entry addNum (\<lambda>_. False)) (?agents @ ?eph) ?t1 =
      ?t1\<lparr>ut_byAgent := ut_byAgent t, ut_ephemeral := ut_ephemeral t\<rparr>"
    using neat assms(3)
    by (auto simp: restore_ephemeral tallies_def new_tracker_def split: option.splits)
  also have "\<dots> = t" by (cases t) (simp add: new_tracker_def)
  finally have entries: "fold (restore_entry addNum (\<lambda>_. False)) (?agents @ ?eph) ?t1 = t" .
  have tot: "parseUsage (snapshotUsage (ut_totals t)) = Some (ut_totals t)"
    using assms(1) by (simp add: consistent_def parse_snapshot)
  have keep: "u_mixedCurrencies (ut_totals t) \<or>
      \<not> (card (set (currencies_of (map tl_usage (tallies t))) \<union> set (currencies_of [ut_totals t])) > 1
          \<or> list_ex u_mixedCurrencies (map tl_usage (tallies t)))"
    using one_currency_in_totals [OF assms(1)] by linarith
  have "restored_tracker addNum (\<lambda>_. False) (getSnapshot t) =
      (let t2 = fold (restore_entry addNum (\<lambda>_. False)) (?agents @ ?eph) ?t1;
           us = map tl_usage (tallies t2);
           currencies = set (currencies_of us) \<union> set (currencies_of [ut_totals t2])
       in if \<not> u_mixedCurrencies (ut_totals t2) \<and> (card currencies > 1 \<or> list_ex u_mixedCurrencies us)
          then t2\<lparr>ut_totals := (ut_totals t2)\<lparr>u_estimatedCost := None, u_mixedCurrencies := True\<rparr>\<rparr> else t2)"
    by (simp add: restored_tracker_def restoreFrom_def getSnapshot_def own_Cons tot Let_def del: fold_append)
  then show ?thesis using keep by (simp only: entries Let_def) auto
qed


definition add_rationals :: "jsval \<Rightarrow> jsval \<Rightarrow> jsval" where
  "add_rationals a b = (case (a, b) of (JNum m, JNum n) \<Rightarrow> JNum (m + n) | _ \<Rightarrow> JUndef)"

definition sample_completions :: "completion list" where
  "sample_completions =
     [\<lparr>co_agentName = js ''ephemeral agents'',
       co_reported = \<lparr>r_inputTokens = JNum 10, r_outputTokens = JUndef, r_cacheCreationTokens = JUndef, r_cacheReadTokens = JNum 2\<rparr>,
       co_cost = Some (JNum (1/4), JStr (js ''USD'')), co_ephemeral = False\<rparr>,
      \<lparr>co_agentName = js ''fork'',
       co_reported = \<lparr>r_inputTokens = JNum 5, r_outputTokens = JNum 1, r_cacheCreationTokens = JUndef, r_cacheReadTokens = JUndef\<rparr>,
       co_cost = Some (JNum (1/2), JStr (js ''EUR'')), co_ephemeral = True\<rparr>]"


end
