(* ===== verification/Inference_Bounds.thy ===== *)
theory Inference_Bounds
  imports Js_Values
begin

section \<open>How long a model call may go without progress (src/inference-bounds.ts)\<close>

text \<open>
  Bounds are milliseconds, exact rationals. What membrane makes of the option's
  \<open>progressBounds\<close> (its \<open>resolveProgressBounds\<close>, in another package) is a parameter: the
  bounds, or its refusal.
\<close>

record progress_bounds =
  beforeContentMs :: rat
  betweenEventsMs :: rat
  thinkTokensPerSecond :: rat

record inference_bounds =
  ib_progressBounds :: progress_bounds
  ib_flatMinimumMs :: rat

definition FLAT_MINIMUM_MS :: rat where "FLAT_MINIMUM_MS = 1862000"

datatype bounds_error = Option_Not_Object | Progress_Not_Object | Progress_Refused jsstring | Flat_Minimum_Invalid

datatype ('a, 'b) resolved = Refused 'a | Resolved 'b

text \<open>\<open>typeof v === 'object'\<close> and not null.\<close>

fun object_value :: "jsval \<Rightarrow> bool" where
  "object_value (JObj _) = True"
| "object_value (JArr _) = True"
| "object_value _ = False"

text \<open>\<open>resolve\<close> is given the option's member, or \<open>true\<close> where it is null or absent.\<close>

definition resolveInferenceBounds ::
  "(jsval \<Rightarrow> jsstring + progress_bounds) \<Rightarrow> jsval \<Rightarrow> (bounds_error, inference_bounds option) resolved" where
  "resolveInferenceBounds resolve opt =
     (if opt = JBool False then Resolved None
      else if opt \<noteq> JUndef \<and> \<not> object_value opt then Refused Option_Not_Object
      else
        (let given = field opt (js ''progressBounds'');
             flat = (let f = field opt (js ''flatMinimumMs'') in if f = JUndef then JNum FLAT_MINIMUM_MS else f)
         in if given \<noteq> JUndef \<and> \<not> object_value given then Refused Progress_Not_Object
            else
              (case resolve (if given = JUndef then JTrue else given) of
                 Inl why \<Rightarrow> Refused (Progress_Refused why)
               | Inr p \<Rightarrow>
                   (case flat of
                      JNum n \<Rightarrow> if n \<le> 0 then Refused Flat_Minimum_Invalid
                                else Resolved (Some \<lparr>ib_progressBounds = p, ib_flatMinimumMs = n\<rparr>)
                    | _ \<Rightarrow> Refused Flat_Minimum_Invalid))))"

text \<open>A number of tokens is given when it is finite and positive.\<close>

definition token_count :: "jsval \<Rightarrow> rat option" where
  "token_count v = (case v of JNum n \<Rightarrow> if n > 0 then Some n else None | _ \<Rightarrow> None)"

definition allowanceMs :: "progress_bounds \<Rightarrow> jsval \<Rightarrow> rat" where
  "allowanceMs bounds maxTokens =
     (case token_count maxTokens of
        Some n \<Rightarrow> of_int \<lceil>n / thinkTokensPerSecond bounds\<rceil> * 1000
      | None \<Rightarrow> 0)"

definition setupMs :: "progress_bounds \<Rightarrow> rat" where
  "setupMs bounds = max (beforeContentMs bounds) (betweenEventsMs bounds)"

definition streamBounds :: "inference_bounds option \<Rightarrow> jsval \<Rightarrow> (progress_bounds \<times> rat) option" where
  "streamBounds bounds maxTokens =
     (case bounds of
        None \<Rightarrow> None
      | Some b \<Rightarrow>
          Some (ib_progressBounds b,
                max (setupMs (ib_progressBounds b) + allowanceMs (ib_progressBounds b) maxTokens) (ib_flatMinimumMs b)))"

definition wholeCallMs :: "inference_bounds \<Rightarrow> jsval \<Rightarrow> rat" where
  "wholeCallMs bounds maxTokens =
     (if token_count maxTokens = None then max (setupMs (ib_progressBounds bounds)) (ib_flatMinimumMs bounds)
      else setupMs (ib_progressBounds bounds) + allowanceMs (ib_progressBounds bounds) maxTokens)"

definition has_part :: "jsstring \<Rightarrow> jsstring \<Rightarrow> bool" where
  "has_part s part \<longleftrightarrow> list_ex (\<lambda>i. startsWith (drop i s) part) [0..<Suc (length s)]"

definition withHostSetting :: "jsstring \<Rightarrow> jsstring" where
  "withHostSetting message =
     (let setting =
        (if has_part message (js ''of a thinking block'' @ [0x27] @ js ''s start'') then Some (js ''progressBounds.thinkTokensPerSecond'')
         else if startsWith message (js ''No content within '') then Some (js ''progressBounds.beforeContentMs'')
         else if startsWith message (js ''No provider event within '') then Some (js ''progressBounds.betweenEventsMs'')
         else if startsWith message (js ''No provider progress within '') then Some (js ''flatMinimumMs'')
         else None)
      in case setting of
           None \<Rightarrow> message
         | Some s \<Rightarrow> message @ js '' (the host'' @ [0x27] @ js ''s setting for this bound: '' @ [0x60]
                       @ js ''inferenceBounds.'' @ s @ [0x60] @ js '')'')"

lemma allowance_nonneg:
  assumes "0 < thinkTokensPerSecond b"
  shows "0 \<le> allowanceMs b v"
proof -
  have "0 \<le> \<lceil>n / thinkTokensPerSecond b\<rceil>" if "0 < n" for n :: rat
  proof -
    have "0 \<le> n / thinkTokensPerSecond b" using assms that by simp
    then show ?thesis by linarith
  qed
  then show ?thesis by (auto simp: allowanceMs_def token_count_def split: jsval.splits)
qed

lemma allowance_enough:
  assumes "0 < thinkTokensPerSecond b"
  shows "n * 1000 \<le> thinkTokensPerSecond b * allowanceMs b (JNum n)"
proof (cases "0 < n")
  case True
  let ?r = "thinkTokensPerSecond b"
  have "n / ?r \<le> of_int \<lceil>n / ?r\<rceil>" by (rule le_of_int_ceiling)
  then have "n \<le> of_int \<lceil>n / ?r\<rceil> * ?r" using assms by (simp only: pos_divide_le_eq)
  then have "n \<le> ?r * of_int \<lceil>n / ?r\<rceil>" by (simp only: mult.commute)
  then show ?thesis using True by (simp add: allowanceMs_def token_count_def)
next
  case False
  then show ?thesis by (simp add: allowanceMs_def token_count_def)
qed

lemma allowance_mono:
  assumes "0 < thinkTokensPerSecond b" "m \<le> n"
  shows "allowanceMs b (JNum m) \<le> allowanceMs b (JNum n)"
proof (cases "0 < m")
  case True
  then have "m / thinkTokensPerSecond b \<le> n / thinkTokensPerSecond b"
    using assms by (simp add: divide_right_mono)
  then have "\<lceil>m / thinkTokensPerSecond b\<rceil> \<le> \<lceil>n / thinkTokensPerSecond b\<rceil>" by (rule ceiling_mono)
  then show ?thesis using True assms(2) by (simp add: allowanceMs_def token_count_def)
next
  case False
  then show ?thesis using allowance_nonneg [OF assms(1), of "JNum n"]
    by (simp add: allowanceMs_def token_count_def)
qed

text \<open>
  A stream of up to \<open>n\<close> tokens is never cut before the flat minimum, before either
  setup bound, or before the tokens could have been produced at the rate the bounds allow
  once set up; a request for more tokens is never given less time.
\<close>

theorem stream_bound_sufficient:
  assumes "streamBounds (Some b) (JNum n) = Some (p, ms)" "0 < thinkTokensPerSecond (ib_progressBounds b)"
    "streamBounds (Some b) (JNum n') = Some (p', ms')" "n \<le> n'"
  shows "ib_flatMinimumMs b \<le> ms \<and> beforeContentMs p \<le> ms \<and> betweenEventsMs p \<le> ms \<and>
    n * 1000 \<le> thinkTokensPerSecond p * (ms - setupMs p) \<and> ms \<le> ms'"
proof -
  let ?p = "ib_progressBounds b"
  have p: "p = ?p" and ms: "ms = max (setupMs ?p + allowanceMs ?p (JNum n)) (ib_flatMinimumMs b)"
    and ms': "ms' = max (setupMs ?p + allowanceMs ?p (JNum n')) (ib_flatMinimumMs b)"
    using assms(1,3) by (auto simp: streamBounds_def)
  have "setupMs ?p \<le> ms" "allowanceMs ?p (JNum n) \<le> ms - setupMs ?p"
    using allowance_nonneg [OF assms(2), of "JNum n"] by (simp_all add: ms max_def)
  moreover have "thinkTokensPerSecond ?p * allowanceMs ?p (JNum n) \<le> thinkTokensPerSecond ?p * (ms - setupMs ?p)"
    using calculation(2) assms(2) by (intro mult_left_mono) simp_all
  ultimately have "n * 1000 \<le> thinkTokensPerSecond p * (ms - setupMs p)"
    using allowance_enough [OF assms(2), of n] p by simp
  moreover have "ms \<le> ms'" using allowance_mono [OF assms(2,4)] by (simp add: ms ms' max_def)
  ultimately show ?thesis using \<open>setupMs ?p \<le> ms\<close> by (simp add: p ms setupMs_def)
qed

definition sample_bounds :: inference_bounds where
  "sample_bounds =
     \<lparr>ib_progressBounds = \<lparr>beforeContentMs = 120000, betweenEventsMs = 60000, thinkTokensPerSecond = 10\<rparr>,
      ib_flatMinimumMs = FLAT_MINIMUM_MS\<rparr>"

theorem stream_bound_sufficient_witness:
  "streamBounds (Some sample_bounds) (JNum 30010) = Some (ib_progressBounds sample_bounds, 3121000) \<and>
   30010 * 1000 \<le> thinkTokensPerSecond (ib_progressBounds sample_bounds) * (3121000 - setupMs (ib_progressBounds sample_bounds))"
proof -
  let ?p = "ib_progressBounds sample_bounds"
  have b: "streamBounds (Some sample_bounds) (JNum 30010) = Some (?p, 3121000)"
    by (simp add: streamBounds_def setupMs_def allowanceMs_def token_count_def FLAT_MINIMUM_MS_def sample_bounds_def)
  show ?thesis
    using stream_bound_sufficient [OF b _ b] b by (simp add: sample_bounds_def)
qed

end
