(* ===== verification/Inference_Router.thy ===== *)
theory Inference_Router
  imports Feature_Sets Inference_Bounds
begin

section \<open>Server-initiated inference (src/mcpl/inference-router.ts)\<close>

text \<open>
  A server asks the host for an inference. The request is refused at once, or it runs: as one
  call, or as a stream whose visible text is sent in numbered chunks. What membrane does is
  the input of the run: the call's response or failure, the stream's events. The host may stop
  it and the transport may close at any moment. What the handler does is a list of effects.
\<close>

subsection \<open>Routing\<close>

record routing_policy =
  rp_default :: jsval
  rp_byFeature :: jsobject
  rp_wildcards :: jsobject
  rp_overrides :: jsobject

fun named :: "jsval \<Rightarrow> jsstring option" where
  "named (JStr s) = (if s \<noteq> [] then Some s else None)"
| "named _ = None"

definition or_else :: "'a option \<Rightarrow> 'a option \<Rightarrow> 'a option" where
  "or_else a b = (case a of Some x \<Rightarrow> Some x | None \<Rightarrow> b)"

definition resolveModel :: "routing_policy option \<Rightarrow> jsstring \<Rightarrow> jsstring option \<Rightarrow> jsstring option" where
  "resolveModel policy featureSet conversationId =
     (case policy of
        None \<Rightarrow> None
      | Some p \<Rightarrow>
          or_else (case conversationId of
                     Some c \<Rightarrow> if c \<noteq> [] then named (own (rp_overrides p) c) else None
                   | None \<Rightarrow> None)
         (or_else (named (own (rp_byFeature p) featureSet))
         (or_else (case find (\<lambda>(pattern, m). named m \<noteq> None \<and> wildcardMatch pattern featureSet) (rp_wildcards p) of
                     Some (_, m) \<Rightarrow> named m
                   | None \<Rightarrow> None)
                  (named (rp_default p)))))"

subsection \<open>Results\<close>

datatype content_block = Text_Block jsstring | Tool_Use jsstring | Other_Block

record response =
  rs_content :: "content_block list"
  rs_toolCalls :: "jsstring list"
  rs_providerReason :: "jsstring option"
  rs_unclosedToolBlock :: bool
  rs_triggeredSequence :: "jsstring option"
  rs_actualModel :: jsstring
  rs_stopReason :: jsstring
  rs_inputTokens :: jsval
  rs_outputTokens :: jsval

record inference_result =
  ir_content :: jsstring
  ir_model :: jsstring
  ir_finishReason :: jsstring
  ir_inputTokens :: jsval
  ir_outputTokens :: jsval

datatype failure =
    Provider_Error | Called_Tools "jsstring list" | Open_Tool_Block | Tool_Markup | No_Finish_Reason jsstring
  | Call_Failed jsstring | Stream_Aborted jsstring "jsstring option" | No_Terminal_Event | Transport_Closed
  | No_Model bool | Host_Stopped

definition toolCallError :: "jsstring list \<Rightarrow> failure" where
  "toolCallError names = Called_Tools names"

definition finishReasonFor :: "jsstring \<Rightarrow> failure + jsstring" where
  "finishReasonFor stopReason =
     (if stopReason \<in> set [js ''end_turn'', js ''max_tokens'', js ''stop_sequence''] then Inr stopReason
      else Inl (No_Finish_Reason stopReason))"

definition actualModelOf :: "response \<Rightarrow> jsstring option" where
  "actualModelOf r = (if rs_actualModel r \<noteq> [] then Some (rs_actualModel r) else None)"

fun tool_uses :: "content_block list \<Rightarrow> jsstring list" where
  "tool_uses [] = []"
| "tool_uses (Tool_Use n # bs) = n # tool_uses bs"
| "tool_uses (_ # bs) = tool_uses bs"

fun text_of :: "content_block list \<Rightarrow> jsstring" where
  "text_of [] = []"
| "text_of (Text_Block t # bs) = t @ text_of bs"
| "text_of (_ # bs) = text_of bs"

definition FUNCTION_CALLS_END :: jsstring where
  "FUNCTION_CALLS_END = js ''</function_calls>''"

definition resultFrom :: "response \<Rightarrow> jsstring \<Rightarrow> failure + inference_result" where
  "resultFrom r routedModel =
     (if rs_providerReason r = Some (js ''error'') then Inl Provider_Error
      else if rs_toolCalls r \<noteq> [] \<or> tool_uses (rs_content r) \<noteq> [] then
        Inl (toolCallError (if rs_toolCalls r \<noteq> [] then rs_toolCalls r else tool_uses (rs_content r)))
      else if rs_unclosedToolBlock r then Inl Open_Tool_Block
      else if rs_triggeredSequence r = Some FUNCTION_CALLS_END then Inl Tool_Markup
      else
        (case finishReasonFor (rs_stopReason r) of
           Inl e \<Rightarrow> Inl e
         | Inr reason \<Rightarrow>
             Inr \<lparr>ir_content = text_of (rs_content r),
                  ir_model = (case actualModelOf r of Some m \<Rightarrow> m | None \<Rightarrow> routedModel),
                  ir_finishReason = reason,
                  ir_inputTokens = rs_inputTokens r, ir_outputTokens = rs_outputTokens r\<rparr>))"

subsection \<open>Effects\<close>

datatype trace =
    Inference_Start jsstring jsstring jsstring bool
  | Inference_Complete jsstring jsstring "jsstring option" jsval jsval bool
  | Inference_Fail jsstring "jsstring option" failure bool

datatype refusal = Because failure | Not_Admitted fs_error | Inside_Hook

datatype effect =
    Respond inference_result
  | Respond_Error int refusal
  | Send_Chunk jsval nat jsstring
  | Emit trace
  | Log_Refusal jsstring "jsstring option"
  | Call_Model jsstring "(jsstring \<times> jsstring) list" jsval jsval "(progress_bounds option \<times> rat) option"

record inference_request =
  rq_featureSet :: jsstring
  rq_conversationId :: "jsstring option"
  rq_stream :: bool
  rq_messages :: "(jsstring \<times> jsstring) list"
  rq_maxTokens :: jsval
  rq_temperature :: jsval

record responder =
  rd_canSendChunk :: bool
  rd_requestId :: jsval

text \<open>The request's run: \<open>streamed\<close> is the id its chunks name.\<close>

datatype phase = Starting | Calling | Finished

record run =
  rn_server :: jsstring
  rn_model :: jsstring
  rn_streamed :: "jsval option"
  rn_phase :: phase
  rn_index :: nat
  rn_stopped :: bool
  rn_listening :: bool
  rn_stopAnswered :: bool
  rn_closed :: bool
  rn_effects :: "effect list"

definition is_streamed :: "run \<Rightarrow> bool" where
  "is_streamed r \<longleftrightarrow> rn_streamed r \<noteq> None"

definition emits :: "effect list \<Rightarrow> run \<Rightarrow> run" where
  "emits es r = r\<lparr>rn_effects := rn_effects r @ es\<rparr>"

text \<open>What a stopped host answers, unless the transport has gone.\<close>

definition answerStop :: "run \<Rightarrow> run" where
  "answerStop r =
     (if rn_closed r then r
      else emits [Emit (Inference_Fail (rn_server r) (Some (rn_model r)) Host_Stopped (is_streamed r)),
                  Respond_Error (-32000) (Because Host_Stopped)] (r\<lparr>rn_stopAnswered := True\<rparr>))"

text \<open>\<open>stop.abort()\<close>: the listener runs once, on the first abort.\<close>

definition abort :: "run \<Rightarrow> run" where
  "abort r =
     (if rn_stopped r then r
      else
        (let r1 = r\<lparr>rn_stopped := True\<rparr>
         in if rn_listening r1 then answerStop (r1\<lparr>rn_listening := False\<rparr>) else r1))"

definition settle :: "run \<Rightarrow> run" where
  "settle r = r\<lparr>rn_listening := False, rn_phase := Finished\<rparr>"

definition fails :: "failure \<Rightarrow> run \<Rightarrow> run" where
  "fails e r =
     (if rn_stopAnswered r then settle r
      else
        emits (Emit (Inference_Fail (rn_server r) (Some (rn_model r))
                       (if rn_closed r then Transport_Closed else e) (is_streamed r))
               # (if rn_closed r then [] else [Respond_Error (-32603) (Because e)])) (settle r))"

definition completes :: "response \<Rightarrow> run \<Rightarrow> run" where
  "completes resp r =
     (if rn_stopAnswered r then settle r
      else
        (case resultFrom resp (rn_model r) of
           Inl e \<Rightarrow> fails e r
         | Inr res \<Rightarrow>
             emits [Emit (Inference_Complete (rn_server r) (rn_model r) (actualModelOf resp)
                            (ir_inputTokens res) (ir_outputTokens res) (is_streamed r)),
                    Respond res] (settle r)))"

subsection \<open>The stream\<close>

datatype stream_event =
    Tokens jsstring bool
  | Tool_Calls "jsstring list"
  | Complete response
  | Errored jsstring
  | Aborted jsstring "jsstring option"
  | Other_Event
  | Stream_Ends

definition abort_text :: "jsstring \<Rightarrow> jsstring option \<Rightarrow> jsstring option" where
  "abort_text reason message =
     (case message of
        Some m \<Rightarrow> if m = [] then None
                  else Some (if reason = js ''timeout'' then withHostSetting m else m)
      | None \<Rightarrow> None)"

definition streamResponse :: "stream_event \<Rightarrow> run \<Rightarrow> run" where
  "streamResponse event r =
     (case event of
        Tokens delta visible \<Rightarrow>
          (if visible \<and> \<not> rn_stopped r \<and> \<not> rn_closed r
           then emits [Send_Chunk (case rn_streamed r of Some i \<Rightarrow> i | None \<Rightarrow> JUndef) (rn_index r) delta]
                  (r\<lparr>rn_index := Suc (rn_index r)\<rparr>)
           else r)
      | Tool_Calls names \<Rightarrow> fails (toolCallError names) r
      | Complete resp \<Rightarrow> completes resp r
      | Errored why \<Rightarrow> fails (Call_Failed why) r
      | Aborted reason message \<Rightarrow> fails (Stream_Aborted reason (abort_text reason message)) r
      | Other_Event \<Rightarrow> r
      | Stream_Ends \<Rightarrow> fails No_Terminal_Event r)"

subsection \<open>The handler\<close>

record inference_router =
  ro_policy :: "routing_policy option"
  ro_loggedRefusals :: "(jsstring \<times> jsstring option) list"

definition DEFAULT_MAX_TOKENS :: rat where "DEFAULT_MAX_TOKENS = 4096"

definition request_tokens :: "inference_request \<Rightarrow> jsval" where
  "request_tokens req =
     (if rq_maxTokens req = JUndef \<or> rq_maxTokens req = JNull then JNum DEFAULT_MAX_TOKENS else rq_maxTokens req)"

text \<open>Up to the call of the model: refused with an answer, or a run that has started.\<close>

definition answer ::
  "feature_sets \<Rightarrow> bool \<Rightarrow> jsstring \<Rightarrow> inference_request \<Rightarrow> responder \<Rightarrow> bool \<Rightarrow> inference_router
     \<Rightarrow> inference_router \<times> (effect list + run)" where
  "answer servers inHook serverId req rd gone ro =
     (case validateInbound servers serverId (rq_featureSet req) of
        Inl e \<Rightarrow> (ro, Inl [Respond_Error (error_code e) (Not_Admitted e)])
      | Inr _ \<Rightarrow>
          if inHook then (ro, Inl [Respond_Error (-32600) Inside_Hook])
          else
            (let chunkId = (if rq_stream req \<and> rd_canSendChunk rd then rd_requestId rd else JUndef);
                 streamed = (if chunkId = JUndef \<or> chunkId = JNull then None else Some chunkId)
             in case resolveModel (ro_policy ro) (rq_featureSet req) (rq_conversationId req) of
                  None \<Rightarrow>
                    (let policy = (ro_policy ro \<noteq> None);
                         k = (serverId, if policy then Some (rq_featureSet req) else None);
                         log = (if k \<in> set (ro_loggedRefusals ro) then [] else [Log_Refusal (fst k) (snd k)])
                     in (ro\<lparr>ro_loggedRefusals := js_add k (ro_loggedRefusals ro)\<rparr>,
                         Inl (log @ [Emit (Inference_Fail serverId None (No_Model policy) (streamed \<noteq> None)),
                                     Respond_Error (-32603) (Because (No_Model policy))])))
                | Some model \<Rightarrow>
                    (ro, Inr \<lparr>rn_server = serverId, rn_model = model, rn_streamed = streamed, rn_phase = Starting,
                              rn_index = 0, rn_stopped = False, rn_listening = True, rn_stopAnswered = False,
                              rn_closed = gone,
                              rn_effects = [Emit (Inference_Start serverId (rq_featureSet req) model (rq_stream req))]\<rparr>)))"

definition request_messages :: "inference_request \<Rightarrow> (jsstring \<times> jsstring) list" where
  "request_messages req =
     map (\<lambda>(role, content). (if role = js ''assistant'' then js ''assistant'' else js ''user'', content)) (rq_messages req)"

definition call_bound :: "inference_bounds option \<Rightarrow> jsval \<Rightarrow> bool \<Rightarrow> (progress_bounds option \<times> rat) option" where
  "call_bound bounds maxTokens streamed =
     (if streamed then map_option (\<lambda>(p, ms). (Some p, ms)) (streamBounds bounds maxTokens)
      else map_option (\<lambda>b. (None, wholeCallMs b maxTokens)) bounds)"

text \<open>After the start's trace, whose watcher may have stopped the host.\<close>

definition call_model :: "inference_bounds option \<Rightarrow> inference_request \<Rightarrow> run \<Rightarrow> run" where
  "call_model bounds req r =
     (if rn_stopAnswered r then r\<lparr>rn_phase := Finished\<rparr>
      else emits [Call_Model (rn_model r) (request_messages req) (request_tokens req) (rq_temperature req)
                    (call_bound bounds (request_tokens req) (is_streamed r))]
             (r\<lparr>rn_phase := Calling\<rparr>))"

datatype input =
    Stop_Host
  | Transport_Closes
  | Proceed
  | Stream_Event stream_event
  | Call_Returns "jsstring + response"

definition run_step :: "inference_bounds option \<Rightarrow> inference_request \<Rightarrow> input \<Rightarrow> run \<Rightarrow> run" where
  "run_step bounds req i r =
     (case i of
        Stop_Host \<Rightarrow> if rn_phase r = Finished then r else abort r
      | Transport_Closes \<Rightarrow> r\<lparr>rn_closed := True\<rparr>
      | Proceed \<Rightarrow> if rn_phase r = Starting then call_model bounds req r else r
      | Stream_Event e \<Rightarrow> if rn_phase r = Calling \<and> is_streamed r then streamResponse e r else r
      | Call_Returns out \<Rightarrow>
          if rn_phase r = Calling \<and> \<not> is_streamed r then
            (case out of Inl why \<Rightarrow> fails (Call_Failed why) r | Inr resp \<Rightarrow> completes resp r)
          else r)"

subsection \<open>The protocol of an answer\<close>

text \<open>
  What a server may rely on: chunks numbered from 0 without a gap, then one answer, then
  nothing. The state is the next chunk's number and whether the answer was sent.
\<close>

fun protocol :: "effect \<Rightarrow> nat \<times> bool \<Rightarrow> (nat \<times> bool) option" where
  "protocol (Send_Chunk i k delta) (n, answered) = (if \<not> answered \<and> k = n then Some (Suc n, False) else None)"
| "protocol (Respond res) (n, answered) = (if answered then None else Some (n, True))"
| "protocol (Respond_Error code e) (n, answered) = (if answered then None else Some (n, True))"
| "protocol _ st = Some st"

fun follows :: "effect list \<Rightarrow> nat \<times> bool \<Rightarrow> (nat \<times> bool) option" where
  "follows [] st = Some st"
| "follows (e # es) st = (case protocol e st of None \<Rightarrow> None | Some st' \<Rightarrow> follows es st')"

lemma follows_append:
  "follows (es @ fs) st = (case follows es st of None \<Rightarrow> None | Some st' \<Rightarrow> follows fs st')"
  by (induction es arbitrary: st) (auto split: option.splits)

text \<open>The run refines it: its index and its flags are the protocol's state.\<close>

definition answered :: "run \<Rightarrow> bool" where
  "answered r \<longleftrightarrow> follows (rn_effects r) (0, False) = Some (rn_index r, True)"

definition run_ok :: "run \<Rightarrow> bool" where
  "run_ok r \<longleftrightarrow>
     (case follows (rn_effects r) (0, False) of
        None \<Rightarrow> False
      | Some (n, done_) \<Rightarrow>
          n = rn_index r \<and>
          (rn_phase r = Finished \<longrightarrow> done_ \<or> rn_closed r) \<and>
          (rn_phase r \<noteq> Finished \<longrightarrow> (done_ \<longleftrightarrow> rn_stopAnswered r))) \<and>
     (rn_stopAnswered r \<longrightarrow> rn_stopped r) \<and> (rn_stopped r \<longrightarrow> \<not> rn_listening r)"

lemmas run_simps = run_ok_def emits_def settle_def follows_append

lemma answerStop_ok:
  "run_ok r \<Longrightarrow> \<not> rn_stopAnswered r \<Longrightarrow> rn_stopped r \<Longrightarrow> rn_phase r \<noteq> Finished \<Longrightarrow> run_ok (answerStop r)"
  by (auto simp: run_simps answerStop_def split: option.splits)

lemma abort_ok: "run_ok r \<Longrightarrow> rn_phase r \<noteq> Finished \<Longrightarrow> run_ok (abort r)"
proof (cases "rn_stopped r")
  case False
  assume r: "run_ok r" "rn_phase r \<noteq> Finished"
  have "run_ok (r\<lparr>rn_stopped := True, rn_listening := False\<rparr>)" "\<not> rn_stopAnswered r"
    using r False by (auto simp: run_ok_def split: option.splits)
  then have "run_ok (answerStop (r\<lparr>rn_stopped := True, rn_listening := False\<rparr>))"
    using r(2) by (intro answerStop_ok) simp_all
  moreover have "run_ok (r\<lparr>rn_stopped := True\<rparr>)" if "\<not> rn_listening r"
    using r False that by (auto simp: run_ok_def split: option.splits)
  ultimately show ?thesis using False by (simp add: abort_def Let_def)
qed (simp add: abort_def)

lemma fails_ok: "run_ok r \<Longrightarrow> rn_phase r \<noteq> Finished \<Longrightarrow> run_ok (fails e r)"
  by (auto simp: run_simps fails_def split: option.splits)

lemma completes_ok: "run_ok r \<Longrightarrow> rn_phase r \<noteq> Finished \<Longrightarrow> run_ok (completes resp r)"
  using fails_ok [of r]
  by (auto simp: completes_def split: sum.splits) (auto simp: run_simps split: option.splits)

lemma chunk_ok:
  "run_ok r \<Longrightarrow> rn_phase r \<noteq> Finished \<Longrightarrow> \<not> rn_stopped r \<Longrightarrow>
     run_ok (emits [Send_Chunk i (rn_index r) d] (r\<lparr>rn_index := Suc (rn_index r)\<rparr>))"
  by (auto simp: run_simps split: option.splits)

lemma stream_ok: "run_ok r \<Longrightarrow> rn_phase r \<noteq> Finished \<Longrightarrow> run_ok (streamResponse e r)"
  by (auto simp: streamResponse_def fails_ok completes_ok chunk_ok split: stream_event.splits)

lemma call_model_ok: "run_ok r \<Longrightarrow> rn_phase r = Starting \<Longrightarrow> run_ok (call_model t u r)"
  by (auto simp: run_simps call_model_def split: option.splits)

lemma run_step_ok: "run_ok r \<Longrightarrow> run_ok (run_step t u i r)"
  by (auto simp: run_step_def abort_ok call_model_ok stream_ok fails_ok completes_ok split: input.splits sum.splits)
    (auto simp: run_ok_def split: option.splits)

lemma runs_ok: "run_ok r \<Longrightarrow> run_ok (fold (run_step t u) is r)"
  by (induction "is" arbitrary: r) (auto simp: run_step_ok)

lemma answer_ok: "answer servers inHook serverId req rd gone ro = (ro', Inr r) \<Longrightarrow> run_ok r \<and> rn_phase r = Starting"
  by (auto simp: answer_def Let_def run_ok_def split: sum.splits option.splits if_splits)

text \<open>
  C14: whatever the model, the host and the transport do, and in whatever order, a request's
  effects follow the protocol: chunks numbered from 0 without a gap, at most one answer, and
  no chunk after it; a request that has finished was answered, unless its transport closed.
\<close>

theorem request_follows_protocol:
  assumes "answer servers inHook serverId req rd gone ro = (ro', Inr r)"
  shows "let r' = fold (run_step t u) is r in
    (case follows (rn_effects r') (0, False) of
       None \<Rightarrow> False
     | Some (n, done_) \<Rightarrow> n = rn_index r' \<and> (rn_phase r' = Finished \<longrightarrow> done_ \<or> rn_closed r'))"
  using runs_ok [of r t u "is"] answer_ok [OF assms] by (auto simp: Let_def run_ok_def split: option.splits)

text \<open>The inputs that end a call.\<close>

fun ends :: "run \<Rightarrow> input \<Rightarrow> bool" where
  "ends r (Call_Returns out) = (\<not> is_streamed r)"
| "ends r (Stream_Event e) = (is_streamed r \<and> (case e of Tokens d v \<Rightarrow> False | Other_Event \<Rightarrow> False | _ \<Rightarrow> True))"
| "ends r _ = False"

lemma streamed_const [simp]:
  "rn_streamed (emits es r) = rn_streamed r" "rn_streamed (answerStop r) = rn_streamed r"
  "rn_streamed (fails e r) = rn_streamed r" "rn_streamed (completes resp r) = rn_streamed r"
  "rn_streamed (abort r) = rn_streamed r" "rn_streamed (call_model t u r) = rn_streamed r"
  by (auto simp: emits_def answerStop_def fails_def settle_def completes_def abort_def call_model_def Let_def
      split: sum.splits)

lemma streamed_step [simp]: "rn_streamed (run_step t u i r) = rn_streamed r"
  by (auto simp: run_step_def streamResponse_def split: input.splits stream_event.splits sum.splits)

lemma phase_simps [simp]:
  "rn_phase (emits es r) = rn_phase r" "rn_phase (answerStop r) = rn_phase r" "rn_phase (abort r) = rn_phase r"
  "rn_phase (fails e r) = Finished" "rn_phase (completes resp r) = Finished"
  by (auto simp: emits_def answerStop_def fails_def settle_def completes_def abort_def Let_def split: sum.splits)

lemma called_stays: "rn_phase r \<noteq> Starting \<Longrightarrow> rn_phase (run_step t u i r) \<noteq> Starting"
  by (auto simp: run_step_def streamResponse_def split: input.splits stream_event.splits sum.splits)

lemma finished_stays: "rn_phase r = Finished \<Longrightarrow> rn_phase (run_step t u i r) = Finished"
  by (auto simp: run_step_def split: input.splits)

lemma proceed_calls: "rn_phase (run_step t u Proceed r) \<noteq> Starting"
  by (auto simp: run_step_def call_model_def)

lemma end_finishes:
  "rn_phase r \<noteq> Starting \<Longrightarrow> ends r i \<Longrightarrow> rn_phase (run_step t u i r) = Finished"
  by (cases i; cases "rn_phase r")
    (auto simp: run_step_def streamResponse_def split: stream_event.splits sum.splits)

lemma called_fold: "rn_phase r \<noteq> Starting \<Longrightarrow> rn_phase (fold (run_step t u) is r) \<noteq> Starting"
  by (induction "is" arbitrary: r) (auto simp: called_stays)

lemma finished_fold: "rn_phase r = Finished \<Longrightarrow> rn_phase (fold (run_step t u) is r) = Finished"
  by (induction "is" arbitrary: r) (auto simp: finished_stays)

lemma streamed_fold: "rn_streamed (fold (run_step t u) is r) = rn_streamed r"
  by (induction "is" arbitrary: r) auto

text \<open>
  C35: once the model has been called and its call has ended, in any way and with anything
  before, between and after, the request is finished and has its answer, unless its transport
  closed: none hangs.
\<close>

theorem request_is_answered:
  assumes "answer servers inHook serverId req rd gone ro = (ro', Inr r)" "ends r i"
  shows "let r' = fold (run_step t u) (before @ Proceed # between @ i # after) r in
    rn_phase r' = Finished \<and> (rn_closed r' \<or> answered r')"
proof -
  let ?r1 = "run_step t u Proceed (fold (run_step t u) before r)"
  let ?r2 = "fold (run_step t u) between ?r1"
  let ?r' = "fold (run_step t u) after (run_step t u i ?r2)"
  have "rn_phase ?r2 \<noteq> Starting" by (intro called_fold proceed_calls)
  moreover have "ends ?r2 i" using assms(2) by (cases i) (simp_all add: is_streamed_def streamed_fold)
  ultimately have fin: "rn_phase ?r' = Finished" by (intro finished_fold end_finishes)
  have "run_ok ?r'" using answer_ok [OF assms(1)] by (intro runs_ok run_step_ok) simp
  then show ?thesis using fin by (auto simp: run_ok_def answered_def Let_def split: option.splits)
qed

subsection \<open>Only models the operator named\<close>

definition policy_models :: "routing_policy option \<Rightarrow> jsval list" where
  "policy_models policy =
     (case policy of
        None \<Rightarrow> []
      | Some p \<Rightarrow> rp_default p # map snd (rp_byFeature p) @ map snd (rp_wildcards p) @ map snd (rp_overrides p))"

lemma named_Some: "named v = Some m \<longleftrightarrow> v = JStr m \<and> m \<noteq> []"
  by (cases v) auto

lemma own_mem: "own es k = JStr m \<Longrightarrow> JStr m \<in> set (map snd es)"
  by (auto simp: own_def split: option.splits dest!: map_of_SomeD intro: rev_image_eqI)

lemma find_mem: "find P xs = Some (a, b) \<Longrightarrow> b \<in> set (map snd xs)"
  by (induction xs) (auto split: if_splits)

lemma resolveModel_named:
  assumes "resolveModel policy f c = Some m"
  shows "m \<noteq> [] \<and> JStr m \<in> set (policy_models policy)"
proof (cases policy)
  case (Some p)
  let ?w = "find (\<lambda>(pattern, m). named m \<noteq> None \<and> wildcardMatch pattern f) (rp_wildcards p)"
  consider k where "named (own (rp_overrides p) k) = Some m" | "named (own (rp_byFeature p) f) = Some m"
    | a b where "?w = Some (a, b)" "named b = Some m" | "named (rp_default p) = Some m"
    using assms Some by (auto simp: resolveModel_def or_else_def split: option.splits if_splits)
  then show ?thesis
    by cases (auto simp: named_Some policy_models_def Some dest!: own_mem find_mem)
qed (use assms in \<open>simp add: resolveModel_def\<close>)

definition only_calls :: "jsstring \<Rightarrow> effect list \<Rightarrow> bool" where
  "only_calls m es \<longleftrightarrow> list_all (\<lambda>e. case e of Call_Model m' ms t u b \<Rightarrow> m' = m | _ \<Rightarrow> True) es"

lemma calls_const [simp]:
  "rn_model (emits es r) = rn_model r" "rn_model (answerStop r) = rn_model r" "rn_model (abort r) = rn_model r"
  "rn_model (fails e r) = rn_model r" "rn_model (completes resp r) = rn_model r" "rn_model (call_model t u r) = rn_model r"
  by (auto simp: emits_def answerStop_def fails_def settle_def completes_def abort_def call_model_def Let_def
      split: sum.splits)

lemma model_step [simp]: "rn_model (run_step t u i r) = rn_model r"
  by (auto simp: run_step_def streamResponse_def split: input.splits stream_event.splits sum.splits)

lemma only_calls_steps:
  "only_calls (rn_model r) (rn_effects r) \<Longrightarrow> only_calls (rn_model r) (rn_effects (answerStop r))"
  "only_calls (rn_model r) (rn_effects r) \<Longrightarrow> only_calls (rn_model r) (rn_effects (fails e r))"
  "only_calls (rn_model r) (rn_effects r) \<Longrightarrow> only_calls (rn_model r) (rn_effects (completes resp r))"
  "only_calls (rn_model r) (rn_effects r) \<Longrightarrow> only_calls (rn_model r) (rn_effects (abort r))"
  "only_calls (rn_model r) (rn_effects r) \<Longrightarrow> only_calls (rn_model r) (rn_effects (call_model t u r))"
  by (auto simp: only_calls_def answerStop_def fails_def completes_def abort_def call_model_def emits_def settle_def
      Let_def split: sum.splits)

lemma only_calls_step:
  "only_calls (rn_model r) (rn_effects r) \<Longrightarrow> only_calls (rn_model r) (rn_effects (run_step t u i r))"
  by (auto simp: run_step_def streamResponse_def only_calls_steps split: input.splits stream_event.splits sum.splits)
    (auto simp: only_calls_def emits_def)

lemma only_calls_run:
  "only_calls (rn_model r) (rn_effects r) \<Longrightarrow> only_calls (rn_model r) (rn_effects (fold (run_step t u) is r))"
proof (induction "is" arbitrary: r)
  case (Cons i js)
  then show ?case using only_calls_step [OF Cons.prems, of t u i] Cons.IH [of "run_step t u i r"] by simp
qed simp

text \<open>
  A server's request only ever calls a model that the operator's policy names, and never
  without a policy or before its feature set passed the gate.
\<close>

theorem only_named_models:
  assumes "answer servers inHook serverId req rd gone ro = (ro', Inr r)"
  shows "only_calls (rn_model r) (rn_effects (fold (run_step t u) is r)) \<and>
    JStr (rn_model r) \<in> set (policy_models (ro_policy ro)) \<and> rn_model r \<noteq> [] \<and>
    isEnabled servers serverId (rq_featureSet req) \<and> \<not> inHook"
proof -
  have r: "resolveModel (ro_policy ro) (rq_featureSet req) (rq_conversationId req) = Some (rn_model r)"
    "validateInbound servers serverId (rq_featureSet req) = Inr ()" "\<not> inHook"
    "only_calls (rn_model r) (rn_effects r)"
    using assms by (auto simp: answer_def Let_def only_calls_def split: sum.splits option.splits if_splits)
  have "isEnabled servers serverId (rq_featureSet req)"
    using r(2) by (auto simp: validateInbound_def isEnabled_def split: option.splits if_splits)
  then show ?thesis using r resolveModel_named [OF r(1)] only_calls_run [OF r(4)] by simp
qed

text \<open>One line per server without a policy, and per server and feature set with one.\<close>

fun refusals :: "effect list \<Rightarrow> (jsstring \<times> jsstring option) list" where
  "refusals [] = []"
| "refusals (Log_Refusal s f # es) = (s, f) # refusals es"
| "refusals (_ # es) = refusals es"

definition ask ::
  "feature_sets \<times> bool \<times> jsstring \<times> inference_request \<times> responder \<times> bool
    \<Rightarrow> inference_router \<times> effect list \<Rightarrow> inference_router \<times> effect list" where
  "ask call st =
     (case call of (servers, inHook, serverId, req, rd, gone) \<Rightarrow>
        (case answer servers inHook serverId req rd gone (fst st) of
           (ro, Inl es) \<Rightarrow> (ro, snd st @ es)
         | (ro, Inr r) \<Rightarrow> (ro, snd st @ rn_effects r)))"

lemma refusals_append [simp]: "refusals (es @ fs) = refusals es @ refusals fs"
  by (induction es rule: refusals.induct) auto

definition logged_ok :: "inference_router \<times> effect list \<Rightarrow> bool" where
  "logged_ok st \<longleftrightarrow> distinct (refusals (snd st)) \<and> set (refusals (snd st)) \<subseteq> set (ro_loggedRefusals (fst st))"

lemma ask_refusals: "logged_ok st \<Longrightarrow> logged_ok (ask c st)"
  by (cases c) (auto simp: logged_ok_def ask_def answer_def Let_def split: sum.splits option.splits if_splits)

lemma asks_refusals: "logged_ok st \<Longrightarrow> logged_ok (fold ask calls st)"
  by (induction calls arbitrary: st) (simp_all add: ask_refusals)

text \<open>
  However often servers ask without a model to run on, each refusal is logged once per
  server, or per server and feature set when there is a policy.
\<close>

theorem refusals_logged_once:
  "distinct (refusals (snd (fold ask calls (\<lparr>ro_policy = p, ro_loggedRefusals = []\<rparr>, []))))"
  using asks_refusals [of "(\<lparr>ro_policy = p, ro_loggedRefusals = []\<rparr>, [])" calls]
  by (simp add: logged_ok_def)

subsection \<open>A request from start to end\<close>

definition sample_servers :: feature_sets where
  "sample_servers = [(js ''memory'', \<lparr>declared = [(js ''memory.recall'', JObj [])], enabled = [js ''memory.recall'']\<rparr>)]"

definition sample_router :: inference_router where
  "sample_router =
     \<lparr>ro_policy = Some \<lparr>rp_default = JUndef, rp_byFeature = [], rp_wildcards = [(js ''memory.*'', JStr (js ''haiku''))],
        rp_overrides = []\<rparr>, ro_loggedRefusals = []\<rparr>"

definition sample_request :: inference_request where
  "sample_request = \<lparr>rq_featureSet = js ''memory.recall'', rq_conversationId = None, rq_stream = True,
     rq_messages = [(js ''user'', js ''Hello'')],
     rq_maxTokens = JUndef, rq_temperature = JUndef\<rparr>"

definition sample_run :: run where
  "sample_run = \<lparr>rn_server = js ''memory'', rn_model = js ''haiku'', rn_streamed = Some (JNum 7), rn_phase = Starting,
     rn_index = 0, rn_stopped = False, rn_listening = True, rn_stopAnswered = False, rn_closed = False,
     rn_effects = [Emit (Inference_Start (js ''memory'') (js ''memory.recall'') (js ''haiku'') True)]\<rparr>"

lemma sample_wildcard: "wildcardMatch (js ''memory.*'') (js ''memory.recall'')"
  by code_simp

lemma sample_answer:
  "answer sample_servers False (js ''memory'') sample_request \<lparr>rd_canSendChunk = True, rd_requestId = JNum 7\<rparr> False
     sample_router = (sample_router, Inr sample_run)"
  by (simp add: answer_def validateInbound_def in_object_def resolveModel_def or_else_def sample_servers_def
      sample_request_def sample_router_def sample_run_def sample_wildcard Let_def)

theorem request_follows_protocol_witness:
  "follows (rn_effects (fold (run_step None sample_request)
      [Proceed, Stream_Event (Tokens (js ''Hi'') True), Stop_Host, Stream_Event (Errored (js ''aborted''))] sample_run)) (0, False)
     \<noteq> None"
  using request_follows_protocol [OF sample_answer, of None sample_request
      "[Proceed, Stream_Event (Tokens (js ''Hi'') True), Stop_Host, Stream_Event (Errored (js ''aborted''))]"]
  by (auto simp: Let_def split: option.splits)

theorem request_is_answered_witness:
  "rn_phase (fold (run_step None sample_request) [Proceed, Stream_Event (Tokens (js ''Hi'') True), Stream_Event Stream_Ends] sample_run)
     = Finished"
  using request_is_answered [OF sample_answer, of "Stream_Event Stream_Ends" None sample_request "[]"
      "[Stream_Event (Tokens (js ''Hi'') True)]" "[]"]
  by (simp add: is_streamed_def sample_run_def Let_def)

theorem only_named_models_witness:
  "JStr (rn_model sample_run) \<in> set (policy_models (ro_policy sample_router)) \<and>
   isEnabled sample_servers (js ''memory'') (js ''memory.recall'')"
  using only_named_models [OF sample_answer] by (simp add: sample_request_def)

end
