(* ===== verification/Hook_Orchestrator.thy ===== *)
theory Hook_Orchestrator
  imports Inference_Router
begin

section \<open>Hooks before an inference (src/mcpl/hook-orchestrator.ts)\<close>

text \<open>
  Before an inference the host asks every server that may observe or inject, waits for all of
  them, and keeps the injections each server is granted when its answer arrives. A hook is two
  steps, its start and its end, with whatever else happens in between; a server's failure or
  timeout is an answer that was rejected. The conversion of an injection's content to blocks
  and its notice marks (convert-block.ts, supplied-text.ts) and the text JavaScript gives a
  value that is no string are arguments.
\<close>

definition OBSERVE :: jsstring where "OBSERVE = js ''contextHooks.beforeInference.observe''"

definition INJECT_LEAVES :: "(jsstring \<times> jsstring) list" where
  "INJECT_LEAVES =
     [(js ''system'', js ''contextHooks.beforeInference.inject.system''),
      (js ''beforeUser'', js ''contextHooks.beforeInference.inject.beforeUser''),
      (js ''afterUser'', js ''contextHooks.beforeInference.inject.afterUser'')]"

record hook_server =
  hs_id :: jsstring
  hs_grant :: "capability_grant option"

record before_params =
  bp_inferenceId :: jsstring
  bp_conversationId :: jsstring
  bp_turnIndex :: nat
  bp_userMessage :: "jsstring option"
  bp_model :: jsval
  bp_channels :: "jsval option"

record hooks =
  hk_inHook :: bool
  hk_namespaceWarned :: "jsstring list"
  hk_notShownWarned :: "jsstring list"

definition new_hooks :: hooks where
  "new_hooks = \<lparr>hk_inHook = False, hk_namespaceWarned = [], hk_notShownWarned = []\<rparr>"

definition isInHook :: "hooks \<Rightarrow> bool" where "isInHook h = hk_inHook h"

subsection \<open>Asking\<close>

definition hook_servers :: "hook_server list \<Rightarrow> hook_server list" where
  "hook_servers servers =
     filter (\<lambda>s. grant_has (grant_of (Some (hs_grant s))) OBSERVE
       \<or> list_ex (\<lambda>(position, path). grant_has (grant_of (Some (hs_grant s))) path) INJECT_LEAVES) servers"

text \<open>\<open>channelsFor\<close> throws (\<open>None\<close>) or gives a server its channels, or nothing.\<close>

definition server_params ::
  "(jsstring \<Rightarrow> jsval option option) option \<Rightarrow> before_params \<Rightarrow> hook_server \<Rightarrow> before_params option" where
  "server_params channelsFor params s =
     (let base = (case channelsFor of
                    None \<Rightarrow> Some params
                  | Some f \<Rightarrow>
                      (case f (hs_id s) of
                         None \<Rightarrow> None
                       | Some channels \<Rightarrow>
                           Some (params\<lparr>bp_channels :=
                             (case channels of Some c \<Rightarrow> if truthy c then Some c else None | None \<Rightarrow> None)\<rparr>)))
      in map_option
           (\<lambda>b. if grant_has (grant_of (Some (hs_grant s))) OBSERVE then b else b\<lparr>bp_userMessage := None\<rparr>) base)"

text \<open>The start: the calls made, none where the channel context could not be built.\<close>

definition begin_hook ::
  "hook_server list \<Rightarrow> (jsstring \<Rightarrow> jsval option option) option \<Rightarrow> before_params \<Rightarrow> hooks
     \<Rightarrow> hooks \<times> (jsstring \<times> before_params option) list" where
  "begin_hook servers channelsFor params h =
     (let asked = hook_servers servers in
      if asked = [] then (h, [])
      else (h\<lparr>hk_inHook := True\<rparr>, map (\<lambda>s. (hs_id s, server_params channelsFor params s)) asked))"

subsection \<open>Answers\<close>

datatype hook_answer = Rejected | Answered jsstring jsval

record 'b injection =
  in_namespace :: jsval
  in_position :: jsstring
  in_content :: "'b list"
  in_metadata :: jsval

text \<open>
  \<open>String(v)\<close> throws for an object with a member \<open>toString\<close>, which no JSON value makes
  callable, and for an array that holds such an object, whose text it would join.
\<close>

fun no_text_form :: "jsval \<Rightarrow> bool" where
  "no_text_form (JObj es) = (js ''toString'' \<in> set (keys es))"
| "no_text_form (JArr xs) = list_ex no_text_form xs"
| "no_text_form _ = False"

record 'b conversion =
  cv_text :: "jsstring \<Rightarrow> 'b"
  cv_blocks :: "jsval \<Rightarrow> jsstring \<Rightarrow> 'b list option"
  cv_is_text :: "'b \<Rightarrow> bool"
  cv_string :: "jsval \<Rightarrow> jsstring"

definition convertContent :: "'b conversion \<Rightarrow> jsval \<Rightarrow> jsstring \<Rightarrow> 'b list option" where
  "convertContent cv content serverId =
     (case content of JStr s \<Rightarrow> Some [cv_text cv s] | _ \<Rightarrow> cv_blocks cv content serverId)"

definition convertMcplInjection :: "'b conversion \<Rightarrow> jsval \<Rightarrow> jsstring \<Rightarrow> jsstring \<Rightarrow> 'b injection option" where
  "convertMcplInjection cv raw position serverId =
     map_option
       (\<lambda>c. \<lparr>in_namespace = field raw (js ''namespace''), in_position = position, in_content = c,
             in_metadata = field raw (js ''metadata'')\<rparr>)
       (convertContent cv (field raw (js ''content'')) serverId)"

definition readNamespace :: "jsstring \<Rightarrow> jsval \<Rightarrow> hooks \<Rightarrow> hooks option" where
  "readNamespace serverId namespace h =
     (if no_text_form namespace then None
      else Some (h\<lparr>hk_namespaceWarned := js_add serverId (hk_namespaceWarned h)\<rparr>))"

definition noteBlocksNotShown :: "'b conversion \<Rightarrow> jsstring \<Rightarrow> jsval \<Rightarrow> 'b list \<Rightarrow> hooks \<Rightarrow> hooks" where
  "noteBlocksNotShown cv serverId namespace content h =
     (if list_all (cv_is_text cv) content then h
      else h\<lparr>hk_notShownWarned :=
             js_add (serverId @ [0] @ (case namespace of JStr s \<Rightarrow> s | v \<Rightarrow> cv_string cv v)) (hk_notShownWarned h)\<rparr>)"

definition leaf_path :: "jsval \<Rightarrow> jsstring option" where
  "leaf_path position = (case position of JStr p \<Rightarrow> map_of INJECT_LEAVES p | _ \<Rightarrow> None)"

text \<open>One injection of an answer; what a throw leaves out is left out alone.\<close>

definition one_injection ::
  "'b conversion \<Rightarrow> capability_grant option \<Rightarrow> jsstring \<Rightarrow> jsval \<Rightarrow> hooks \<times> 'b injection list
     \<Rightarrow> hooks \<times> 'b injection list" where
  "one_injection cv grantNow serverId raw acc =
     (let (h, out) = acc; position = field raw (js ''position'') in
      if raw = JNull \<or> raw = JUndef then acc
      else
        (case leaf_path position of
           None \<Rightarrow> acc
         | Some path \<Rightarrow>
             if \<not> grant_has (grant_of (Some grantNow)) path then acc
             else
               (let namespace = field raw (js ''namespace'') in
                case (case namespace of JStr _ \<Rightarrow> Some h | _ \<Rightarrow> readNamespace serverId namespace h) of
                  None \<Rightarrow> acc
                | Some h1 \<Rightarrow>
                    (case convertMcplInjection cv raw (case position of JStr p \<Rightarrow> p | _ \<Rightarrow> []) serverId of
                       None \<Rightarrow> (h1, out)
                     | Some i \<Rightarrow>
                         ((if in_position i = js ''system''
                           then noteBlocksNotShown cv serverId namespace (in_content i) h1 else h1),
                          out @ [i])))))"

definition one_answer ::
  "'b conversion \<Rightarrow> feature_sets \<Rightarrow> (jsstring \<Rightarrow> capability_grant option) \<Rightarrow> jsstring \<times> hook_answer
     \<Rightarrow> hooks \<times> 'b injection list \<Rightarrow> hooks \<times> 'b injection list" where
  "one_answer cv sets grantNow sa acc =
     (case sa of
        (serverId, Rejected) \<Rightarrow> acc
      | (serverId, Answered featureSet contextInjections) \<Rightarrow>
          (case validateInbound sets serverId featureSet of
             Inl _ \<Rightarrow> acc
           | Inr _ \<Rightarrow>
               (case contextInjections of
                  JArr injs \<Rightarrow> fold (one_injection cv (grantNow serverId) serverId) injs acc
                | _ \<Rightarrow> acc)))"

text \<open>The end, when every call has been answered or rejected.\<close>

definition end_hook ::
  "'b conversion \<Rightarrow> feature_sets \<Rightarrow> (jsstring \<Rightarrow> capability_grant option) \<Rightarrow> (jsstring \<times> hook_answer) list
     \<Rightarrow> hooks \<Rightarrow> hooks \<times> 'b injection list" where
  "end_hook cv sets grantNow answers h =
     (let (h1, out) = fold (one_answer cv sets grantNow) answers (h, []) in (h1\<lparr>hk_inHook := False\<rparr>, out))"

text \<open>The servers a lifecycle notice is sent to.\<close>

definition emitLifecycle :: "hook_server list \<Rightarrow> jsstring list" where
  "emitLifecycle servers =
     map hs_id (filter (\<lambda>s. grant_has (grant_of (Some (hs_grant s))) (js ''inferenceLifecycle'')) servers)"

subsection \<open>What is asked of whom\<close>

text \<open>
  A server without the observe grant is never sent the user's message, and no server
  that may neither observe nor inject is asked at all.
\<close>

theorem unobserved_message_withheld:
  assumes "(sid, Some p) \<in> set (snd (begin_hook servers channelsFor params h))"
  shows "\<exists>s \<in> set servers. hs_id s = sid \<and>
    (bp_userMessage p = None \<or>
       (grant_has (grant_of (Some (hs_grant s))) OBSERVE \<and> bp_userMessage p = bp_userMessage params)) \<and>
    (grant_has (grant_of (Some (hs_grant s))) OBSERVE \<or>
       (\<exists>path \<in> set (map snd INJECT_LEAVES). grant_has (grant_of (Some (hs_grant s))) path))"
proof -
  obtain s where s: "s \<in> set (hook_servers servers)" "hs_id s = sid" "server_params channelsFor params s = Some p"
    using assms by (auto simp: begin_hook_def Let_def split: if_splits)
  have "bp_userMessage p = None \<or>
      (grant_has (grant_of (Some (hs_grant s))) OBSERVE \<and> bp_userMessage p = bp_userMessage params)"
    using s(3) by (auto simp: server_params_def Let_def split: option.splits if_splits)
  then show ?thesis using s(1,2)
    by (intro bexI [of _ s]) (fastforce simp: hook_servers_def list_ex_iff)+
qed

subsection \<open>What is kept\<close>

lemma one_injection_cases:
  "(i \<in> set (snd (one_injection cv g sid raw (h, out))) \<longrightarrow> i \<in> set out \<or>
     (\<exists>path. leaf_path (field raw (js ''position'')) = Some path \<and> grant_has (grant_of (Some g)) path \<and>
        field raw (js ''position'') = JStr (in_position i) \<and> in_metadata i = field raw (js ''metadata'')))"
  by (auto simp: one_injection_def convertMcplInjection_def leaf_path_def Let_def
      split: option.splits jsval.splits if_splits)

definition authorized :: "feature_sets \<Rightarrow> (jsstring \<Rightarrow> capability_grant option) \<Rightarrow> (jsstring \<times> hook_answer) list
    \<Rightarrow> 'b injection \<Rightarrow> bool" where
  "authorized sets grantNow answers i \<longleftrightarrow>
     (\<exists>(sid, a) \<in> set answers. \<exists>f injs path. a = Answered f (JArr injs) \<and> isEnabled sets sid f \<and>
        map_of INJECT_LEAVES (in_position i) = Some path \<and> grant_has (grant_of (Some (grantNow sid))) path)"

lemma injections_from:
  "i \<in> set (snd (fold (one_injection cv g sid) injs (h, out))) \<Longrightarrow> i \<in> set out \<or>
     (\<exists>path. map_of INJECT_LEAVES (in_position i) = Some path \<and> grant_has (grant_of (Some g)) path)"
proof (induction injs arbitrary: h out)
  case (Cons raw injs)
  obtain h1 out1 where s: "one_injection cv g sid raw (h, out) = (h1, out1)" by force
  have "i \<in> set out1 \<or> (\<exists>path. map_of INJECT_LEAVES (in_position i) = Some path \<and> grant_has (grant_of (Some g)) path)"
    using Cons by (simp add: s)
  then show ?case using one_injection_cases [of i cv g sid raw h out] s by (auto simp: leaf_path_def)
qed simp

lemma enabled_of_valid: "validateInbound sets sid f = Inr u \<Longrightarrow> isEnabled sets sid f"
  by (auto simp: validateInbound_def isEnabled_def split: option.splits if_splits)

lemma answers_authorized:
  "i \<in> set (snd (fold (one_answer cv sets grantNow) answers (h, out))) \<Longrightarrow> i \<in> set out \<or> authorized sets grantNow answers i"
proof (induction answers arbitrary: h out)
  case (Cons sa answers)
  obtain h1 out1 where s: "one_answer cv sets grantNow sa (h, out) = (h1, out1)" by force
  have "i \<in> set out1 \<or> authorized sets grantNow answers i" using Cons by (simp add: s)
  moreover have "i \<in> set out \<or> authorized sets grantNow [sa] i" if "i \<in> set out1"
  proof (cases "\<exists>sid f injs u. sa = (sid, Answered f (JArr injs)) \<and> validateInbound sets sid f = Inr u")
    case True
    then obtain sid f injs u where sa: "sa = (sid, Answered f (JArr injs))" "validateInbound sets sid f = Inr u"
      by blast
    then have "i \<in> set (snd (fold (one_injection cv (grantNow sid) sid) injs (h, out)))"
      using that s by (simp add: one_answer_def)
    then show ?thesis using injections_from [of i cv "grantNow sid" sid injs h out] sa enabled_of_valid [OF sa(2)]
      by (auto simp: authorized_def)
  next
    case False
    then have "one_answer cv sets grantNow sa (h, out) = (h, out)"
      by (cases sa) (auto simp: one_answer_def split: hook_answer.splits sum.splits jsval.splits)
    then show ?thesis using that s by simp
  qed
  ultimately show ?case by (auto simp: authorized_def)
qed simp


subsection \<open>Two hooks at once\<close>

text \<open>
  The flag is one for the whole host, so what it says while hooks overlap: the servers'
  hooks that are in flight, and the flag the router asks.
\<close>

record hook_world =
  hw_hooks :: hooks
  hw_pending :: "(nat \<times> (jsstring \<times> before_params option) list) list"

definition start_turn ::
  "nat \<Rightarrow> hook_server list \<Rightarrow> (jsstring \<Rightarrow> jsval option option) option \<Rightarrow> before_params \<Rightarrow> hook_world \<Rightarrow> hook_world" where
  "start_turn turn servers channelsFor params w =
     (let (h, calls) = begin_hook servers channelsFor params (hw_hooks w) in
      if calls = [] then w else \<lparr>hw_hooks = h, hw_pending = AList.update turn calls (hw_pending w)\<rparr>)"

definition finish_turn ::
  "'b conversion \<Rightarrow> feature_sets \<Rightarrow> (jsstring \<Rightarrow> capability_grant option) \<Rightarrow> nat \<Rightarrow> (jsstring \<times> hook_answer) list
     \<Rightarrow> hook_world \<Rightarrow> hook_world" where
  "finish_turn cv sets grantNow turn answers w =
     (if map_of (hw_pending w) turn = None then w
      else \<lparr>hw_hooks = fst (end_hook cv sets grantNow answers (hw_hooks w)),
             hw_pending = AList.delete turn (hw_pending w)\<rparr>)"

definition in_flight :: "hook_world \<Rightarrow> nat \<Rightarrow> bool" where
  "in_flight w turn \<longleftrightarrow> map_of (hw_pending w) turn \<noteq> None"

lemma end_hook_flag: "hk_inHook (fst (end_hook cv sets grantNow answers h)) = False"
  by (simp add: end_hook_def case_prod_beta)

text \<open>
  When two agents' hooks overlap, the first to end clears the flag while the other is
  still in flight; a server's inference request is then admitted as if no hook were running,
  which is the loop the flag is there to prevent.
\<close>

theorem overlapping_hooks_admit_inference:
  assumes "in_flight w a" "in_flight w b" "a \<noteq> b" "w' = finish_turn cv sets grantNow a answers w"
  shows "in_flight w' b \<and> \<not> isInHook (hw_hooks w') \<and>
    answer sets (isInHook (hw_hooks w')) sid req rd gone ro = answer sets False sid req rd gone ro"
  using assms by (auto simp: in_flight_def finish_turn_def isInHook_def end_hook_flag)

definition observer :: hook_server where
  "observer = \<lparr>hs_id = js ''memory'', hs_grant = Some \<lparr>granted = [OBSERVE], deniedPaths = []\<rparr>\<rparr>"

definition some_params :: before_params where
  "some_params = \<lparr>bp_inferenceId = js ''i'', bp_conversationId = js ''c'', bp_turnIndex = 0, bp_userMessage = Some (js ''hi''),
     bp_model = JUndef, bp_channels = None\<rparr>"

definition plain_conversion :: "jsstring conversion" where
  "plain_conversion = \<lparr>cv_text = (\<lambda>s. s), cv_blocks = (\<lambda>v s. None), cv_is_text = (\<lambda>b. True), cv_string = (\<lambda>v. [])\<rparr>"

definition two_turns :: hook_world where
  "two_turns = start_turn 2 [observer] None some_params
     (start_turn 1 [observer] None some_params \<lparr>hw_hooks = new_hooks, hw_pending = []\<rparr>)"

lemma two_turns_in_flight: "in_flight two_turns 1" "in_flight two_turns 2" "isInHook (hw_hooks two_turns)"
  by (simp_all add: two_turns_def start_turn_def begin_hook_def hook_servers_def observer_def grant_of_def grant_has_def
      in_flight_def isInHook_def Let_def)

theorem overlapping_hooks_admit_inference_witness:
  "isInHook (hw_hooks two_turns) \<and>
   \<not> isInHook (hw_hooks (finish_turn plain_conversion [] (\<lambda>_. None) 1 [(js ''memory'', Rejected)] two_turns))"
  using overlapping_hooks_admit_inference [OF two_turns_in_flight(1,2) _ refl, of plain_conversion "[]" "\<lambda>_. None"
      "[(js ''memory'', Rejected)]"] two_turns_in_flight(3) by simp

theorem unobserved_message_withheld_witness:
  "grant_has (grant_of (Some (hs_grant observer))) OBSERVE"
proof -
  have "(js ''memory'', Some some_params) \<in> set (snd (begin_hook [observer] None some_params new_hooks))"
    by (simp add: begin_hook_def hook_servers_def observer_def grant_of_def grant_has_def server_params_def)
  from unobserved_message_withheld [OF this] show ?thesis by (simp add: some_params_def)
qed

definition one_reply :: "(jsstring \<times> hook_answer) list" where
  "one_reply = [(js ''memory'', Answered (js ''memory.recall'') (JArr
     [JObj [(js ''position'', JStr (js ''system'')), (js ''namespace'', JStr (js ''n'')), (js ''content'', JStr (js ''c''))]]))]"


end
