(* ===== verification/Text_Search.thy ===== *)
theory Text_Search
  imports Prelude "HOL-Library.Sublist" "HOL-Library.Extended_Nat" "HOL-Library.While_Combinator"
begin

section \<open>Where one text occurs in another\<close>

text \<open>
  Models the searches of \<open>src/modules/workspace/edit-plan.ts\<close>: \<open>String.prototype.indexOf\<close>,
  the loop over it in \<open>scan\<close>, the one-pass search \<open>everyOccurrence\<close> (Knuth, Morris, Pratt)
  and what \<open>scan\<close> counts at each occurrence. Both searches are shown to visit the same
  list, \<open>occurrences\<close>, so a scan does not depend on which of them it runs.

  A callback the search calls at each position is a function from the position and the
  callback's state to the new state and whether to go on.
\<close>

subsection \<open>The searches\<close>

definition index_of :: "jsstring \<Rightarrow> jsstring \<Rightarrow> nat \<Rightarrow> nat option" where
  "index_of haystack needle start =
     find (\<lambda>i. startsWith (drop i haystack) needle) [start..<Suc (length haystack)]"

definition occurrences :: "jsstring \<Rightarrow> jsstring \<Rightarrow> nat list" where
  "occurrences haystack needle =
     filter (\<lambda>i. startsWith (drop i haystack) needle) [0..<Suc (length haystack)]"

lemma index_of_SomeD:
  assumes "index_of haystack needle start = Some i"
  shows "start \<le> i" "i \<le> length haystack" "startsWith (drop i haystack) needle"
proof -
  obtain j where "j < length [start..<Suc (length haystack)]" and i: "i = [start..<Suc (length haystack)] ! j"
    and at: "startsWith (drop i haystack) needle"
    using assms by (auto simp: index_of_def find_Some_iff)
  then have "i \<in> set [start..<Suc (length haystack)]"
    by (metis nth_mem)
  then show "start \<le> i" "i \<le> length haystack" "startsWith (drop i haystack) needle"
    using at by auto
qed

lemma index_of_first:
  assumes "index_of haystack needle start = Some i" "start \<le> p" "p < i"
  shows "\<not> startsWith (drop p haystack) needle"
proof -
  have "p \<in> set [start..<Suc (length haystack)]"
    using assms(2,3) index_of_SomeD(2) [OF assms(1)] by auto
  then obtain k where k: "k < length [start..<Suc (length haystack)]" "[start..<Suc (length haystack)] ! k = p"
    by (metis in_set_conv_nth)
  obtain j where j: "j < length [start..<Suc (length haystack)]" "i = [start..<Suc (length haystack)] ! j"
      "\<forall>m < j. \<not> startsWith (drop ([start..<Suc (length haystack)] ! m) haystack) needle"
    using assms(1) by (auto simp: index_of_def find_Some_iff simp del: upt_Suc)
  have "start + k = p" "start + j = i"
    using k j(1,2) by (auto simp del: upt_Suc)
  then have "k < j" using assms(3) by simp
  then show ?thesis using j(3) k(2) by blast
qed

lemma index_of_None:
  assumes "index_of haystack needle start = None" "start \<le> p" "needle \<noteq> []"
  shows "\<not> startsWith (drop p haystack) needle"
proof (cases "p < Suc (length haystack)")
  case True
  then show ?thesis
    using assms(1,2) by (auto simp: index_of_def find_None_iff simp del: upt_Suc)
next
  case False
  then show ?thesis using assms(3) by (simp add: startsWith_def)
qed

function index_loop ::
  "(nat \<Rightarrow> 's \<Rightarrow> 's \<times> bool) \<Rightarrow> jsstring \<Rightarrow> jsstring \<Rightarrow> nat option \<Rightarrow> 's \<Rightarrow> 's \<times> bool" where
  "index_loop visit haystack needle None s = (s, True)"
| "index_loop visit haystack needle (Some p) s =
     (case visit p s of (s', go) \<Rightarrow>
        if go then index_loop visit haystack needle (index_of haystack needle (Suc p)) s' else (s', False))"
  by pat_completeness auto
termination
proof (relation "measure (\<lambda>(_, haystack, _, p, _). case p of None \<Rightarrow> 0 | Some a \<Rightarrow> Suc (Suc (length haystack) - a))")
  show "wf (measure (\<lambda>(_, haystack, _, p, _). case p of None \<Rightarrow> 0 | Some a \<Rightarrow> Suc (Suc (length haystack) - a)))"
    by simp
next
  fix visit :: "nat \<Rightarrow> 's \<Rightarrow> 's \<times> bool" and haystack needle p s x s' go
  show "((visit, haystack, needle, index_of haystack needle (Suc p), s'), visit, haystack, needle, Some p, s)
      \<in> measure (\<lambda>(_, haystack, _, p, _). case p of None \<Rightarrow> 0 | Some a \<Rightarrow> Suc (Suc (length haystack) - a))"
    using index_of_SomeD(1,2) [of haystack needle "Suc p"]
    by (cases "index_of haystack needle (Suc p)") fastforce+
qed

text \<open>
  \<open>everyOccurrence\<close>: \<open>border\<close> starts as zeroes and is filled from its second entry on; the
  inner loop of both passes is \<open>fall_back\<close>, of which \<open>fall_back_result\<close> below shows that
  it ends.
\<close>

definition fall_back :: "jsstring \<Rightarrow> nat list \<Rightarrow> code_unit \<Rightarrow> nat \<Rightarrow> nat" where
  "fall_back needle border c k = while (\<lambda>k. 0 < k \<and> c \<noteq> needle ! k) (\<lambda>k. border ! (k - 1)) k"

definition advance :: "jsstring \<Rightarrow> nat list \<Rightarrow> code_unit \<Rightarrow> nat \<Rightarrow> nat" where
  "advance needle border c k =
     (let k = fall_back needle border c k in if c = needle ! k then Suc k else k)"

fun border_loop :: "jsstring \<Rightarrow> nat list \<Rightarrow> nat list \<Rightarrow> nat \<Rightarrow> nat list" where
  "border_loop needle [] border k = border"
| "border_loop needle (i # is) border k =
     (let k' = advance needle border (needle ! i) k in border_loop needle is (border[i := k']) k')"

definition border_of :: "jsstring \<Rightarrow> nat list" where
  "border_of needle = border_loop needle [1..<length needle] (replicate (length needle) 0) 0"

fun search_loop ::
  "(nat \<Rightarrow> 's \<Rightarrow> 's \<times> bool) \<Rightarrow> jsstring \<Rightarrow> jsstring \<Rightarrow> nat list \<Rightarrow> nat list \<Rightarrow> nat \<Rightarrow> 's \<Rightarrow> 's \<times> bool"
where
  "search_loop visit haystack needle border [] k s = (s, True)"
| "search_loop visit haystack needle border (i # is) k s =
     (let k' = advance needle border (haystack ! i) k
      in if k' = length needle
         then (case visit (Suc i - k') s of (s', go) \<Rightarrow>
                 if go then search_loop visit haystack needle border is (border ! (k' - 1)) s'
                 else (s', False))
         else search_loop visit haystack needle border is k' s)"

definition everyOccurrence ::
  "jsstring \<Rightarrow> jsstring \<Rightarrow> (nat \<Rightarrow> 's \<Rightarrow> 's \<times> bool) \<Rightarrow> 's \<Rightarrow> 's \<times> bool" where
  "everyOccurrence haystack needle visit s =
     search_loop visit haystack needle (border_of needle) [0..<length haystack] 0 s"

text \<open>The reference: every position of a list visited in turn.\<close>

fun visit_all :: "(nat \<Rightarrow> 's \<Rightarrow> 's \<times> bool) \<Rightarrow> nat list \<Rightarrow> 's \<Rightarrow> 's \<times> bool" where
  "visit_all visit [] s = (s, True)"
| "visit_all visit (p # ps) s =
     (case visit p s of (s', go) \<Rightarrow> if go then visit_all visit ps s' else (s', False))"

subsection \<open>The loop over indexOf\<close>

lemma upt_find_filter:
  "(case find P [i..<n] of None \<Rightarrow> [] | Some p \<Rightarrow> p # filter P [Suc p..<n]) = filter P [i..<n]"
proof (induction "n - i" arbitrary: i)
  case (Suc d)
  then have i: "i < n" and IH: "(case find P [Suc i..<n] of None \<Rightarrow> [] | Some p \<Rightarrow> p # filter P [Suc p..<n])
      = filter P [Suc i..<n]"
    by auto
  have upt: "[i..<n] = i # [Suc i..<n]"
    using i by (rule upt_conv_Cons)
  show ?case using IH by (simp add: upt del: upt_Suc)
qed simp

lemma index_loop_from:
  "index_loop visit haystack needle (index_of haystack needle start) s =
     visit_all visit (filter (\<lambda>i. startsWith (drop i haystack) needle) [start..<Suc (length haystack)]) s"
proof (induction "Suc (length haystack) - start" arbitrary: start s rule: less_induct)
  case less
  let ?occ = "\<lambda>i. startsWith (drop i haystack) needle"
  have rest: "filter ?occ [start..<Suc (length haystack)] =
      (case index_of haystack needle start of None \<Rightarrow> []
       | Some p \<Rightarrow> p # filter ?occ [Suc p..<Suc (length haystack)])"
    unfolding index_of_def by (rule upt_find_filter [symmetric])
  show ?case
  proof (cases "index_of haystack needle start")
    case None
    then show ?thesis by (simp add: rest del: upt_Suc)
  next
    case (Some p)
    then have "start \<le> p" "p \<le> length haystack"
      by (auto dest: index_of_SomeD)
    then have "Suc (length haystack) - Suc p < Suc (length haystack) - start"
      by simp
    from less [OF this] show ?thesis
      by (simp add: rest Some del: upt_Suc split: prod.split)
  qed
qed

lemma index_loop_all:
  "index_loop visit haystack needle (index_of haystack needle 0) s =
     visit_all visit (occurrences haystack needle) s"
  unfolding occurrences_def by (rule index_loop_from)

subsection \<open>The one-pass search\<close>

text \<open>
  The matched length \<open>k\<close> the search carries: the longest proper prefix of the needle that
  ends the text read so far.
\<close>

definition longest :: "jsstring \<Rightarrow> jsstring \<Rightarrow> nat \<Rightarrow> bool" where
  "longest needle h k \<longleftrightarrow> k < length needle \<and> suffix (take k needle) h \<and>
     (\<forall>j. k < j \<and> j < length needle \<longrightarrow> \<not> suffix (take j needle) h)"

definition good_borders :: "jsstring \<Rightarrow> nat list \<Rightarrow> nat \<Rightarrow> bool" where
  "good_borders needle border n \<longleftrightarrow> length border = length needle \<and>
     (\<forall>i < n. longest needle (drop 1 (take (Suc i) needle)) (border ! i))"

lemma suffix_shorter:
  assumes "suffix u h" "suffix v h" "length u \<le> length v" shows "suffix u v"
  using assms by (rule suffix_length_suffix)

lemma suffix_drop_one: "suffix u v \<Longrightarrow> length u < length v \<Longrightarrow> suffix u (drop 1 v)"
  by (cases v) (auto simp: suffix_Cons)

lemma suffix_take_snoc:
  "j < length needle \<Longrightarrow> suffix (take (Suc j) needle) (h @ [c]) \<longleftrightarrow>
     suffix (take j needle) h \<and> needle ! j = c"
  by (simp add: take_Suc_conv_app_nth conj_commute)

lemma good_border_at:
  assumes "good_borders needle border n" "0 < j" "j \<le> n"
  shows "longest needle (drop 1 (take j needle)) (border ! (j - 1))"
proof -
  have "j - 1 < n" "Suc (j - 1) = j" using assms(2,3) by auto
  then show ?thesis using assms(1) unfolding good_borders_def by metis
qed

definition partial :: "jsstring \<Rightarrow> jsstring \<Rightarrow> code_unit \<Rightarrow> nat \<Rightarrow> bool" where
  "partial needle h c k \<longleftrightarrow> k < length needle \<and> suffix (take k needle) h \<and>
     (\<forall>j. k < j \<and> j < length needle \<and> needle ! j = c \<longrightarrow> \<not> suffix (take j needle) h)"

lemma border_step:
  assumes "partial needle h c k" "0 < k" "c \<noteq> needle ! k"
    and b: "longest needle (drop 1 (take k needle)) b"
  shows "partial needle h c b" "b < k"
proof -
  have k: "k < length needle" "suffix (take k needle) h"
    using assms(1) by (auto simp: partial_def)
  have bs: "suffix (take b needle) (drop 1 (take k needle))" "b < length needle"
    using b by (auto simp: longest_def)
  have "length (take b needle) \<le> length (drop 1 (take k needle))"
    using bs(1) by (rule suffix_length_le)
  then show "b < k"
    using k(1) bs(2) assms(2) by simp
  have "suffix (drop 1 (take k needle)) (take k needle)"
    by (rule suffix_drop)
  then have "suffix (take b needle) h"
    using bs(1) k(2) by (blast intro: suffix_order.trans)
  moreover have "\<not> suffix (take j needle) h" if j: "b < j" "j < length needle" "needle ! j = c" for j
  proof
    assume sj: "suffix (take j needle) h"
    have "j \<noteq> k" using j(3) assms(3) by auto
    moreover have "\<not> k < j" using assms(1) sj j by (auto simp: partial_def)
    ultimately have "j < k" by simp
    then have "suffix (take j needle) (take k needle)"
      using suffix_shorter [OF sj k(2)] by simp
    then have "suffix (take j needle) (drop 1 (take k needle))"
      by (rule suffix_drop_one) (use \<open>j < k\<close> k(1) in simp)
    then show False
      using b j by (auto simp: longest_def)
  qed
  ultimately show "partial needle h c b"
    using bs(2) by (auto simp: partial_def)
qed

lemma fall_back_result:
  assumes "good_borders needle border n" "k \<le> n" "partial needle h c k"
  shows "partial needle h c (fall_back needle border c k)"
    and "fall_back needle border c k = 0 \<or> c = needle ! fall_back needle border c k"
proof -
  have "partial needle h c (fall_back needle border c k) \<and>
      (fall_back needle border c k = 0 \<or> c = needle ! fall_back needle border c k)"
    unfolding fall_back_def
  proof (rule while_rule [where P = "\<lambda>k. k \<le> n \<and> partial needle h c k" and r = "measure id"])
    fix j
    assume j: "j \<le> n \<and> partial needle h c j" "0 < j \<and> c \<noteq> needle ! j"
    then have "longest needle (drop 1 (take j needle)) (border ! (j - 1))"
      using good_border_at [OF assms(1)] by blast
    then have "partial needle h c (border ! (j - 1))" "border ! (j - 1) < j"
      using border_step j by blast+
    then show "border ! (j - 1) \<le> n \<and> partial needle h c (border ! (j - 1))"
      and "(border ! (j - 1), j) \<in> measure id"
      using j(1) by auto
  qed (use assms in auto)
  then show "partial needle h c (fall_back needle border c k)"
    and "fall_back needle border c k = 0 \<or> c = needle ! fall_back needle border c k"
    by auto
qed

text \<open>The inner loop ends: each step takes it to a shorter prefix.\<close>

lemma fall_back_ends:
  assumes "good_borders needle border n" "k \<le> n" "partial needle h c k"
  shows "\<exists>k'. while_option (\<lambda>k. 0 < k \<and> c \<noteq> needle ! k) (\<lambda>k. border ! (k - 1)) k = Some k'"
proof -
  let ?P = "\<lambda>k. k \<le> n \<and> partial needle h c k"
  have step: "?P (border ! (j - 1)) \<and> border ! (j - 1) < j"
    if j: "?P j" "0 < j \<and> c \<noteq> needle ! j" for j
  proof -
    have "longest needle (drop 1 (take j needle)) (border ! (j - 1))"
      using good_border_at [OF assms(1)] j by blast
    then have "partial needle h c (border ! (j - 1))" "border ! (j - 1) < j"
      using border_step j by blast+
    then show ?thesis using j(1) by auto
  qed
  have "?P k" using assms by blast
  then show ?thesis
    by (intro measure_while_option_Some [where P = ?P and f = "\<lambda>k. k"]) (use step in blast)+
qed

lemma longest_partial: "longest needle h k \<Longrightarrow> partial needle h c k"
  by (auto simp: longest_def partial_def)

lemma advance_result:
  assumes "good_borders needle border n" "k \<le> n" "longest needle h k"
  shows "suffix (take (advance needle border c k) needle) (h @ [c])"
    and "advance needle border c k \<le> length needle" "advance needle border c k \<le> Suc k"
    and "\<forall>j. advance needle border c k < j \<and> j \<le> length needle \<longrightarrow> \<not> suffix (take j needle) (h @ [c])"
proof -
  let ?f = "fall_back needle border c k"
  have p: "partial needle h c ?f" and f: "?f = 0 \<or> c = needle ! ?f"
    using fall_back_result [OF assms(1,2) longest_partial [OF assms(3)]] by auto
  have lt: "?f < length needle" and suf: "suffix (take ?f needle) h"
    using p by (auto simp: partial_def)
  have "?f \<le> k"
  proof (rule ccontr)
    assume "\<not> ?f \<le> k"
    then show False using assms(3) lt suf by (auto simp: longest_def)
  qed
  then show "advance needle border c k \<le> length needle" "advance needle border c k \<le> Suc k"
    using lt by (auto simp: advance_def Let_def)
  show "suffix (take (advance needle border c k) needle) (h @ [c])"
  proof (cases "c = needle ! ?f")
    case True
    then show ?thesis using suffix_take_snoc [OF lt, of h c] suf by (simp add: advance_def)
  next
    case False
    then show ?thesis using f by (simp add: advance_def)
  qed
  show "\<forall>j. advance needle border c k < j \<and> j \<le> length needle \<longrightarrow> \<not> suffix (take j needle) (h @ [c])"
  proof (intro allI impI notI)
    fix j
    assume j: "advance needle border c k < j \<and> j \<le> length needle" and s: "suffix (take j needle) (h @ [c])"
    obtain i where i: "j = Suc i" using j by (cases j) auto
    have "suffix (take i needle) h" "needle ! i = c"
      using s j suffix_take_snoc [of i needle h c] by (auto simp: i)
    moreover have "?f \<le> i" using j by (auto simp: i advance_def Let_def split: if_splits)
    moreover have "?f \<noteq> i"
    proof
      assume "?f = i"
      then show False using j \<open>needle ! i = c\<close> by (auto simp: i advance_def Let_def)
    qed
    ultimately show False
      using p j by (auto simp: i partial_def)
  qed
qed

lemma advance_longest:
  assumes "good_borders needle border n" "k \<le> n" "longest needle h k"
    and "advance needle border c k \<noteq> length needle"
  shows "longest needle (h @ [c]) (advance needle border c k)"
  using advance_result [OF assms(1-3), of c] assms(4) by (auto simp: longest_def)

lemma take_Suc_drop_one:
  "0 < i \<Longrightarrow> i < length xs \<Longrightarrow> drop 1 (take (Suc i) xs) = drop 1 (take i xs) @ [xs ! i]"
  by (simp add: take_Suc_conv_app_nth)

lemma longest_length: "longest needle h k \<Longrightarrow> k \<le> length h"
  by (auto simp: longest_def dest: suffix_length_le)

lemma border_loop_good:
  assumes "good_borders needle border i" "0 < i" "i \<le> length needle" "longest needle (drop 1 (take i needle)) k"
  shows "good_borders needle (border_loop needle [i..<length needle] border k) (length needle)"
  using assms
proof (induction "length needle - i" arbitrary: i border k)
  case (Suc d)
  have i: "i < length needle" using Suc.hyps(2) by simp
  have upt: "[i..<length needle] = i # [Suc i..<length needle]"
    using i by (rule upt_conv_Cons)
  let ?k = "advance needle border (needle ! i) k"
  have "k \<le> length (drop 1 (take i needle))"
    using Suc.prems(4) by (rule longest_length)
  then have ki: "k < i" using Suc.prems(2) i by simp
  have ne: "?k \<noteq> length needle"
    using advance_result(3) [OF Suc.prems(1) less_imp_le [OF ki] Suc.prems(4), of "needle ! i"] ki i by simp
  have "longest needle (drop 1 (take i needle) @ [needle ! i]) ?k"
    by (rule advance_longest [OF Suc.prems(1) less_imp_le [OF ki] Suc.prems(4) ne])
  then have L: "longest needle (drop 1 (take (Suc i) needle)) ?k"
    using take_Suc_drop_one [OF Suc.prems(2) i] by simp
  have "good_borders needle (border[i := ?k]) (Suc i)"
    using Suc.prems(1) L i by (auto simp: good_borders_def less_Suc_eq)
  from Suc.hyps(1) [OF _ this _ _ L] i Suc.hyps(2) show ?case
    by (simp add: upt Let_def)
qed simp

lemma border_of_good:
  assumes "needle \<noteq> []" shows "good_borders needle (border_of needle) (length needle)"
proof -
  have L: "longest needle (drop 1 (take (Suc 0) needle)) 0"
    using assms by (auto simp: longest_def dest: suffix_length_le)
  then have "good_borders needle (replicate (length needle) 0) 1"
    using assms by (auto simp: good_borders_def)
  then show ?thesis
    unfolding border_of_def using border_loop_good [of needle _ 1 0] L assms
    by (cases needle) auto
qed

lemma occurs_suffix:
  assumes "i < length haystack" "length needle \<le> Suc i"
  shows "startsWith (drop (Suc i - length needle) haystack) needle \<longleftrightarrow> suffix needle (take (Suc i) haystack)"
proof -
  have "drop (Suc i - length needle) (take (Suc i) haystack) = take (length needle) (drop (Suc i - length needle) haystack)"
    using assms by (simp add: drop_take)
  moreover have "suffix needle (take (Suc i) haystack) \<longleftrightarrow>
      drop (length (take (Suc i) haystack) - length needle) (take (Suc i) haystack) = needle"
    by (metis append_take_drop_id length_drop suffixE suffixI append_eq_conv_conj length_append add_diff_cancel_right' diff_diff_cancel suffix_length_le)
  ultimately show ?thesis
    using assms by (simp add: startsWith_def)
qed

lemma search_loop_visits:
  assumes "needle \<noteq> []" and border: "good_borders needle border (length needle)"
    and "i \<le> length haystack" "longest needle (take i haystack) k"
  shows "search_loop visit haystack needle border [i..<length haystack] k s =
     visit_all visit
       (filter (\<lambda>p. startsWith (drop p haystack) needle) [Suc i - length needle..<Suc (length haystack)]) s"
  using assms(3,4)
proof (induction "length haystack - i" arbitrary: i k s)
  case 0
  then have i: "i = length haystack" by simp
  let ?occ = "\<lambda>p. startsWith (drop p haystack) needle"
  have "\<not> ?occ p" if "p \<in> set [Suc i - length needle..<Suc (length haystack)]" for p
  proof
    assume "?occ p"
    then have "length needle \<le> length haystack - p"
      by (metis length_drop length_take min.cobounded2 startsWith_def min.absorb_iff2 nat_le_linear)
    then show False using that i assms(1) by (cases needle) auto
  qed
  then have "filter ?occ [Suc i - length needle..<Suc (length haystack)] = []"
    unfolding filter_empty_conv by blast
  then show ?case by (simp add: i del: upt_Suc)
next
  case (Suc d)
  let ?occ = "\<lambda>p. startsWith (drop p haystack) needle"
  let ?k = "advance needle border (haystack ! i) k"
  have i: "i < length haystack" using Suc.hyps(2) by simp
  have upt: "[i..<length haystack] = i # [Suc i..<length haystack]"
    using i by (rule upt_conv_Cons)
  have klt: "k \<le> length needle" using Suc.prems(2) by (simp add: longest_def)
  have read: "take (Suc i) haystack = take i haystack @ [haystack ! i]"
    using i by (rule take_Suc_conv_app_nth)
  note adv = advance_result [OF border klt Suc.prems(2), of "haystack ! i", folded read]
  have whole: "?k = length needle \<longleftrightarrow> suffix needle (take (Suc i) haystack)"
    using adv(1,2,4) by (metis le_neq_implies_less order_refl take_all)
  have next_first: "filter ?occ [Suc i - length needle..<Suc (length haystack)] =
      (if ?k = length needle then [Suc i - length needle] else []) @
      filter ?occ [Suc (Suc i) - length needle..<Suc (length haystack)]"
  proof (cases "length needle \<le> Suc i")
    case True
    have "Suc i - length needle < Suc (length haystack)" using i by simp
    then have "[Suc i - length needle..<Suc (length haystack)] =
        (Suc i - length needle) # [Suc (Suc i) - length needle..<Suc (length haystack)]"
      using True by (simp add: upt_conv_Cons Suc_diff_le del: upt_Suc)
    then show ?thesis
      using occurs_suffix [OF i True] whole by simp
  next
    case False
    have "?k \<noteq> length needle"
      using whole False i by (auto dest: suffix_length_le)
    then show ?thesis using False by simp
  qed
  show ?case
  proof (cases "?k = length needle")
    case True
    have B: "longest needle (drop 1 needle) (border ! (length needle - 1))"
      using good_border_at [OF border, of "length needle"] assms(1) by simp
    have suf: "suffix needle (take (Suc i) haystack)"
      using whole True by simp
    have B': "longest needle (take (Suc i) haystack) (border ! (length needle - 1))"
      unfolding longest_def
    proof (intro conjI allI impI)
      show "border ! (length needle - 1) < length needle" using B by (simp add: longest_def)
      show "suffix (take (border ! (length needle - 1)) needle) (take (Suc i) haystack)"
        using B suf suffix_drop [of 1 needle] by (auto simp: longest_def intro: suffix_order.trans)
      fix j
      assume j: "border ! (length needle - 1) < j \<and> j < length needle"
      show "\<not> suffix (take j needle) (take (Suc i) haystack)"
      proof
        assume "suffix (take j needle) (take (Suc i) haystack)"
        then have "suffix (take j needle) needle"
          using suf by (rule suffix_shorter) (use j in simp)
        then have "suffix (take j needle) (drop 1 needle)"
          by (rule suffix_drop_one) (use j in simp)
        then show False using B j by (auto simp: longest_def)
      qed
    qed
    show ?thesis
      using Suc.hyps(1) [OF _ _ B'] Suc.hyps(2) i True
      by (simp add: upt next_first Let_def del: upt_Suc split: prod.split)
  next
    case False
    have "longest needle (take (Suc i) haystack) ?k"
      unfolding read using border klt Suc.prems(2) False by (rule advance_longest)
    from Suc.hyps(1) [OF _ _ this] Suc.hyps(2) i False show ?thesis
      by (simp add: upt next_first Let_def del: upt_Suc)
  qed
qed

lemma everyOccurrence_visits:
  assumes "needle \<noteq> []"
  shows "everyOccurrence haystack needle visit s = visit_all visit (occurrences haystack needle) s"
proof -
  have L: "longest needle (take 0 haystack) 0"
    using assms by (auto simp: longest_def dest: suffix_length_le)
  have one: "Suc 0 - length needle = 0"
    using assms by (cases needle) auto
  show ?thesis
    unfolding everyOccurrence_def
    using search_loop_visits [OF assms border_of_good [OF assms] _ L, of visit s]
    by (simp add: occurrences_def one del: upt_Suc)
qed

text \<open>
  C26: The one-pass search visits what the loop over \<open>indexOf\<close> visits, and nothing else: with
  any callback and any state it ends, and stops at the same position with the same state.
\<close>

theorem one_pass_search_exact:
  "needle \<noteq> [] \<Longrightarrow> everyOccurrence haystack needle visit s =
     index_loop visit haystack needle (index_of haystack needle 0) s"
  by (simp add: everyOccurrence_visits index_loop_all)

theorem one_pass_search_exact_witness:
  "everyOccurrence [0x61, 0x61, 0x61] [0x61, 0x61] (\<lambda>p ps. (p # ps, True)) [] = ([1, 0], True)"
proof -
  have "everyOccurrence [0x61, 0x61, 0x61] [0x61, 0x61] (\<lambda>p ps. (p # ps, True)) [] =
      index_loop (\<lambda>p ps. (p # ps, True)) [0x61, 0x61, 0x61] [0x61, 0x61] (index_of [0x61, 0x61, 0x61] [0x61, 0x61] 0) []"
    by (rule one_pass_search_exact) simp
  then show ?thesis by (simp add: index_of_def startsWith_def upt_rec)
qed

subsection \<open>What a scan keeps and counts\<close>

definition SHOWN_MATCHES :: nat where "SHOWN_MATCHES = 20"

definition COUNT_MAX :: nat where "COUNT_MAX = 5 * 1024 * 1024"

record count_budget =
  cb_left :: nat
  cb_size :: nat

definition countBudget :: "nat \<Rightarrow> count_budget" where
  "countBudget maxBytes = \<lparr>cb_left = maxBytes, cb_size = maxBytes\<rparr>"

record found =
  fd_starts :: "nat list"
  fd_count :: nat
  fd_overlapping :: bool
  fd_atLeast :: bool
  fd_spent :: bool

definition nothing_found :: found where
  "nothing_found = \<lparr>fd_starts = [], fd_count = 0, fd_overlapping = False, fd_atLeast = False, fd_spent = False\<rparr>"

text \<open>
  The variables of \<open>scan\<close> its callback \<open>take\<close> updates; \<open>found\<close> is the answer made of them.
  \<open>previous\<close> starts at minus infinity, which no position overlaps.
\<close>

record take_state =
  tk_found :: found
  tk_previous :: "nat option"
  tk_budget :: "count_budget option"

definition take_at ::
  "nat \<Rightarrow> enat \<Rightarrow> (nat \<Rightarrow> bool) \<Rightarrow> enat \<Rightarrow> nat \<Rightarrow> take_state \<Rightarrow> take_state \<times> bool" where
  "take_at len keep accept free p s =
     (if \<not> accept p then (s, True)
      else
        let f = tk_found s;
            overlapping = (fd_overlapping f \<or> (case tk_previous s of None \<Rightarrow> False | Some q \<Rightarrow> p < q + len));
            starts = (if enat (fd_count f) < keep then fd_starts f @ [p] else fd_starts f);
            f' = f\<lparr>fd_starts := starts, fd_count := Suc (fd_count f), fd_overlapping := overlapping\<rparr>;
            s' = s\<lparr>tk_found := f', tk_previous := Some p\<rparr>
        in if overlapping \<and> SHOWN_MATCHES < fd_count f' then (s', False)
           else if free < enat (fd_count f')
           then (case tk_budget s of
                   Some b \<Rightarrow>
                     if cb_left b = 0 then (s'\<lparr>tk_found := f'\<lparr>fd_spent := True\<rparr>\<rparr>, False)
                     else (s'\<lparr>tk_budget := Some (b\<lparr>cb_left := cb_left b - 1\<rparr>)\<rparr>, True)
                 | None \<Rightarrow> (s'\<lparr>tk_found := f'\<lparr>fd_spent := True\<rparr>\<rparr>, False))
           else (s', True))"

definition scan ::
  "jsstring \<Rightarrow> jsstring \<Rightarrow> enat \<Rightarrow> (nat \<Rightarrow> bool) option \<Rightarrow> enat \<Rightarrow> count_budget option \<Rightarrow>
   found \<times> count_budget option" where
  "scan haystack needle keep accept free budget =
     (if needle = [] then (nothing_found, budget)
      else
        let s = \<lparr>tk_found = nothing_found, tk_previous = None, tk_budget = budget\<rparr>;
            (s', all) =
              (case accept of
                 Some ok \<Rightarrow> everyOccurrence haystack needle (take_at (length needle) keep ok free) s
               | None \<Rightarrow> index_loop (take_at (length needle) keep (\<lambda>_. True) free) haystack needle
                            (index_of haystack needle 0) s)
        in ((tk_found s')\<lparr>fd_atLeast := \<not> all\<rparr>, tk_budget s'))"

subsection \<open>Correctness of a scan\<close>

definition accepted :: "(nat \<Rightarrow> bool) option \<Rightarrow> nat \<Rightarrow> bool" where
  "accepted accept = (case accept of None \<Rightarrow> \<lambda>_. True | Some ok \<Rightarrow> ok)"

definition keep_first :: "enat \<Rightarrow> 'a list \<Rightarrow> 'a list" where
  "keep_first keep xs = (case keep of enat k \<Rightarrow> take k xs | \<infinity> \<Rightarrow> xs)"

fun overlaps :: "nat \<Rightarrow> nat list \<Rightarrow> bool" where
  "overlaps len (p # q # ps) \<longleftrightarrow> q < p + len \<or> overlaps len (q # ps)"
| "overlaps len _ \<longleftrightarrow> False"

lemma overlaps_snoc:
  "overlaps len (ps @ [q]) \<longleftrightarrow> overlaps len ps \<or> (ps \<noteq> [] \<and> q < last ps + len)"
  by (induction len ps rule: overlaps.induct) auto

lemma keep_first_snoc:
  "keep_first keep (xs @ [x]) = (if enat (length xs) < keep then keep_first keep xs @ [x] else keep_first keep xs)"
  by (cases keep) (auto simp: keep_first_def)

lemma scan_visits:
  "needle \<noteq> [] \<Longrightarrow> scan haystack needle keep accept free budget =
     (let (s', all) = visit_all (take_at (length needle) keep (accepted accept) free) (occurrences haystack needle)
        \<lparr>tk_found = nothing_found, tk_previous = None, tk_budget = budget\<rparr>
      in ((tk_found s')\<lparr>fd_atLeast := \<not> all\<rparr>, tk_budget s'))"
  by (cases accept) (simp_all add: scan_def accepted_def everyOccurrence_visits index_loop_all)

definition taken :: "nat \<Rightarrow> enat \<Rightarrow> nat list \<Rightarrow> take_state \<Rightarrow> bool" where
  "taken len keep ps s \<longleftrightarrow>
     fd_starts (tk_found s) = keep_first keep ps \<and> fd_count (tk_found s) = length ps \<and>
     fd_overlapping (tk_found s) = overlaps len ps \<and>
     tk_previous s = (if ps = [] then None else Some (last ps))"

lemma take_at_taken:
  assumes "taken len keep ps s" "\<not> fd_spent (tk_found s)" "take_at len keep accept free p s = (s', go)"
  shows "taken len keep (ps @ (if accept p then [p] else [])) s'"
    and "go \<Longrightarrow> \<not> fd_spent (tk_found s')"
    and "\<not> go \<Longrightarrow> fd_overlapping (tk_found s') \<or> fd_spent (tk_found s')"
    and "fd_spent (tk_found s') \<Longrightarrow> free < enat (fd_count (tk_found s'))"
  using assms
  by (auto simp: take_at_def taken_def Let_def overlaps_snoc keep_first_snoc
      split: if_splits option.splits)

lemma visit_all_taken:
  assumes "taken len keep done_ps s" "\<not> fd_spent (tk_found s)"
    and "visit_all (take_at len keep accept free) ps s = (s', go)"
  shows "\<exists>read. taken len keep (done_ps @ filter accept read) s' \<and> prefix read ps \<and>
     (go \<longrightarrow> read = ps \<and> \<not> fd_spent (tk_found s')) \<and>
     (\<not> go \<longrightarrow> fd_overlapping (tk_found s') \<or> fd_spent (tk_found s')) \<and>
     (fd_spent (tk_found s') \<longrightarrow> free < enat (fd_count (tk_found s')))"
  using assms
proof (induction ps arbitrary: done_ps s)
  case Nil
  then show ?case by (intro exI [of _ "[]"]) auto
next
  case (Cons p ps)
  obtain t b where t: "take_at len keep accept free p s = (t, b)"
    by fastforce
  note step = take_at_taken [OF Cons.prems(1,2) t]
  show ?case
  proof (cases b)
    case True
    then have "visit_all (take_at len keep accept free) ps t = (s', go)"
      using Cons.prems(3) t by simp
    from Cons.IH [OF step(1) step(2) [OF True] this]
    obtain read where "taken len keep ((done_ps @ (if accept p then [p] else [])) @ filter accept read) s'"
      "prefix read ps" "go \<longrightarrow> read = ps \<and> \<not> fd_spent (tk_found s')"
      "\<not> go \<longrightarrow> fd_overlapping (tk_found s') \<or> fd_spent (tk_found s')"
      "fd_spent (tk_found s') \<longrightarrow> free < enat (fd_count (tk_found s'))"
      by blast
    then show ?thesis
      by (intro exI [of _ "p # read"]) (auto split: if_splits)
  next
    case False
    then have "s' = t" "\<not> go"
      using Cons.prems(3) t by auto
    then show ?thesis
      using step False by (intro exI [of _ "[p]"]) (auto split: if_splits)
  qed
qed

lemma scan_finds_what_it_accepts:
  assumes "needle \<noteq> []" and "scan haystack needle keep accept free budget = (f, budget')"
  shows "\<exists>read. prefix read (filter (accepted accept) (occurrences haystack needle)) \<and>
     fd_starts f = keep_first keep read \<and> fd_count f = length read \<and>
     fd_overlapping f = overlaps (length needle) read \<and>
     (\<not> fd_atLeast f \<longrightarrow> read = filter (accepted accept) (occurrences haystack needle)) \<and>
     (fd_atLeast f \<longrightarrow> fd_overlapping f \<or> fd_spent f) \<and>
     (fd_spent f \<longrightarrow> free < enat (fd_count f))"
proof -
  let ?s = "\<lparr>tk_found = nothing_found, tk_previous = None, tk_budget = budget\<rparr>"
  have s: "taken (length needle) keep [] ?s" "\<not> fd_spent (tk_found ?s)"
    by (auto simp: taken_def nothing_found_def keep_first_def split: enat.splits)
  obtain t go where t: "visit_all (take_at (length needle) keep (accepted accept) free) (occurrences haystack needle) ?s = (t, go)"
    by fastforce
  from visit_all_taken [OF s t] obtain read where
    "taken (length needle) keep (filter (accepted accept) read) t" "prefix read (occurrences haystack needle)"
    "go \<longrightarrow> read = occurrences haystack needle \<and> \<not> fd_spent (tk_found t)"
    "\<not> go \<longrightarrow> fd_overlapping (tk_found t) \<or> fd_spent (tk_found t)"
    "fd_spent (tk_found t) \<longrightarrow> free < enat (fd_count (tk_found t))"
    by auto
  moreover have "f = (tk_found t)\<lparr>fd_atLeast := \<not> go\<rparr>"
    using assms t by (simp add: scan_visits)
  ultimately show ?thesis
    by (intro exI [of _ "filter (accepted accept) read"])
      (auto simp: taken_def prefix_def)
qed

end
