(* ===== verification/Text_Lines.thy ===== *)
theory Text_Lines
  imports Text_Search Utf8
begin

section \<open>A stored file's text as lines\<close>

text \<open>
  Models \<open>src/modules/workspace/text.ts\<close>: the byte-order mark, the text of a file and its
  lines as \<open>read\<close> shows them, cuts that never split a surrogate pair, and numbered lines.
  \<open>utf8_lossy\<close> is \<open>Buffer.toString('utf-8')\<close>, which replaces each maximal ill-formed part by
  U+FFFD; on valid bytes it is the strict decoder.
\<close>

definition hasBom :: "byte list \<Rightarrow> bool" where
  "hasBom bytes \<longleftrightarrow> 3 \<le> length bytes \<and> bytes ! 0 = 0xEF \<and> bytes ! 1 = 0xBB \<and> bytes ! 2 = 0xBF"

definition second_ok :: "byte \<Rightarrow> byte \<Rightarrow> bool" where
  "second_ok a b \<longleftrightarrow>
     (if unat a = 0xE0 then 0xA0 else if unat a = 0xF0 then 0x90 else 0x80) \<le> unat b \<and>
     unat b \<le> (if unat a = 0xED then 0x9F else if unat a = 0xF4 then 0x8F else 0xBF)"

fun utf8_lossy :: "byte list \<Rightarrow> jsstring" where
  "utf8_lossy [] = []"
| "utf8_lossy (a # bs) =
     (if unat a < 0x80 then units_of (unat a) @ utf8_lossy bs
      else if 0xC2 \<le> unat a \<and> unat a \<le> 0xDF then
        (case bs of b # r \<Rightarrow>
           if continues b then units_of (point2 a b) @ utf8_lossy r else 0xFFFD # utf8_lossy bs
         | [] \<Rightarrow> [0xFFFD])
      else if 0xE0 \<le> unat a \<and> unat a \<le> 0xEF then
        (case bs of b # r \<Rightarrow>
           if second_ok a b then
             (case r of c # q \<Rightarrow>
                if continues c then units_of (point3 a b c) @ utf8_lossy q else 0xFFFD # utf8_lossy r
              | [] \<Rightarrow> [0xFFFD])
           else 0xFFFD # utf8_lossy bs
         | [] \<Rightarrow> [0xFFFD])
      else if 0xF0 \<le> unat a \<and> unat a \<le> 0xF4 then
        (case bs of b # r \<Rightarrow>
           if second_ok a b then
             (case r of c # q \<Rightarrow>
                if continues c then
                  (case q of d # t \<Rightarrow>
                     if continues d then units_of (point4 a b c d) @ utf8_lossy t else 0xFFFD # utf8_lossy q
                   | [] \<Rightarrow> [0xFFFD])
                else 0xFFFD # utf8_lossy r
              | [] \<Rightarrow> [0xFFFD])
           else 0xFFFD # utf8_lossy bs
         | [] \<Rightarrow> [0xFFFD])
      else 0xFFFD # utf8_lossy bs)"

record text_file =
  tf_raw :: jsstring
  tf_lines :: "jsstring list"
  tf_starts :: "nat list"
  tf_bom :: bool
  tf_crlfEnds :: nat
  tf_lfEnds :: nat
  tf_crKept :: nat
  tf_utf8 :: bool

function read_lines :: "nat \<Rightarrow> text_file \<Rightarrow> text_file" where
  "read_lines i t =
     (if i < length (tf_raw t) then
        (let t = t\<lparr>tf_starts := tf_starts t @ [i]\<rparr>
         in case index_of (tf_raw t) [LF] i of
              None \<Rightarrow> t\<lparr>tf_lines := tf_lines t @ [drop i (tf_raw t)]\<rparr>
            | Some lf \<Rightarrow>
                let crlf = (i < lf \<and> tf_raw t ! (lf - 1) = CR);
                    keepsCr = (crlf \<and> i < lf - 1 \<and> tf_raw t ! (lf - 2) = CR);
                    stop = (if crlf \<and> \<not> keepsCr then lf - 1 else lf)
                in read_lines (lf + 1)
                     (t\<lparr>tf_crlfEnds := tf_crlfEnds t + (if crlf then 1 else 0),
                        tf_lfEnds := tf_lfEnds t + (if crlf then 0 else 1),
                        tf_crKept := tf_crKept t + (if keepsCr then 1 else 0),
                        tf_lines := tf_lines t @ [take (stop - i) (drop i (tf_raw t))]\<rparr>))
      else t)"
  by pat_completeness auto
termination
  by (relation "measure (\<lambda>(i, t). length (tf_raw t) - i)")
     (auto dest!: index_of_SomeD(1))

declare read_lines.simps [simp del]

definition fileText :: "byte list \<Rightarrow> text_file" where
  "fileText bytes =
     read_lines (if hasBom bytes then 1 else 0)
       \<lparr>tf_raw = utf8_lossy bytes, tf_lines = [], tf_starts = [], tf_bom = hasBom bytes,
        tf_crlfEnds = 0, tf_lfEnds = 0, tf_crKept = 0, tf_utf8 = (utf8_decode bytes \<noteq> None)\<rparr>"

definition MAX_LINE_CHARS :: nat where "MAX_LINE_CHARS = 2000"

definition safeCut :: "jsstring \<Rightarrow> nat \<Rightarrow> nat" where
  "safeCut value i =
     (if i = 0 \<or> length value \<le> i then min i (length value)
      else if high_surrogate (value ! (i - 1)) then i - 1 else i)"

definition padStart :: "nat \<Rightarrow> jsstring \<Rightarrow> jsstring" where
  "padStart n s = replicate (n - length s) 0x20 @ s"

definition numberedLine :: "jsstring \<Rightarrow> nat \<Rightarrow> nat \<Rightarrow> (nat \<Rightarrow> jsstring) option \<Rightarrow> jsstring" where
  "numberedLine line n maxChars readOn =
     (let number = padStart 6 (decimal n)
      in if length line \<le> maxChars then number @ 0x09 # line
         else
           let cut = safeCut line maxChars
           in number @ 0x09 # take cut line @ [0x20, 0x5B, 0x2026, 0x20] @
              (case readOn of Some say \<Rightarrow> say cut
               | None \<Rightarrow> decimal (length line - cut) @ js '' more chars'') @ [0x5D])"

definition numbered :: "jsstring list \<Rightarrow> nat \<Rightarrow> nat \<Rightarrow> jsstring" where
  "numbered lines start maxChars =
     join_with LF (map (\<lambda>i. numberedLine (lines ! i) (start + i) maxChars None) [0..<length lines])"

subsection \<open>Decoding\<close>

lemma continues_iff: "continues b \<longleftrightarrow> 0x80 \<le> unat b \<and> unat b \<le> 0xBF"
  by (rule continues_def)

lemma continuation: "continues b \<Longrightarrow> \<exists>m < 0x40. unat b = 0x80 + m"
  by (rule exI [of _ "unat b - 0x80"]) (auto simp: continues_iff)

lemma second_ok3:
  assumes "continues b" "continues c" "0xE0 \<le> unat a" "unat a \<le> 0xEF"
    and "0x800 \<le> point3 a b c" "scalar (point3 a b c)"
  shows "second_ok a b"
proof -
  obtain m n where b: "unat b = 0x80 + m" "m < 0x40" and c: "unat c = 0x80 + n" "n < 0x40"
    using continuation [OF assms(1)] continuation [OF assms(2)] by auto
  have p: "point3 a b c = (unat a - 0xE0) * 0x1000 + m * 0x40 + n"
    by (simp add: point3_def b c)
  have "unat a = 0xE0 \<Longrightarrow> 0x20 \<le> m" using assms(5) c(2) unfolding p by simp
  moreover have "unat a = 0xED \<Longrightarrow> m \<le> 0x1F" using assms(6) b(2) c(2) unfolding p scalar_def by auto
  ultimately show ?thesis
    using b assms(4) by (auto simp: second_ok_def)
qed

lemma second_ok4:
  assumes "continues b" "continues c" "continues d" "0xF0 \<le> unat a" "unat a \<le> 0xF4"
    and "0x10000 \<le> point4 a b c d" "scalar (point4 a b c d)"
  shows "second_ok a b"
proof -
  obtain m n l where b: "unat b = 0x80 + m" "m < 0x40" and c: "unat c = 0x80 + n" "n < 0x40"
    and d: "unat d = 0x80 + l" "l < 0x40"
    using continuation [OF assms(1)] continuation [OF assms(2)] continuation [OF assms(3)] by auto
  have p: "point4 a b c d = (unat a - 0xF0) * 0x40000 + m * 0x1000 + n * 0x40 + l"
    unfolding point4_def b c d by simp
  have upper: "point4 a b c d \<le> 0x10FFFF"
    using assms(7) by (simp add: scalar_def)
  have "0x10 \<le> m" if "unat a = 0xF0"
  proof -
    have "0x10000 \<le> m * 0x1000 + n * 0x40 + l" using assms(6) that unfolding p by simp
    then show ?thesis using c(2) d(2) by linarith
  qed
  moreover have "m \<le> 0xF" if "unat a = 0xF4"
  proof -
    have "0x100000 + m * 0x1000 + n * 0x40 + l \<le> 0x10FFFF" using upper that unfolding p by simp
    then show ?thesis by linarith
  qed
  ultimately show ?thesis
    using b assms(4) by (simp add: second_ok_def)
qed

lemma decode_one:
  "utf8_decode (a # bs) = Some s \<Longrightarrow> unat a < 0x80 \<Longrightarrow>
     \<exists>s'. utf8_decode bs = Some s' \<and> s = units_of (unat a) @ s'"
  by (auto simp only: utf8_decode.simps(2) if_True map_option_eq_Some)

lemma decode_two:
  assumes "utf8_decode (a # bs) = Some s" "\<not> unat a < 0x80" "0xC2 \<le> unat a \<and> unat a \<le> 0xDF"
  shows "\<exists>b r s'. bs = b # r \<and> continues b \<and> utf8_decode r = Some s' \<and> s = units_of (point2 a b) @ s'"
  using assms(1) unfolding utf8_decode.simps(2) if_not_P [OF assms(2)] if_P [OF assms(3)]
  by (cases bs) (simp_all split: if_splits, blast)

lemma decode_three:
  assumes "utf8_decode (a # bs) = Some s" "\<not> unat a < 0x80" "\<not> (0xC2 \<le> unat a \<and> unat a \<le> 0xDF)"
    and "0xE0 \<le> unat a \<and> unat a \<le> 0xEF"
  shows "\<exists>b c r s'. bs = b # c # r \<and> continues b \<and> continues c \<and> 0x800 \<le> point3 a b c \<and>
     scalar (point3 a b c) \<and> utf8_decode r = Some s' \<and> s = units_of (point3 a b c) @ s'"
  using assms(1) unfolding utf8_decode.simps(2) if_not_P [OF assms(2)] if_not_P [OF assms(3)] if_P [OF assms(4)]
  by (simp split: list.splits if_splits, blast)

lemma decode_four:
  assumes "utf8_decode (a # bs) = Some s" "\<not> unat a < 0x80" "\<not> (0xC2 \<le> unat a \<and> unat a \<le> 0xDF)"
    and "\<not> (0xE0 \<le> unat a \<and> unat a \<le> 0xEF)"
  shows "0xF0 \<le> unat a \<and> unat a \<le> 0xF4 \<and> (\<exists>b c d r s'. bs = b # c # d # r \<and>
     continues b \<and> continues c \<and> continues d \<and> 0x10000 \<le> point4 a b c d \<and>
     scalar (point4 a b c d) \<and> utf8_decode r = Some s' \<and> s = units_of (point4 a b c d) @ s')"
proof (cases "0xF0 \<le> unat a \<and> unat a \<le> 0xF4")
  case True
  then show ?thesis
    using assms(1)
    unfolding utf8_decode.simps(2) if_not_P [OF assms(2)] if_not_P [OF assms(3)] if_not_P [OF assms(4)] if_P [OF True]
    by (simp split: list.splits if_splits, blast)
next
  case False
  then show ?thesis
    using assms(1)
    unfolding utf8_decode.simps(2) if_not_P [OF assms(2)] if_not_P [OF assms(3)] if_not_P [OF assms(4)] if_not_P [OF False]
    by simp
qed

lemma lossy_of_valid: "utf8_decode bs = Some s \<Longrightarrow> utf8_lossy bs = s"
proof (induction "length bs" arbitrary: bs s rule: less_induct)
  case less
  show ?case
  proof (cases bs)
    case (Cons a r)
    note d = less.prems [unfolded Cons]
    consider (one) "unat a < 0x80" | (two) "\<not> unat a < 0x80" "0xC2 \<le> unat a \<and> unat a \<le> 0xDF"
      | (three) "\<not> unat a < 0x80" "\<not> (0xC2 \<le> unat a \<and> unat a \<le> 0xDF)" "0xE0 \<le> unat a \<and> unat a \<le> 0xEF"
      | (four) "\<not> unat a < 0x80" "\<not> (0xC2 \<le> unat a \<and> unat a \<le> 0xDF)" "\<not> (0xE0 \<le> unat a \<and> unat a \<le> 0xEF)"
      by blast
    then show ?thesis
    proof cases
      case one
      then show ?thesis using decode_one [OF d one] less.hyps [of r] by (auto simp: Cons)
    next
      case two
      then show ?thesis using decode_two [OF d two] less.hyps by (auto simp: Cons)
    next
      case three
      then obtain b c q s' where q: "r = b # c # q" "continues b" "continues c" "0x800 \<le> point3 a b c"
        "scalar (point3 a b c)" "utf8_decode q = Some s'" "s = units_of (point3 a b c) @ s'"
        using decode_three [OF d three] by blast
      have "second_ok a b" using second_ok3 q three by blast
      then show ?thesis using q three less.hyps [of q s'] by (simp add: Cons)
    next
      case four
      then obtain b c e q s' where F: "0xF0 \<le> unat a" "unat a \<le> 0xF4" and q: "r = b # c # e # q" "continues b"
        "continues c" "continues e" "0x10000 \<le> point4 a b c e" "scalar (point4 a b c e)"
        "utf8_decode q = Some s'" "s = units_of (point4 a b c e) @ s'"
        using decode_four [OF d four] by blast
      have "second_ok a b" using second_ok4 q F by blast
      then show ?thesis using q four F less.hyps [of q s'] by (simp add: Cons)
    qed
  qed (use less.prems in simp)
qed

subsection \<open>Cuts\<close>

lemma well_formed_take:
  "well_formed s \<Longrightarrow> n = 0 \<or> length s \<le> n \<or> \<not> high_surrogate (s ! (n - 1)) \<Longrightarrow> well_formed (take n s)"
proof (induction s arbitrary: n rule: well_formed.induct)
  case (2 u)
  then show ?case by (cases n) auto
next
  case (3 u v vs)
  show ?case
  proof (cases "high_surrogate u \<and> low_surrogate v")
    case True
    consider "n = 0" | "n = 1" | m where "n = Suc (Suc m)"
      by (metis One_nat_def not0_implies_Suc)
    then show ?thesis
    proof cases
      case 3
      have "\<not> high_surrogate v" using True by (simp add: high_surrogate_iff low_surrogate_iff)
      have "m = 0 \<or> length vs \<le> m \<or> \<not> high_surrogate (vs ! (m - 1))"
        using "3.prems"(2) unfolding 3 by (cases m) auto
      then have "well_formed (take m vs)"
        using "3.IH"(1) True "3.prems"(1) by auto
      then show ?thesis using True by (simp add: 3)
    qed (use True "3.prems" in auto)
  next
    case False
    then have u: "\<not> high_surrogate u" "\<not> low_surrogate u" and vs: "well_formed (v # vs)"
      using "3.prems"(1) by (auto split: if_splits)
    show ?thesis
    proof (cases n)
      case (Suc m)
      have "m = 0 \<or> length (v # vs) \<le> m \<or> \<not> high_surrogate ((v # vs) ! (m - 1))"
        using "3.prems"(2) unfolding Suc by (cases m) auto
      then have "well_formed (take m (v # vs))"
        using "3.IH"(2) False vs by blast
      then show ?thesis using u by (cases m) (auto simp: Suc)
    qed simp
  qed
qed simp

lemma safeCut_le: "safeCut s i \<le> i" "safeCut s i \<le> length s"
  by (auto simp: safeCut_def)

lemma safeCut_near: "i \<le> length s \<Longrightarrow> i - 1 \<le> safeCut s i"
  by (auto simp: safeCut_def)

lemma cut_keeps_well_formed: "well_formed s \<Longrightarrow> well_formed (take (safeCut s i) s)"
proof (cases "0 < i \<and> i < length s \<and> high_surrogate (s ! (i - 1))")
  case True
  assume s: "well_formed s"
  have "\<not> high_surrogate (s ! (i - 1 - 1))" if "0 < i - 1"
  proof
    assume "high_surrogate (s ! (i - 1 - 1))"
    moreover have "well_formed s \<Longrightarrow> j + 1 < length s \<Longrightarrow> high_surrogate (s ! j) \<Longrightarrow> \<not> high_surrogate (s ! (j + 1))" for j
    proof (induction s arbitrary: j rule: well_formed.induct)
      case (3 u v vs)
      have sep: "\<not> (high_surrogate c \<and> low_surrogate c)" for c
        by (auto simp: high_surrogate_iff low_surrogate_iff)
      show ?case
      proof (cases "high_surrogate u \<and> low_surrogate v")
        case True
        consider "j = 0" | "j = 1" | m where "j = Suc (Suc m)"
          by (metis One_nat_def not0_implies_Suc)
        then show ?thesis
        proof cases
          case 3
          then show ?thesis using "3.IH"(1) [of m] "3.prems" True by auto
        qed (use True sep "3.prems" in auto)
      next
        case False
        then show ?thesis using "3.IH"(2) [of "j - 1"] "3.prems" by (cases j) auto
      qed
    qed auto
    ultimately show False using s True that [THEN Suc_pred'] by (metis Suc_eq_plus1 Suc_lessD Suc_pred' that True)
  qed
  then show ?thesis
    using True s by (auto simp: safeCut_def intro!: well_formed_take)
next
  case False
  assume "well_formed s"
  then show ?thesis
    using False by (auto simp: safeCut_def min_def intro!: well_formed_take)
qed

subsection \<open>Lines\<close>

text \<open>
  The reference: the text before each line feed, and the rest when there is any, with
  whether a line feed ended it. A line shows its text without the CR of its line end, unless
  its own text ends in a CR too.
\<close>

function lines_of :: "jsstring \<Rightarrow> (jsstring \<times> bool) list" where
  "lines_of s =
     (if s = [] then []
      else let l = takeWhile (\<lambda>c. c \<noteq> LF) s
           in if length l = length s then [(s, False)] else (l, True) # lines_of (drop (Suc (length l)) s))"
  by pat_completeness auto
termination
  by (relation "measure length") auto

declare lines_of.simps [simp del]

definition ends_cr :: "jsstring \<Rightarrow> bool" where
  "ends_cr l \<longleftrightarrow> l \<noteq> [] \<and> last l = CR"

definition keeps_cr :: "jsstring \<Rightarrow> bool" where
  "keeps_cr l \<longleftrightarrow> ends_cr l \<and> ends_cr (butlast l)"

fun shown_line :: "jsstring \<times> bool \<Rightarrow> jsstring" where
  "shown_line (l, ended) = (if ended \<and> ends_cr l \<and> \<not> keeps_cr l then butlast l else l)"

fun line_starts :: "nat \<Rightarrow> (jsstring \<times> bool) list \<Rightarrow> nat list" where
  "line_starts i [] = []"
| "line_starts i ((l, ended) # ls) = i # line_starts (i + Suc (length l)) ls"

lemma lines_of_Nil [simp]: "lines_of [] = []"
  by (simp add: lines_of.simps)

lemma lines_of_last: "s \<noteq> [] \<Longrightarrow> LF \<notin> set s \<Longrightarrow> lines_of s = [(s, False)]"
proof -
  assume s: "s \<noteq> []" "LF \<notin> set s"
  have "takeWhile (\<lambda>c. c \<noteq> LF) s = s" using s(2) by (auto simp: takeWhile_eq_all_conv)
  then show ?thesis using s(1) by (subst lines_of.simps) (simp only: Let_def if_False refl if_True)
qed

lemma lines_of_line: "LF \<notin> set l \<Longrightarrow> lines_of (l @ LF # s) = (l, True) # lines_of s"
proof -
  assume l: "LF \<notin> set l"
  have "takeWhile (\<lambda>c. c \<noteq> LF) (l @ LF # s) = l"
    using l by (subst takeWhile_append2) auto
  then show ?thesis by (subst lines_of.simps) (simp add: Let_def)
qed

lemma lines_of_spell: "concat (map (\<lambda>(l, ended). l @ (if ended then [LF] else [])) (lines_of s)) = s"
proof (induction "length s" arbitrary: s rule: less_induct)
  case less
  show ?case
  proof (cases "LF \<in> set s")
    case True
    then obtain l r where "s = l @ LF # r" "LF \<notin> set l"
      by (metis split_list_first)
    then show ?thesis using less [of r] by (simp add: lines_of_line)
  next
    case False
    then show ?thesis by (cases "s = []") (simp_all add: lines_of_last)
  qed
qed

lemma startsWith_unit: "startsWith (drop i h) [c] \<longleftrightarrow> i < length h \<and> h ! i = c"
proof (cases "i < length h")
  case True
  then have "drop i h = h ! i # drop (Suc i) h"
    by (rule Cons_nth_drop_Suc [symmetric])
  then show ?thesis using True by (simp add: startsWith_def)
qed (simp add: startsWith_def)

lemma index_of_unit_None: "index_of h [c] i = None \<Longrightarrow> c \<notin> set (drop i h)"
  by (auto simp: index_of_def find_None_iff startsWith_unit in_set_conv_nth)

lemma index_of_unit_Some:
  assumes "index_of h [c] i = Some j"
  shows "c \<notin> set (take (j - i) (drop i h))" "drop i h = take (j - i) (drop i h) @ c # drop (Suc j) h"
    "i \<le> j" "j < length h"
proof -
  note j = index_of_SomeD [OF assms, unfolded startsWith_unit]
  then show "i \<le> j" "j < length h" by auto
  then show "drop i h = take (j - i) (drop i h) @ c # drop (Suc j) h"
    using j by (metis Cons_nth_drop_Suc append_take_drop_id drop_drop le_add_diff_inverse2)
  show "c \<notin> set (take (j - i) (drop i h))"
    using index_of_first [OF assms] by (auto simp: in_set_conv_nth startsWith_unit)
qed

definition tally :: "(jsstring \<Rightarrow> bool) \<Rightarrow> (jsstring \<times> bool) list \<Rightarrow> nat" where
  "tally P ls = length (filter (\<lambda>(l, ended). ended \<and> P l) ls)"

lemma tally_simps [simp]:
  "tally P [] = 0"
  "tally P ((l, ended) # ls) = (if ended \<and> P l then 1 else 0) + tally P ls"
  by (auto simp: tally_def)

lemma line_marks:
  assumes "drop i raw = l @ LF # r" "i \<le> length raw"
  shows "i < i + length l \<and> raw ! (i + length l - 1) = CR \<longleftrightarrow> ends_cr l"
    and "ends_cr l \<and> i < i + length l - 1 \<and> raw ! (i + length l - 2) = CR \<longleftrightarrow> keeps_cr l"
proof -
  have at: "raw ! (i + k) = l ! k" if "k < length l" for k
    using that assms by (metis nth_append nth_drop)
  show "i < i + length l \<and> raw ! (i + length l - 1) = CR \<longleftrightarrow> ends_cr l"
    using at [of "length l - 1"] by (cases l rule: rev_cases) (auto simp: ends_cr_def)
  show "ends_cr l \<and> i < i + length l - 1 \<and> raw ! (i + length l - 2) = CR \<longleftrightarrow> keeps_cr l"
  proof (cases l rule: rev_cases)
    case (snoc l' c)
    then show ?thesis
      using at [of "length l - 2"]
      by (cases l' rule: rev_cases) (auto simp: ends_cr_def keeps_cr_def nth_append butlast_append)
  qed (simp add: ends_cr_def keeps_cr_def)
qed

lemma read_lines_exact:
  assumes "i \<le> length (tf_raw t)"
  shows "read_lines i t =
     (let ls = lines_of (drop i (tf_raw t)) in
      t\<lparr>tf_lines := tf_lines t @ map shown_line ls, tf_starts := tf_starts t @ line_starts i ls,
        tf_crlfEnds := tf_crlfEnds t + tally ends_cr ls,
        tf_lfEnds := tf_lfEnds t + tally (\<lambda>l. \<not> ends_cr l) ls,
        tf_crKept := tf_crKept t + tally keeps_cr ls\<rparr>)"
  using assms
proof (induction "length (tf_raw t) - i" arbitrary: i t rule: less_induct)
  case less
  show ?case
  proof (cases "i < length (tf_raw t)")
    case False
    then show ?thesis using less.prems by (subst read_lines.simps) simp
  next
    case True
    show ?thesis
    proof (cases "index_of (tf_raw t) [LF] i")
      case None
      then have "lines_of (drop i (tf_raw t)) = [(drop i (tf_raw t), False)]"
        using True by (intro lines_of_last index_of_unit_None) auto
      then show ?thesis using True None by (subst read_lines.simps) (simp add: Let_def)
    next
      case (Some lf)
      note at = index_of_unit_Some [OF Some]
      let ?l = "take (lf - i) (drop i (tf_raw t))"
      have len: "length ?l = lf - i" using at(3,4) by simp
      have lf: "lf = i + length ?l" using at(3) len by simp
      have ls: "lines_of (drop i (tf_raw t)) = (?l, True) # lines_of (drop (Suc lf) (tf_raw t))"
        by (subst at(2)) (rule lines_of_line [OF at(1)])
      note marks = line_marks [OF at(2) less.prems, folded lf]
      have short: "keeps_cr ?l \<Longrightarrow> ends_cr ?l" by (simp add: keeps_cr_def)
      have shown: "take ((if ends_cr ?l \<and> \<not> keeps_cr ?l then lf - 1 else lf) - i) (drop i (tf_raw t)) =
          shown_line (?l, True)"
        using len at(4) by (auto simp: butlast_take butlast_conv_take)
      let ?t = "t\<lparr>tf_starts := tf_starts t @ [i],
              tf_crlfEnds := tf_crlfEnds t + (if ends_cr ?l then 1 else 0),
              tf_lfEnds := tf_lfEnds t + (if ends_cr ?l then 0 else 1),
              tf_crKept := tf_crKept t + (if keeps_cr ?l then 1 else 0),
              tf_lines := tf_lines t @ [shown_line (?l, True)]\<rparr>"
      have sel: "tf_raw (t\<lparr>tf_starts := x\<rparr>) = tf_raw t" "tf_lines (t\<lparr>tf_starts := x\<rparr>) = tf_lines t"
        "tf_crlfEnds (t\<lparr>tf_starts := x\<rparr>) = tf_crlfEnds t" "tf_lfEnds (t\<lparr>tf_starts := x\<rparr>) = tf_lfEnds t"
        "tf_crKept (t\<lparr>tf_starts := x\<rparr>) = tf_crKept t" for x
        by simp_all
      have step: "read_lines i t = read_lines (Suc lf) ?t"
        by (subst read_lines.simps)
          (simp only: True if_True Some option.case Let_def sel marks shown Suc_eq_plus1)
      have raw: "tf_raw ?t = tf_raw t"
        by simp
      have "read_lines (Suc lf) ?t = (let ls = lines_of (drop (Suc lf) (tf_raw t)) in
        ?t\<lparr>tf_lines := tf_lines ?t @ map shown_line ls, tf_starts := tf_starts ?t @ line_starts (Suc lf) ls,
          tf_crlfEnds := tf_crlfEnds ?t + tally ends_cr ls,
          tf_lfEnds := tf_lfEnds ?t + tally (\<lambda>l. \<not> ends_cr l) ls,
          tf_crKept := tf_crKept ?t + tally keeps_cr ls\<rparr>)"
        by (rule less.hyps [of ?t "Suc lf", unfolded raw]) (use at(3,4) in simp_all)
      then show ?thesis
        unfolding step ls Let_def using len at(3) by (simp del: shown_line.simps)
    qed
  qed
qed

subsection \<open>Properties\<close>

lemma lossy_bom: "hasBom bytes \<Longrightarrow> utf8_lossy bytes = 0xFEFF # utf8_lossy (drop 3 bytes)"
proof -
  assume b: "hasBom bytes"
  obtain x y z r where bytes: "bytes = x # y # z # r"
    using b by (auto simp: hasBom_def numeral_3_eq_3 Suc_le_length_iff)
  have "x = 0xEF" "y = 0xBB" "z = 0xBF" using b by (auto simp: hasBom_def bytes)
  then show ?thesis
    by (simp add: bytes second_ok_def continues_def point3_def units_of_def)
qed

text \<open>
  What \<open>fileText\<close> finds in a file's bytes: its lines with their line ends spell the
  text after the byte-order mark; each line is shown without the CR of its line end unless its
  own text ends in a CR too; the starts are the lines' indices in the text; and the line ends
  are counted by kind.
\<close>

theorem fileText_exact:
  "let raw = utf8_lossy bytes; skip = (if hasBom bytes then 1 else 0); ls = lines_of (drop skip raw);
       t = fileText bytes
   in concat (map (\<lambda>(l, ended). l @ (if ended then [LF] else [])) ls) = drop skip raw \<and>
      tf_raw t = raw \<and> tf_lines t = map shown_line ls \<and> tf_starts t = line_starts skip ls \<and>
      tf_crlfEnds t = tally ends_cr ls \<and> tf_lfEnds t = tally (\<lambda>l. \<not> ends_cr l) ls \<and>
      tf_crKept t = tally keeps_cr ls"
proof -
  have "(if hasBom bytes then 1 else 0) \<le> length (utf8_lossy bytes)"
    using lossy_bom [of bytes] by auto
  then show ?thesis
    by (simp add: Let_def fileText_def read_lines_exact lines_of_spell del: shown_line.simps)
qed

text \<open>
  A cut at or just before an index never leaves half of a surrogate pair: of a
  well-formed text a well-formed text remains, at most one unit shorter than asked for.
\<close>

theorem cut_is_text:
  "well_formed line \<Longrightarrow>
     well_formed (take (safeCut line n) line) \<and> safeCut line n \<le> n \<and> min n (length line) \<le> Suc (safeCut line n)"
  using cut_keeps_well_formed [of line n] by (auto simp: safeCut_def)

theorem cut_is_text_witness:
  "well_formed [0x61, 0xD83D, 0xDE00] \<and> well_formed (take (safeCut [0x61, 0xD83D, 0xDE00] 2) [0x61, 0xD83D, 0xDE00])"
  using cut_is_text [of "[0x61, 0xD83D, 0xDE00]" 2] by (simp add: high_surrogate_def low_surrogate_def)

end
