(* ===== verification/Line_Ends.thy ===== *)
theory Line_Ends
  imports Text_Lines
begin

section \<open>A file's text as edits are matched in it\<close>

text \<open>
  Models the first part of \<open>src/modules/workspace/edit-plan.ts\<close>: the file decoded, every CRLF
  made LF with the places of the CRs kept (\<open>lineEnds\<close>), the line numbers of indices, the
  binary search \<open>countBelow\<close>, and the readings of quotes and line ends. The theorems relate
  the loops to the file as a list of units: a code unit of the matched text, with whether a CR
  goes before it in the file.
\<close>

record file_text =
  ft_raw :: jsstring
  ft_value :: jsstring
  ft_crs :: "nat list"
  ft_lfs :: nat
  ft_bom :: bool

abbreviation CRLF :: jsstring where "CRLF \<equiv> [CR, LF]"

text \<open>The counting loop over the line feeds of a text, written twice in the code.\<close>

definition lineFeeds :: "jsstring \<Rightarrow> nat" where
  "lineFeeds value = fst (index_loop (\<lambda>_ n. (Suc n, True)) value [LF] (index_of value [LF] 0) 0)"

function crlf_loop ::
  "jsstring \<Rightarrow> nat option \<Rightarrow> nat \<Rightarrow> nat \<Rightarrow> jsstring list \<Rightarrow> nat list \<Rightarrow> jsstring list \<times> nat list" where
  "crlf_loop raw None start len parts crs = (parts @ [drop start raw], crs)"
| "crlf_loop raw (Some i) start len parts crs =
     crlf_loop raw (index_of raw CRLF (i + 2)) (i + 1) (len + (i - start))
       (parts @ [take (i - start) (drop start raw)]) (crs @ [len + (i - start)])"
  by pat_completeness auto
termination
proof (relation "measure (\<lambda>(raw, i, _). case i of None \<Rightarrow> 0 | Some i \<Rightarrow> Suc (Suc (length raw) - i))")
  fix raw i start len :: nat and parts :: "jsstring list" and crs :: "nat list" and r :: jsstring
  show "((r, index_of r CRLF (i + 2), i + 1, len + (i - start), parts @ [take (i - start) (drop start r)],
          crs @ [len + (i - start)]), r, Some i, start, len, parts, crs)
      \<in> measure (\<lambda>(raw, i, _). case i of None \<Rightarrow> 0 | Some i \<Rightarrow> Suc (Suc (length raw) - i))"
    using index_of_SomeD(1,2) [of r CRLF "i + 2"]
    by (cases "index_of r CRLF (i + 2)") fastforce+
qed simp

definition lineEnds :: "jsstring \<Rightarrow> jsstring \<times> nat list \<times> nat" where
  "lineEnds raw =
     (if index_of raw CRLF 0 = None then (raw, [], lineFeeds raw)
      else
        let (parts, crs) = crlf_loop raw (index_of raw CRLF 0) 0 0 [] []
        in (concat parts, crs, lineFeeds raw))"

definition decodeForEdit :: "byte list \<Rightarrow> file_text option" where
  "decodeForEdit bytes =
     (let bom = hasBom bytes
      in case utf8_decode (if bom then drop 3 bytes else bytes) of
           None \<Rightarrow> None
         | Some raw \<Rightarrow>
             let (value, crs, lfs) = lineEnds raw
             in Some \<lparr>ft_raw = raw, ft_value = value, ft_crs = crs, ft_lfs = lfs, ft_bom = bom\<rparr>)"

definition normalizeQuotes :: "jsstring \<Rightarrow> jsstring" where
  "normalizeQuotes value =
     map (\<lambda>c. if c \<in> {0x2018, 0x2019, 0x201A, 0x201B} then 0x27
               else if c \<in> {0x201C, 0x201D, 0x201E, 0x201F} then 0x22 else c) value"

text \<open>The loop of \<open>lineNumbersAt\<close>: \<open>next\<close> is the next line feed not yet passed.\<close>

function pass_feeds :: "jsstring \<Rightarrow> nat \<Rightarrow> nat option \<Rightarrow> nat \<Rightarrow> nat option \<times> nat" where
  "pass_feeds value index None line = (None, line)"
| "pass_feeds value index (Some lf) line =
     (if lf < index then pass_feeds value index (index_of value [LF] (Suc lf)) (Suc line) else (Some lf, line))"
  by pat_completeness auto
termination
proof (relation "measure (\<lambda>(value, index, lf, line). case lf of None \<Rightarrow> 0 | Some i \<Rightarrow> Suc (Suc (length value) - i))")
  fix s :: jsstring and index lf line :: nat
  show "((s, index, index_of s [LF] (Suc lf), Suc line), s, index, Some lf, line)
      \<in> measure (\<lambda>(value, index, lf, line). case lf of None \<Rightarrow> 0 | Some i \<Rightarrow> Suc (Suc (length value) - i))"
    using index_of_SomeD(1,2) [of s "[LF]" "Suc lf"]
    by (cases "index_of s [LF] (Suc lf)") fastforce+
qed simp

fun number_lines :: "jsstring \<Rightarrow> nat list \<Rightarrow> nat option \<Rightarrow> nat \<Rightarrow> nat list" where
  "number_lines value [] lf line = []"
| "number_lines value (index # indices) lf line =
     (let (lf', line') = pass_feeds value index lf line in line' # number_lines value indices lf' line')"

definition lineNumbersAt :: "jsstring \<Rightarrow> nat list \<Rightarrow> nat list" where
  "lineNumbersAt value indices = number_lines value indices (index_of value [LF] 0) 1"

function count_below :: "nat list \<Rightarrow> nat \<Rightarrow> nat \<Rightarrow> nat \<Rightarrow> nat" where
  "count_below values x lo hi =
     (if lo < hi then
        (let mid = (lo + hi) div 2
         in if values ! mid < x then count_below values x (mid + 1) hi else count_below values x lo mid)
      else lo)"
  by pat_completeness auto
termination
  by (relation "measure (\<lambda>(values, x, lo, hi). hi - lo)") auto

declare count_below.simps [simp del]

definition countBelow :: "nat list \<Rightarrow> nat \<Rightarrow> nat" where
  "countBelow values x = count_below values x 0 (length values)"

text \<open>\<open>crAt\<close> of \<open>planFile\<close>: whether the line feed there follows a CR in the file.\<close>

definition crAt :: "nat list \<Rightarrow> nat \<Rightarrow> bool" where
  "crAt crs lf \<longleftrightarrow> (let i = countBelow crs lf in i < length crs \<and> crs ! i = lf)"

definition shownLine :: "jsstring \<Rightarrow> bool \<Rightarrow> jsstring" where
  "shownLine line beforeLf = (if beforeLf \<and> line \<noteq> [] \<and> last line = CR then line @ [CR] else line)"

subsection \<open>The loops over line feeds\<close>

lemma LF_occurrences:
  "filter (\<lambda>i. startsWith (drop i value) [LF]) [start..<Suc (length value)] =
     filter (\<lambda>i. value ! i = LF) [start..<length value]"
  by (cases "start \<le> length value") (auto simp: startsWith_unit intro: filter_cong)

lemma count_visits: "visit_all (\<lambda>_ n. (Suc n, True)) ps n = (n + length ps, True)"
  by (induction ps arbitrary: n) auto

lemma count_list_filter: "count_list (drop k s) c = length (filter (\<lambda>i. s ! i = c) [k..<length s])"
proof (induction "length s - k" arbitrary: k)
  case (Suc d)
  then have k: "k < length s" by simp
  then have "drop k s = s ! k # drop (Suc k) s" "[k..<length s] = k # [Suc k..<length s]"
    by (simp_all add: Cons_nth_drop_Suc upt_conv_Cons)
  then show ?case using Suc.hyps(1) [of "Suc k"] Suc.hyps(2) by simp
qed simp

lemma lineFeeds_count: "lineFeeds s = count_list s LF"
  using count_list_filter [of 0 s LF] LF_occurrences [of s 0]
  by (simp add: lineFeeds_def index_loop_from count_visits del: upt_Suc)

subsection \<open>Binary search\<close>

lemma sorted_filter_below:
  assumes "sorted values" "m \<le> length values" "\<forall>i < m. values ! i < x" "\<forall>i. m \<le> i \<and> i < length values \<longrightarrow> x \<le> values ! i"
  shows "length (filter (\<lambda>v. v < x) values) = m"
proof -
  have "filter (\<lambda>v. v < x) (take m values) = take m values"
    using assms(2,3) by (auto simp: filter_id_conv in_set_conv_nth)
  moreover have "filter (\<lambda>v. v < x) (drop m values) = []"
    using assms(2,4) by (auto simp: filter_empty_conv in_set_conv_nth not_less)
  ultimately have "filter (\<lambda>v. v < x) (take m values @ drop m values) = take m values"
    by (simp only: filter_append append_Nil2)
  then show ?thesis using assms(2) by simp
qed

lemma count_below_exact:
  assumes "sorted values" "lo \<le> hi" "hi \<le> length values"
    and "\<forall>i < lo. values ! i < x" "\<forall>i. hi \<le> i \<and> i < length values \<longrightarrow> x \<le> values ! i"
  shows "count_below values x lo hi = length (filter (\<lambda>v. v < x) values)"
  using assms(2-)
proof (induction "hi - lo" arbitrary: lo hi rule: less_induct)
  case less
  show ?case
  proof (cases "lo < hi")
    case True
    let ?mid = "(lo + hi) div 2"
    have mid: "lo \<le> ?mid" "?mid < hi" using True by auto
    show ?thesis
    proof (cases "values ! ?mid < x")
      case below: True
      have "\<forall>i < Suc ?mid. values ! i < x"
      proof (intro allI impI)
        fix i
        assume "i < Suc ?mid"
        then have "values ! i \<le> values ! ?mid"
          using sorted_nth_mono [OF assms(1), of i ?mid] mid less.prems(2) by simp
        then show "values ! i < x" using below by simp
      qed
      then show ?thesis
        using less.hyps [of hi "Suc ?mid"] mid less.prems below
        by (subst count_below.simps) simp
    next
      case False
      have "\<forall>i. ?mid \<le> i \<and> i < length values \<longrightarrow> x \<le> values ! i"
      proof (intro allI impI)
        fix i
        assume "?mid \<le> i \<and> i < length values"
        then have "values ! ?mid \<le> values ! i"
          using sorted_nth_mono [OF assms(1), of ?mid i] by simp
        then show "x \<le> values ! i" using False by simp
      qed
      then show ?thesis
        using less.hyps [of ?mid lo] mid less.prems False True
        by (subst count_below.simps) simp
    qed
  next
    case False
    then have "lo = hi" using less.prems(1) by simp
    then show ?thesis
      using sorted_filter_below [OF assms(1), of lo x] less.prems by (simp add: count_below.simps)
  qed
qed

lemma countBelow_exact: "sorted values \<Longrightarrow> countBelow values x = length (filter (\<lambda>v. v < x) values)"
  unfolding countBelow_def by (rule count_below_exact) auto

lemma filter_below_sorted:
  "sorted (vs :: nat list) \<Longrightarrow> filter (\<lambda>v. v < x) vs = take (length (filter (\<lambda>v. v < x) vs)) vs"
proof (induction vs)
  case (Cons a vs)
  show ?case
  proof (cases "a < x")
    case False
    then have "filter (\<lambda>v. v < x) vs = []"
      using Cons.prems by (auto simp: filter_empty_conv)
    then show ?thesis using False by simp
  qed (use Cons in auto)
qed simp

lemma crAt_exact:
  assumes "sorted crs" "distinct crs" shows "crAt crs lf \<longleftrightarrow> lf \<in> set crs"
proof -
  let ?n = "length (filter (\<lambda>v. v < lf) crs)"
  have n: "countBelow crs lf = ?n" using assms(1) by (rule countBelow_exact)
  have split: "crs = filter (\<lambda>v. v < lf) crs @ drop ?n crs"
    using filter_below_sorted [OF assms(1), of lf] by (metis append_take_drop_id)
  have rest: "filter (\<lambda>v. v < lf) (drop ?n crs) = []"
    using arg_cong [OF split, of "filter (\<lambda>v. v < lf)"] by simp
  show ?thesis
  proof (cases "drop ?n crs")
    case Nil
    then have "filter (\<lambda>v. v < lf) crs = crs" using split by simp
    then have "\<forall>v \<in> set crs. v < lf" by (simp add: filter_id_conv)
    then show ?thesis using Nil by (auto simp: crAt_def n)
  next
    case (Cons c cs)
    have sc: "sorted (c # cs)" using assms(1) sorted_wrt_drop Cons by metis
    have "\<not> c < lf" using rest Cons by (auto split: if_splits)
    moreover have "crs ! ?n = c" "?n < length crs"
      using Cons by (metis nth_via_drop, metis drop_eq_Nil linorder_not_le list.distinct(1))
    moreover have "lf \<in> set crs \<longleftrightarrow> lf \<in> set (c # cs)"
      by (subst split) (auto simp: Cons)
    ultimately show ?thesis using sc by (auto simp: crAt_def n Let_def)
  qed
qed

subsection \<open>Line numbers\<close>

definition line_at :: "jsstring \<Rightarrow> nat \<Rightarrow> nat" where
  "line_at s i = Suc (count_list (take i s) LF)"

lemma count_take_split: "i \<le> j \<Longrightarrow> count_list (take j s) c = count_list (take i s) c + count_list (take (j - i) (drop i s)) c"
  by (metis count_list_append le_add_diff_inverse take_add)

lemma no_feed_between:
  "index_of s [LF] i = Some lf \<Longrightarrow> i \<le> j \<Longrightarrow> j \<le> lf \<Longrightarrow> count_list (take j s) LF = count_list (take i s) LF"
proof -
  assume lf: "index_of s [LF] i = Some lf" and j: "i \<le> j" "j \<le> lf"
  have "LF \<notin> set (take (j - i) (drop i s))"
    using index_of_unit_Some(1) [OF lf] set_take_subset_set_take [OF diff_le_mono [OF j(2)], of i "drop i s"] by auto
  then show ?thesis using count_take_split [OF j(1), of s LF] by (simp add: count_notin)
qed

lemma no_feed_after: "index_of s [LF] i = None \<Longrightarrow> i \<le> j \<Longrightarrow> count_list (take j s) LF = count_list (take i s) LF"
proof -
  assume "index_of s [LF] i = None" and ij: "i \<le> j"
  then have "LF \<notin> set (take (j - i) (drop i s))"
    using index_of_unit_None [of s LF i] by (auto dest: in_set_takeD)
  then show ?thesis using count_take_split [OF ij, of s LF] by (simp add: count_notin)
qed

lemma feed_counts: "lf < length s \<Longrightarrow> s ! lf = LF \<Longrightarrow> count_list (take (Suc lf) s) LF = Suc (count_list (take lf s) LF)"
  by (simp add: take_Suc_conv_app_nth)

text \<open>The position the loop has reached: no line feed was missed before the one it keeps.\<close>

lemma pass_feeds_exact:
  assumes "lf = index_of s [LF] start" "line = Suc (count_list (take start s) LF)" "start \<le> index"
  shows "\<exists>start'. pass_feeds s index lf line = (index_of s [LF] start', line_at s index) \<and>
     start' \<le> index \<and> count_list (take start' s) LF = count_list (take index s) LF"
  using assms
proof (induction s index lf line arbitrary: start rule: pass_feeds.induct)
  case (1 s index line)
  then show ?case
    using no_feed_after [of s start index] by (intro exI [of _ start]) (simp add: line_at_def)
next
  case (2 s index lf line)
  note at = index_of_unit_Some [OF 2(2) [symmetric]]
  have lf: "s ! lf = LF" using index_of_SomeD(3) [OF 2(2) [symmetric]] by (simp add: startsWith_unit)
  have same: "count_list (take lf s) LF = count_list (take start s) LF"
    using no_feed_between [OF 2(2) [symmetric] at(3)] by simp
  show ?case
  proof (cases "lf < index")
    case True
    have "Suc line = Suc (count_list (take (Suc lf) s) LF)"
      using feed_counts [OF at(4) lf] same 2(3) by simp
    from 2(1) [OF True refl this] True show ?thesis by auto
  next
    case False
    then have "count_list (take index s) LF = count_list (take start s) LF"
      using no_feed_between [OF 2(2) [symmetric] 2(4)] by simp
    then show ?thesis
      using False 2(3,4) 2(2) [symmetric] by (intro exI [of _ start]) (simp add: line_at_def)
  qed
qed

lemma number_lines_exact:
  assumes "sorted indices" "lf = index_of s [LF] start" "line = Suc (count_list (take start s) LF)"
    and "\<forall>i \<in> set indices. start \<le> i"
  shows "number_lines s indices lf line = map (line_at s) indices"
  using assms
proof (induction indices arbitrary: start lf line)
  case (Cons i indices)
  obtain start' where p: "pass_feeds s i lf line = (index_of s [LF] start', line_at s i)"
    "start' \<le> i" "count_list (take start' s) LF = count_list (take i s) LF"
    using pass_feeds_exact [OF Cons.prems(2,3), of i] Cons.prems(4) by auto
  have "number_lines s indices (index_of s [LF] start') (line_at s i) = map (line_at s) indices"
    by (rule Cons.IH [where start = start']) (use Cons.prems(1) p in \<open>auto simp: line_at_def\<close>)
  then show ?case by (simp add: p(1))
qed simp

lemma lineNumbersAt_exact: "sorted indices \<Longrightarrow> lineNumbersAt s indices = map (line_at s) indices"
  unfolding lineNumbersAt_def by (rule number_lines_exact) auto

subsection \<open>The file as units\<close>

type_synonym text_unit = "code_unit \<times> bool"

fun units :: "jsstring \<Rightarrow> text_unit list" where
  "units (c # d # s) = (if c = CR \<and> d = LF then (LF, True) # units s else (c, False) # units (d # s))"
| "units [c] = [(c, False)]"
| "units [] = []"

definition spell_unit :: "text_unit \<Rightarrow> jsstring" where
  "spell_unit u = (if snd u then [CR, fst u] else [fst u])"

definition spell :: "text_unit list \<Rightarrow> jsstring" where
  "spell us = concat (map spell_unit us)"

definition cr_places :: "text_unit list \<Rightarrow> nat list" where
  "cr_places us = filter (\<lambda>i. snd (us ! i)) [0..<length us]"

lemma spell_simps [simp]:
  "spell [] = []"
  "spell (u # us) = spell_unit u @ spell us"
  "spell (us @ vs) = spell us @ spell vs"
  by (simp_all add: spell_def)

lemma spell_units [simp]: "spell (units s) = s"
  by (induction s rule: units.induct) (auto simp: spell_unit_def)

lemma cr_places_sorted [simp]: "sorted (cr_places us)" "distinct (cr_places us)"
  by (simp_all add: cr_places_def sorted_wrt_filter)

lemma set_cr_places: "i \<in> set (cr_places us) \<longleftrightarrow> i < length us \<and> snd (us ! i)"
  by (auto simp: cr_places_def)

lemma cr_places_append: "cr_places (us @ vs) = cr_places us @ map (\<lambda>p. p + length us) (cr_places vs)"
proof -
  let ?n = "length us" and ?P = "\<lambda>i. snd ((us @ vs) ! i)"
  have "[?n..<?n + length vs] = map (\<lambda>p. p + ?n) [0..<length vs]"
    using map_add_upt [of ?n "length vs"] by (simp add: add.commute)
  then have "filter ?P [?n..<?n + length vs] = map (\<lambda>p. p + ?n) (filter (\<lambda>p. ?P (p + ?n)) [0..<length vs])"
    by (simp only: filter_map o_def)
  moreover have "(\<lambda>p. ?P (p + ?n)) = (\<lambda>p. snd (vs ! p))"
    by (simp add: nth_append)
  moreover have "filter ?P [0..<?n] = cr_places us"
    unfolding cr_places_def by (rule filter_cong) (auto simp: nth_append)
  ultimately show ?thesis
    unfolding cr_places_def length_append upt_add_eq_append [OF le0, of ?n "length vs"] filter_append by simp
qed

lemma cr_places_plain: "\<forall>u \<in> set us. \<not> snd u \<Longrightarrow> cr_places us = []"
  by (auto simp: cr_places_def filter_empty_conv)

lemma no_CRLF_units:
  "\<forall>k. \<not> startsWith (drop k s) CRLF \<Longrightarrow> units s = map (\<lambda>c. (c, False)) s"
proof (induction s rule: units.induct)
  case (1 c d s)
  have "\<not> (c = CR \<and> d = LF)" using 1(3)[THEN spec, of 0] by (simp add: startsWith_def)
  moreover have "\<forall>k. \<not> startsWith (drop k (d # s)) CRLF"
  proof
    fix k
    show "\<not> startsWith (drop k (d # s)) CRLF" using 1(3)[THEN spec, of "Suc k"] by simp
  qed
  ultimately show ?case using 1(2) by auto
qed simp_all

lemma first_CRLF_units:
  "\<forall>k < length pre. \<not> startsWith (drop k (pre @ CR # LF # rest)) CRLF \<Longrightarrow>
     units (pre @ CR # LF # rest) = map (\<lambda>c. (c, False)) pre @ (LF, True) # units rest"
proof (induction pre)
  case (Cons c pre)
  have c: "\<not> startsWith (c # pre @ CR # LF # rest) CRLF"
    using Cons.prems [THEN spec, of 0] by simp
  have "\<forall>k < length pre. \<not> startsWith (drop k (pre @ CR # LF # rest)) CRLF"
  proof (intro allI impI)
    fix k
    assume "k < length pre"
    then show "\<not> startsWith (drop k (pre @ CR # LF # rest)) CRLF"
      using Cons.prems [THEN spec, of "Suc k"] by simp
  qed
  then have IH: "units (pre @ CR # LF # rest) = map (\<lambda>c. (c, False)) pre @ (LF, True) # units rest"
    by (rule Cons.IH)
  obtain d s where s: "pre @ CR # LF # rest = d # s"
    by (cases "pre @ CR # LF # rest") auto
  have "\<not> (c = CR \<and> d = LF)" using c unfolding s by (simp add: startsWith_def)
  then show ?case using IH unfolding append_Cons s by simp
qed simp

lemma CRLF_found:
  assumes Some: "index_of raw CRLF i0 = Some i"
  shows "i0 \<le> i" "i + 1 < length raw"
    and "drop i raw = CR # LF # drop (i + 2) raw"
    and "units (drop i0 raw) = map (\<lambda>c. (c, False)) (take (i - i0) (drop i0 raw)) @ (LF, True) # units (drop (i + 2) raw)"
proof -
  note at = index_of_SomeD [OF Some]
  show "i0 \<le> i" by (rule at(1))
  obtain rest where rest: "drop i raw = CR # LF # rest"
    using at(3) by (auto simp: startsWith_iff)
  have "drop 2 (drop i raw) = rest" by (simp add: rest)
  then have "rest = drop (i + 2) raw" by (simp add: add.commute)
  then show di: "drop i raw = CR # LF # drop (i + 2) raw" using rest by simp
  have "length (drop i raw) = Suc (Suc (length rest))" using rest by simp
  then show il: "i + 1 < length raw" by simp
  let ?pre = "take (i - i0) (drop i0 raw)"
  have "drop (i - i0) (drop i0 raw) = drop i raw" using at(1) by simp
  then have d0: "?pre @ CR # LF # drop (i + 2) raw = drop i0 raw"
    unfolding di [symmetric] by (metis append_take_drop_id)
  have "units (?pre @ CR # LF # drop (i + 2) raw) = map (\<lambda>c. (c, False)) ?pre @ (LF, True) # units (drop (i + 2) raw)"
  proof (rule first_CRLF_units, intro allI impI)
    fix k
    assume "k < length ?pre"
    then have k: "i0 \<le> i0 + k" "i0 + k < i" by auto
    have "drop k (?pre @ CR # LF # drop (i + 2) raw) = drop (i0 + k) raw"
      unfolding d0 by (simp add: add.commute)
    then show "\<not> startsWith (drop k (?pre @ CR # LF # drop (i + 2) raw)) CRLF"
      using index_of_first [OF Some k] by simp
  qed
  then show "units (drop i0 raw) = map (\<lambda>c. (c, False)) ?pre @ (LF, True) # units (drop (i + 2) raw)"
    unfolding d0 .
qed

lemma cr_places_found:
  "cr_places (map (\<lambda>c. (c, False)) pre @ (LF, True) # us) =
     length pre # map (\<lambda>p. p + Suc (length pre)) (cr_places us)"
proof -
  have "cr_places [(LF, True)] = [0]" by (simp add: cr_places_def)
  then show ?thesis
    using cr_places_append [of "map (\<lambda>c. (c, False)) pre" "(LF, True) # us"]
      cr_places_append [of "[(LF, True)]" us]
    by (simp add: cr_places_plain o_def)
qed

lemma crlf_loop_exact:
  assumes "start \<le> i0"
  shows "concat (fst (crlf_loop raw (index_of raw CRLF i0) start len parts crs)) =
       concat parts @ take (i0 - start) (drop start raw) @ map fst (units (drop i0 raw)) \<and>
     snd (crlf_loop raw (index_of raw CRLF i0) start len parts crs) =
       crs @ map (\<lambda>p. p + (len + (i0 - start))) (cr_places (units (drop i0 raw)))"
  using assms
proof (induction "length raw - i0" arbitrary: i0 start len parts crs rule: less_induct)
  case less
  show ?case
  proof (cases "index_of raw CRLF i0")
    case None
    have whole: "take (i0 - start) (drop start raw) @ drop i0 raw = drop start raw"
      using less.prems by (metis append_take_drop_id drop_drop le_add_diff_inverse2)
    have "\<forall>k. \<not> startsWith (drop k (drop i0 raw)) CRLF"
      using index_of_None [OF None] by simp
    then have "units (drop i0 raw) = map (\<lambda>c. (c, False)) (drop i0 raw)"
      by (rule no_CRLF_units)
    moreover from this have "cr_places (units (drop i0 raw)) = []"
      by (intro cr_places_plain) auto
    ultimately show ?thesis
      using whole None by (simp add: o_def)
  next
    case (Some i)
    note at = CRLF_found [OF Some]
    let ?pre = "take (i - i0) (drop i0 raw)"
    have pre_len: "length ?pre = i - i0" using at(1,2) by simp
    have places: "cr_places (units (drop i0 raw)) =
        (i - i0) # map (\<lambda>p. p + Suc (i - i0)) (cr_places (units (drop (i + 2) raw)))"
      unfolding at(4) cr_places_found pre_len ..
    have part: "take (i - start) (drop start raw) = take (i0 - start) (drop start raw) @ ?pre"
    proof -
      have "i - start = (i0 - start) + (i - i0)" using at(1) less.prems by simp
      then have "take (i - start) (drop start raw) =
          take (i0 - start) (drop start raw) @ take (i - i0) (drop (i0 - start) (drop start raw))"
        by (simp only: take_add)
      then show ?thesis using less.prems by simp
    qed
    have "drop (i + 1) raw = drop 1 (drop i raw)" by simp
    then have LF1: "take 1 (drop (i + 1) raw) = [LF]" unfolding at(3) by simp
    have values_eq: "map fst (units (drop i0 raw)) = ?pre @ LF # map fst (units (drop (i + 2) raw))"
      unfolding at(4) by (simp add: o_def)
    have IH: "concat (fst (crlf_loop raw (index_of raw CRLF (i + 2)) (i + 1) (len + (i - start)) (parts @ [take (i - start) (drop start raw)]) (crs @ [len + (i - start)]))) =
        concat (parts @ [take (i - start) (drop start raw)]) @ [LF] @ map fst (units (drop (i + 2) raw)) \<and>
      snd (crlf_loop raw (index_of raw CRLF (i + 2)) (i + 1) (len + (i - start)) (parts @ [take (i - start) (drop start raw)]) (crs @ [len + (i - start)])) =
        (crs @ [len + (i - start)]) @ map (\<lambda>p. p + (len + (i - start) + 1)) (cr_places (units (drop (i + 2) raw)))"
      using less.hyps [of "i + 2" "i + 1" "len + (i - start)" "parts @ [take (i - start) (drop start raw)]" "crs @ [len + (i - start)]"]
        at(1,2) LF1 by simp
    have shift: "len + (i - start) = i - i0 + (len + (i0 - start))"
      using at(1) less.prems by simp
    show ?thesis
      unfolding Some crlf_loop.simps using IH unfolding places values_eq part
      by (simp add: shift o_def add.assoc)
  qed
qed

lemma lineEnds_exact:
  "lineEnds raw = (map fst (units raw), cr_places (units raw), count_list raw LF)"
proof (cases "index_of raw CRLF 0")
  case None
  have "\<forall>k. \<not> startsWith (drop k raw) CRLF"
    using index_of_None [OF None] by simp
  then have "units raw = map (\<lambda>c. (c, False)) raw"
    by (rule no_CRLF_units)
  moreover from this have "cr_places (units raw) = []"
    by (intro cr_places_plain) auto
  ultimately show ?thesis
    using None by (simp add: lineEnds_def lineFeeds_count o_def)
next
  case (Some i)
  then show ?thesis
    using crlf_loop_exact [of 0 0 raw 0 "[]" "[]"]
    by (auto simp: lineEnds_def lineFeeds_count split: prod.split)
qed

text \<open>What every file the planner is handed satisfies: it was decoded with these line ends.\<close>

definition file_units :: "file_text \<Rightarrow> text_unit list" where
  "file_units file = units (ft_raw file)"

definition decoded :: "file_text \<Rightarrow> bool" where
  "decoded file \<longleftrightarrow> ft_value file = map fst (file_units file) \<and> ft_crs file = cr_places (file_units file) \<and>
     ft_lfs file = count_list (ft_raw file) LF"

lemma decoded_simps:
  assumes "decoded file"
  shows "ft_raw file = spell (file_units file)" "ft_value file = map fst (file_units file)"
    "ft_crs file = cr_places (file_units file)"
  using assms by (auto simp: decoded_def file_units_def)

lemma decodeForEdit_decoded: "decodeForEdit bytes = Some file \<Longrightarrow> decoded file"
  by (auto simp: decodeForEdit_def Let_def lineEnds_exact decoded_def file_units_def split: option.splits)

lemma crAt_places: "crAt (cr_places us) i \<longleftrightarrow> i < length us \<and> snd (us ! i)"
  by (simp add: crAt_exact set_cr_places)

lemma units_true_LF: "(c, True) \<in> set (units s) \<Longrightarrow> c = LF"
  by (induction s rule: units.induct) (auto split: if_splits)

subsection \<open>Properties\<close>

text \<open>
  C27: A file decoded for an edit loses nothing: the text edits are matched in, each
  of its line feeds the code recorded a CR at spelled with that CR, is the stored text, which
  the file's bytes after its byte-order mark encode; the recorded places are ascending indices
  of line feeds.
\<close>

theorem decoded_text_respells:
  assumes "decodeForEdit bytes = Some file"
  shows "utf8_decode (if hasBom bytes then drop 3 bytes else bytes) = Some (ft_raw file) \<and>
     ft_raw file = concat (map (\<lambda>i. (if crAt (ft_crs file) i then [CR] else []) @ [ft_value file ! i])
       [0..<length (ft_value file)]) \<and>
     sorted (ft_crs file) \<and> distinct (ft_crs file) \<and>
     list_all (\<lambda>i. i < length (ft_value file) \<and> ft_value file ! i = LF) (ft_crs file)"
proof -
  note d = decoded_simps [OF decodeForEdit_decoded [OF assms]]
  let ?us = "file_units file"
  have at: "(if crAt (cr_places ?us) i then [CR] else []) @ [map fst ?us ! i] = spell_unit (?us ! i)"
    if "i \<in> set [0..<length ?us]" for i
    using that by (simp add: crAt_places spell_unit_def)
  have "map (\<lambda>i. (if crAt (cr_places ?us) i then [CR] else []) @ [map fst ?us ! i]) [0..<length ?us] =
      map (\<lambda>i. spell_unit (?us ! i)) [0..<length ?us]"
    by (rule map_cong [OF refl at])
  also have "\<dots> = map spell_unit ?us"
    by (rule nth_equalityI) simp_all
  finally have "spell ?us = concat (map (\<lambda>i. (if crAt (cr_places ?us) i then [CR] else []) @ [map fst ?us ! i]) [0..<length ?us])"
    by (simp add: spell_def)
  then have "ft_raw file = concat (map (\<lambda>i. (if crAt (ft_crs file) i then [CR] else []) @ [ft_value file ! i])
       [0..<length (ft_value file)])"
    using d by simp
  moreover have "utf8_decode (if hasBom bytes then drop 3 bytes else bytes) = Some (ft_raw file)"
    using assms by (auto simp: decodeForEdit_def Let_def split: option.splits prod.splits)
  moreover have "list_all (\<lambda>i. i < length (ft_value file) \<and> ft_value file ! i = LF) (ft_crs file)"
    unfolding list_all_iff
  proof
    fix i
    assume "i \<in> set (ft_crs file)"
    then have i: "i < length ?us" "snd (?us ! i)"
      using d(3) by (auto simp: set_cr_places)
    have "(fst (?us ! i), True) \<in> set (units (ft_raw file))"
      using nth_mem [OF i(1)] i(2) by (metis file_units_def prod.collapse)
    then show "i < length (ft_value file) \<and> ft_value file ! i = LF"
      using i(1) d(2) by (auto dest: units_true_LF)
  qed
  ultimately show ?thesis using d by simp
qed

lemma decoded_sample:
  "decodeForEdit [0xEF, 0xBB, 0xBF, 0x61, 0x0D, 0x0A, 0x62] =
     Some \<lparr>ft_raw = [0x61, CR, LF, 0x62], ft_value = [0x61, LF, 0x62], ft_crs = [1], ft_lfs = 1, ft_bom = True\<rparr>"
  by (simp add: decodeForEdit_def hasBom_def lineEnds_exact units_of_def spell_unit_def cr_places_def)

theorem decoded_text_respells_witness:
  "utf8_decode (drop 3 [0xEF, 0xBB, 0xBF, 0x61, 0x0D, 0x0A, 0x62]) = Some [0x61, CR, LF, 0x62]"
  using decoded_text_respells [OF decoded_sample] by (simp add: hasBom_def)

end
