(* ===== verification/Edit_Match.thy ===== *)
theory Edit_Match
  imports Line_Ends Complex_Main
begin

section \<open>Where each edit's old text occurs\<close>

text \<open>
  Models the matching half of \<open>src/modules/workspace/edit-plan.ts\<close>: the readings of an old
  text that carries the file's byte-order mark or a line end's CR, the hint a miss gets, the
  lines a refusal shows, and what the loop of \<open>planFile\<close> decides for each edit. A refusal is
  a value of \<open>match_problem\<close>; the fixed wording of a hint is a constructor of \<open>hint\<close>.
  The similarity of a region is the exact rational the code's double stands for: two
  different similarities of texts of this size differ as doubles too.
\<close>

datatype expected = Every | Times nat

record edit_spec =
  es_index :: nat
  es_old :: jsstring
  es_new :: jsstring
  es_expected :: expected

datatype leaves = Leaves_Nothing | Leaves_Cr | Leaves_Bom | Leaves_Both

record reading =
  rd_spec :: edit_spec
  rd_accept :: "nat \<Rightarrow> bool"
  rd_leaves :: leaves

definition ends_with :: "jsstring \<Rightarrow> code_unit \<Rightarrow> bool" where
  "ends_with s c \<longleftrightarrow> s \<noteq> [] \<and> last s = c"

definition read_as :: "edit_spec \<Rightarrow> file_text \<Rightarrow> bool \<Rightarrow> bool \<Rightarrow> leaves \<Rightarrow> reading" where
  "read_as spec file bom cr leaves =
     (let old = (if bom then drop 1 else id) ((if cr then butlast else id) (es_old spec));
          new = (if bom \<and> startsWith (es_new spec) [BOM] then drop 1 (es_new spec) else es_new spec);
          new = (if cr \<and> ends_with new CR then butlast new else new)
      in \<lparr>rd_spec = spec\<lparr>es_old := old, es_new := new\<rparr>,
          rd_accept = (\<lambda>p. (\<not> bom \<or> p = 0) \<and> (\<not> cr \<or> crAt (ft_crs file) (p + length old))),
          rd_leaves = leaves\<rparr>)"

definition readingsOf :: "edit_spec \<Rightarrow> file_text \<Rightarrow> reading list" where
  "readingsOf spec file =
     (let leading = (ft_bom file \<and> startsWith (es_old spec) [BOM]);
          trailing = (ft_crs file \<noteq> [] \<and> ends_with (es_old spec) CR)
      in (if trailing then [read_as spec file False True Leaves_Cr] else []) @
         (if leading then [read_as spec file True False Leaves_Bom] else []) @
         (if leading \<and> trailing then [read_as spec file True True Leaves_Both] else []))"

subsection \<open>The closest region of a miss\<close>

definition HINT_MAX_CHARS :: nat where "HINT_MAX_CHARS = 2 * 1024 * 1024"

definition gram_at :: "jsstring \<Rightarrow> nat \<Rightarrow> jsstring" where
  "gram_at s i = take 2 (drop i s)"

definition grams :: "jsstring \<Rightarrow> (jsstring, nat) jsmap" where
  "grams s = fold (\<lambda>i counts. AList.update (gram_at s i)
     ((case map_of counts (gram_at s i) of None \<Rightarrow> 0 | Some n \<Rightarrow> n) + 1) counts) [0..<length s - 1] []"

text \<open>
  \<open>slot\<close> and \<open>most\<close> of \<open>closestRegion\<close>: the place of each of the probe's bigrams, and how
  many the probe has of each. \<open>met\<close> and \<open>touched\<close> are reset after each line.
\<close>

fun slot_of :: "(jsstring, nat) jsmap \<Rightarrow> jsstring \<Rightarrow> nat option" where
  "slot_of [] gram = None"
| "slot_of ((g, n) # rest) gram = (if g = gram then Some 0 else map_option Suc (slot_of rest gram))"

definition meet_gram ::
  "(jsstring, nat) jsmap \<Rightarrow> nat list \<Rightarrow> jsstring \<Rightarrow> nat \<Rightarrow> nat list \<times> nat list \<times> nat \<Rightarrow> nat list \<times> nat list \<times> nat"
where
  "meet_gram probe_grams most trimmed p = (\<lambda>(met, touched, shared).
     (case slot_of probe_grams (gram_at trimmed p) of
        None \<Rightarrow> (met, touched, shared)
      | Some k \<Rightarrow>
          (met[k := met ! k + 1],
           (if met ! k = 0 then touched @ [k] else touched),
           (if met ! k < most ! k then shared + 1 else shared))))"

definition score_line ::
  "(jsstring, nat) jsmap \<Rightarrow> nat list \<Rightarrow> nat \<Rightarrow> nat list \<Rightarrow> jsstring \<Rightarrow> nat list \<times> rat" where
  "score_line probe_grams most probeTotal met line =
     (let trimmed = js_trim line;
          (met, touched, shared) = fold (meet_gram probe_grams most trimmed) [0..<length trimmed - 1] (met, [], 0);
          met = fold (\<lambda>k met. met[k := 0]) touched met;
          total = probeTotal + (length trimmed - 1)
      in (met, if total = 0 then 0 else of_nat (2 * shared) / of_nat total))"

fun best_line ::
  "(jsstring, nat) jsmap \<Rightarrow> nat list \<Rightarrow> nat \<Rightarrow> jsstring list \<Rightarrow> nat \<Rightarrow> nat list \<Rightarrow> nat \<times> rat \<Rightarrow> nat \<times> rat" where
  "best_line probe_grams most probeTotal [] i met best = best"
| "best_line probe_grams most probeTotal (line # lines) i met best =
     (let (met, score) = score_line probe_grams most probeTotal met line
      in best_line probe_grams most probeTotal lines (i + 1) met (if snd best < score then (i, score) else best))"

definition region_lines :: "jsstring \<Rightarrow> jsstring list" where
  "region_lines s =
     (let lines = split_on LF s in if 1 < length lines \<and> last lines = [] then butlast lines else lines)"

definition probe_of :: "jsstring \<Rightarrow> jsstring" where
  "probe_of needle =
     (let first = (case find (\<lambda>l. 1 < length l) (map js_trim (split_on LF needle)) of
                     Some l \<Rightarrow> l | None \<Rightarrow> js_trim needle)
      in take (safeCut first MAX_LINE_CHARS) first)"

datatype hint =
    Text_Too_Long
  | Search_Spent
  | Nothing_Like_It
  | Closest (hint_line: nat) (hint_similarity: rat) (hint_shown: jsstring)

definition closestRegion :: "jsstring \<Rightarrow> jsstring \<Rightarrow> nat \<Rightarrow> hint \<times> nat" where
  "closestRegion text_value needle budget =
     (if HINT_MAX_CHARS < length text_value then (Text_Too_Long, budget)
      else if budget < length text_value then (Search_Spent, budget)
      else
        let probe = probe_of needle;
            probe_grams = grams probe;
            most = map snd probe_grams;
            lines = region_lines text_value;
            (best, score) = best_line probe_grams most (length probe - 1) lines 0 (replicate (length most) 0) (0, -1)
        in (if score \<le> 0 then Nothing_Like_It
            else
              let from_line = best - 3;
                  to_line = min (length lines) (best + 4);
                  shown = map (\<lambda>k. shownLine (lines ! k) (k < length lines - 1 \<or> ends_with text_value LF)) [from_line..<to_line]
              in Closest (best + 1) score (numbered shown (from_line + 1) MAX_LINE_CHARS),
            budget - length text_value))"

subsection \<open>What a refusal shows\<close>

definition EXCERPT_CHARS :: nat where "EXCERPT_CHARS = 240"

definition line_start :: "jsstring \<Rightarrow> nat \<Rightarrow> nat" where
  "line_start s start = (case find (\<lambda>i. s ! i = LF) (rev [0..<start]) of None \<Rightarrow> 0 | Some i \<Rightarrow> i + 1)"

definition matched_line :: "jsstring \<Rightarrow> nat \<Rightarrow> nat \<Rightarrow> jsstring" where
  "matched_line s start line =
     (let lineFrom = line_start s start;
          newline = index_of s [LF] start;
          lineTo = (case newline of None \<Rightarrow> length s | Some lf \<Rightarrow> lf);
          (first, stop) =
            (if EXCERPT_CHARS < lineTo - lineFrom then
               let first = max lineFrom (start - EXCERPT_CHARS div 3);
                   stop = min lineTo (first + EXCERPT_CHARS);
                   first = max lineFrom (stop - EXCERPT_CHARS)
               in (safeCut s first, safeCut s stop)
             else (lineFrom, lineTo))
      in padStart 6 (decimal line) @ 0x09 # (if lineFrom < first then [0x2026] else []) @
         shownLine (take (stop - first) (drop first s)) (stop = lineTo \<and> newline \<noteq> None) @
         (if stop < lineTo then [0x2026] else []))"

fun matched_parts :: "jsstring \<Rightarrow> (nat \<times> nat) list \<Rightarrow> nat \<Rightarrow> jsstring list" where
  "matched_parts s [] last_line = []"
| "matched_parts s ((start, line) # rest) last_line =
     (if line = last_line then matched_parts s rest last_line
      else matched_line s start line # matched_parts s rest line)"

definition matchedLines :: "jsstring \<Rightarrow> nat list \<Rightarrow> nat list \<Rightarrow> jsstring" where
  "matchedLines s starts lines = join_with LF (matched_parts s (zip starts lines) 0)"

record reading_found =
  rf_leaves :: leaves
  rf_same :: bool
  rf_found :: nat
  rf_atLeast :: bool
  rf_lines :: "nat list"

datatype match_problem =
    Miss (mp_edit: nat) (mp_hint: hint) (mp_crlf: bool)
  | Counted (mp_edit: nat) (mp_expected: expected) (mp_found: found) (mp_lines: "nat list")
      (mp_shown: jsstring) (mp_quotes: bool)
  | Clash (mp_first: nat) (mp_second: nat) (mp_line: nat) (mp_same: bool)
  | Crowded (mp_edits: "nat list") (mp_asked: nat) (mp_length: nat)
  | Same (mp_edit: nat)
  | Readings (mp_edit: nat) (mp_bom: bool) (mp_cr: bool) (mp_readings: "reading_found list")

subsection \<open>One edit\<close>

definition keep_of :: "bool \<Rightarrow> edit_spec \<Rightarrow> enat" where
  "keep_of crowded spec =
     (if crowded then enat SHOWN_MATCHES
      else case es_expected spec of Every \<Rightarrow> \<infinity> | Times n \<Rightarrow> enat (max n SHOWN_MATCHES))"

definition free_of :: "bool \<Rightarrow> edit_spec \<Rightarrow> enat" where
  "free_of crowded spec =
     (case es_expected spec of
        Every \<Rightarrow> \<infinity>
      | Times n \<Rightarrow> if crowded then enat SHOWN_MATCHES else enat (max n SHOWN_MATCHES + 1))"

definition scan_within ::
  "jsstring \<Rightarrow> jsstring \<Rightarrow> enat \<Rightarrow> (nat \<Rightarrow> bool) option \<Rightarrow> enat \<Rightarrow> count_budget \<Rightarrow> found \<times> count_budget" where
  "scan_within haystack needle keep accept free counts =
     (case scan haystack needle keep accept free (Some counts) of
        (f, Some left) \<Rightarrow> (f, left) | (f, None) \<Rightarrow> (f, counts))"

definition emptyAt :: "file_text \<Rightarrow> leaves \<Rightarrow> nat list" where
  "emptyAt file leaves =
     (if leaves = Leaves_Cr then ft_crs file
      else if ft_bom file \<and> (leaves = Leaves_Bom \<or> crAt (ft_crs file) 0) then [0] else [])"

definition find_reading ::
  "file_text \<Rightarrow> bool \<Rightarrow> edit_spec \<Rightarrow> bool \<Rightarrow> reading \<Rightarrow> count_budget \<Rightarrow> found \<times> count_budget" where
  "find_reading file crowded spec as_given r counts =
     (let old = es_old (rd_spec r) in
      if old \<noteq> [] then
        (if as_given
         then (fst (scan (ft_value file) old (enat SHOWN_MATCHES) (Some (rd_accept r)) (enat SHOWN_MATCHES) None), counts)
         else scan_within (ft_value file) old (keep_of crowded spec) (Some (rd_accept r)) (free_of crowded spec) counts)
      else
        let places = emptyAt file (rd_leaves r)
        in (nothing_found\<lparr>fd_starts := take SHOWN_MATCHES places, fd_count := length places\<rparr>, counts))"

fun find_readings ::
  "file_text \<Rightarrow> bool \<Rightarrow> edit_spec \<Rightarrow> bool \<Rightarrow> reading list \<Rightarrow> count_budget \<Rightarrow> (reading \<times> found) list \<times> count_budget" where
  "find_readings file crowded spec as_given [] counts = ([], counts)"
| "find_readings file crowded spec as_given (r # rs) counts =
     (let (f, counts) = find_reading file crowded spec as_given r counts;
          (rest, counts) = find_readings file crowded spec as_given rs counts
      in ((if 0 < fd_count f then [(r, f)] else []) @ rest, counts))"

definition same_reading :: "reading \<times> found \<Rightarrow> bool" where
  "same_reading rf \<longleftrightarrow> es_old (rd_spec (fst rf)) = es_new (rd_spec (fst rf))"

definition shows_text :: "reading \<times> found \<Rightarrow> bool" where
  "shows_text rf \<longleftrightarrow> es_old (rd_spec (fst rf)) \<noteq> []"

definition where_found :: "file_text \<Rightarrow> leaves \<Rightarrow> bool \<Rightarrow> found \<Rightarrow> reading_found" where
  "where_found file leaves same f =
     \<lparr>rf_leaves = leaves, rf_same = same, rf_found = fd_count f, rf_atLeast = fd_atLeast f,
      rf_lines = lineNumbersAt (ft_value file) (take SHOWN_MATCHES (fd_starts f))\<rparr>"

text \<open>
  Which reading of its old text an edit means: refused as ambiguous or as changing nothing,
  or the edit as read with what was found, and whether another reading than as given was
  taken.
\<close>

datatype choice = Refused match_problem | Chosen edit_spec found bool

definition choose_reading ::
  "file_text \<Rightarrow> bool \<Rightarrow> edit_spec \<Rightarrow> count_budget \<Rightarrow> choice \<times> count_budget" where
  "choose_reading file crowded spec counts =
     (let (f, counts) = scan_within (ft_value file) (es_old spec) (keep_of crowded spec) None (free_of crowded spec) counts;
          all = (es_expected spec = Every);
          given = (if 0 < fd_count f then 1 else 0);
          (allReads, counts) = find_readings file crowded spec (0 < fd_count f)
             (filter (\<lambda>r. es_old (rd_spec r) \<noteq> [] \<or> \<not> all) (readingsOf spec file)) counts;
          counted = (if all then filter (\<lambda>r. \<not> same_reading r) allReads else allReads);
          others = given + length (filter shows_text counted);
          reads = filter (\<lambda>r. shows_text r \<or> 0 < others) counted
      in (if 1 < length reads + given then
            Refused (Readings (es_index spec) (ft_bom file \<and> startsWith (es_old spec) [BOM])
              (ft_crs file \<noteq> [] \<and> ends_with (es_old spec) CR)
              ((if 0 < fd_count f then [where_found file Leaves_Nothing False f] else []) @
               map (\<lambda>(r, g). where_found file (rd_leaves r) (same_reading (r, g)) g) reads))
          else
            case reads of
              [(r, g)] \<Rightarrow>
                if fd_count f = 0 \<and> \<not> same_reading (r, g) then Chosen (rd_spec r) g True
                else if fd_count f = 0 \<and> list_ex (\<lambda>q. shows_text q \<and> same_reading q) allReads
                then Refused (Same (es_index spec))
                else Chosen spec f False
            | _ \<Rightarrow>
                if fd_count f = 0 \<and> list_ex (\<lambda>q. shows_text q \<and> same_reading q) allReads
                then Refused (Same (es_index spec))
                else Chosen spec f False,
          counts))"

record plan_state =
  pl_problems :: "match_problem list"
  pl_applied :: "(edit_spec \<times> nat list \<times> nat) list"
  pl_quoted :: "nat list"
  pl_readForms :: "nat list"
  pl_uncounted :: "(edit_spec \<times> match_problem) list"
  pl_counts :: count_budget
  pl_hints :: nat

definition counted_problem :: "file_text \<Rightarrow> edit_spec \<Rightarrow> found \<Rightarrow> bool \<Rightarrow> match_problem" where
  "counted_problem file spec f normalized =
     (let first = take SHOWN_MATCHES (fd_starts f);
          lines = lineNumbersAt (ft_value file) first
      in Counted (es_index spec) (es_expected spec) f lines (matchedLines (ft_value file) first lines) normalized)"

definition match_edit :: "file_text \<Rightarrow> bool \<Rightarrow> edit_spec \<Rightarrow> plan_state \<Rightarrow> plan_state" where
  "match_edit file crowded spec s =
     (case choose_reading file crowded spec (pl_counts s) of
        (Refused problem, counts) \<Rightarrow> s\<lparr>pl_problems := pl_problems s @ [problem], pl_counts := counts\<rparr>
      | (Chosen matched f0 form, counts0) \<Rightarrow>
          let s = s\<lparr>pl_readForms := pl_readForms s @ (if form then [es_index spec] else [])\<rparr>;
              (f, counts) =
                (if fd_count f0 = 0
                 then scan_within (normalizeQuotes (ft_value file)) (normalizeQuotes (es_old spec))
                        (keep_of crowded spec) None (free_of crowded spec) counts0
                 else (f0, counts0));
              normalized = (fd_count f0 = 0 \<and> 0 < fd_count f);
              s = s\<lparr>pl_counts := counts\<rparr>
          in if fd_count f = 0 then
               let (hint, hints) = closestRegion (ft_value file) (es_old spec) (pl_hints s)
               in s\<lparr>pl_problems := pl_problems s @ [Miss (es_index spec) hint (ft_crs file \<noteq> [])], pl_hints := hints\<rparr>
             else if fd_overlapping f \<or>
               (case es_expected spec of Every \<Rightarrow> False | Times n \<Rightarrow> fd_count f \<noteq> n \<or> fd_spent f) then
               let problem = counted_problem file spec f normalized
               in if crowded \<and> fd_spent f \<and> \<not> fd_overlapping f \<and>
                    (case es_expected spec of Every \<Rightarrow> False | Times n \<Rightarrow> fd_count f \<le> n)
                  then s\<lparr>pl_uncounted := pl_uncounted s @ [(spec, problem)]\<rparr>
                  else s\<lparr>pl_problems := pl_problems s @ [problem]\<rparr>
             else s\<lparr>pl_quoted := pl_quoted s @ (if normalized then [es_index spec] else []),
                    pl_applied := pl_applied s @ [(matched, fd_starts f, fd_count f)]\<rparr>)"

end
