(* ===== verification/Edit_Match_Proofs.thy ===== *)
theory Edit_Match_Proofs
  imports Edit_Match
begin

section \<open>Correctness of the matching\<close>

text \<open>
  An edit applies exactly at the occurrences its count asks for; the hint of a miss names
  the first line most like the probe by the Dice coefficient of their bigrams.
\<close>

subsection \<open>What a scan that was not stopped found\<close>

definition stopped :: "found \<Rightarrow> bool" where
  "stopped f \<longleftrightarrow> fd_overlapping f \<or> fd_spent f"

lemma scan_unstopped:
  assumes "needle \<noteq> []" "scan haystack needle keep accept free budget = (f, budget')" "\<not> stopped f"
  shows "fd_starts f = keep_first keep (filter (accepted accept) (occurrences haystack needle))"
    and "fd_count f = length (filter (accepted accept) (occurrences haystack needle))"
    and "\<not> overlaps (length needle) (filter (accepted accept) (occurrences haystack needle))"
  using scan_finds_what_it_accepts [OF assms(1,2)] assms(3) by (auto simp: stopped_def)

lemma scan_none:
  assumes "needle \<noteq> []" "scan haystack needle keep accept free budget = (f, budget')" "fd_count f = 0"
  shows "filter (accepted accept) (occurrences haystack needle) = []" "\<not> stopped f"
  using scan_finds_what_it_accepts [OF assms(1,2)] assms(3) by (auto simp: stopped_def enat_0)

lemma scan_within_scan:
  "scan_within haystack needle keep accept free counts = (f, counts') \<Longrightarrow>
     \<exists>b. scan haystack needle keep accept free (Some counts) = (f, b)"
  by (auto simp: scan_within_def split: prod.splits option.splits)

lemma scan_never_spent:
  assumes "needle \<noteq> []" "scan haystack needle keep accept \<infinity> budget = (f, budget')"
  shows "\<not> fd_spent f"
  using scan_finds_what_it_accepts [OF assms] by auto

text \<open>What the final count check lets through, outside a crowded call.\<close>

definition count_passes :: "edit_spec \<Rightarrow> found \<Rightarrow> bool" where
  "count_passes spec f \<longleftrightarrow> 0 < fd_count f \<and> \<not> fd_overlapping f \<and>
     (case es_expected spec of Every \<Rightarrow> True | Times n \<Rightarrow> fd_count f = n \<and> \<not> fd_spent f)"

lemma passed_scan:
  assumes "needle \<noteq> []" "count_passes spec f"
    and "scan haystack needle (keep_of False spec) accept (free_of False spec) budget = (f, budget')"
  defines "all \<equiv> filter (accepted accept) (occurrences haystack needle)"
  shows "fd_starts f = all" "fd_count f = length all" "all \<noteq> []" "\<not> overlaps (length needle) all"
    and "case es_expected spec of Every \<Rightarrow> True | Times n \<Rightarrow> length all = n"
proof -
  have spent: "\<not> fd_spent f"
    using assms(2) scan_never_spent [OF assms(1)] assms(3)
    by (cases "es_expected spec") (auto simp: count_passes_def free_of_def)
  then have ns: "\<not> stopped f"
    using assms(2) by (simp add: stopped_def count_passes_def)
  note r = scan_unstopped [OF assms(1,3) ns, folded all_def]
  show "fd_count f = length all" "\<not> overlaps (length needle) all" using r by auto
  show ne: "all \<noteq> []" using assms(2) r(2) by (auto simp: count_passes_def)
  show "case es_expected spec of Every \<Rightarrow> True | Times n \<Rightarrow> length all = n"
    using assms(2) r(2) by (auto simp: count_passes_def split: expected.splits)
  then show "fd_starts f = all"
    using r(1) by (cases "es_expected spec") (auto simp: keep_of_def keep_first_def)
qed

subsection \<open>One edit\<close>

lemma find_readings_scans:
  assumes "find_readings file crowded spec as_given rs counts = (found_rs, counts')" "(r, f) \<in> set found_rs"
  shows "r \<in> set rs \<and> 0 < fd_count f \<and> (\<exists>c c'. find_reading file crowded spec as_given r c = (f, c'))"
  using assms
proof (induction rs arbitrary: counts found_rs counts')
  case (Cons q rs)
  obtain g c rest c' where "find_reading file crowded spec as_given q counts = (g, c)"
    "find_readings file crowded spec as_given rs c = (rest, c')"
    by (metis surj_pair)
  moreover from this have "(r, f) \<in> set rest \<or> (r = q \<and> f = g \<and> 0 < fd_count g)"
    using Cons.prems by (auto split: if_splits)
  ultimately show ?case using Cons.IH by fastforce
qed simp

lemma choose_reading_chosen:
  assumes "choose_reading file crowded spec counts = (Chosen m f form, counts')" "es_old spec \<noteq> []"
  obtains (given) c where "m = spec" "\<not> form"
      "scan_within (ft_value file) (es_old spec) (keep_of crowded spec) None (free_of crowded spec) counts = (f, c)"
    | (reading) r c c' where "form" "r \<in> set (readingsOf spec file)" "m = rd_spec r" "es_old m \<noteq> []" "es_old m \<noteq> es_new m"
      "occurrences (ft_value file) (es_old spec) = []" "0 < fd_count f"
      "scan_within (ft_value file) (es_old m) (keep_of crowded spec) (Some (rd_accept r)) (free_of crowded spec) c = (f, c')"
proof -
  obtain f0 c0 where s: "scan_within (ft_value file) (es_old spec) (keep_of crowded spec) None (free_of crowded spec) counts = (f0, c0)"
    by fastforce
  let ?rs = "filter (\<lambda>r. es_old (rd_spec r) \<noteq> [] \<or> \<not> es_expected spec = Every) (readingsOf spec file)"
  obtain allReads c1 where r: "find_readings file crowded spec (0 < fd_count f0) ?rs c0 = (allReads, c1)"
    by fastforce
  define counted where "counted = (if es_expected spec = Every then filter (\<lambda>r. \<not> same_reading r) allReads else allReads)"
  define others where "others = (if 0 < fd_count f0 then 1 else 0) + length (filter shows_text counted)"
  define reads where "reads = filter (\<lambda>r. shows_text r \<or> 0 < others) counted"
  have ch: "Chosen m f form = (if 1 < length reads + (if 0 < fd_count f0 then 1 else 0) then
            Refused (Readings (es_index spec) (ft_bom file \<and> startsWith (es_old spec) [BOM])
              (ft_crs file \<noteq> [] \<and> ends_with (es_old spec) CR)
              ((if 0 < fd_count f0 then [where_found file Leaves_Nothing False f0] else []) @
               map (\<lambda>(r, g). where_found file (rd_leaves r) (same_reading (r, g)) g) reads))
          else
            case reads of
              [(r, g)] \<Rightarrow>
                if fd_count f0 = 0 \<and> \<not> same_reading (r, g) then Chosen (rd_spec r) g True
                else if fd_count f0 = 0 \<and> list_ex (\<lambda>q. shows_text q \<and> same_reading q) allReads
                then Refused (Same (es_index spec))
                else Chosen spec f0 False
            | _ \<Rightarrow>
                if fd_count f0 = 0 \<and> list_ex (\<lambda>q. shows_text q \<and> same_reading q) allReads
                then Refused (Same (es_index spec))
                else Chosen spec f0 False)"
    using assms(1) s r unfolding choose_reading_def reads_def others_def counted_def
    by (auto simp: Let_def)
  consider (a) "Chosen m f form = Chosen spec f0 False"
    | (b) r g where "reads = [(r, g)]" "fd_count f0 = 0" "\<not> same_reading (r, g)" "Chosen m f form = Chosen (rd_spec r) g True"
    using ch by (auto split: if_splits list.splits prod.splits)
  then show thesis
  proof cases
    case a
    then show thesis using given s by auto
  next
    case (b q g)
    have mem: "(q, g) \<in> set allReads"
    proof -
      have "(q, g) \<in> set reads" by (simp add: b(1))
      then show ?thesis by (auto simp: reads_def counted_def split: if_splits)
    qed
    have nonempty: "shows_text (q, g)"
    proof (rule ccontr)
      assume n: "\<not> shows_text (q, g)"
      then have "0 < others" using b(1) by (auto simp: reads_def filter_eq_Cons_iff)
      then have "filter shows_text counted \<noteq> []" using b(2) by (simp add: others_def)
      then obtain x where "x \<in> set counted" "shows_text x" by (auto simp: filter_empty_conv)
      then have "x \<in> set reads" by (simp add: reads_def)
      then show False using b(1) n \<open>shows_text x\<close> by simp
    qed
    obtain c c' where fr: "q \<in> set ?rs" "0 < fd_count g" "find_reading file crowded spec (0 < fd_count f0) q c = (g, c')"
      using find_readings_scans [OF r mem] by blast
    obtain bb where "scan (ft_value file) (es_old spec) (keep_of crowded spec) None (free_of crowded spec) (Some counts) = (f0, bb)"
      using scan_within_scan [OF s] by blast
    from scan_none(1) [OF assms(2) this b(2)] have "occurrences (ft_value file) (es_old spec) = []"
      by (simp add: accepted_def)
    then show thesis
      using b fr nonempty by (intro reading [of q c c']) (auto simp: find_reading_def shows_text_def same_reading_def Let_def)
  qed
qed

text \<open>
  Where an edit may be taken to occur: as given, in one other reading of a text that does
  not occur as given, or with quotes read as equal where it does not occur as given.
\<close>

definition taken_at :: "file_text \<Rightarrow> edit_spec \<Rightarrow> edit_spec \<Rightarrow> nat list \<Rightarrow> bool" where
  "taken_at file spec m starts \<longleftrightarrow>
     (m = spec \<and> starts = occurrences (ft_value file) (es_old spec)) \<or>
     (occurrences (ft_value file) (es_old spec) = [] \<and>
      list_ex (\<lambda>r. m = rd_spec r \<and> es_old m \<noteq> [] \<and> es_old m \<noteq> es_new m \<and>
        starts = filter (rd_accept r) (occurrences (ft_value file) (es_old m))) (readingsOf spec file)) \<or>
     (occurrences (ft_value file) (es_old spec) = [] \<and> m = spec \<and>
      starts = occurrences (normalizeQuotes (ft_value file)) (normalizeQuotes (es_old spec)))"

definition right_count :: "edit_spec \<Rightarrow> edit_spec \<Rightarrow> nat list \<Rightarrow> nat \<Rightarrow> bool" where
  "right_count spec m starts n \<longleftrightarrow> starts \<noteq> [] \<and> n = length starts \<and> \<not> overlaps (length (es_old m)) starts \<and>
     (case es_expected spec of Every \<Rightarrow> True | Times k \<Rightarrow> n = k)"

lemma length_normalizeQuotes [simp]: "length (normalizeQuotes s) = length s"
  by (simp add: normalizeQuotes_def)

lemma read_as_keeps [simp]: "es_index (rd_spec (read_as spec file b c l)) = es_index spec"
    "es_expected (rd_spec (read_as spec file b c l)) = es_expected spec"
  by (simp_all add: read_as_def Let_def)

lemma readingsOf_keeps:
  "r \<in> set (readingsOf spec file) \<Longrightarrow> es_index (rd_spec r) = es_index spec \<and> es_expected (rd_spec r) = es_expected spec"
  by (auto simp: readingsOf_def Let_def split: if_splits)

lemma normalizeQuotes_empty [simp]: "normalizeQuotes s = [] \<longleftrightarrow> s = []"
  by (simp add: normalizeQuotes_def)

text \<open>How the rest of \<open>match_edit\<close> continues from what was chosen, in one step.\<close>

lemma match_edit_applies:
  assumes "pl_applied (match_edit file crowded spec s) \<noteq> pl_applied s"
  obtains m f0 form c0 f c1 where
    "choose_reading file crowded spec (pl_counts s) = (Chosen m f0 form, c0)"
    "(f, c1) = (if fd_count f0 = 0
        then scan_within (normalizeQuotes (ft_value file)) (normalizeQuotes (es_old spec))
               (keep_of crowded spec) None (free_of crowded spec) c0
        else (f0, c0))"
    "count_passes spec f"
    "pl_applied (match_edit file crowded spec s) = pl_applied s @ [(m, fd_starts f, fd_count f)]"
    "pl_problems (match_edit file crowded spec s) = pl_problems s"
proof -
  obtain ch c0 where ch: "choose_reading file crowded spec (pl_counts s) = (ch, c0)"
    by fastforce
  show thesis
  proof (cases ch)
    case (Refused problem)
    then show thesis using assms ch by (simp add: match_edit_def)
  next
    case (Chosen m f0 form)
    obtain f c1 where f: "(if fd_count f0 = 0
        then scan_within (normalizeQuotes (ft_value file)) (normalizeQuotes (es_old spec))
               (keep_of crowded spec) None (free_of crowded spec) c0
        else (f0, c0)) = (f, c1)"
      by fastforce
    have e: "match_edit file crowded spec s =
        (let s = s\<lparr>pl_readForms := pl_readForms s @ (if form then [es_index spec] else [])\<rparr>;
             normalized = (fd_count f0 = 0 \<and> 0 < fd_count f);
             s = s\<lparr>pl_counts := c1\<rparr>
         in if fd_count f = 0 then
              let (hint, hints) = closestRegion (ft_value file) (es_old spec) (pl_hints s)
              in s\<lparr>pl_problems := pl_problems s @ [Miss (es_index spec) hint (ft_crs file \<noteq> [])], pl_hints := hints\<rparr>
            else if fd_overlapping f \<or>
              (case es_expected spec of Every \<Rightarrow> False | Times n \<Rightarrow> fd_count f \<noteq> n \<or> fd_spent f) then
              let problem = counted_problem file spec f normalized
              in if crowded \<and> fd_spent f \<and> \<not> fd_overlapping f \<and>
                   (case es_expected spec of Every \<Rightarrow> False | Times n \<Rightarrow> fd_count f \<le> n)
                 then s\<lparr>pl_uncounted := pl_uncounted s @ [(spec, problem)]\<rparr>
                 else s\<lparr>pl_problems := pl_problems s @ [problem]\<rparr>
            else s\<lparr>pl_quoted := pl_quoted s @ (if normalized then [es_index spec] else []),
                   pl_applied := pl_applied s @ [(m, fd_starts f, fd_count f)]\<rparr>)"
      unfolding match_edit_def ch Chosen prod.case choice.case f Let_def ..
    have "count_passes spec f \<and>
        pl_applied (match_edit file crowded spec s) = pl_applied s @ [(m, fd_starts f, fd_count f)] \<and>
        pl_problems (match_edit file crowded spec s) = pl_problems s"
      using assms unfolding e
      by (auto simp: Let_def count_passes_def split: if_splits prod.splits expected.splits)
    then show thesis
      using that ch Chosen f by metis
  qed
qed

lemma applied_edit_sound:
  assumes "es_old spec \<noteq> []" "pl_applied (match_edit file False spec s) \<noteq> pl_applied s"
  shows "\<exists>m starts n. pl_applied (match_edit file False spec s) = pl_applied s @ [(m, starts, n)] \<and>
     taken_at file spec m starts \<and> right_count spec m starts n \<and> es_old m \<noteq> [] \<and> es_index m = es_index spec"
  using assms(2)
proof (rule match_edit_applies)
  fix m f0 form c0 f c1
  assume ch: "choose_reading file False spec (pl_counts s) = (Chosen m f0 form, c0)"
    and f: "(f, c1) = (if fd_count f0 = 0
        then scan_within (normalizeQuotes (ft_value file)) (normalizeQuotes (es_old spec)) (keep_of False spec) None (free_of False spec) c0
        else (f0, c0))"
    and pass: "count_passes spec f"
    and app: "pl_applied (match_edit file False spec s) = pl_applied s @ [(m, fd_starts f, fd_count f)]"
  have "taken_at file spec m (fd_starts f) \<and> right_count spec m (fd_starts f) (fd_count f) \<and> es_old m \<noteq> [] \<and>
      es_index m = es_index spec"
    using ch assms(1)
  proof (cases rule: choose_reading_chosen)
    case (given c)
    then obtain b where sc: "scan (ft_value file) (es_old spec) (keep_of False spec) None (free_of False spec) (Some (pl_counts s)) = (f0, b)"
      using scan_within_scan by blast
    show ?thesis
    proof (cases "fd_count f0 = 0")
      case True
      have none: "occurrences (ft_value file) (es_old spec) = []"
        using scan_none(1) [OF assms(1) sc True] by (simp add: accepted_def)
      have "scan_within (normalizeQuotes (ft_value file)) (normalizeQuotes (es_old spec)) (keep_of False spec) None (free_of False spec) c0 = (f, c1)"
        using f True by simp
      then obtain b' where "scan (normalizeQuotes (ft_value file)) (normalizeQuotes (es_old spec)) (keep_of False spec) None (free_of False spec) (Some c0) = (f, b')"
        using scan_within_scan by blast
      note p = passed_scan [OF _ pass this]
      show ?thesis
        using p none assms(1) given by (auto simp: taken_at_def right_count_def accepted_def split: expected.splits)
    next
      case False
      then have "f = f0" using f by simp
      then show ?thesis
        using passed_scan [OF assms(1) _ sc] pass assms(1) given
        by (auto simp: taken_at_def right_count_def accepted_def split: expected.splits)
    qed
  next
    case (reading r c c')
    then have ff: "f = f0" using f by simp
    obtain b where sc: "scan (ft_value file) (es_old m) (keep_of False spec) (Some (rd_accept r)) (free_of False spec) (Some c) = (f0, b)"
      using scan_within_scan reading(8) by blast
    note p = passed_scan [OF reading(4) _ sc, folded ff, OF pass]
    have "list_ex (\<lambda>r. m = rd_spec r \<and> es_old m \<noteq> [] \<and> es_old m \<noteq> es_new m \<and>
        fd_starts f = filter (rd_accept r) (occurrences (ft_value file) (es_old m))) (readingsOf spec file)"
      using reading p(1) by (auto simp: list_ex_iff accepted_def)
    then show ?thesis
      using p reading readingsOf_keeps [OF reading(2)]
      by (auto simp: taken_at_def right_count_def accepted_def split: expected.splits)
  qed
  then show ?thesis using app by blast
qed

subsection \<open>An edit that occurs as it asks applies\<close>

lemma overlaps_prefix: "prefix ps qs \<Longrightarrow> overlaps len ps \<Longrightarrow> overlaps len qs"
proof (induction len ps arbitrary: qs rule: overlaps.induct)
  case (1 len p q ps)
  then obtain qs' where qs: "qs = p # q # qs'" and pre: "prefix (q # ps) (q # qs')"
    by (auto simp: prefix_def)
  have "q < p + len \<or> overlaps len (q # ps)" using "1.prems"(2) by simp
  then show ?case unfolding qs using "1.IH" [OF pre] by (simp only: overlaps.simps) blast
qed simp_all

lemma scan_all:
  assumes "needle \<noteq> []" "scan haystack needle keep accept free budget = (f, budget')"
    and "\<not> overlaps (length needle) (filter (accepted accept) (occurrences haystack needle))"
    and "enat (length (filter (accepted accept) (occurrences haystack needle))) \<le> free"
  shows "\<not> stopped f"
proof -
  let ?all = "filter (accepted accept) (occurrences haystack needle)"
  obtain read where r: "prefix read ?all" "fd_count f = length read" "fd_overlapping f = overlaps (length needle) read"
    "fd_spent f \<longrightarrow> free < enat (fd_count f)"
    using scan_finds_what_it_accepts [OF assms(1,2)] by blast
  have "\<not> fd_overlapping f" using r overlaps_prefix assms(3) by blast
  moreover have "enat (fd_count f) \<le> free"
    using r(1,2) assms(4) prefix_length_le by (metis enat_ord_simps(1) order_trans)
  ultimately show ?thesis using r(4) by (auto simp: stopped_def)
qed

lemma edit_applies:
  assumes "es_old spec \<noteq> []" "readingsOf spec file = []"
    and "right_count spec spec (occurrences (ft_value file) (es_old spec)) (length (occurrences (ft_value file) (es_old spec)))"
  shows "pl_applied (match_edit file False spec s) = pl_applied s @
      [(spec, occurrences (ft_value file) (es_old spec), length (occurrences (ft_value file) (es_old spec)))]"
    and "pl_problems (match_edit file False spec s) = pl_problems s"
proof -
  let ?all = "occurrences (ft_value file) (es_old spec)"
  obtain f c where w: "scan_within (ft_value file) (es_old spec) (keep_of False spec) None (free_of False spec) (pl_counts s) = (f, c)"
    by fastforce
  then obtain b where sc: "scan (ft_value file) (es_old spec) (keep_of False spec) None (free_of False spec) (Some (pl_counts s)) = (f, b)"
    using scan_within_scan by blast
  have acc: "filter (accepted None) ?all = ?all" by (simp add: accepted_def)
  note rc = assms(3) [unfolded right_count_def]
  have no: "\<not> overlaps (length (es_old spec)) (filter (accepted None) ?all)"
    unfolding acc using rc by blast
  have room: "enat (length (filter (accepted None) ?all)) \<le> free_of False spec"
    unfolding acc using rc by (cases "es_expected spec") (simp_all add: free_of_def)
  have ns: "\<not> stopped f"
    by (rule scan_all [OF assms(1) sc no room])
  note u = scan_unstopped [OF assms(1) sc ns, unfolded acc]
  have starts: "fd_starts f = ?all"
    using u(1) rc by (cases "es_expected spec") (simp_all add: keep_of_def keep_first_def)
  have pos: "0 < fd_count f" using u(2) rc by simp
  have ch: "choose_reading file False spec (pl_counts s) = (Chosen spec f False, c)"
    unfolding choose_reading_def w using assms(2) pos by simp
  have fine: "(fd_overlapping f \<or> (case es_expected spec of Every \<Rightarrow> False | Times n \<Rightarrow> fd_count f \<noteq> n \<or> fd_spent f)) = False"
    using ns u(2) rc by (cases "es_expected spec") (simp_all add: stopped_def)
  have nz: "(fd_count f = 0) = False" using pos by simp
  have "match_edit file False spec s =
      s\<lparr>pl_readForms := pl_readForms s @ [], pl_counts := c, pl_quoted := pl_quoted s @ [],
        pl_applied := pl_applied s @ [(spec, fd_starts f, fd_count f)]\<rparr>"
    unfolding match_edit_def ch prod.case choice.case Let_def nz if_False fine by simp
  then show "pl_applied (match_edit file False spec s) = pl_applied s @ [(spec, ?all, length ?all)]"
    "pl_problems (match_edit file False spec s) = pl_problems s"
    using starts u(2) by simp_all
qed

end
