(* ===== verification/Edit_Plan.thy ===== *)
theory Edit_Plan
  imports Edit_Match_Proofs
begin

section \<open>A file's edits applied together\<close>

text \<open>
  Models the second half of \<open>planFile\<close> in \<open>src/modules/workspace/edit-plan.ts\<close>: the crowded
  check, the replacements in file order, their clashes with the links past edits already
  named, the size bound, and the pass that builds the new text with its line ends and the
  receipt. The sort keys are integers below \<open>2 ^ 53\<close> in the code's doubles, exact here. A
  loop whose end depends on the links it follows is a \<open>while\<close>; \<open>later_from_exact\<close> and
  \<open>clash_loop_exact\<close> below show that they end.
\<close>

type_synonym applied_edit = "edit_spec \<times> nat list \<times> nat"

record change =
  ch_edit :: nat
  ch_at :: nat
  ch_line :: nat
  ch_lines :: nat

record edit_changes =
  ec_first :: change
  ec_count :: nat
  ec_otherLines :: "nat list"
  ec_otherLineCount :: nat

record file_plan =
  fp_bytes :: "byte list"
  fp_updated :: jsstring
  fp_edits :: "edit_changes list"
  fp_replacements :: nat
  fp_quoteNormalized :: "nat list"
  fp_readForm :: "nat list"
  fp_crlf :: bool
  fp_mixed :: bool
  fp_bom :: bool

datatype plan_result = Plan file_plan | Problems "match_problem list" | Too_Large int

subsection \<open>Text built of pieces\<close>

record text_builder =
  tb_chunks :: "jsstring list"
  tb_pieces :: "jsstring list"

definition textBuilder :: text_builder where
  "textBuilder = \<lparr>tb_chunks = [], tb_pieces = []\<rparr>"

definition tb_flush :: "text_builder \<Rightarrow> text_builder" where
  "tb_flush b = \<lparr>tb_chunks = tb_chunks b @ [concat (tb_pieces b)], tb_pieces = []\<rparr>"

definition tb_add :: "jsstring \<Rightarrow> text_builder \<Rightarrow> text_builder" where
  "tb_add piece b =
     (if piece = [] then b
      else let b = b\<lparr>tb_pieces := tb_pieces b @ [piece]\<rparr>
           in if 4096 \<le> length (tb_pieces b) then tb_flush b else b)"

definition tb_text :: "text_builder \<Rightarrow> jsstring" where
  "tb_text b = concat (tb_chunks (tb_flush b))"

subsection \<open>Matching all edits\<close>

definition expected_count :: "expected \<Rightarrow> nat" where
  "expected_count e = (case e of Every \<Rightarrow> 0 | Times n \<Rightarrow> n)"

definition isCrowded :: "file_text \<Rightarrow> edit_spec list \<Rightarrow> bool" where
  "isCrowded file specs \<longleftrightarrow> 1 < length specs \<and>
     length (ft_value file) < sum_list (map (\<lambda>spec. expected_count (es_expected spec) - SHOWN_MATCHES) specs)"

definition raise_counts :: "file_text \<Rightarrow> count_budget \<Rightarrow> count_budget" where
  "raise_counts file counts =
     (if cb_size counts < length (ft_value file)
      then \<lparr>cb_left = cb_left counts + (length (ft_value file) - cb_size counts), cb_size = length (ft_value file)\<rparr>
      else counts)"

definition match_edits :: "file_text \<Rightarrow> edit_spec list \<Rightarrow> nat \<Rightarrow> count_budget \<Rightarrow> plan_state" where
  "match_edits file specs hints counts =
     fold (match_edit file (isCrowded file specs)) specs
       \<lparr>pl_problems = [], pl_applied = [], pl_quoted = [], pl_readForms = [], pl_uncounted = [],
        pl_counts = raise_counts file counts, pl_hints = hints\<rparr>"

definition crowded_problems :: "file_text \<Rightarrow> plan_state \<Rightarrow> match_problem list" where
  "crowded_problems file s =
     (let asks = sort_key fst
            (map (\<lambda>(spec, starts, n). (es_index spec, case es_expected spec of Every \<Rightarrow> n | Times k \<Rightarrow> k)) (pl_applied s) @
             map (\<lambda>(spec, problem). (es_index spec, expected_count (es_expected spec))) (pl_uncounted s));
          asked = sum_list (map snd asks)
      in if length (ft_value file) < asked
         then pl_problems s @ [Crowded (map fst asks) asked (length (ft_value file))]
         else pl_problems s @ map snd (pl_uncounted s))"

subsection \<open>Replacements in file order\<close>

text \<open>\<open>startOf(k)\<close> and \<open>slotOf(k)\<close> for each \<open>k\<close>: a replacement's start and its edit's place.\<close>

definition replacement_keys :: "applied_edit list \<Rightarrow> nat list" where
  "replacement_keys applied =
     concat (map (\<lambda>slot. map (\<lambda>start. start * length applied + slot) (fst (snd (applied ! slot)))) [0..<length applied])"

definition replacements :: "applied_edit list \<Rightarrow> (nat \<times> nat) list" where
  "replacements applied =
     (if 1 < length applied then
        map (\<lambda>key. ((key - key mod length applied) div length applied, key mod length applied))
          (sort (replacement_keys applied))
      else case applied of [] \<Rightarrow> [] | (spec, starts, n) # _ \<Rightarrow> map (\<lambda>start. (start, 0)) starts)"

subsection \<open>Clashes\<close>

record clash_state =
  cl_links :: "nat list"
  cl_named :: "nat list"
  cl_pairs :: "(nat \<times> nat) list"
  cl_clashes :: "(nat \<times> nat \<times> nat \<times> bool) list"

definition link_end :: "nat list \<Rightarrow> nat \<Rightarrow> nat" where
  "link_end links k = while (\<lambda>k. links ! k \<noteq> k) (\<lambda>k. links ! k) k"

definition shorten :: "nat list \<Rightarrow> nat \<Rightarrow> nat \<Rightarrow> nat list" where
  "shorten links k found =
     snd (while (\<lambda>(k, links). links ! k \<noteq> found) (\<lambda>(k, links). (links ! k, links[k := found])) (k, links))"

definition laterFrom :: "nat \<Rightarrow> clash_state \<Rightarrow> nat \<times> clash_state" where
  "laterFrom k s =
     (let found = link_end (cl_links s) k in (found, s\<lparr>cl_links := shorten (cl_links s) k found\<rparr>))"

text \<open>The comparison of two replacements, the earlier's edit first.\<close>

definition name_clash :: "edit_spec \<Rightarrow> nat \<Rightarrow> edit_spec \<Rightarrow> nat \<Rightarrow> clash_state \<Rightarrow> clash_state" where
  "name_clash first firstStart later laterStart s =
     (let a = min (es_index first) (es_index later);
          b = max (es_index first) (es_index later)
      in if a = b \<or> (a, b) \<in> set (cl_pairs s) then s
         else s\<lparr>cl_named := es_index later # cl_named s, cl_pairs := (a, b) # cl_pairs s,
                cl_clashes := cl_clashes s @
                  [(a, b, laterStart, laterStart = firstStart \<and>
                    laterStart + length (es_old later) = firstStart + length (es_old first))]\<rparr>)"

definition clash_step ::
  "applied_edit list \<Rightarrow> (nat \<times> nat) list \<Rightarrow> nat \<Rightarrow> nat \<times> clash_state \<Rightarrow> nat \<times> clash_state" where
  "clash_step applied reps i = (\<lambda>(j, s).
     (let later = fst (applied ! snd (reps ! j));
          s = (if es_index later \<in> set (cl_named s) then s\<lparr>cl_links := (cl_links s)[j := j + 1]\<rparr>
               else name_clash (fst (applied ! snd (reps ! i))) (fst (reps ! i)) later (fst (reps ! j)) s)
      in laterFrom (j + 1) s))"

definition clash_loop ::
  "applied_edit list \<Rightarrow> (nat \<times> nat) list \<Rightarrow> nat \<Rightarrow> clash_state \<Rightarrow> clash_state" where
  "clash_loop applied reps i s =
     (let firstEnd = fst (reps ! i) + length (es_old (fst (applied ! snd (reps ! i))))
      in snd (while (\<lambda>(j, s). j < length reps \<and> fst (reps ! j) < firstEnd)
                (clash_step applied reps i) (laterFrom (i + 1) s)))"

definition find_clashes :: "applied_edit list \<Rightarrow> (nat \<times> nat) list \<Rightarrow> (nat \<times> nat \<times> nat \<times> bool) list" where
  "find_clashes applied reps =
     (if 1 < length applied then
        cl_clashes (fold (clash_loop applied reps) [0..<length reps]
          \<lparr>cl_links = [0..<length reps + 1], cl_named = [], cl_pairs = [], cl_clashes = []\<rparr>)
      else [])"

definition clash_problems :: "file_text \<Rightarrow> (nat \<times> nat \<times> nat \<times> bool) list \<Rightarrow> match_problem list" where
  "clash_problems file clashes =
     (let clashAts = sort (remdups (map (\<lambda>(a, b, p, same). p) clashes));
          lineAt = zip clashAts (lineNumbersAt (ft_value file) clashAts)
      in map (\<lambda>(a, b, p, same). Clash a b (the (map_of lineAt p)) same) clashes)"

subsection \<open>The size bound\<close>

definition straightQuotes :: "jsstring \<Rightarrow> nat" where
  "straightQuotes s = length s - length (filter (\<lambda>c. c \<noteq> 0x27 \<and> c \<noteq> 0x22) s)"

definition byteLength :: "jsstring \<Rightarrow> nat" where
  "byteLength s = length (utf8_encode s)"

definition leastBytes :: "bool \<Rightarrow> nat list \<Rightarrow> nat \<Rightarrow> applied_edit list \<Rightarrow> int" where
  "leastBytes crlf quoted fileBytes applied =
     fold (\<lambda>(spec, starts, n) total. total + int n *
         (int (byteLength (es_new spec)) - int (byteLength (es_old spec)) -
          (if crlf then int (lineFeeds (es_old spec)) else 0) -
          (if es_index spec \<in> set quoted then 2 * int (straightQuotes (es_old spec)) else 0)))
       applied (int fileBytes)"

subsection \<open>Building the new text\<close>

definition endingAt :: "nat list \<Rightarrow> nat \<Rightarrow> jsstring" where
  "endingAt crs lf = (if crAt crs lf then CRLF else [LF])"

text \<open>\<open>nextLf\<close>: not looked for yet, the line feed found, or none left.\<close>

datatype feed = Unsought | Feed nat | No_Feed

definition lastFeed :: "jsstring \<Rightarrow> nat" where
  "lastFeed s = (case find (\<lambda>i. s ! i = LF) (rev [0..<length s]) of None \<Rightarrow> 0 | Some i \<Rightarrow> i)"

definition lineEnding :: "file_text \<Rightarrow> nat \<Rightarrow> feed \<Rightarrow> jsstring \<times> feed" where
  "lineEnding file start lf =
     (let look = (case lf of Unsought \<Rightarrow> True | Feed i \<Rightarrow> i < start | No_Feed \<Rightarrow> False);
          lf = (if look then case index_of (ft_value file) [LF] start of None \<Rightarrow> No_Feed | Some i \<Rightarrow> Feed i else lf)
      in (endingAt (ft_crs file) (case lf of Feed i \<Rightarrow> i | _ \<Rightarrow> lastFeed (ft_value file)), lf))"

fun join_endings :: "jsstring list \<Rightarrow> jsstring list \<Rightarrow> nat \<Rightarrow> jsstring" where
  "join_endings replaced [] k = []"
| "join_endings replaced (piece # pieces) k =
     replaced ! min (k - 1) (length replaced - 1) @ piece @ join_endings replaced pieces (k + 1)"

definition feed_places :: "jsstring \<Rightarrow> nat list" where
  "feed_places s = rev (fst (index_loop (\<lambda>i ps. (i # ps, True)) s [LF] (index_of s [LF] 0) []))"

definition withEndings :: "file_text \<Rightarrow> edit_spec \<Rightarrow> nat \<Rightarrow> feed \<Rightarrow> jsstring \<times> feed" where
  "withEndings file spec start lf =
     (if ft_crs file = [] then (es_new spec, lf)
      else
        let oldBreaks = feed_places (es_old spec);
            newPieces = split_on LF (es_new spec)
        in if length newPieces = 1 then (es_new spec, lf)
           else
             let (replaced, lf) =
               (if oldBreaks \<noteq> [] then (map (\<lambda>k. endingAt (ft_crs file) (start + k)) oldBreaks, lf)
                else let (ending, lf) = lineEnding file start lf in ([ending], lf))
             in (hd newPieces @ join_endings replaced (tl newPieces) 1, lf))"

record build_state =
  bs_out :: text_builder
  bs_updated :: text_builder
  bs_rawFrom :: nat
  bs_from :: nat
  bs_length :: nat
  bs_line :: nat
  bs_nextFeed :: "nat option"
  bs_crsBelow :: nat
  bs_nextLf :: feed
  bs_kept :: "edit_changes option list"
  bs_lastOther :: "nat list"

function crs_below :: "nat list \<Rightarrow> nat \<Rightarrow> nat \<Rightarrow> nat" where
  "crs_below crs i n = (if n < length crs \<and> crs ! n < i then crs_below crs i (n + 1) else n)"
  by pat_completeness auto
termination
  by (relation "measure (\<lambda>(crs, i, n). length crs - n)") auto

declare crs_below.simps [simp del]

definition rawIndex :: "file_text \<Rightarrow> nat \<Rightarrow> build_state \<Rightarrow> nat \<times> build_state" where
  "rawIndex file i s =
     (let n = crs_below (ft_crs file) i (bs_crsBelow s) in (i + n, s\<lparr>bs_crsBelow := n\<rparr>))"

text \<open>\<open>feedsBefore\<close> counts with the loop that \<open>lineNumbersAt\<close> also uses.\<close>

definition feedsBefore :: "file_text \<Rightarrow> nat \<Rightarrow> build_state \<Rightarrow> nat \<times> build_state" where
  "feedsBefore file i s =
     (let (lf, feeds) = pass_feeds (ft_value file) i (bs_nextFeed s) 0 in (feeds, s\<lparr>bs_nextFeed := lf\<rparr>))"

definition receipt_lines :: "edit_spec \<Rightarrow> nat" where
  "receipt_lines spec = lineFeeds (es_new spec) + 1 - (if ends_with (es_new spec) LF then 1 else 0)"

definition keep_change :: "edit_spec \<Rightarrow> nat \<Rightarrow> build_state \<Rightarrow> build_state" where
  "keep_change spec slot s =
     (case bs_kept s ! slot of
        None \<Rightarrow> s\<lparr>bs_kept := (bs_kept s)[slot := Some
            \<lparr>ec_first = \<lparr>ch_edit = es_index spec, ch_at = bs_length s, ch_line = bs_line s, ch_lines = receipt_lines spec\<rparr>,
             ec_count = 1, ec_otherLines = [], ec_otherLineCount = 0\<rparr>]\<rparr>
      | Some e \<Rightarrow>
          let e = e\<lparr>ec_count := ec_count e + 1\<rparr> in
          if bs_lastOther s ! slot \<noteq> bs_line s then
            s\<lparr>bs_lastOther := (bs_lastOther s)[slot := bs_line s],
              bs_kept := (bs_kept s)[slot := Some (e\<lparr>ec_otherLineCount := ec_otherLineCount e + 1,
                ec_otherLines := (if length (ec_otherLines e) < SHOWN_MATCHES then ec_otherLines e @ [bs_line s]
                                  else ec_otherLines e)\<rparr>)]\<rparr>
          else s\<lparr>bs_kept := (bs_kept s)[slot := Some e]\<rparr>)"

definition slice :: "'a list \<Rightarrow> nat \<Rightarrow> nat \<Rightarrow> 'a list" where
  "slice xs i j = take (j - i) (drop i xs)"

definition build_step :: "file_text \<Rightarrow> applied_edit list \<Rightarrow> nat \<times> nat \<Rightarrow> build_state \<Rightarrow> build_state" where
  "build_step file applied = (\<lambda>(start, slot) s.
     (let spec = fst (applied ! slot);
          (rawStart, s) = rawIndex file start s;
          s = s\<lparr>bs_out := tb_add (slice (ft_raw file) (bs_rawFrom s) rawStart) (bs_out s)\<rparr>;
          (new, lf) = withEndings file spec start (bs_nextLf s);
          s = s\<lparr>bs_out := tb_add new (bs_out s), bs_nextLf := lf\<rparr>;
          (rawStop, s) = rawIndex file (start + length (es_old spec)) s;
          s = s\<lparr>bs_rawFrom := rawStop\<rparr>;
          s = s\<lparr>bs_updated := tb_add (es_new spec) (tb_add (slice (ft_value file) (bs_from s) start) (bs_updated s))\<rparr>;
          (feeds, s) = feedsBefore file start s;
          s = s\<lparr>bs_line := bs_line s + feeds, bs_length := bs_length s + (start - bs_from s)\<rparr>;
          s = keep_change spec slot s;
          s = s\<lparr>bs_length := bs_length s + length (es_new spec),
                bs_line := bs_line s + lineFeeds (es_new spec),
                bs_from := start + length (es_old spec)\<rparr>;
          (_, s) = feedsBefore file (bs_from s) s
      in s))"

definition build_start :: "file_text \<Rightarrow> applied_edit list \<Rightarrow> build_state" where
  "build_start file applied =
     \<lparr>bs_out = textBuilder, bs_updated = textBuilder, bs_rawFrom = 0, bs_from = 0, bs_length = 0, bs_line = 1,
      bs_nextFeed = index_of (ft_value file) [LF] 0, bs_crsBelow = 0, bs_nextLf = Unsought,
      bs_kept = replicate (length applied) None, bs_lastOther = replicate (length applied) 0\<rparr>"

definition build_text :: "file_text \<Rightarrow> applied_edit list \<Rightarrow> (nat \<times> nat) list \<Rightarrow> build_state" where
  "build_text file applied reps =
     (let s = fold (build_step file applied) reps (build_start file applied)
      in s\<lparr>bs_out := tb_add (drop (bs_rawFrom s) (ft_raw file)) (bs_out s),
           bs_updated := tb_add (drop (bs_from s) (ft_value file)) (bs_updated s)\<rparr>)"

subsection \<open>The plan\<close>

definition make_plan :: "file_text \<Rightarrow> byte list \<Rightarrow> plan_state \<Rightarrow> applied_edit list \<Rightarrow> (nat \<times> nat) list \<Rightarrow> file_plan" where
  "make_plan file bytes s applied reps =
     (let b = build_text file applied reps;
          crlf = (ft_crs file \<noteq> [])
      in \<lparr>fp_bytes = (if ft_bom file then take 3 bytes else []) @ utf8_encode (tb_text (bs_out b)),
          fp_updated = tb_text (bs_updated b),
          fp_edits = sort_key (\<lambda>e. ch_at (ec_first e)) (map the (filter (\<lambda>e. e \<noteq> None) (bs_kept b))),
          fp_replacements = length reps,
          fp_quoteNormalized = pl_quoted s,
          fp_readForm = pl_readForms s,
          fp_crlf = crlf,
          fp_mixed = (crlf \<and> length (ft_crs file) < ft_lfs file),
          fp_bom = ft_bom file\<rparr>)"

definition planFile ::
  "file_text \<Rightarrow> byte list \<Rightarrow> edit_spec list \<Rightarrow> nat \<Rightarrow> nat option \<Rightarrow> count_budget \<Rightarrow> plan_result" where
  "planFile file bytes specs hints maxBytes counts =
     (let s = match_edits file specs hints counts
      in if isCrowded file specs then Problems (crowded_problems file s)
         else
           let applied = sort_key (\<lambda>(spec, starts, n). es_index spec) (pl_applied s);
               reps = replacements applied;
               problems = pl_problems s @ clash_problems file (find_clashes applied reps);
               least = leastBytes (ft_crs file \<noteq> []) (pl_quoted s) (length bytes) applied
           in if problems \<noteq> [] then Problems problems
              else case maxBytes of
                     Some m \<Rightarrow> if int m < least then Too_Large least else Plan (make_plan file bytes s applied reps)
                   | None \<Rightarrow> Plan (make_plan file bytes s applied reps))"

end
