(* ===== verification/Edit_Plan_Proofs.thy ===== *)
theory Edit_Plan_Proofs
  imports Edit_Plan
begin

section \<open>The new text is the edited units\<close>

text \<open>
  The abstract edit: the file as units, each replaced span taken out and the new text's
  units put in, a line feed of the new text with the CR flag of the line end it takes. The
  pass of \<open>planFile\<close> builds two texts at once; both are shown to be readings of this one
  list: the stored text its spelling, the matched text its code units.
\<close>

subsection \<open>The reference\<close>

fun with_flags :: "bool list \<Rightarrow> jsstring \<Rightarrow> text_unit list" where
  "with_flags flags [] = []"
| "with_flags flags (c # cs) =
     (if c = LF then (LF, hd flags) # with_flags (if tl flags = [] then flags else tl flags) cs
      else (c, False) # with_flags flags cs)"

definition feeds_of :: "jsstring \<Rightarrow> nat list" where
  "feeds_of s = filter (\<lambda>i. s ! i = LF) [0..<length s]"

definition line_end_place :: "jsstring \<Rightarrow> nat \<Rightarrow> nat" where
  "line_end_place s start = (case index_of s [LF] start of Some i \<Rightarrow> i | None \<Rightarrow> lastFeed s)"

definition cr_flag :: "text_unit list \<Rightarrow> nat \<Rightarrow> bool" where
  "cr_flag us i \<longleftrightarrow> i < length us \<and> snd (us ! i)"

definition new_units :: "text_unit list \<Rightarrow> edit_spec \<Rightarrow> nat \<Rightarrow> text_unit list" where
  "new_units us spec start =
     with_flags
       (if feeds_of (es_old spec) = [] then [cr_flag us (line_end_place (map fst us) start)]
        else map (\<lambda>k. cr_flag us (start + k)) (feeds_of (es_old spec)))
       (es_new spec)"

fun edit_units :: "text_unit list \<Rightarrow> nat \<Rightarrow> (nat \<times> edit_spec) list \<Rightarrow> text_unit list" where
  "edit_units us from_place [] = drop from_place us"
| "edit_units us from_place ((start, spec) # reps) =
     slice us from_place start @ new_units us spec start @ edit_units us (start + length (es_old spec)) reps"

subsection \<open>Searches from a later start\<close>

lemma index_of_Some_iff:
  "index_of h n s = Some i \<longleftrightarrow> s \<le> i \<and> i \<le> length h \<and> startsWith (drop i h) n \<and>
     (\<forall>p. s \<le> p \<and> p < i \<longrightarrow> \<not> startsWith (drop p h) n)"
proof
  assume "index_of h n s = Some i"
  then show "s \<le> i \<and> i \<le> length h \<and> startsWith (drop i h) n \<and> (\<forall>p. s \<le> p \<and> p < i \<longrightarrow> \<not> startsWith (drop p h) n)"
    using index_of_SomeD index_of_first by blast
next
  assume r: "s \<le> i \<and> i \<le> length h \<and> startsWith (drop i h) n \<and> (\<forall>p. s \<le> p \<and> p < i \<longrightarrow> \<not> startsWith (drop p h) n)"
  show "index_of h n s = Some i"
  proof (cases "index_of h n s")
    case None
    then have "\<forall>p \<in> set [s..<Suc (length h)]. \<not> startsWith (drop p h) n"
      unfolding index_of_def find_None_iff by blast
    then show ?thesis using r by auto
  next
    case (Some j)
    then have "\<not> j < i" "\<not> i < j"
      using r index_of_SomeD [OF Some] index_of_first [OF Some] by blast+
    then show ?thesis using Some by simp
  qed
qed

lemma index_of_later: "index_of h n s = Some i \<Longrightarrow> s \<le> t \<Longrightarrow> t \<le> i \<Longrightarrow> index_of h n t = Some i"
  by (auto simp: index_of_Some_iff)

lemma index_of_none_later:
  assumes "index_of h n s = None" "s \<le> t" shows "index_of h n t = None"
proof (cases "index_of h n t")
  case (Some i)
  have "i \<in> set [s..<Suc (length h)]" using index_of_SomeD [OF Some] assms(2) by auto
  then show ?thesis
    using assms(1) index_of_SomeD(3) [OF Some] unfolding index_of_def find_None_iff by blast
qed simp

subsection \<open>Pieces\<close>

lemma tb_text_concat: "tb_text b = concat (tb_chunks b) @ concat (tb_pieces b)"
  by (simp add: tb_text_def tb_flush_def)

lemma tb_text_add [simp]: "tb_text (tb_add p b) = tb_text b @ p"
  by (simp add: tb_text_concat tb_add_def tb_flush_def Let_def)

lemma tb_text_new [simp]: "tb_text textBuilder = []"
  by (simp add: tb_text_concat textBuilder_def)

lemma slice_simps [simp]: "slice xs i i = []" "length (slice xs i j) = min (j - i) (length xs - i)"
  by (auto simp: slice_def)

lemma map_slice: "map f (slice xs i j) = slice (map f xs) i j"
  by (simp add: slice_def take_map drop_map)

lemma take_slice: "i \<le> j \<Longrightarrow> take j xs = take i xs @ slice xs i j"
  by (metis le_add_diff_inverse slice_def take_add)

lemma slice_drop: "i \<le> j \<Longrightarrow> drop i xs = slice xs i j @ drop j xs"
  unfolding slice_def by (metis append_take_drop_id drop_drop le_add_diff_inverse2)

subsection \<open>Indices of the stored text\<close>

definition below :: "nat list \<Rightarrow> nat \<Rightarrow> nat" where
  "below crs i = length (filter (\<lambda>v. v < i) crs)"

lemma below_nth:
  assumes "sorted crs"
  shows "n < length crs \<and> crs ! n < i \<longleftrightarrow> n < below crs i"
proof -
  have f: "filter (\<lambda>v. v < i) crs = take (below crs i) crs"
    unfolding below_def by (rule filter_below_sorted [OF assms])
  have len: "below crs i \<le> length crs" by (simp add: below_def)
  have "filter (\<lambda>v. v < i) (drop (below crs i) crs) = []"
  proof -
    have "filter (\<lambda>v. v < i) (take (below crs i) crs @ drop (below crs i) crs) =
        filter (\<lambda>v. v < i) (take (below crs i) crs) @ filter (\<lambda>v. v < i) (drop (below crs i) crs)"
      by (rule filter_append)
    moreover have "filter (\<lambda>v. v < i) (take (below crs i) crs) = take (below crs i) crs"
      unfolding f [symmetric] by simp
    ultimately show ?thesis using f by simp
  qed
  then have out: "\<not> crs ! n < i" if "below crs i \<le> n" "n < length crs" for n
    using that by (fastforce simp: filter_empty_conv in_set_conv_nth dest: spec [of _ "n - below crs i"])
  have "crs ! n < i" if "n < below crs i"
  proof -
    have "take (below crs i) crs ! n \<in> set (take (below crs i) crs)"
      using that len by (intro nth_mem) simp
    then have "crs ! n \<in> set (filter (\<lambda>v. v < i) crs)"
      unfolding f using that by simp
    then show ?thesis by simp
  qed
  then show ?thesis using out len by (meson leI less_le_trans)
qed

lemma crs_below_exact:
  assumes "sorted crs" "n \<le> below crs i"
  shows "crs_below crs i n = below crs i"
  using assms(2)
proof (induction "below crs i - n" arbitrary: n)
  case 0
  then have "n = below crs i" by simp
  then show ?case using below_nth [OF assms(1), of n i] by (subst crs_below.simps) auto
next
  case (Suc d)
  then have "n < below crs i" by simp
  then show ?case
    using below_nth [OF assms(1), of n i] Suc.hyps(1) [of "Suc n"] Suc.hyps(2) by (subst crs_below.simps) auto
qed

lemma below_mono: "i \<le> j \<Longrightarrow> below crs i \<le> below crs j"
  unfolding below_def by (induction crs) auto

lemma spell_length_places: "length (spell us) = length us + length (cr_places us)"
proof (induction us rule: rev_induct)
  case (snoc u us)
  have "cr_places [u] = (if snd u then [0] else [])" by (simp add: cr_places_def)
  then show ?case using snoc by (auto simp: cr_places_append spell_unit_def)
qed (simp add: cr_places_def)

lemma below_places:
  assumes "i \<le> length us" shows "below (cr_places us) i = length (cr_places (take i us))"
proof -
  have "filter (\<lambda>v. v < i) (cr_places us) = filter (\<lambda>k. snd (us ! k)) (filter (\<lambda>k. k < i) [0..<length us])"
    unfolding cr_places_def filter_filter by (simp add: conj_commute)
  also have "filter (\<lambda>k. k < i) [0..<length us] = [0..<i]"
  proof -
    have "[0..<length us] = [0..<i] @ [i..<length us]"
      using assms by (metis le0 le_add_diff_inverse upt_add_eq_append)
    then show ?thesis by (simp add: filter_id_conv filter_empty_conv)
  qed
  also have "filter (\<lambda>k. snd (us ! k)) [0..<i] = cr_places (take i us)"
    unfolding cr_places_def using assms by (auto intro: filter_cong)
  finally show ?thesis by (simp add: below_def)
qed

lemma raw_index:
  "i \<le> length us \<Longrightarrow> length (spell (take i us)) = i + below (cr_places us) i"
  by (simp add: spell_length_places below_places)

lemma spell_slice:
  assumes "i \<le> j" "j \<le> length us"
  shows "slice (spell us) (length (spell (take i us))) (length (spell (take j us))) = spell (slice us i j)"
proof -
  have "us = take i us @ slice us i j @ drop j us"
    using assms by (metis append.assoc append_take_drop_id take_slice)
  then have "spell us = spell (take i us) @ spell (slice us i j) @ spell (drop j us)"
    by (metis spell_simps(3))
  moreover have "length (spell (take j us)) = length (spell (take i us)) + length (spell (slice us i j))"
    using take_slice [OF assms(1), of us] by simp
  ultimately show ?thesis by (simp add: slice_def)
qed

lemma spell_drop: "drop (length (spell (take i us))) (spell us) = spell (drop i us)"
  by (metis append_eq_conv_conj append_take_drop_id spell_simps(3))

subsection \<open>The new text's line ends\<close>

lemma spell_plain: "spell (map (\<lambda>c. (c, False)) s) = s"
  by (induction s) (auto simp: spell_unit_def)

lemma fst_with_flags: "map fst (with_flags flags s) = s"
  by (induction flags s rule: with_flags.induct) auto

lemma with_flags_no_feed: "LF \<notin> set s \<Longrightarrow> spell (with_flags flags s) = s"
  by (induction flags s rule: with_flags.induct) (auto simp: spell_unit_def)

lemma with_flags_all_false:
  "flags \<noteq> [] \<Longrightarrow> True \<notin> set flags \<Longrightarrow> spell (with_flags flags s) = s"
proof (induction flags s rule: with_flags.induct)
  case (2 flags c cs)
  have "True \<notin> set (if tl flags = [] then flags else tl flags)" "(if tl flags = [] then flags else tl flags) \<noteq> []"
    using 2(3,4) by (cases flags; auto)+
  moreover have "\<not> hd flags" using 2(3,4) hd_in_set by metis
  ultimately show ?case using 2 by (cases "c = LF") (auto simp: spell_unit_def)
qed simp

lemma min_last:
  "(1 :: nat) \<le> k \<Longrightarrow> 0 < n \<Longrightarrow> \<not> Suc (min (k - 1) (n - 1)) < n \<Longrightarrow> min (Suc k - 1) (n - 1) = min (k - 1) (n - 1)"
  by (cases "k - 1 \<le> n - 1") (auto simp: min_def)

lemma join_endings_units:
  assumes "flags \<noteq> []" "1 \<le> k"
  shows "hd (split_on LF s) @ join_endings (map (\<lambda>f. if f then CRLF else [LF]) flags) (tl (split_on LF s)) k =
     spell (with_flags (drop (min (k - 1) (length flags - 1)) flags) s)"
  using assms(2)
proof (induction s arbitrary: k)
  case (Cons c s)
  let ?m = "min (k - 1) (length flags - 1)" and ?e = "\<lambda>f. if f then CRLF else [LF]"
  have m: "?m < length flags" using assms(1) by (cases flags) auto
  obtain p ps where ps: "split_on LF s = p # ps"
    using split_on_ne by (cases "split_on LF s") auto
  show ?case
  proof (cases "c = LF")
    case True
    have rest: "(if tl (drop ?m flags) = [] then drop ?m flags else tl (drop ?m flags)) =
        drop (min (Suc k - 1) (length flags - 1)) flags"
    proof -
      have t: "tl (drop ?m flags) = drop (Suc ?m) flags" by (simp only: tl_drop drop_Suc)
      show ?thesis
      proof (cases "Suc ?m < length flags")
        case True
        then have "min (Suc k - 1) (length flags - 1) = Suc ?m" using Cons.prems by (simp add: min_def split: if_splits)
        then show ?thesis unfolding t using True by simp
      next
        case False
        then have "min (Suc k - 1) (length flags - 1) = ?m"
          using min_last [OF Cons.prems _ False] assms(1) by simp
        then show ?thesis unfolding t using False by simp
      qed
    qed
    have head: "hd (drop ?m flags) = flags ! ?m" using m by (rule hd_drop_conv_nth)
    have wf: "with_flags (drop ?m flags) (c # s) =
        (LF, flags ! ?m) # with_flags (drop (min (Suc k - 1) (length flags - 1)) flags) s"
      unfolding True with_flags.simps rest head by simp
    have IH: "p @ join_endings (map ?e flags) ps (Suc k) =
        spell (with_flags (drop (min (Suc k - 1) (length flags - 1)) flags) s)"
      using Cons.IH [of "Suc k"] unfolding ps by simp
    show ?thesis
      unfolding wf spell_simps(2) IH [symmetric] using True ps m by (simp add: spell_unit_def)
  next
    case False
    then show ?thesis
      using Cons.IH [OF Cons.prems] ps by (simp add: spell_unit_def)
  qed
qed simp

lemma feed_places_exact: "feed_places s = feeds_of s"
proof -
  have v: "visit_all (\<lambda>i ps. (i # ps, True)) is qs = (rev is @ qs, True)" for "is" qs
    by (induction "is" arbitrary: qs) auto
  show ?thesis
    unfolding feed_places_def feeds_of_def index_loop_from LF_occurrences v by simp
qed

lemma endingAt_flag:
  "ft_crs file = cr_places us \<Longrightarrow> endingAt (ft_crs file) i = (if cr_flag us i then CRLF else [LF])"
  by (simp add: endingAt_def crAt_places cr_flag_def)

text \<open>What the line feed kept from an earlier replacement may be.\<close>

definition feed_ok :: "file_text \<Rightarrow> nat \<Rightarrow> feed \<Rightarrow> bool" where
  "feed_ok file start lf \<longleftrightarrow>
     (case lf of
        Unsought \<Rightarrow> True
      | Feed i \<Rightarrow> \<exists>s \<le> start. index_of (ft_value file) [LF] s = Some i
      | No_Feed \<Rightarrow> \<exists>s \<le> start. index_of (ft_value file) [LF] s = None)"

lemma feed_ok_later: "feed_ok file start lf \<Longrightarrow> start \<le> start' \<Longrightarrow> feed_ok file start' lf"
  by (auto simp: feed_ok_def split: feed.splits dest: order_trans)

lemma lineEnding_exact:
  assumes "feed_ok file start lf"
  shows "\<exists>lf'. lineEnding file start lf = (endingAt (ft_crs file) (line_end_place (ft_value file) start), lf') \<and>
     feed_ok file start lf'"
proof -
  let ?at = "index_of (ft_value file) [LF] start"
  consider (seek) "lf = Unsought \<or> (\<exists>i. lf = Feed i \<and> i < start)"
    | (keep) i where "lf = Feed i" "\<not> i < start" "?at = Some i"
    | (gone) "lf = No_Feed" "?at = None"
  proof (cases lf)
    case (Feed i)
    then obtain s where "s \<le> start" "index_of (ft_value file) [LF] s = Some i"
      using assms by (auto simp: feed_ok_def)
    then show thesis
      using seek keep Feed index_of_later by (metis not_less)
  next
    case No_Feed
    then show thesis
      using gone assms index_of_none_later by (auto simp: feed_ok_def)
  qed (use seek in simp)
  then show ?thesis
  proof cases
    case seek
    then show ?thesis
      by (cases ?at) (auto simp: lineEnding_def line_end_place_def feed_ok_def)
  qed (use assms in \<open>auto simp: lineEnding_def line_end_place_def\<close>)
qed

lemma split_on_single: "length (split_on c s) = 1 \<longleftrightarrow> c \<notin> set s"
  by (induction s) (auto split: list.splits)

lemma withEndings_plain:
  "ft_crs file = [] \<or> LF \<notin> set (es_new spec) \<Longrightarrow> withEndings file spec start lf = (es_new spec, lf)"
  using split_on_single [of LF "es_new spec"] by (auto simp: withEndings_def Let_def)

lemma withEndings_joined:
  assumes "ft_crs file \<noteq> []" "LF \<in> set (es_new spec)"
  shows "withEndings file spec start lf =
     (let (replaced, lf) =
        (if feeds_of (es_old spec) \<noteq> [] then (map (\<lambda>k. endingAt (ft_crs file) (start + k)) (feeds_of (es_old spec)), lf)
         else let (ending, lf) = lineEnding file start lf in ([ending], lf))
      in (hd (split_on LF (es_new spec)) @ join_endings replaced (tl (split_on LF (es_new spec))) 1, lf))"
proof -
  have "(ft_crs file = []) = False" "(length (split_on LF (es_new spec)) = 1) = False"
    using assms split_on_single [of LF "es_new spec"] by simp_all
  then show ?thesis
    unfolding withEndings_def feed_places_exact Let_def by (simp only: if_False)
qed

lemma no_flags: "ft_crs file = [] \<Longrightarrow> decoded file \<Longrightarrow> \<not> cr_flag (file_units file) i"
  using set_cr_places [of i "file_units file"] by (simp add: decoded_def cr_flag_def)

lemma withEndings_exact:
  assumes "decoded file" "feed_ok file start lf"
  shows "\<exists>lf'. withEndings file spec start lf = (spell (new_units (file_units file) spec start), lf') \<and>
     feed_ok file start lf'"
proof -
  note d = decoded_simps [OF assms(1)]
  note flag = endingAt_flag [OF d(3)]
  let ?us = "file_units file"
  define flags where "flags = (if feeds_of (es_old spec) = [] then [cr_flag ?us (line_end_place (map fst ?us) start)]
        else map (\<lambda>k. cr_flag ?us (start + k)) (feeds_of (es_old spec)))"
  have ne: "flags \<noteq> []" by (simp add: flags_def)
  have nu: "new_units ?us spec start = with_flags flags (es_new spec)"
    by (simp only: new_units_def flags_def)
  show ?thesis
  proof (cases "ft_crs file = [] \<or> LF \<notin> set (es_new spec)")
    case True
    have same: "spell (with_flags flags (es_new spec)) = es_new spec"
    proof (cases "LF \<in> set (es_new spec)")
      case LF: True
      then have no: "\<not> cr_flag ?us i" for i
        using True assms(1) no_flags by blast
      have "True \<notin> set flags" unfolding flags_def by (simp add: no image_iff)
      then show ?thesis using with_flags_all_false [OF ne] by blast
    qed (simp add: with_flags_no_feed)
    have "withEndings file spec start lf = (es_new spec, lf)"
      using True by (rule withEndings_plain)
    then show ?thesis unfolding nu same using assms(2) by blast
  next
    case False
    have j: "hd (split_on LF (es_new spec)) @
        join_endings (map (\<lambda>f. if f then CRLF else [LF]) flags) (tl (split_on LF (es_new spec))) 1 =
        spell (with_flags flags (es_new spec))"
      using join_endings_units [OF ne, of 1 "es_new spec"] by simp
    have crs: "ft_crs file \<noteq> []" and LFs: "LF \<in> set (es_new spec)"
      using False by blast+
    note new = withEndings_joined [OF crs LFs, of start lf]
    show ?thesis
    proof (cases "feeds_of (es_old spec) = []")
      case True
      obtain lf' where l: "lineEnding file start lf = (endingAt (ft_crs file) (line_end_place (ft_value file) start), lf')"
        "feed_ok file start lf'"
        using lineEnding_exact [OF assms(2)] by blast
      have "[endingAt (ft_crs file) (line_end_place (ft_value file) start)] = map (\<lambda>f. if f then CRLF else [LF]) flags"
        by (simp add: flags_def True flag d(2))
      then have "withEndings file spec start lf = (spell (with_flags flags (es_new spec)), lf')"
        unfolding new l(1) using True j by simp
      then show ?thesis unfolding nu using l(2) by blast
    next
      case some: False
      have "map (\<lambda>k. endingAt (ft_crs file) (start + k)) (feeds_of (es_old spec)) = map (\<lambda>f. if f then CRLF else [LF]) flags"
        by (simp add: flags_def some flag o_def)
      then have "withEndings file spec start lf = (spell (with_flags flags (es_new spec)), lf)"
        unfolding new using some j by simp
      then show ?thesis unfolding nu using assms(2) by blast
    qed
  qed
qed

lemma fst_new_units: "map fst (new_units us spec start) = es_new spec"
  by (simp add: new_units_def fst_with_flags)

subsection \<open>One replacement\<close>

definition spec_of :: "applied_edit list \<Rightarrow> nat \<Rightarrow> edit_spec" where
  "spec_of applied slot = fst (applied ! slot)"

fun reps_fit :: "applied_edit list \<Rightarrow> nat \<Rightarrow> nat \<Rightarrow> (nat \<times> nat) list \<Rightarrow> bool" where
  "reps_fit applied from_place n [] \<longleftrightarrow> from_place \<le> n"
| "reps_fit applied from_place n ((start, slot) # reps) \<longleftrightarrow> slot < length applied \<and> from_place \<le> start \<and>
     reps_fit applied (start + length (es_old (spec_of applied slot))) n reps"

lemma reps_fit_le: "reps_fit applied i n reps \<Longrightarrow> i \<le> n"
  by (induction applied i n reps rule: reps_fit.induct) auto

definition next_ok :: "jsstring \<Rightarrow> nat \<Rightarrow> nat option \<Rightarrow> bool" where
  "next_ok v i lf \<longleftrightarrow> (\<exists>s \<le> i. lf = index_of v [LF] s \<and> count_list (take s v) LF = count_list (take i v) LF)"

lemma pass_feeds_offset:
  "pass_feeds v i lf (line + m) = (fst (pass_feeds v i lf line), snd (pass_feeds v i lf line) + m)"
proof (induction v i lf line rule: pass_feeds.induct)
  case (2 v i lf line)
  then show ?case by (cases "lf < i") auto
qed simp

lemma feedsBefore_exact:
  assumes "next_ok (ft_value file) j (bs_nextFeed s)" "j \<le> i"
  shows "\<exists>lf. feedsBefore file i s =
      (count_list (take i (ft_value file)) LF - count_list (take j (ft_value file)) LF, s\<lparr>bs_nextFeed := lf\<rparr>) \<and>
     next_ok (ft_value file) i lf"
proof -
  let ?v = "ft_value file"
  obtain k where k: "k \<le> j" "bs_nextFeed s = index_of ?v [LF] k"
    "count_list (take k ?v) LF = count_list (take j ?v) LF"
    using assms(1) unfolding next_ok_def by blast
  let ?c = "Suc (count_list (take k ?v) LF)"
  obtain k' where k': "pass_feeds ?v i (bs_nextFeed s) ?c = (index_of ?v [LF] k', line_at ?v i)"
    "k' \<le> i" "count_list (take k' ?v) LF = count_list (take i ?v) LF"
    using pass_feeds_exact [OF k(2) refl, of i] k(1) assms(2) by auto
  have "pass_feeds ?v i (bs_nextFeed s) (0 + ?c) =
      (fst (pass_feeds ?v i (bs_nextFeed s) 0), snd (pass_feeds ?v i (bs_nextFeed s) 0) + ?c)"
    by (rule pass_feeds_offset)
  then have p: "pass_feeds ?v i (bs_nextFeed s) 0 = (index_of ?v [LF] k', line_at ?v i - ?c)"
    using k'(1) by (cases "pass_feeds ?v i (bs_nextFeed s) 0") auto
  show ?thesis
    unfolding feedsBefore_def p using k k' by (auto simp: line_at_def next_ok_def)
qed

lemma rawIndex_exact:
  assumes "decoded file" "bs_crsBelow s \<le> below (ft_crs file) i" "i \<le> length (file_units file)"
  shows "rawIndex file i s = (length (spell (take i (file_units file))), s\<lparr>bs_crsBelow := below (ft_crs file) i\<rparr>)"
  using assms decoded_simps(3) [OF assms(1)]
  by (simp add: rawIndex_def crs_below_exact raw_index Let_def)

text \<open>What the pass has built: the units so far, up to a place of the file.\<close>

definition built :: "file_text \<Rightarrow> text_unit list \<Rightarrow> build_state \<Rightarrow> bool" where
  "built file us s \<longleftrightarrow>
     bs_from s \<le> length (file_units file) \<and>
     tb_text (bs_out s) = spell us \<and> tb_text (bs_updated s) = map fst us \<and>
     bs_rawFrom s = length (spell (take (bs_from s) (file_units file))) \<and>
     bs_crsBelow s \<le> below (ft_crs file) (bs_from s) \<and>
     bs_length s = length us \<and> bs_line s = Suc (count_list (map fst us) LF) \<and>
     next_ok (ft_value file) (bs_from s) (bs_nextFeed s) \<and>
     feed_ok file (bs_from s) (bs_nextLf s)"

lemma count_slice: "i \<le> j \<Longrightarrow> count_list (take j v) c - count_list (take i v) c = count_list (slice v i j) c"
  using count_take_split [of i j v c] by (simp add: slice_def)

lemma count_slice_add: "i \<le> j \<Longrightarrow> count_list (take j v) c = count_list (take i v) c + count_list (slice v i j) c"
  using count_take_split [of i j v c] by (simp add: slice_def)

text \<open>The state between the two halves of a step: what a receipt records of the replacement.\<close>

definition before_change :: "file_text \<Rightarrow> applied_edit list \<Rightarrow> nat \<times> nat \<Rightarrow> build_state \<Rightarrow> build_state" where
  "before_change file applied = (\<lambda>(start, slot) s.
     (let spec = fst (applied ! slot);
          (rawStart, s) = rawIndex file start s;
          s = s\<lparr>bs_out := tb_add (slice (ft_raw file) (bs_rawFrom s) rawStart) (bs_out s)\<rparr>;
          (new, lf) = withEndings file spec start (bs_nextLf s);
          s = s\<lparr>bs_out := tb_add new (bs_out s), bs_nextLf := lf\<rparr>;
          (rawStop, s) = rawIndex file (start + length (es_old spec)) s;
          s = s\<lparr>bs_rawFrom := rawStop\<rparr>;
          s = s\<lparr>bs_updated := tb_add (es_new spec) (tb_add (slice (ft_value file) (bs_from s) start) (bs_updated s))\<rparr>;
          (feeds, s) = feedsBefore file start s
      in s\<lparr>bs_line := bs_line s + feeds, bs_length := bs_length s + (start - bs_from s)\<rparr>))"

definition after_change :: "file_text \<Rightarrow> edit_spec \<Rightarrow> nat \<Rightarrow> build_state \<Rightarrow> build_state" where
  "after_change file spec start s =
     (let s = s\<lparr>bs_length := bs_length s + length (es_new spec),
                bs_line := bs_line s + lineFeeds (es_new spec),
                bs_from := start + length (es_old spec)\<rparr>
      in snd (feedsBefore file (bs_from s) s))"

lemma build_step_halves:
  "build_step file applied (start, slot) s =
     after_change file (spec_of applied slot) start
       (keep_change (spec_of applied slot) slot (before_change file applied (start, slot) s))"
  by (simp add: build_step_def before_change_def after_change_def spec_of_def Let_def split: prod.splits)

lemma before_change_exact:
  assumes d: "decoded file" and b: "built file us s" and start: "bs_from s \<le> start"
    and fit: "start + length (es_old (spec_of applied slot)) \<le> length (file_units file)"
  defines "spec \<equiv> spec_of applied slot"
  defines "kept_units \<equiv> slice (file_units file) (bs_from s) start"
  shows "\<exists>lf nf. before_change file applied (start, slot) s =
     s\<lparr>bs_out := tb_add (spell (new_units (file_units file) spec start)) (tb_add (spell kept_units) (bs_out s)),
       bs_updated := tb_add (es_new spec) (tb_add (map fst kept_units) (bs_updated s)),
       bs_rawFrom := length (spell (take (start + length (es_old spec)) (file_units file))),
       bs_crsBelow := below (ft_crs file) (start + length (es_old spec)),
       bs_nextLf := lf, bs_nextFeed := nf,
       bs_line := bs_line s + count_list (map fst kept_units) LF,
       bs_length := bs_length s + length kept_units\<rparr> \<and>
     feed_ok file start lf \<and> next_ok (ft_value file) start nf"
proof -
  note ds = decoded_simps [OF d]
  let ?us = "file_units file" and ?stop = "start + length (es_old spec)"
  have bs: "bs_rawFrom s = length (spell (take (bs_from s) ?us))" "bs_crsBelow s \<le> below (ft_crs file) (bs_from s)"
    "next_ok (ft_value file) (bs_from s) (bs_nextFeed s)" "feed_ok file (bs_from s) (bs_nextLf s)"
    using b by (auto simp: built_def)
  have stop: "start \<le> length ?us" "?stop \<le> length ?us" using fit by (auto simp: spec_def)
  have crs1: "bs_crsBelow s \<le> below (ft_crs file) start"
    using bs(2) below_mono [OF start] by (rule order_trans)
  have r1: "rawIndex file start s = (length (spell (take start ?us)), s\<lparr>bs_crsBelow := below (ft_crs file) start\<rparr>)"
    by (rule rawIndex_exact [OF d crs1 stop(1)])
  have raw1: "slice (ft_raw file) (bs_rawFrom s) (length (spell (take start ?us))) = spell kept_units"
    unfolding bs(1) ds(1) kept_units_def by (rule spell_slice [OF start stop(1)])
  obtain lf where lf: "withEndings file spec start (bs_nextLf s) = (spell (new_units ?us spec start), lf)" "feed_ok file start lf"
    using withEndings_exact [OF d feed_ok_later [OF bs(4) start]] by blast
  have r2: "rawIndex file ?stop t = (length (spell (take ?stop ?us)), t\<lparr>bs_crsBelow := below (ft_crs file) ?stop\<rparr>)"
    if "bs_crsBelow t = below (ft_crs file) start" for t
    by (rule rawIndex_exact [OF d _ stop(2)]) (simp add: that below_mono)
  have val: "slice (ft_value file) (bs_from s) start = map fst kept_units"
    by (simp add: ds(2) kept_units_def map_slice)
  have len: "start - bs_from s = length kept_units"
    using stop(1) start by (simp add: kept_units_def)
  have feeds: "count_list (take start (ft_value file)) LF - count_list (take (bs_from s) (ft_value file)) LF =
      count_list (map fst kept_units) LF"
    using count_slice [OF start, of "ft_value file" LF] by (simp add: val)
  obtain nf where nf: "next_ok (ft_value file) start nf"
    "\<And>t. bs_nextFeed t = bs_nextFeed s \<Longrightarrow> feedsBefore file start t = (count_list (map fst kept_units) LF, t\<lparr>bs_nextFeed := nf\<rparr>)"
  proof -
    obtain nf where n: "feedsBefore file start s = (count_list (map fst kept_units) LF, s\<lparr>bs_nextFeed := nf\<rparr>)"
      "next_ok (ft_value file) start nf"
      using feedsBefore_exact [OF bs(3) start] feeds by auto
    have "feedsBefore file start t = (count_list (map fst kept_units) LF, t\<lparr>bs_nextFeed := nf\<rparr>)"
      if "bs_nextFeed t = bs_nextFeed s" for t
    proof -
      obtain a c where p: "pass_feeds (ft_value file) start (bs_nextFeed s) 0 = (a, c)" by fastforce
      have "c = count_list (map fst kept_units) LF" "a = nf"
        using n(1) unfolding feedsBefore_def p
        by (simp, metis (mono_tags, lifting) build_state.select_convs(7) build_state.surjective build_state.update_convs(7) case_prod_conv prod.inject n(1) p feedsBefore_def)
      then show ?thesis unfolding feedsBefore_def that p by simp
    qed
    then show thesis using that n(2) by blast
  qed
  show ?thesis
    unfolding before_change_def spec_of_def [symmetric] prod.case spec_def [symmetric] r1 Let_def
    using lf nf raw1 val len
    by (intro exI [of _ lf] exI [of _ nf]) (simp add: r2)
qed

lemma keep_change_frame:
  "bs_out (keep_change spec slot s) = bs_out s" "bs_updated (keep_change spec slot s) = bs_updated s"
  "bs_rawFrom (keep_change spec slot s) = bs_rawFrom s" "bs_from (keep_change spec slot s) = bs_from s"
  "bs_length (keep_change spec slot s) = bs_length s" "bs_line (keep_change spec slot s) = bs_line s"
  "bs_nextFeed (keep_change spec slot s) = bs_nextFeed s" "bs_crsBelow (keep_change spec slot s) = bs_crsBelow s"
  "bs_nextLf (keep_change spec slot s) = bs_nextLf s"
  by (auto simp: keep_change_def Let_def split: option.splits)

lemma after_change_exact:
  assumes "next_ok (ft_value file) start (bs_nextFeed s)"
  shows "\<exists>nf. after_change file spec start s =
     s\<lparr>bs_length := bs_length s + length (es_new spec),
       bs_line := bs_line s + count_list (es_new spec) LF,
       bs_from := start + length (es_old spec), bs_nextFeed := nf\<rparr> \<and>
     next_ok (ft_value file) (start + length (es_old spec)) nf"
proof -
  let ?s = "s\<lparr>bs_length := bs_length s + length (es_new spec),
                bs_line := bs_line s + lineFeeds (es_new spec),
                bs_from := start + length (es_old spec)\<rparr>"
  have "next_ok (ft_value file) start (bs_nextFeed ?s)" using assms by simp
  from feedsBefore_exact [OF this, of "start + length (es_old spec)"] show ?thesis
    by (auto simp: after_change_def Let_def lineFeeds_count)
qed

lemma build_step_built:
  assumes d: "decoded file" and b: "built file us s" and start: "bs_from s \<le> start"
    and fit: "start + length (es_old (spec_of applied slot)) \<le> length (file_units file)"
  shows "built file (us @ slice (file_units file) (bs_from s) start @ new_units (file_units file) (spec_of applied slot) start)
     (build_step file applied (start, slot) s)"
    and "bs_from (build_step file applied (start, slot) s) = start + length (es_old (spec_of applied slot))"
    and "\<exists>t. build_step file applied (start, slot) s = after_change file (spec_of applied slot) start (keep_change (spec_of applied slot) slot t) \<and>
      bs_kept t = bs_kept s \<and> bs_lastOther t = bs_lastOther s \<and>
      bs_length t = length (us @ slice (file_units file) (bs_from s) start) \<and>
      bs_line t = Suc (count_list (map fst (us @ slice (file_units file) (bs_from s) start)) LF) \<and>
      bs_kept (build_step file applied (start, slot) s) = bs_kept (keep_change (spec_of applied slot) slot t)"
proof -
  let ?spec = "spec_of applied slot" and ?kept = "slice (file_units file) (bs_from s) start"
  obtain lf nf where t: "before_change file applied (start, slot) s =
     s\<lparr>bs_out := tb_add (spell (new_units (file_units file) ?spec start)) (tb_add (spell ?kept) (bs_out s)),
       bs_updated := tb_add (es_new ?spec) (tb_add (map fst ?kept) (bs_updated s)),
       bs_rawFrom := length (spell (take (start + length (es_old ?spec)) (file_units file))),
       bs_crsBelow := below (ft_crs file) (start + length (es_old ?spec)),
       bs_nextLf := lf, bs_nextFeed := nf,
       bs_line := bs_line s + count_list (map fst ?kept) LF,
       bs_length := bs_length s + length ?kept\<rparr>" and ok: "feed_ok file start lf" "next_ok (ft_value file) start nf"
    using before_change_exact [OF d b start fit] by blast
  let ?t = "before_change file applied (start, slot) s"
  let ?k = "keep_change ?spec slot ?t"
  have "next_ok (ft_value file) start (bs_nextFeed ?k)"
    unfolding keep_change_frame t using ok(2) by simp
  from after_change_exact [OF this, of ?spec] obtain nf' where a: "after_change file ?spec start ?k =
     ?k\<lparr>bs_length := bs_length ?k + length (es_new ?spec),
       bs_line := bs_line ?k + count_list (es_new ?spec) LF,
       bs_from := start + length (es_old ?spec), bs_nextFeed := nf'\<rparr>"
    "next_ok (ft_value file) (start + length (es_old ?spec)) nf'"
    by blast
  have step: "build_step file applied (start, slot) s = after_change file ?spec start ?k"
    by (rule build_step_halves)
  have bb: "tb_text (bs_out s) = spell us" "tb_text (bs_updated s) = map fst us" "bs_length s = length us"
    "bs_line s = Suc (count_list (map fst us) LF)"
    using b by (auto simp: built_def)
  have newlen: "length (new_units (file_units file) ?spec start) = length (es_new ?spec)"
    by (metis fst_new_units length_map)
  have ok': "feed_ok file (start + length (es_old ?spec)) lf"
    using ok(1) by (rule feed_ok_later) simp
  show "bs_from (build_step file applied (start, slot) s) = start + length (es_old ?spec)"
    unfolding step a(1) by simp
  show "built file (us @ ?kept @ new_units (file_units file) ?spec start) (build_step file applied (start, slot) s)"
    unfolding built_def step a(1)
    by (simp add: keep_change_frame, simp add: t bb newlen fst_new_units fit a(2) ok' del: length_append)
  show "\<exists>t. build_step file applied (start, slot) s = after_change file ?spec start (keep_change ?spec slot t) \<and>
      bs_kept t = bs_kept s \<and> bs_lastOther t = bs_lastOther s \<and> bs_length t = length (us @ ?kept) \<and>
      bs_line t = Suc (count_list (map fst (us @ ?kept)) LF) \<and>
      bs_kept (build_step file applied (start, slot) s) = bs_kept (keep_change ?spec slot t)"
    by (rule exI [of _ ?t]) (simp add: step a(1), simp add: t bb)
qed

lemma build_steps_built:
  assumes "decoded file" "built file us s" "reps_fit applied (bs_from s) (length (file_units file)) reps"
  shows "\<exists>vs. built file vs (fold (build_step file applied) reps s) \<and>
     vs @ drop (bs_from (fold (build_step file applied) reps s)) (file_units file) =
     us @ edit_units (file_units file) (bs_from s) (map (\<lambda>(start, slot). (start, spec_of applied slot)) reps)"
  using assms(2,3)
proof (induction reps arbitrary: us s)
  case (Cons r reps)
  obtain start slot where r: "r = (start, slot)" by (cases r)
  let ?s = "build_step file applied (start, slot) s"
  have fit: "bs_from s \<le> start" "reps_fit applied (start + length (es_old (spec_of applied slot))) (length (file_units file)) reps"
    using Cons.prems(2) by (auto simp: r)
  note st = build_step_built [OF assms(1) Cons.prems(1) fit(1) reps_fit_le [OF fit(2)]]
  from Cons.IH [OF st(1)] fit(2) st(2) show ?case by (auto simp: r)
qed auto

theorem build_text_edits_units:
  assumes "decoded file" "reps_fit applied 0 (length (file_units file)) reps"
  defines "us \<equiv> edit_units (file_units file) 0 (map (\<lambda>(start, slot). (start, spec_of applied slot)) reps)"
  shows "tb_text (bs_out (build_text file applied reps)) = spell us"
    and "tb_text (bs_updated (build_text file applied reps)) = map fst us"
proof -
  let ?s = "fold (build_step file applied) reps (build_start file applied)"
  have next_start: "next_ok (ft_value file) 0 (index_of (ft_value file) [LF] 0)"
    by (auto simp: next_ok_def)
  have "built file [] (build_start file applied)" "bs_from (build_start file applied) = 0"
    using next_start by (auto simp: built_def build_start_def feed_ok_def)
  then obtain vs where vs: "built file vs ?s" "vs @ drop (bs_from ?s) (file_units file) = us"
    using build_steps_built [OF assms(1), of "[]" "build_start file applied" applied reps] assms(2)
    unfolding us_def by auto
  have b: "bs_rawFrom ?s = length (spell (take (bs_from ?s) (file_units file)))"
    "tb_text (bs_out ?s) = spell vs" "tb_text (bs_updated ?s) = map fst vs"
    using vs(1) by (auto simp: built_def)
  note ds = decoded_simps [OF assms(1)]
  show "tb_text (bs_out (build_text file applied reps)) = spell us"
    using b(1,2) spell_drop [of "bs_from ?s" "file_units file"]
    by (simp add: build_text_def Let_def ds(1) vs(2) [symmetric])
  show "tb_text (bs_updated (build_text file applied reps)) = map fst us"
    using b(3) by (simp add: build_text_def Let_def ds(2) vs(2) [symmetric] drop_map)
qed

end
