(* ===== verification/Edit_Clashes.thy ===== *)
theory Edit_Clashes
  imports Edit_Plan_Proofs
begin

section \<open>Clashes and the order of replacements\<close>

text \<open>
  The replacements of all edits, in file order, and the search for two that overlap. The
  code links past replacements whose edit is already named; the reference compares every
  replacement with those after it. The two name the same clashes, and without a clash no
  two replacements overlap.
\<close>

subsection \<open>The reference\<close>

definition rep_spec :: "applied_edit list \<Rightarrow> (nat \<times> nat) list \<Rightarrow> nat \<Rightarrow> edit_spec" where
  "rep_spec applied reps j = fst (applied ! snd (reps ! j))"

definition rep_end :: "applied_edit list \<Rightarrow> (nat \<times> nat) list \<Rightarrow> nat \<Rightarrow> nat" where
  "rep_end applied reps i = fst (reps ! i) + length (es_old (rep_spec applied reps i))"

definition compare_reps :: "applied_edit list \<Rightarrow> (nat \<times> nat) list \<Rightarrow> nat \<Rightarrow> nat \<Rightarrow> clash_state \<Rightarrow> clash_state" where
  "compare_reps applied reps i j s =
     (if es_index (rep_spec applied reps j) \<in> set (cl_named s) then s
      else name_clash (rep_spec applied reps i) (fst (reps ! i)) (rep_spec applied reps j) (fst (reps ! j)) s)"

definition overlapped :: "applied_edit list \<Rightarrow> (nat \<times> nat) list \<Rightarrow> nat \<Rightarrow> nat \<Rightarrow> nat list" where
  "overlapped applied reps i j = takeWhile (\<lambda>j. fst (reps ! j) < rep_end applied reps i) [j..<length reps]"

definition compare_all :: "applied_edit list \<Rightarrow> (nat \<times> nat) list \<Rightarrow> clash_state \<Rightarrow> clash_state" where
  "compare_all applied reps s =
     fold (\<lambda>i. fold (compare_reps applied reps i) (overlapped applied reps i (i + 1))) [0..<length reps] s"

definition all_clashes :: "applied_edit list \<Rightarrow> (nat \<times> nat) list \<Rightarrow> (nat \<times> nat \<times> nat \<times> bool) list" where
  "all_clashes applied reps =
     cl_clashes (compare_all applied reps \<lparr>cl_links = [], cl_named = [], cl_pairs = [], cl_clashes = []\<rparr>)"

subsection \<open>Links\<close>

definition links_ok :: "nat \<Rightarrow> (nat \<Rightarrow> bool) \<Rightarrow> nat list \<Rightarrow> bool" where
  "links_ok n skip L \<longleftrightarrow> length L = n + 1 \<and>
     (\<forall>k \<le> n. k \<le> L ! k \<and> L ! k \<le> n \<and> (\<forall>x. k \<le> x \<and> x < L ! k \<longrightarrow> skip x))"

lemma links_okD:
  assumes "links_ok n skip L" "k \<le> n"
  shows "k \<le> L ! k" "L ! k \<le> n" "k \<le> x \<Longrightarrow> x < L ! k \<Longrightarrow> skip x" "length L = n + 1"
  using assms by (auto simp: links_ok_def)

lemma links_ok_mono: "links_ok n skip L \<Longrightarrow> (\<And>x. skip x \<Longrightarrow> skip' x) \<Longrightarrow> links_ok n skip' L"
  unfolding links_ok_def by blast

lemma links_ok_update:
  assumes "links_ok n skip L" "k \<le> f" "f \<le> n" "\<And>x. k \<le> x \<Longrightarrow> x < f \<Longrightarrow> skip x"
  shows "links_ok n skip (L[k := f])"
  unfolding links_ok_def
proof (intro conjI allI impI)
  show "length (L[k := f]) = n + 1" using assms(1) by (simp add: links_ok_def)
  fix j
  assume j: "j \<le> n"
  note d = links_okD [OF assms(1) j]
  show "j \<le> L[k := f] ! j" "L[k := f] ! j \<le> n"
    using d(1,2,4) assms(2,3) j by (cases "j = k"; simp)+
  fix x
  assume "j \<le> x \<and> x < L[k := f] ! j"
  then show "skip x" using d(3,4) assms(4) j by (cases "j = k") auto
qed

inductive leads :: "nat list \<Rightarrow> nat \<Rightarrow> nat \<Rightarrow> bool" where
  here: "L ! f = f \<Longrightarrow> leads L f f"
| there: "L ! k \<noteq> k \<Longrightarrow> leads L (L ! k) f \<Longrightarrow> leads L k f"

inductive_cases leads_from: "leads L k f"

lemma link_end_unfold: "link_end L k = (if L ! k \<noteq> k then link_end L (L ! k) else k)"
  unfolding link_end_def by (subst while_unfold) simp

lemma leads_link_end:
  assumes "links_ok n skip L" "k \<le> n" shows "leads L k (link_end L k)"
  using assms(2)
proof (induction "n - k" arbitrary: k rule: less_induct)
  case less
  note d = links_okD [OF assms(1) less.prems]
  show ?case
  proof (cases "L ! k = k")
    case True
    then show ?thesis by (subst link_end_unfold) (simp add: here)
  next
    case False
    then have "n - L ! k < n - k" using d(1,2) by linarith
    then have "leads L (L ! k) (link_end L (L ! k))" using less.hyps d(2) by blast
    then show ?thesis using False by (subst link_end_unfold) (simp add: there)
  qed
qed

lemma leads_bounds:
  assumes "leads L k f" "links_ok n skip L" "k \<le> n"
  shows "k \<le> f \<and> f \<le> n \<and> L ! f = f \<and> (\<forall>x. k \<le> x \<and> x < f \<longrightarrow> skip x)"
  using assms
proof (induction rule: leads.induct)
  case (there L k f)
  note d = links_okD [OF there.prems]
  have IH: "L ! k \<le> f" "f \<le> n" "L ! f = f" "\<forall>x. L ! k \<le> x \<and> x < f \<longrightarrow> skip x"
    using there.IH [OF there.prems(1) d(2)] by blast+
  have "skip x" if "k \<le> x \<and> x < f" for x
    using that d(3) [of x] IH(4) by (cases "x < L ! k") auto
  then show ?case using d(1) IH by auto
qed auto

lemma leads_update:
  assumes "leads L j f" "links_ok n skip L" "k < j" "j \<le> n" shows "leads (L[k := v]) j f"
  using assms
proof (induction rule: leads.induct)
  case (here L f)
  then show ?case by (intro leads.here) simp
next
  case (there L j f)
  note d = links_okD [OF there.prems(1,3)]
  have "leads (L[k := v]) (L ! j) f"
    by (rule there.IH [OF there.prems(1)]) (use d(1,2) there.prems(2) in simp_all)
  moreover have "L[k := v] ! j = L ! j" using there.prems(2) by simp
  ultimately show ?case using there.hyps(1) leads.there [of "L[k := v]" j f] by simp
qed

lemma shorten_ok:
  assumes "links_ok n skip L" "k \<le> n" "leads L k found"
  shows "links_ok n skip (shorten L k found)"
proof -
  let ?P = "\<lambda>(k, L). links_ok n skip L \<and> k \<le> n \<and> leads L k found"
  have step: "?P (L ! k, L[k := found]) \<and> k < L ! k \<and> L ! k \<le> n"
    if P: "?P (k, L)" and more: "L ! k \<noteq> found" for k L
  proof -
    have ok: "links_ok n skip L" "k \<le> n" "leads L k found" using P by auto
    note d = links_okD [OF ok(1,2)] and b = leads_bounds [OF ok(3,1,2)]
    have ne: "L ! k \<noteq> k" using ok(3) more by (auto elim: leads_from)
    then have lt: "k < L ! k" using d(1) by simp
    have "leads L (L ! k) found" using ok(3) ne by (auto elim: leads_from)
    then have "leads (L[k := found]) (L ! k) found"
      by (rule leads_update [OF _ ok(1) lt d(2)])
    moreover have "links_ok n skip (L[k := found])"
      by (rule links_ok_update [OF ok(1)]) (use b in blast)+
    ultimately show ?thesis using d(2) lt by blast
  qed
  show ?thesis
    unfolding shorten_def
  proof (rule while_rule [where P = ?P and r = "measure (\<lambda>(k, L). n - k)"])
    show "?P (k, L)" using assms by simp
    fix s
    assume "?P s" "case s of (k, L) \<Rightarrow> L ! k \<noteq> found"
    then show "?P (case s of (k, L) \<Rightarrow> (L ! k, L[k := found]))"
      using step [of "fst s" "snd s"] by (cases s) auto
  next
    fix s
    assume "?P s" "case s of (k, L) \<Rightarrow> L ! k \<noteq> found"
    then show "(case s of (k, L) \<Rightarrow> (L ! k, L[k := found]), s) \<in> measure (\<lambda>(k, L). n - k)"
      using step [of "fst s" "snd s"] by (cases s) auto
  qed auto
qed

lemma laterFrom_exact:
  assumes "links_ok n skip (cl_links s)" "k \<le> n" "laterFrom k s = (j, t)"
  shows "k \<le> j \<and> j \<le> n \<and> (\<forall>x. k \<le> x \<and> x < j \<longrightarrow> skip x) \<and> links_ok n skip (cl_links t) \<and>
     cl_named t = cl_named s \<and> cl_pairs t = cl_pairs s \<and> cl_clashes t = cl_clashes s"
  using shorten_ok [OF assms(1,2) leads_link_end [OF assms(1,2)]]
    leads_bounds [OF leads_link_end [OF assms(1,2)] assms(1,2)] assms(3)
  by (auto simp: laterFrom_def Let_def)

subsection \<open>The linked search names what the reference names\<close>

definition same_clashes :: "clash_state \<Rightarrow> clash_state \<Rightarrow> bool" where
  "same_clashes s t \<longleftrightarrow> cl_named s = cl_named t \<and> cl_pairs s = cl_pairs t \<and> cl_clashes s = cl_clashes t"

lemma same_compare: "same_clashes s t \<Longrightarrow> same_clashes (compare_reps applied reps i j s) (compare_reps applied reps i j t)"
  by (auto simp: same_clashes_def compare_reps_def name_clash_def Let_def)

lemma same_compare_fold:
  "same_clashes s t \<Longrightarrow> same_clashes (fold (compare_reps applied reps i) ks s) (fold (compare_reps applied reps i) ks t)"
  by (induction ks arbitrary: s t) (simp_all add: same_compare)

lemma same_clashes_trans: "same_clashes s t \<Longrightarrow> same_clashes t u \<Longrightarrow> same_clashes s u"
  by (simp add: same_clashes_def)

definition named_rep :: "applied_edit list \<Rightarrow> (nat \<times> nat) list \<Rightarrow> clash_state \<Rightarrow> nat \<Rightarrow> bool" where
  "named_rep applied reps s x \<longleftrightarrow> es_index (rep_spec applied reps x) \<in> set (cl_named s)"

lemma overlapped_step:
  "j < length reps \<Longrightarrow> overlapped applied reps i j =
     (if fst (reps ! j) < rep_end applied reps i then j # overlapped applied reps i (j + 1) else [])"
  by (simp add: overlapped_def upt_conv_Cons)

lemma skip_named:
  assumes "sorted (map fst reps)" "k \<le> j" "j \<le> length reps" "\<forall>x. k \<le> x \<and> x < j \<longrightarrow> named_rep applied reps s x"
  shows "fold (compare_reps applied reps i) (overlapped applied reps i k) s =
     fold (compare_reps applied reps i) (overlapped applied reps i j) s"
  using assms(2-)
proof (induction "j - k" arbitrary: k)
  case (Suc d)
  then have k: "k < j" "k < length reps" by auto
  have IH: "fold (compare_reps applied reps i) (overlapped applied reps i (k + 1)) s =
      fold (compare_reps applied reps i) (overlapped applied reps i j) s"
    by (rule Suc.hyps(1)) (use Suc.prems Suc.hyps(2) k in auto)
  show ?case
  proof (cases "fst (reps ! k) < rep_end applied reps i")
    case True
    have "compare_reps applied reps i k s = s"
      using Suc.prems(3) k by (simp add: compare_reps_def named_rep_def)
    then show ?thesis using True IH k by (simp add: overlapped_step)
  next
    case False
    have "overlapped applied reps i j = []"
    proof (cases "j < length reps")
      case True
      then have "fst (reps ! k) \<le> fst (reps ! j)"
        using sorted_nth_mono [OF assms(1), of k j] k by simp
      then show ?thesis using False True by (simp add: overlapped_step)
    qed (simp add: overlapped_def)
    then show ?thesis using False k by (simp add: overlapped_step)
  qed
qed simp

lemma name_clash_links [simp]: "cl_links (name_clash a p b q s) = cl_links s"
  by (simp add: name_clash_def Let_def)

lemma name_clash_named: "set (cl_named s) \<subseteq> set (cl_named (name_clash a p b q s))"
  by (auto simp: name_clash_def Let_def)

lemma clash_inner:
  assumes "sorted (map fst reps)" "j \<le> length reps" "links_ok (length reps) (named_rep applied reps s) (cl_links s)"
  shows "\<exists>j' s'. while (\<lambda>(j, s). j < length reps \<and> fst (reps ! j) < rep_end applied reps i)
       (clash_step applied reps i) (j, s) = (j', s') \<and>
     same_clashes s' (fold (compare_reps applied reps i) (overlapped applied reps i j) s) \<and>
     links_ok (length reps) (named_rep applied reps s') (cl_links s')"
  using assms(2,3)
proof (induction "length reps - j" arbitrary: j s rule: less_induct)
  case less
  let ?n = "length reps" and ?b = "\<lambda>(j, s). j < length reps \<and> fst (reps ! j) < rep_end applied reps i"
  show ?case
  proof (cases "?b (j, s)")
    case False
    then have w: "while ?b (clash_step applied reps i) (j, s) = (j, s)"
      by (subst while_unfold) (simp only: if_False)
    have "overlapped applied reps i j = []"
      using False by (cases "j < ?n") (auto simp: overlapped_step, simp add: overlapped_def)
    then show ?thesis using w less.prems by (auto simp: same_clashes_def)
  next
    case True
    then have j: "j < ?n" "fst (reps ! j) < rep_end applied reps i" by auto
    let ?s1 = "compare_reps applied reps i j s"
    define t where "t = (if named_rep applied reps s j then s\<lparr>cl_links := (cl_links s)[j := j + 1]\<rparr> else ?s1)"
    have step: "clash_step applied reps i (j, s) = laterFrom (j + 1) t"
      by (simp add: clash_step_def t_def named_rep_def compare_reps_def rep_spec_def Let_def)
    have same_t: "same_clashes t ?s1"
      by (simp add: t_def same_clashes_def named_rep_def compare_reps_def)
    have ok_t: "links_ok ?n (named_rep applied reps t) (cl_links t)"
    proof (cases "named_rep applied reps s j")
      case True
      have "named_rep applied reps t = named_rep applied reps s"
        using True by (simp add: t_def named_rep_def fun_eq_iff)
      moreover have "links_ok ?n (named_rep applied reps s) ((cl_links s)[j := j + 1])"
        by (rule links_ok_update [OF less.prems(2)]) (use True j(1) in \<open>auto simp: less_Suc_eq_le dest: le_antisym\<close>)
      ultimately show ?thesis using True by (simp add: t_def)
    next
      case False
      have "named_rep applied reps s x \<Longrightarrow> named_rep applied reps t x" for x
        using False subsetD [OF name_clash_named] by (auto simp: t_def named_rep_def compare_reps_def)
      moreover have "cl_links t = cl_links s"
        using False by (simp add: t_def compare_reps_def named_rep_def)
      ultimately show ?thesis using links_ok_mono [OF less.prems(2)] by simp
    qed
    obtain j2 s2 where l: "laterFrom (j + 1) t = (j2, s2)" by fastforce
    have "j + 1 \<le> ?n" using j(1) by simp
    note r = laterFrom_exact [OF ok_t this l]
    have same2: "same_clashes s2 t" using r by (simp add: same_clashes_def)
    have nr2: "named_rep applied reps s2 = named_rep applied reps t"
      using same2 by (simp add: named_rep_def same_clashes_def fun_eq_iff)
    have ok2: "links_ok ?n (named_rep applied reps s2) (cl_links s2)" using r nr2 by simp
    have dec: "?n - j2 < ?n - j" using r j(1) by linarith
    from less.hyps [OF dec _ ok2] r obtain j' s' where w: "while ?b (clash_step applied reps i) (j2, s2) = (j', s')"
      "same_clashes s' (fold (compare_reps applied reps i) (overlapped applied reps i j2) s2)"
      "links_ok ?n (named_rep applied reps s') (cl_links s')"
      by blast
    have "while ?b (clash_step applied reps i) (j, s) = (j', s')"
      using True w(1) by (subst while_unfold) (simp only: prod.case True if_True step l simp_thms)
    moreover have "same_clashes s' (fold (compare_reps applied reps i) (overlapped applied reps i j) s)"
    proof -
      have "fold (compare_reps applied reps i) (overlapped applied reps i j2) s2 =
          fold (compare_reps applied reps i) (overlapped applied reps i (j + 1)) s2"
        by (rule skip_named [OF assms(1), symmetric]) (use r nr2 in auto)
      moreover have "same_clashes (fold (compare_reps applied reps i) (overlapped applied reps i (j + 1)) s2)
          (fold (compare_reps applied reps i) (overlapped applied reps i (j + 1)) ?s1)"
        by (rule same_compare_fold) (use same2 same_t same_clashes_trans in blast)
      ultimately show ?thesis
        using w(2) j by (simp add: overlapped_step same_clashes_trans)
    qed
    ultimately show ?thesis using w(3) by blast
  qed
qed

lemma clash_loop_exact:
  assumes "sorted (map fst reps)" "i < length reps" "links_ok (length reps) (named_rep applied reps s) (cl_links s)"
  shows "same_clashes (clash_loop applied reps i s) (fold (compare_reps applied reps i) (overlapped applied reps i (i + 1)) s) \<and>
     links_ok (length reps) (named_rep applied reps (clash_loop applied reps i s)) (cl_links (clash_loop applied reps i s))"
proof -
  obtain j t where l: "laterFrom (i + 1) s = (j, t)" by fastforce
  have i1: "i + 1 \<le> length reps" using assms(2) by simp
  note r = laterFrom_exact [OF assms(3) i1 l]
  have same: "same_clashes t s" using r by (simp add: same_clashes_def)
  have nr: "named_rep applied reps t = named_rep applied reps s"
    using same by (simp add: named_rep_def same_clashes_def fun_eq_iff)
  have ok: "links_ok (length reps) (named_rep applied reps t) (cl_links t)" using r nr by simp
  obtain j' s' where w: "while (\<lambda>(j, s). j < length reps \<and> fst (reps ! j) < rep_end applied reps i)
       (clash_step applied reps i) (j, t) = (j', s')"
    "same_clashes s' (fold (compare_reps applied reps i) (overlapped applied reps i j) t)"
    "links_ok (length reps) (named_rep applied reps s') (cl_links s')"
    using clash_inner [OF assms(1) _ ok, of j i] r by blast
  have e: "clash_loop applied reps i s = s'"
    using w(1) unfolding clash_loop_def l rep_end_def rep_spec_def Let_def by (simp only: snd_conv)
  have "fold (compare_reps applied reps i) (overlapped applied reps i j) t =
      fold (compare_reps applied reps i) (overlapped applied reps i (i + 1)) t"
    by (rule skip_named [OF assms(1), symmetric]) (use r nr in auto)
  moreover have "same_clashes (fold (compare_reps applied reps i) (overlapped applied reps i (i + 1)) t)
      (fold (compare_reps applied reps i) (overlapped applied reps i (i + 1)) s)"
    using same by (rule same_compare_fold)
  ultimately show ?thesis using w(2,3) same_clashes_trans unfolding e by metis
qed

lemma clash_loops_exact:
  assumes "sorted (map fst reps)" "links_ok (length reps) (named_rep applied reps s) (cl_links s)" "same_clashes s t"
    and "set is \<subseteq> {..< length reps}"
  shows "same_clashes (fold (clash_loop applied reps) is s)
     (fold (\<lambda>i. fold (compare_reps applied reps i) (overlapped applied reps i (i + 1))) is t)"
  using assms(2-)
proof (induction "is" arbitrary: s t)
  case (Cons i "is")
  have i: "i < length reps" using Cons.prems(3) by simp
  note c = clash_loop_exact [OF assms(1) i Cons.prems(1)]
  have "same_clashes (clash_loop applied reps i s) (fold (compare_reps applied reps i) (overlapped applied reps i (i + 1)) t)"
    using c same_compare_fold [OF Cons.prems(2)] same_clashes_trans by blast
  then show ?case using Cons.IH c Cons.prems(3) by simp
qed simp

lemma find_clashes_exact:
  assumes "sorted (map fst reps)" "1 < length applied"
  shows "find_clashes applied reps = all_clashes applied reps"
proof -
  let ?s = "\<lparr>cl_links = [0..<length reps + 1], cl_named = [], cl_pairs = [], cl_clashes = []\<rparr>"
  have ok: "links_ok (length reps) (named_rep applied reps ?s) (cl_links ?s)"
    by (auto simp: links_ok_def nth_append simp del: upt_Suc)
  have "same_clashes (fold (clash_loop applied reps) [0..<length reps] ?s)
     (compare_all applied reps \<lparr>cl_links = [], cl_named = [], cl_pairs = [], cl_clashes = []\<rparr>)"
    unfolding compare_all_def
    by (rule clash_loops_exact [OF assms(1) ok]) (auto simp: same_clashes_def)
  then show ?thesis
    using assms(2) by (simp add: find_clashes_def all_clashes_def same_clashes_def)
qed

subsection \<open>The replacements of all edits\<close>

definition starts_of :: "applied_edit list \<Rightarrow> nat \<Rightarrow> nat list" where
  "starts_of applied slot = fst (snd (applied ! slot))"

definition all_reps :: "applied_edit list \<Rightarrow> (nat \<times> nat) list" where
  "all_reps applied = concat (map (\<lambda>slot. map (\<lambda>start. (start, slot)) (starts_of applied slot)) [0..<length applied])"

definition rep_of_key :: "nat \<Rightarrow> nat \<Rightarrow> nat \<times> nat" where
  "rep_of_key n key = ((key - key mod n) div n, key mod n)"

lemma rep_of_key_exact: "slot < n \<Longrightarrow> rep_of_key n (start * n + slot) = (start, slot)"
  by (simp add: rep_of_key_def)

lemma fst_rep_of_key: "fst (rep_of_key n key) = key div n"
  by (simp add: rep_of_key_def minus_mod_eq_mult_div)

lemma map_rep_keys: "map (rep_of_key (length applied)) (replacement_keys applied) = all_reps applied"
  unfolding replacement_keys_def all_reps_def starts_of_def map_concat
  by (intro arg_cong [where f = concat]) (auto simp: rep_of_key_exact)

lemma mset_replacements: "mset (replacements applied) = mset (all_reps applied)"
proof (cases "1 < length applied")
  case True
  have "mset (replacements applied) = image_mset (rep_of_key (length applied)) (mset (sort (replacement_keys applied)))"
    using True by (simp add: replacements_def rep_of_key_def [abs_def])
  also have "\<dots> = mset (all_reps applied)"
    by (simp add: map_rep_keys [symmetric])
  finally show ?thesis .
next
  case False
  then show ?thesis
    by (cases applied) (auto simp: replacements_def all_reps_def starts_of_def)
qed

lemma sorted_replacements:
  assumes "\<And>slot. slot < length applied \<Longrightarrow> sorted (starts_of applied slot)"
  shows "sorted (map fst (replacements applied))"
proof (cases "1 < length applied")
  case True
  have "map fst (replacements applied) = map (\<lambda>key. key div length applied) (sort (replacement_keys applied))"
    using True by (simp add: replacements_def rep_of_key_def [symmetric] fst_rep_of_key o_def)
  moreover have "sorted (map (\<lambda>key. key div length applied) (sort (replacement_keys applied)))"
    by (rule sorted_map_mono) (auto intro!: div_le_mono mono_onI)
  ultimately show ?thesis by simp
next
  case False
  then show ?thesis
    using assms [of 0] by (cases applied) (auto simp: replacements_def starts_of_def o_def)
qed

lemma distinct_tagged:
  "distinct slots \<Longrightarrow> (\<And>slot. slot \<in> set slots \<Longrightarrow> distinct (f slot)) \<Longrightarrow>
     distinct (concat (map (\<lambda>slot. map (\<lambda>start. (start, slot)) (f slot)) slots))"
  by (induction slots) (auto simp: distinct_map inj_on_def)

lemma distinct_replacements:
  assumes "\<And>slot. slot < length applied \<Longrightarrow> distinct (starts_of applied slot)"
  shows "distinct (replacements applied)"
proof -
  have "distinct (all_reps applied)"
    unfolding all_reps_def by (rule distinct_tagged) (auto simp: assms)
  then show ?thesis using mset_replacements mset_eq_imp_distinct_iff by blast
qed

lemma in_replacements:
  "(start, slot) \<in> set (replacements applied) \<longleftrightarrow> slot < length applied \<and> start \<in> set (starts_of applied slot)"
proof -
  have "set (replacements applied) = set (all_reps applied)"
    using mset_replacements by (metis set_mset_mset)
  then show ?thesis by (auto simp: all_reps_def)
qed

lemma no_overlap_apart:
  "\<not> overlaps len ps \<Longrightarrow> sorted_wrt (\<lambda>p q. p + len \<le> q) ps"
proof (induction len ps rule: overlaps.induct)
  case (1 len p q ps)
  then show ?case by fastforce
qed auto

subsection \<open>Without a clash nothing overlaps\<close>

lemma name_clash_grows: "\<exists>cs. cl_clashes (name_clash a p b q s) = cl_clashes s @ cs"
  by (auto simp: name_clash_def Let_def)

lemma compare_grows: "\<exists>cs. cl_clashes (compare_reps applied reps i j s) = cl_clashes s @ cs"
  unfolding compare_reps_def using name_clash_grows by (cases "es_index (rep_spec applied reps j) \<in> set (cl_named s)") simp_all

lemma compare_fold_grows: "\<exists>cs. cl_clashes (fold (compare_reps applied reps i) ks s) = cl_clashes s @ cs"
proof (induction ks arbitrary: s)
  case (Cons k ks)
  obtain cs where "cl_clashes (compare_reps applied reps i k s) = cl_clashes s @ cs"
    using compare_grows by blast
  then show ?case using Cons.IH [of "compare_reps applied reps i k s"] by auto
qed simp

lemma compare_all_grows:
  "\<exists>cs. cl_clashes (fold (\<lambda>i. fold (compare_reps applied reps i) (overlapped applied reps i (i + 1))) is s) = cl_clashes s @ cs"
proof (induction "is" arbitrary: s)
  case (Cons i "is")
  obtain cs where "cl_clashes (fold (compare_reps applied reps i) (overlapped applied reps i (i + 1)) s) = cl_clashes s @ cs"
    using compare_fold_grows by blast
  then show ?case
    using Cons.IH [of "fold (compare_reps applied reps i) (overlapped applied reps i (i + 1)) s"] by auto
qed simp

definition fresh_clashes :: "clash_state \<Rightarrow> bool" where
  "fresh_clashes s \<longleftrightarrow> cl_named s = [] \<and> cl_pairs s = [] \<and> cl_clashes s = []"

lemma compare_fresh:
  assumes "fresh_clashes s" "cl_clashes (compare_reps applied reps i j s) = []"
  shows "compare_reps applied reps i j s = s" "es_index (rep_spec applied reps i) = es_index (rep_spec applied reps j)"
  using assms by (auto simp: fresh_clashes_def compare_reps_def name_clash_def Let_def min_def max_def split: if_splits)

lemma compare_fold_fresh:
  assumes "fresh_clashes s" "cl_clashes (fold (compare_reps applied reps i) ks s) = []"
  shows "fold (compare_reps applied reps i) ks s = s \<and>
     (\<forall>j \<in> set ks. es_index (rep_spec applied reps i) = es_index (rep_spec applied reps j))"
  using assms(2)
proof (induction ks)
  case (Cons k ks)
  have "cl_clashes (compare_reps applied reps i k s) = []"
    using Cons.prems compare_fold_grows [of applied reps i ks "compare_reps applied reps i k s"] by auto
  note c = compare_fresh [OF assms(1) this]
  then show ?case using Cons by simp
qed simp

lemma compare_all_fresh:
  assumes "fresh_clashes s"
    "cl_clashes (fold (\<lambda>i. fold (compare_reps applied reps i) (overlapped applied reps i (i + 1))) is s) = []"
    "i \<in> set is" "j \<in> set (overlapped applied reps i (i + 1))"
  shows "es_index (rep_spec applied reps i) = es_index (rep_spec applied reps j)"
  using assms(2,3)
proof (induction "is")
  case (Cons k "is")
  let ?t = "fold (compare_reps applied reps k) (overlapped applied reps k (k + 1)) s"
  have "cl_clashes ?t = []"
    using Cons.prems(1) compare_all_grows [of applied reps "is" ?t] by auto
  note f = compare_fold_fresh [OF assms(1) this]
  show ?case
  proof (cases "i = k")
    case True
    then show ?thesis using f assms(4) by blast
  next
    case False
    then show ?thesis using Cons f by simp
  qed
qed simp

lemma no_clash_same_edit:
  assumes "all_clashes applied reps = []" "sorted (map fst reps)" "i < j" "j < length reps"
    and "fst (reps ! j) < rep_end applied reps i"
  shows "es_index (rep_spec applied reps i) = es_index (rep_spec applied reps j)"
proof -
  have "j \<in> set (overlapped applied reps i (i + 1))"
    unfolding overlapped_def
  proof -
    have all: "fst (reps ! k) < rep_end applied reps i" if "i + 1 \<le> k" "k \<le> j" for k
      using sorted_nth_mono [OF assms(2), of k j] that assms(4,5) by simp
    have "[i + 1..<length reps] = [i + 1..<j + 1] @ [j + 1..<length reps]"
      using assms(3,4) by (metis add_mono_thms_linordered_field(1) less_iff_Suc_add le_add_diff_inverse less_imp_le_nat Suc_leI Suc_eq_plus1 upt_add_eq_append)
    then have "takeWhile (\<lambda>j. fst (reps ! j) < rep_end applied reps i) [i + 1..<length reps] =
        [i + 1..<j + 1] @ takeWhile (\<lambda>j. fst (reps ! j) < rep_end applied reps i) [j + 1..<length reps]"
      using all by (subst (1) \<open>[i + 1..<length reps] = _\<close>, subst takeWhile_append2) auto
    then show "j \<in> set (takeWhile (\<lambda>j. fst (reps ! j) < rep_end applied reps i) [i + 1..<length reps])"
      using assms(3) by auto
  qed
  then show ?thesis
    using compare_all_fresh [of "\<lparr>cl_links = [], cl_named = [], cl_pairs = [], cl_clashes = []\<rparr>" applied reps "[0..<length reps]" i j]
      assms(1,3,4) by (auto simp: all_clashes_def compare_all_def fresh_clashes_def)
qed

end
