(* ===== verification/Closest_Region.thy ===== *)
theory Closest_Region
  imports Edit_Match_Proofs
begin

section \<open>The closest region is the most similar line\<close>

text \<open>
  The scoring loop of \<open>closestRegion\<close> in \<open>src/modules/workspace/edit-plan.ts\<close>, with its slots,
  counters and the list of counters to reset, computes for every line the Dice coefficient
  of the line's bigrams and the probe's as multisets, and keeps the first line of the
  greatest.
\<close>

definition gram_list :: "jsstring \<Rightarrow> jsstring list" where
  "gram_list s = map (gram_at s) [0..<length s - 1]"

definition dice :: "jsstring \<Rightarrow> jsstring \<Rightarrow> rat" where
  "dice a b =
     (let total = (length a - 1) + (length b - 1)
      in if total = 0 then 0
         else of_nat (2 * size (mset (gram_list a) \<inter># mset (gram_list b))) / of_nat total)"

subsection \<open>Counting the probe's bigrams\<close>

definition tally_gram :: "'k \<Rightarrow> ('k, nat) jsmap \<Rightarrow> ('k, nat) jsmap" where
  "tally_gram g counts = AList.update g ((case map_of counts g of None \<Rightarrow> 0 | Some n \<Rightarrow> n) + 1) counts"

lemma tally_fold:
  "map_of (fold tally_gram gs counts) g =
     (let n = count_list gs g in
      if n = 0 then map_of counts g else Some (n + (case map_of counts g of None \<Rightarrow> 0 | Some m \<Rightarrow> m)))"
  by (induction gs arbitrary: counts) (auto simp: tally_gram_def Let_def split: option.splits)

lemma tally_distinct: "distinct (keys counts) \<Longrightarrow> distinct (keys (fold tally_gram gs counts))"
  by (induction gs arbitrary: counts) (auto simp: tally_gram_def)

lemma grams_tally: "grams s = fold tally_gram (gram_list s) []"
  unfolding grams_def gram_list_def fold_map o_def tally_gram_def ..

lemma grams_distinct: "distinct (keys (grams s))"
  by (simp add: grams_tally tally_distinct)

lemma grams_count: "map_of (grams s) g = (if count_list (gram_list s) g = 0 then None else Some (count_list (gram_list s) g))"
  by (simp add: grams_tally tally_fold Let_def)

lemma grams_nth:
  assumes "k < length (grams s)"
  shows "snd (grams s ! k) = count_list (gram_list s) (fst (grams s ! k))"
proof -
  have "map_of (grams s) (fst (grams s ! k)) = Some (snd (grams s ! k))"
    using assms grams_distinct [of s] by (metis map_of_is_SomeI nth_mem prod.collapse)
  then show ?thesis by (simp add: grams_count split: if_splits)
qed

lemma keys_grams: "set (keys (grams s)) = set (gram_list s)"
proof -
  have "g \<in> set (keys (grams s)) \<longleftrightarrow> g \<in> set (gram_list s)" for g
    using grams_count [of s g] by (metis count_list_0_iff map_of_eq_None_iff list.set_map option.distinct(1))
  then show ?thesis by blast
qed

lemma slot_of_Some:
  "distinct (keys gs) \<Longrightarrow> slot_of gs g = Some k \<longleftrightarrow> k < length gs \<and> fst (gs ! k) = g"
proof (induction gs arbitrary: k)
  case (Cons a gs)
  obtain h n where a: "a = (h, n)" by (cases a)
  show ?case
  proof (cases k)
    case 0
    then show ?thesis using Cons by (auto simp: a)
  next
    case (Suc j)
    have "h = g \<Longrightarrow> \<not> (j < length gs \<and> fst (gs ! j) = g)"
      using Cons.prems by (auto simp: a image_iff dest: nth_mem)
    then show ?thesis using Cons by (auto simp: a Suc)
  qed
qed simp

lemma slot_of_None: "slot_of gs g = None \<longleftrightarrow> g \<notin> set (keys gs)"
proof (induction gs)
  case (Cons a gs)
  then show ?case by (cases a) (auto split: if_splits)
qed simp

subsection \<open>Scoring a line\<close>

definition meets :: "(jsstring, nat) jsmap \<Rightarrow> jsstring list \<Rightarrow> nat list \<times> nat list \<times> nat \<Rightarrow> bool" where
  "meets gs seen = (\<lambda>(met, touched, shared).
     length met = length gs \<and> (\<forall>k < length gs. met ! k = count_list seen (fst (gs ! k))) \<and>
     shared = (\<Sum>k < length gs. min (met ! k) (snd (gs ! k))) \<and>
     (\<forall>k < length gs. met ! k \<noteq> 0 \<longrightarrow> k \<in> set touched) \<and> set touched \<subseteq> {..< length gs})"

lemma meets_start: "meets gs [] (replicate (length gs) 0, [], 0)"
  by (auto simp: meets_def)

lemma sum_update_min:
  fixes met :: "nat list"
  assumes "k < n" "n = length met"
  shows "(\<Sum>j < n. min ((met[k := Suc (met ! k)]) ! j) (most j)) =
     (if met ! k < most k then Suc (\<Sum>j < n. min (met ! j) (most j)) else (\<Sum>j < n. min (met ! j) (most j)))"
proof -
  have split: "sum f {..<n} = f k + sum f ({..<n} - {k})" for f :: "nat \<Rightarrow> nat"
    using assms(1) by (simp add: sum.remove)
  have rest: "(\<Sum>j \<in> {..<n} - {k}. min ((met[k := Suc (met ! k)]) ! j) (most j)) = (\<Sum>j \<in> {..<n} - {k}. min (met ! j) (most j))"
    by (rule sum.cong) auto
  show ?thesis
    unfolding split [of "\<lambda>j. min ((met[k := Suc (met ! k)]) ! j) (most j)"] split [of "\<lambda>j. min (met ! j) (most j)"] rest
    using assms by auto
qed

lemma meetsD:
  assumes "meets gs seen (met, touched, shared)"
  shows "length met = length gs" "k < length gs \<Longrightarrow> met ! k = count_list seen (fst (gs ! k))"
    "shared = (\<Sum>k < length gs. min (met ! k) (snd (gs ! k)))"
    "k < length gs \<Longrightarrow> met ! k \<noteq> 0 \<Longrightarrow> k \<in> set touched" "set touched \<subseteq> {..< length gs}"
  using assms unfolding meets_def by auto

lemma meetsI:
  assumes "length met = length gs" "\<And>k. k < length gs \<Longrightarrow> met ! k = count_list seen (fst (gs ! k))"
    "shared = (\<Sum>k < length gs. min (met ! k) (snd (gs ! k)))"
    "\<And>k. k < length gs \<Longrightarrow> met ! k \<noteq> 0 \<Longrightarrow> k \<in> set touched" "set touched \<subseteq> {..< length gs}"
  shows "meets gs seen (met, touched, shared)"
  using assms unfolding meets_def by blast

lemma meets_miss:
  assumes "meets gs seen (met, touched, shared)" "g \<notin> set (keys gs)"
  shows "meets gs (seen @ [g]) (met, touched, shared)"
proof (rule meetsI)
  fix k
  assume k: "k < length gs"
  have "fst (gs ! k) \<in> set (keys gs)" using nth_mem [OF k] by (metis image_eqI list.set_map)
  then have "g \<noteq> fst (gs ! k)" using assms(2) by metis
  then show "met ! k = count_list (seen @ [g]) (fst (gs ! k))"
    using meetsD(2) [OF assms(1) k] by simp
qed (use meetsD [OF assms(1)] in blast)+

lemma meets_hit:
  assumes "distinct (keys gs)" "meets gs seen (met, touched, shared)" "k < length gs" "fst (gs ! k) = g"
  shows "meets gs (seen @ [g]) (met[k := met ! k + 1], if met ! k = 0 then touched @ [k] else touched,
     if met ! k < snd (gs ! k) then shared + 1 else shared)"
proof (rule meetsI)
  note inv = meetsD [OF assms(2)]
  show "length (met[k := met ! k + 1]) = length gs" using inv(1) by simp
  show "(if met ! k < snd (gs ! k) then shared + 1 else shared) = (\<Sum>j < length gs. min (met[k := met ! k + 1] ! j) (snd (gs ! j)))"
    unfolding inv(3) by (rule sum_update_min [OF assms(3) inv(1) [symmetric], unfolded Suc_eq_plus1, symmetric])
  show "set (if met ! k = 0 then touched @ [k] else touched) \<subseteq> {..< length gs}"
    using inv(5) assms(3) by auto
  fix j
  assume j: "j < length gs"
  have "keys gs ! j = keys gs ! k \<longleftrightarrow> j = k"
    by (rule nth_eq_iff_index_eq [OF assms(1)]) (simp_all add: j assms(3))
  then have other: "fst (gs ! j) = g \<longleftrightarrow> j = k" using j assms(3,4) by simp
  show "met[k := met ! k + 1] ! j = count_list (seen @ [g]) (fst (gs ! j))"
    using inv(2) [OF j] other inv(1) j by (cases "j = k") auto
  show "j \<in> set (if met ! k = 0 then touched @ [k] else touched)" if "met[k := met ! k + 1] ! j \<noteq> 0"
    using that inv(4) [OF j] by (cases "j = k") (auto simp: inv(4) [OF assms(3)])
qed

lemma meets_step:
  assumes "distinct (keys gs)" "meets gs seen st"
  shows "meets gs (seen @ [gram_at trimmed p]) (meet_gram gs (map snd gs) trimmed p st)"
proof -
  obtain met touched shared where st: "st = (met, touched, shared)" by (cases st)
  show ?thesis
  proof (cases "slot_of gs (gram_at trimmed p)")
    case None
    then have "meets gs (seen @ [gram_at trimmed p]) (met, touched, shared)"
      using meets_miss assms(2) by (simp only: st slot_of_None)
    then show ?thesis
      using None by (simp add: st meet_gram_def)
  next
    case (Some k)
    then have k: "k < length gs" "fst (gs ! k) = gram_at trimmed p"
      using slot_of_Some [OF assms(1)] by auto
    then show ?thesis
      using meets_hit [OF assms(1), of seen met touched shared k] assms(2) Some by (simp add: st meet_gram_def)
  qed
qed

lemma meets_fold:
  assumes "distinct (keys gs)" "meets gs seen st"
  shows "meets gs (seen @ map (gram_at trimmed) ps) (fold (meet_gram gs (map snd gs) trimmed) ps st)"
  using assms(2)
proof (induction ps arbitrary: seen st)
  case (Cons p ps)
  from Cons.IH [OF meets_step [OF assms(1) Cons.prems]] show ?case by simp
qed simp

lemma reset_all:
  assumes "\<forall>k < length met. met ! k \<noteq> 0 \<longrightarrow> k \<in> set touched" "set touched \<subseteq> {..< length met}"
  shows "fold (\<lambda>k met. met[k := (0 :: nat)]) touched met = replicate (length met) 0"
  using assms
proof (induction touched arbitrary: met)
  case Nil
  then show ?case by (auto intro: nth_equalityI)
next
  case (Cons k touched)
  have "fold (\<lambda>k met. met[k := (0 :: nat)]) touched (met[k := 0]) = replicate (length (met[k := 0])) 0"
    by (rule Cons.IH) (use Cons.prems in \<open>auto simp: nth_list_update\<close>)
  then show ?case by simp
qed

lemma size_inter:
  fixes gs :: "('k \<times> nat) list"
  assumes "distinct (keys gs)" "set_mset A = set (keys gs)" "\<forall>k < length gs. snd (gs ! k) = count A (fst (gs ! k))"
  shows "(\<Sum>k < length gs. min (count B (fst (gs ! k))) (snd (gs ! k))) = size (A \<inter># B)"
proof -
  have "size (A \<inter># B) = (\<Sum>x \<in> set_mset (A \<inter># B). count (A \<inter># B) x)"
    by (rule size_multiset_overloaded_eq)
  also have "\<dots> = (\<Sum>x \<in> set (keys gs). count (A \<inter># B) x)"
  proof (rule sum.mono_neutral_left)
    show "set_mset (A \<inter># B) \<subseteq> set (keys gs)" using assms(2) by (metis inter_subset_eq_union mset_subset_eqD subset_mset.inf.cobounded1 subsetI)
    show "\<forall>x \<in> set (keys gs) - set_mset (A \<inter># B). count (A \<inter># B) x = 0" by (metis DiffE count_eq_zero_iff)
  qed simp
  also have "\<dots> = sum_list (map (count (A \<inter># B)) (keys gs))"
    using assms(1) by (simp only: sum_list_distinct_conv_sum_set)
  also have "\<dots> = (\<Sum>k < length gs. count (A \<inter># B) (keys gs ! k))"
    by (simp add: sum_list_sum_nth atLeast0LessThan)
  also have "\<dots> = (\<Sum>k < length gs. min (count B (fst (gs ! k))) (snd (gs ! k)))"
    by (rule sum.cong) (auto simp: assms(3) min.commute)
  finally show ?thesis ..
qed

lemma count_mset_list: "count (mset xs) x = count_list xs x"
  by (induction xs) auto

lemma score_line_exact:
  "score_line (grams probe) (map snd (grams probe)) (length probe - 1) (replicate (length (grams probe)) 0) line =
     (replicate (length (grams probe)) 0, dice probe (js_trim line))"
proof -
  let ?gs = "grams probe" and ?t = "js_trim line"
  obtain met touched shared where f:
    "fold (meet_gram ?gs (map snd ?gs) ?t) [0..<length ?t - 1] (replicate (length ?gs) 0, [], 0) = (met, touched, shared)"
    by (metis surj_pair)
  have m: "meets ?gs (gram_list ?t) (met, touched, shared)"
    using meets_fold [OF grams_distinct meets_start, of probe ?t "[0..<length ?t - 1]"] f by (simp add: gram_list_def)
  then have reset: "fold (\<lambda>k met. met[k := 0]) touched met = replicate (length ?gs) 0"
    using reset_all [of met touched] by (auto simp: meets_def)
  have "shared = (\<Sum>k < length ?gs. min (count (mset (gram_list ?t)) (fst (?gs ! k))) (snd (?gs ! k)))"
    using m by (simp add: meets_def count_mset_list)
  also have "\<dots> = size (mset (gram_list probe) \<inter># mset (gram_list ?t))"
    by (rule size_inter) (auto simp: grams_distinct keys_grams count_mset_list grams_nth simp del: set_map)
  finally show ?thesis
    unfolding score_line_def dice_def Let_def f prod.case reset by simp
qed

subsection \<open>The best line\<close>

definition likeness :: "jsstring \<Rightarrow> jsstring list \<Rightarrow> nat \<Rightarrow> rat" where
  "likeness probe lines i = dice probe (js_trim (lines ! i))"

lemma best_line_exact:
  assumes "best_line (grams probe) (map snd (grams probe)) (length probe - 1) lines i
     (replicate (length (grams probe)) 0) (b, sc) = (best, score)"
  shows "(best = b \<and> score = sc \<and> (\<forall>j < length lines. likeness probe lines j \<le> sc)) \<or>
     (\<exists>k < length lines. best = i + k \<and> score = likeness probe lines k \<and> sc < score \<and>
        (\<forall>j < length lines. likeness probe lines j \<le> score) \<and> (\<forall>j < k. likeness probe lines j < score))"
  using assms
proof (induction lines arbitrary: i b sc)
  case (Cons line lines)
  let ?d = "dice probe (js_trim line)"
  have rest: "best_line (grams probe) (map snd (grams probe)) (length probe - 1) lines (i + 1)
     (replicate (length (grams probe)) 0) (if sc < ?d then (i, ?d) else (b, sc)) = (best, score)"
    using Cons.prems score_line_exact [of probe line] by simp
  have later: "likeness probe (line # lines) (Suc j) = likeness probe lines j" for j
    by (simp add: likeness_def)
  have head: "likeness probe (line # lines) 0 = ?d"
    by (simp add: likeness_def)
  have before: "(\<forall>j < Suc k. P j) \<longleftrightarrow> P 0 \<and> (\<forall>j < k. P (Suc j))" for P and k :: nat
    by (auto simp: less_Suc_eq_0_disj)
  show ?case
  proof (cases "sc < ?d")
    case True
    then have "best_line (grams probe) (map snd (grams probe)) (length probe - 1) lines (i + 1)
       (replicate (length (grams probe)) 0) (i, ?d) = (best, score)"
      using rest by simp
    from Cons.IH [OF this] show ?thesis
    proof (elim disjE)
      assume "best = i \<and> score = ?d \<and> (\<forall>j < length lines. likeness probe lines j \<le> ?d)"
      then show ?thesis
        using True by (intro disjI2 exI [of _ 0]) (simp add: before head later)
    next
      assume "\<exists>k < length lines. best = i + 1 + k \<and> score = likeness probe lines k \<and> ?d < score \<and>
        (\<forall>j < length lines. likeness probe lines j \<le> score) \<and> (\<forall>j < k. likeness probe lines j < score)"
      then obtain k where "k < length lines" "best = i + 1 + k" "score = likeness probe lines k" "?d < score"
        "\<forall>j < length lines. likeness probe lines j \<le> score" "\<forall>j < k. likeness probe lines j < score"
        by blast
      then show ?thesis
        using True by (intro disjI2 exI [of _ "Suc k"]) (simp add: before head later)
    qed
  next
    case False
    then have "best_line (grams probe) (map snd (grams probe)) (length probe - 1) lines (i + 1)
       (replicate (length (grams probe)) 0) (b, sc) = (best, score)"
      using rest by simp
    from Cons.IH [OF this] show ?thesis
    proof (elim disjE)
      assume "best = b \<and> score = sc \<and> (\<forall>j < length lines. likeness probe lines j \<le> sc)"
      then show ?thesis using False by (simp add: before head later)
    next
      assume "\<exists>k < length lines. best = i + 1 + k \<and> score = likeness probe lines k \<and> sc < score \<and>
        (\<forall>j < length lines. likeness probe lines j \<le> score) \<and> (\<forall>j < k. likeness probe lines j < score)"
      then obtain k where "k < length lines" "best = i + 1 + k" "score = likeness probe lines k" "sc < score"
        "\<forall>j < length lines. likeness probe lines j \<le> score" "\<forall>j < k. likeness probe lines j < score"
        by blast
      then show ?thesis
        using False by (intro disjI2 exI [of _ "Suc k"]) (simp add: before head later)
    qed
  qed
qed simp

lemma dice_nonneg: "0 \<le> dice a b"
  by (simp add: dice_def Let_def)

lemma closest_region_cases:
  assumes "closestRegion s needle budget = (hint, budget')"
  defines "like \<equiv> likeness (probe_of needle) (region_lines s)"
  shows "case hint of
       Closest line similarity shown \<Rightarrow>
         0 < line \<and> line \<le> length (region_lines s) \<and> 0 < similarity \<and> similarity = like (line - 1) \<and>
         (\<forall>j < length (region_lines s). like j \<le> similarity) \<and> (\<forall>j < line - 1. like j < similarity) \<and>
         budget' + length s = budget
     | Nothing_Like_It \<Rightarrow> (\<forall>j < length (region_lines s). like j = 0) \<and> budget' + length s = budget
     | _ \<Rightarrow> budget' = budget"
proof (cases "HINT_MAX_CHARS < length s \<or> budget < length s")
  case True
  then show ?thesis using assms(1) by (auto simp: closestRegion_def split: if_splits)
next
  case False
  let ?probe = "probe_of needle" and ?lines = "region_lines s"
  obtain best score where b: "best_line (grams ?probe) (map snd (grams ?probe)) (length ?probe - 1) ?lines 0
     (replicate (length (map snd (grams ?probe))) 0) (0, -1) = (best, score)"
    by fastforce
  have "?lines \<noteq> []"
    by (cases "split_on LF s") (auto simp: region_lines_def Let_def)
  then have none: "\<not> (\<forall>j < length ?lines. likeness ?probe ?lines j \<le> -1)"
    using dice_nonneg [of ?probe "js_trim (?lines ! 0)"] by (intro notI) (auto simp: likeness_def dest!: spec [of _ 0])
  obtain k where k: "k < length ?lines" "best = k" "score = like k"
    "\<forall>j < length ?lines. like j \<le> score" "\<forall>j < k. like j < score"
    using best_line_exact [OF b [unfolded length_map]] none unfolding like_def by auto
  have hint: "(hint, budget') = (if score \<le> 0 then Nothing_Like_It else
      Closest (best + 1) score (numbered (map (\<lambda>k. shownLine (?lines ! k) (k < length ?lines - 1 \<or> ends_with s LF))
        [best - 3..<min (length ?lines) (best + 4)]) (best - 3 + 1) MAX_LINE_CHARS), budget - length s)"
    using assms(1) False b unfolding closestRegion_def Let_def by simp
  have "like j = 0" if "score \<le> 0" "j < length ?lines" for j
    using k(4) that dice_nonneg [of ?probe "js_trim (?lines ! j)"] unfolding like_def likeness_def by fastforce
  then show ?thesis
    using hint k False by (cases "score \<le> 0") auto
qed


end
