(* ===== verification/Edit_Plan_Properties.thy ===== *)
theory Edit_Plan_Properties
  imports Edit_Clashes Closest_Region
begin

section \<open>What a plan promises\<close>

text \<open>
  The properties of \<open>planFile\<close> in \<open>src/modules/workspace/edit-plan.ts\<close> as a whole, from the
  matching of each edit, the search for clashes and the pass that builds the new text.
\<close>

subsection \<open>Every edit of a plan was matched\<close>

definition matched_edit :: "file_text \<Rightarrow> edit_spec \<Rightarrow> applied_edit \<Rightarrow> bool" where
  "matched_edit file spec = (\<lambda>(m, starts, n). taken_at file spec m starts \<and> right_count spec m starts n \<and>
     es_old m \<noteq> [] \<and> es_index m = es_index spec)"

lemma match_edit_problem_or_applied:
  assumes "pl_applied (match_edit file False spec s) = pl_applied s"
  shows "\<exists>p. pl_problems (match_edit file False spec s) = pl_problems s @ [p]"
proof -
  obtain ch c0 where ch: "choose_reading file False spec (pl_counts s) = (ch, c0)"
    by fastforce
  show ?thesis
  proof (cases ch)
    case (Refused problem)
    then show ?thesis using ch by (simp add: match_edit_def)
  next
    case (Chosen m f0 form)
    show ?thesis
      using assms unfolding match_edit_def ch Chosen prod.case choice.case
      by (auto simp: Let_def split: if_splits prod.splits expected.splits)
  qed
qed

lemma match_edit_problems_grow: "\<exists>ps. pl_problems (match_edit file False spec s) = pl_problems s @ ps"
  using match_edit_problem_or_applied [of "file" spec s] match_edit_applies [of "file" False spec s]
  by (metis append_Nil2)

lemma match_fold_grows: "\<exists>ps. pl_problems (fold (match_edit file False) specs s) = pl_problems s @ ps"
proof (induction specs arbitrary: s)
  case (Cons spec specs)
  then show ?case
    using match_edit_problems_grow [of "file" spec s] by (metis append.assoc fold_simps(2))
qed simp

lemma match_fold_sound:
  assumes "pl_problems (fold (match_edit file False) specs s) = []" "list_all (\<lambda>spec. es_old spec \<noteq> []) specs"
  shows "\<exists>ms. pl_applied (fold (match_edit file False) specs s) = pl_applied s @ ms \<and> list_all2 (matched_edit file) specs ms"
  using assms
proof (induction specs arbitrary: s)
  case (Cons spec specs)
  let ?s = "match_edit file False spec s"
  have "pl_problems ?s = []"
    using match_fold_grows [of "file" specs ?s] Cons.prems(1) by auto
  then have "pl_applied ?s \<noteq> pl_applied s"
    using match_edit_problem_or_applied [of "file" spec s] by auto
  then obtain m starts n where m: "pl_applied ?s = pl_applied s @ [(m, starts, n)]" "matched_edit file spec (m, starts, n)"
    using applied_edit_sound [of spec "file" s] Cons.prems(2) by (auto simp: matched_edit_def)
  obtain ms where "pl_applied (fold (match_edit file False) specs ?s) = pl_applied ?s @ ms" "list_all2 (matched_edit file) specs ms"
    using Cons.IH [of ?s] Cons.prems by auto
  then show ?case using m by (intro exI [of _ "(m, starts, n) # ms"]) simp
qed simp

subsection \<open>Where starts lie\<close>

definition placed :: "nat \<Rightarrow> applied_edit \<Rightarrow> bool" where
  "placed n = (\<lambda>(m, starts, k). es_old m \<noteq> [] \<and> sorted starts \<and> distinct starts \<and>
     \<not> overlaps (length (es_old m)) starts \<and> (\<forall>p \<in> set starts. p + length (es_old m) \<le> n))"

lemma occurrences_placed:
  "sorted (occurrences h n)" "distinct (occurrences h n)"
  "p \<in> set (occurrences h n) \<Longrightarrow> p + length n \<le> length h"
proof -
  show "sorted (occurrences h n)" "distinct (occurrences h n)"
    by (simp_all add: occurrences_def sorted_wrt_filter del: upt_Suc)
  assume "p \<in> set (occurrences h n)"
  then have "p \<le> length h" "\<exists>u. drop p h = n @ u" by (auto simp: occurrences_def startsWith_iff simp del: upt_Suc)
  then show "p + length n \<le> length h"
    by (metis add.commute add_leD2 le_add1 le_add_diff_inverse2 length_append length_drop nat_add_left_cancel_le)
qed

lemma matched_placed:
  assumes "matched_edit file spec a" shows "placed (length (ft_value file)) a"
proof -
  obtain m starts n where a: "a = (m, starts, n)" by (cases a)
  have m: "taken_at file spec m starts" "right_count spec m starts n" "es_old m \<noteq> []"
    using assms by (auto simp: a matched_edit_def)
  have "\<exists>P h old. starts = filter P (occurrences h old) \<and> length h = length (ft_value file) \<and> length old = length (es_old m)"
  proof -
    have all: "starts = filter (\<lambda>_. True) starts" by simp
    consider (given) "m = spec" "starts = occurrences (ft_value file) (es_old spec)"
      | (reading) r :: reading where "starts = filter (rd_accept r) (occurrences (ft_value file) (es_old m))"
      | (quotes) "m = spec" "starts = occurrences (normalizeQuotes (ft_value file)) (normalizeQuotes (es_old spec))"
      using m(1) unfolding taken_at_def list_ex_iff by blast
    then show ?thesis
    proof cases
      case given
      then show ?thesis using all by blast
    next
      case reading
      then show ?thesis by blast
    next
      case quotes
      then show ?thesis using all length_normalizeQuotes by metis
    qed
  qed
  then obtain P h old where s: "starts = filter P (occurrences h old)" "length h = length (ft_value file)" "length old = length (es_old m)"
    by blast
  then show ?thesis
    using m(2,3) occurrences_placed [where h = h and n = old] by (auto simp: a placed_def right_count_def sorted_wrt_filter)
qed

lemma placed_starts:
  assumes "\<forall>a \<in> set applied. placed n a" "slot < length applied"
  shows "es_old (spec_of applied slot) \<noteq> []" "sorted (starts_of applied slot)" "distinct (starts_of applied slot)"
    "sorted_wrt (\<lambda>p q. p + length (es_old (spec_of applied slot)) \<le> q) (starts_of applied slot)"
    "p \<in> set (starts_of applied slot) \<Longrightarrow> p + length (es_old (spec_of applied slot)) \<le> n"
proof -
  obtain m starts k where a: "applied ! slot = (m, starts, k)" by (cases "applied ! slot")
  have "placed n (applied ! slot)" using assms nth_mem by blast
  then have "placed n (m, starts, k)" by (simp add: a)
  then show "es_old (spec_of applied slot) \<noteq> []" "sorted (starts_of applied slot)" "distinct (starts_of applied slot)"
    "sorted_wrt (\<lambda>p q. p + length (es_old (spec_of applied slot)) \<le> q) (starts_of applied slot)"
    "p \<in> set (starts_of applied slot) \<Longrightarrow> p + length (es_old (spec_of applied slot)) \<le> n"
    using no_overlap_apart by (auto simp: placed_def spec_of_def starts_of_def a)
qed

subsection \<open>Replacements of a plan do not overlap\<close>

definition apart :: "applied_edit list \<Rightarrow> nat \<times> nat \<Rightarrow> nat \<times> nat \<Rightarrow> bool" where
  "apart applied r r' \<longleftrightarrow> fst r + length (es_old (spec_of applied (snd r))) \<le> fst r'"

lemma apart_fit:
  assumes "sorted_wrt (apart applied) reps" "\<forall>r \<in> set reps. snd r < length applied \<and>
      fst r + length (es_old (spec_of applied (snd r))) \<le> n" "i \<le> n" "\<forall>r \<in> set reps. i \<le> fst r"
  shows "reps_fit applied i n reps"
  using assms
proof (induction reps arbitrary: i)
  case (Cons r reps)
  obtain start slot where r: "r = (start, slot)" by (cases r)
  have "reps_fit applied (start + length (es_old (spec_of applied slot))) n reps"
    by (rule Cons.IH) (use Cons.prems in \<open>auto simp: r apart_def\<close>)
  then show ?case using Cons.prems by (auto simp: r)
qed simp

lemma reps_apart:
  assumes placed: "\<forall>a \<in> set applied. placed n a"
    and idx: "distinct (map (\<lambda>(spec, starts, k). es_index spec) applied)"
    and clashes: "find_clashes applied (replacements applied) = []"
  shows "sorted_wrt (apart applied) (replacements applied)"
proof (cases "1 < length applied")
  case False
  show ?thesis
  proof (cases applied)
    case (Cons a rest)
    obtain m starts k where a: "a = (m, starts, k)" by (cases a)
    have "sorted_wrt (\<lambda>p q. p + length (es_old (spec_of applied 0)) \<le> q) (starts_of applied 0)"
      by (rule placed_starts [OF placed]) (simp add: Cons)
    then show ?thesis
      using False by (simp add: replacements_def Cons a starts_of_def spec_of_def sorted_wrt_map apart_def)
  qed (simp add: replacements_def)
next
  case True
  let ?reps = "replacements applied"
  have srt: "sorted (map fst ?reps)"
    by (rule sorted_replacements) (rule placed_starts [OF placed])
  have dist: "distinct ?reps"
    by (rule distinct_replacements) (rule placed_starts [OF placed])
  have none: "all_clashes applied ?reps = []"
    using clashes find_clashes_exact [OF srt True] by simp
  show ?thesis
    unfolding sorted_wrt_iff_nth_less
  proof (intro allI impI)
    fix i j
    assume ij: "i < j" "j < length ?reps"
    show "apart applied (?reps ! i) (?reps ! j)"
    proof (rule ccontr)
      assume over: "\<not> apart applied (?reps ! i) (?reps ! j)"
      obtain p a q b where r: "?reps ! i = (p, a)" "?reps ! j = (q, b)" by fastforce
      have mem: "a < length applied" "p \<in> set (starts_of applied a)" "b < length applied" "q \<in> set (starts_of applied b)"
        using nth_mem [of i ?reps] nth_mem [of j ?reps] ij in_replacements by (auto simp: r)
      have same: "es_index (rep_spec applied ?reps i) = es_index (rep_spec applied ?reps j)"
        by (rule no_clash_same_edit [OF none srt ij]) (use over in \<open>simp add: apart_def rep_end_def rep_spec_def spec_of_def\<close>)
      have "map (\<lambda>(spec, starts, k). es_index spec) applied ! a = map (\<lambda>(spec, starts, k). es_index spec) applied ! b"
        using same mem by (simp add: rep_spec_def r case_prod_beta)
      then have ab: "a = b"
        using nth_eq_iff_index_eq [OF idx] mem by simp
      have "p \<le> q" using sorted_nth_mono [OF srt, of i j] ij by (simp add: r)
      moreover have "p \<noteq> q"
        using nth_eq_iff_index_eq [OF dist, of i j] ij by (auto simp: r ab)
      ultimately have "p < q" by simp
      have sw: "sorted_wrt (\<lambda>p q. p + length (es_old (spec_of applied a)) \<le> q) (starts_of applied a)"
        by (rule placed_starts [OF placed mem(1)])
      obtain x y where xy: "x < length (starts_of applied a)" "starts_of applied a ! x = p"
        "y < length (starts_of applied a)" "starts_of applied a ! y = q"
        using mem ab by (metis in_set_conv_nth)
      have "x < y"
        using sorted_nth_mono [OF placed_starts(2) [OF placed mem(1)], of y x] xy \<open>p < q\<close> by (metis leD le_less_linear)
      then have "p + length (es_old (spec_of applied a)) \<le> q"
        using sorted_wrt_nth_less [OF sw] xy by blast
      then show False using over by (simp add: apart_def r)
    qed
  qed
qed

subsection \<open>The plan is the edited file\<close>

definition applied_order :: "plan_state \<Rightarrow> applied_edit list" where
  "applied_order s = sort_key (\<lambda>(spec, starts, n). es_index spec) (pl_applied s)"

lemma planFile_Plan:
  assumes "planFile file bytes specs hints maxBytes counts = Plan p"
  defines "s \<equiv> match_edits file specs hints counts"
  shows "\<not> isCrowded file specs" "pl_problems s = []"
    "find_clashes (applied_order s) (replacements (applied_order s)) = []"
    "p = make_plan file bytes s (applied_order s) (replacements (applied_order s))"
proof -
  have r: "planFile file bytes specs hints maxBytes counts =
     (if isCrowded file specs then Problems (crowded_problems file s)
      else if pl_problems s @ clash_problems file (find_clashes (applied_order s) (replacements (applied_order s))) \<noteq> []
      then Problems (pl_problems s @ clash_problems file (find_clashes (applied_order s) (replacements (applied_order s))))
      else case maxBytes of
        Some m \<Rightarrow> if int m < leastBytes (ft_crs file \<noteq> []) (pl_quoted s) (length bytes) (applied_order s)
                  then Too_Large (leastBytes (ft_crs file \<noteq> []) (pl_quoted s) (length bytes) (applied_order s))
                  else Plan (make_plan file bytes s (applied_order s) (replacements (applied_order s)))
      | None \<Rightarrow> Plan (make_plan file bytes s (applied_order s) (replacements (applied_order s))))"
    unfolding planFile_def s_def applied_order_def Let_def by (rule refl)
  show nc: "\<not> isCrowded file specs"
    using assms(1) unfolding r by (auto split: if_splits)
  have np: "pl_problems s @ clash_problems file (find_clashes (applied_order s) (replacements (applied_order s))) = []"
    using assms(1) unfolding r by (auto split: if_splits)
  then show "pl_problems s = []" "find_clashes (applied_order s) (replacements (applied_order s)) = []"
    by (auto simp: clash_problems_def Let_def)
  show "p = make_plan file bytes s (applied_order s) (replacements (applied_order s))"
    using assms(1) nc np unfolding r by (auto split: option.splits if_splits)
qed

lemma matched_indices: "list_all2 (matched_edit file) specs ms \<Longrightarrow> map (\<lambda>(m, starts, n). es_index m) ms = map es_index specs"
  by (induction rule: list_all2_induct) (auto simp: matched_edit_def)

lemma applied_order_facts:
  assumes "mset (applied_order s) = mset ms" "list_all2 (matched_edit file) specs ms" "distinct (map es_index specs)"
  shows "\<forall>a \<in> set (applied_order s). placed (length (ft_value file)) a"
    "distinct (map (\<lambda>(spec, starts, k). es_index spec) (applied_order s))"
proof -
  have "\<forall>a \<in> set ms. placed (length (ft_value file)) a"
    using assms(2) matched_placed by (metis list_all2_conv_all_nth in_set_conv_nth)
  then show "\<forall>a \<in> set (applied_order s). placed (length (ft_value file)) a"
    using assms(1) by (metis set_mset_mset)
  have "mset (map (\<lambda>(spec, starts, k). es_index spec) (applied_order s)) = mset (map es_index specs)"
    using assms(1) matched_indices [OF assms(2)] by (metis mset_map)
  then show "distinct (map (\<lambda>(spec, starts, k). es_index spec) (applied_order s))"
    using assms(3) mset_eq_imp_distinct_iff by blast
qed

definition located :: "applied_edit list \<Rightarrow> (nat \<times> edit_spec) list" where
  "located applied = map (\<lambda>(start, slot). (start, spec_of applied slot)) (replacements applied)"

definition places_of :: "applied_edit \<Rightarrow> (nat \<times> edit_spec) list" where
  "places_of = (\<lambda>(m, starts, n). map (\<lambda>start. (start, m)) starts)"

lemma mset_concat_map: "mset (concat (map f xs)) = (\<Sum>x \<in># mset xs. mset (f x))"
  by (induction xs) auto

lemma mset_located: "mset (located applied) = (\<Sum>a \<in># mset applied. mset (places_of a))"
proof -
  have "mset (located applied) = mset (map (\<lambda>(start, slot). (start, spec_of applied slot)) (all_reps applied))"
    unfolding located_def using mset_replacements by (metis mset_map)
  also have "map (\<lambda>(start, slot). (start, spec_of applied slot)) (all_reps applied) =
      concat (map (\<lambda>slot. places_of (applied ! slot)) [0..<length applied])"
    unfolding all_reps_def map_concat
    by (intro arg_cong [where f = concat]) (auto simp: places_of_def starts_of_def spec_of_def split: prod.splits)
  also have "map (\<lambda>slot. places_of (applied ! slot)) [0..<length applied] = map places_of applied"
    by (intro nth_equalityI) auto
  finally show ?thesis by (simp add: mset_concat_map)
qed

lemma plan_facts:
  assumes dec: "decodeForEdit bytes = Some file" and specs: "distinct (map es_index specs)" "list_all (\<lambda>spec. es_old spec \<noteq> []) specs"
    and plan: "planFile file bytes specs hints maxBytes counts = Plan p"
  defines "applied \<equiv> applied_order (match_edits file specs hints counts)"
  shows "\<exists>ms. list_all2 (matched_edit file) specs ms \<and> mset applied = mset ms"
    and "sorted_wrt (apart applied) (replacements applied)"
    and "reps_fit applied 0 (length (file_units file)) (replacements applied)"
    and "p = make_plan file bytes (match_edits file specs hints counts) applied (replacements applied)"
proof -
  let ?s = "match_edits file specs hints counts"
  note pf = planFile_Plan [OF plan, folded applied_def]
  let ?fresh = "\<lparr>pl_problems = [], pl_applied = [], pl_quoted = [], pl_readForms = [], pl_uncounted = [],
    pl_counts = raise_counts file counts, pl_hints = hints\<rparr>"
  have s: "?s = fold (match_edit file False) specs ?fresh"
    using pf(1) by (simp add: match_edits_def)
  obtain ms where "pl_applied ?s = pl_applied ?fresh @ ms" and ms2: "list_all2 (matched_edit file) specs ms"
    using match_fold_sound [OF pf(2) [unfolded s] specs(2)] unfolding s by blast
  then have ms: "pl_applied ?s = ms" "list_all2 (matched_edit file) specs ms"
    by simp_all
  have perm: "mset applied = mset ms"
    by (simp add: applied_def applied_order_def ms(1))
  then show "\<exists>ms. list_all2 (matched_edit file) specs ms \<and> mset applied = mset ms"
    using ms(2) by blast
  note facts = applied_order_facts [OF perm [unfolded applied_def] ms(2) specs(1), folded applied_def]
  show sw: "sorted_wrt (apart applied) (replacements applied)"
    by (rule reps_apart [OF facts pf(3)])
  have len: "length (ft_value file) = length (file_units file)"
    using decoded_simps(2) [OF decodeForEdit_decoded [OF dec]] by simp
  show "reps_fit applied 0 (length (file_units file)) (replacements applied)"
  proof (rule apart_fit [OF sw])
    show "\<forall>r \<in> set (replacements applied). snd r < length applied \<and>
        fst r + length (es_old (spec_of applied (snd r))) \<le> length (file_units file)"
      using in_replacements placed_starts(5) [OF facts(1)] len by (metis prod.collapse)
  qed simp_all
  show "p = make_plan file bytes ?s applied (replacements applied)" by (rule pf(4))
qed

text \<open>
  C3: When \<open>planFile\<close> returns a plan, every edit was matched as its count asks (as given,
  in the one other reading that applies, or with quotes read as equal); the replacements are
  exactly those matches, in file order and without overlap; and the plan's bytes and its
  matched text are the two readings of the file's units with each replaced span exchanged
  for the new text's units. Every unit outside the replaced spans stays, its CR included.
\<close>

theorem plan_is_the_edited_file:
  assumes "decodeForEdit bytes = Some file" "distinct (map es_index specs)" "list_all (\<lambda>spec. es_old spec \<noteq> []) specs"
    and "planFile file bytes specs hints maxBytes counts = Plan p"
  shows "\<exists>ms reps. list_all2 (matched_edit file) specs ms \<and>
     mset reps = (\<Sum>a \<in># mset ms. mset (places_of a)) \<and>
     sorted_wrt (\<lambda>(i, m) (j, _). i + length (es_old m) \<le> j) reps \<and>
     fp_bytes p = (if hasBom bytes then take 3 bytes else []) @ utf8_encode (spell (edit_units (file_units file) 0 reps)) \<and>
     fp_updated p = map fst (edit_units (file_units file) 0 reps) \<and>
     fp_replacements p = length reps"
proof -
  let ?applied = "applied_order (match_edits file specs hints counts)"
  note pf = plan_facts [OF assms]
  obtain ms where ms: "list_all2 (matched_edit file) specs ms" "mset ?applied = mset ms"
    using pf(1) by blast
  note built = build_text_edits_units [OF decodeForEdit_decoded [OF assms(1)] pf(3), folded located_def]
  have bom: "ft_bom file = hasBom bytes"
    using assms(1) by (auto simp: decodeForEdit_def Let_def split: option.splits prod.splits)
  have "sorted_wrt (\<lambda>(i, m) (j, _). i + length (es_old m) \<le> j) (located ?applied)"
    unfolding located_def sorted_wrt_map using pf(2)
    by (auto simp: apart_def case_prod_beta elim!: sorted_wrt_mono_rel [rotated])
  then show ?thesis
    using ms mset_located [of ?applied] built bom
    by (intro exI [of _ ms] exI [of _ "located ?applied"])
      (simp add: pf(4) make_plan_def Let_def located_def)
qed

text \<open>A file of two lines with a byte-order mark, and an edit of its first line.\<close>

definition sample_bytes :: "byte list" where
  "sample_bytes = [0xEF, 0xBB, 0xBF, 0x61, 0x0D, 0x0A, 0x62]"

definition sample_text :: file_text where
  "sample_text = \<lparr>ft_raw = [0x61, CR, LF, 0x62], ft_value = [0x61, LF, 0x62], ft_crs = [1], ft_lfs = 1, ft_bom = True\<rparr>"

definition sample_spec :: edit_spec where
  "sample_spec = \<lparr>es_index = 0, es_old = [0x61, LF], es_new = [0x63, LF, 0x64, LF], es_expected = Times 1\<rparr>"

lemma sample_decoded: "decodeForEdit sample_bytes = Some sample_text"
  unfolding sample_bytes_def sample_text_def by (rule decoded_sample)

lemma sample_plan:
  "planFile sample_text sample_bytes [sample_spec] 100 None (countBudget 100) =
  Plan \<lparr>fp_bytes = [0xEF, 0xBB, 0xBF, 0x63, 0x0D, 0x0A, 0x64, 0x0D, 0x0A, 0x62], fp_updated = [0x63, LF, 0x64, LF, 0x62],
    fp_edits = [\<lparr>ec_first = \<lparr>ch_edit = 0, ch_at = 0, ch_line = 1, ch_lines = 2\<rparr>, ec_count = 1, ec_otherLines = [], ec_otherLineCount = 0\<rparr>],
    fp_replacements = 1, fp_quoteNormalized = [], fp_readForm = [], fp_crlf = True, fp_mixed = False, fp_bom = True\<rparr>"
  by code_simp

lemma sample_specs: "distinct (map es_index [sample_spec])" "list_all (\<lambda>spec. es_old spec \<noteq> []) [sample_spec]"
  by (simp_all add: sample_spec_def)

theorem plan_is_the_edited_file_witness:
  "\<exists>ms reps. list_all2 (matched_edit sample_text) [sample_spec] ms \<and> length reps = 1 \<and>
     map fst (edit_units (file_units sample_text) 0 reps) = [0x63, LF, 0x64, LF, 0x62]"
proof -
  obtain ms reps where "list_all2 (matched_edit sample_text) [sample_spec] ms"
    "map fst (edit_units (file_units sample_text) 0 reps) = [0x63, LF, 0x64, LF, 0x62]" "length reps = 1"
    using plan_is_the_edited_file [OF sample_decoded sample_specs sample_plan] unfolding file_plan.simps by metis
  then show ?thesis by (intro exI conjI)
qed

end
