(* ===== verification/Edit_Plan_Receipts.thy ===== *)
theory Edit_Plan_Receipts
  imports Edit_Plan_Properties
begin

section \<open>Receipts, and edits that must go through\<close>

text \<open>
  What the receipt of a plan says of each edit, an edit that occurs as it asks is not
  refused, and the search for clashes names what comparing all replacements names.
\<close>

definition receipt_ok :: "applied_edit list \<Rightarrow> (nat \<times> nat) list \<Rightarrow> jsstring \<Rightarrow> nat \<Rightarrow> edit_changes \<Rightarrow> bool" where
  "receipt_ok applied seen v slot e \<longleftrightarrow>
     ec_count e = count_list (map snd seen) slot \<and> ch_edit (ec_first e) = es_index (spec_of applied slot) \<and>
     startsWith (drop (ch_at (ec_first e)) v) (es_new (spec_of applied slot)) \<and>
     ch_at (ec_first e) \<le> length v \<and> ch_line (ec_first e) = line_at v (ch_at (ec_first e))"

definition receipts_ok :: "applied_edit list \<Rightarrow> (nat \<times> nat) list \<Rightarrow> jsstring \<Rightarrow> build_state \<Rightarrow> bool" where
  "receipts_ok applied seen v s \<longleftrightarrow> length (bs_kept s) = length applied \<and>
     (\<forall>slot < length applied. case bs_kept s ! slot of None \<Rightarrow> slot \<notin> set (map snd seen)
        | Some e \<Rightarrow> receipt_ok applied seen v slot e)"

lemma startsWith_append: "startsWith s p \<Longrightarrow> startsWith (s @ t) p"
  by (auto simp: startsWith_iff)

lemma receipt_ok_append:
  "receipt_ok applied seen v slot e \<Longrightarrow> receipt_ok applied seen (v @ w) slot e"
  by (auto simp: receipt_ok_def line_at_def startsWith_append)

lemma receipt_ok_other:
  "receipt_ok applied seen v slot e \<Longrightarrow> slot \<noteq> k \<Longrightarrow> receipt_ok applied (seen @ [(start, k)]) v slot e"
  by (simp add: receipt_ok_def)

lemma keep_change_other: "slot \<noteq> k \<Longrightarrow> bs_kept (keep_change spec k t) ! slot = bs_kept t ! slot"
  by (auto simp: keep_change_def Let_def split: option.splits)

lemma keep_change_length [simp]: "length (bs_kept (keep_change spec k t)) = length (bs_kept t)"
  by (auto simp: keep_change_def Let_def split: option.splits)

lemma keep_change_first:
  assumes "k < length (bs_kept t)"
  shows "\<exists>e. bs_kept (keep_change spec k t) ! k = Some e \<and>
     (case bs_kept t ! k of
        None \<Rightarrow> ec_count e = 1 \<and> ec_first e = \<lparr>ch_edit = es_index spec, ch_at = bs_length t, ch_line = bs_line t, ch_lines = receipt_lines spec\<rparr>
      | Some e' \<Rightarrow> ec_count e = ec_count e' + 1 \<and> ec_first e = ec_first e')"
  using assms by (cases "bs_kept t ! k") (auto simp: keep_change_def Let_def)

lemma receipts_step:
  assumes "receipts_ok applied seen (map fst us) s" "bs_kept t = bs_kept s" "slot < length applied"
    and "bs_length t = length (us @ ks)" "bs_line t = Suc (count_list (map fst (us @ ks)) LF)"
    and "bs_kept s' = bs_kept (keep_change (spec_of applied slot) slot t)"
    and "map fst new = es_new (spec_of applied slot)"
  shows "receipts_ok applied (seen @ [(start, slot)]) (map fst (us @ ks @ new)) s'"
proof -
  let ?v = "map fst (us @ ks @ new)" and ?spec = "spec_of applied slot"
  have len: "length (bs_kept t) = length applied" using assms(1,2) by (simp add: receipts_ok_def)
  have v: "?v = map fst us @ map fst (ks @ new)" by simp
  have old: "case bs_kept t ! j of None \<Rightarrow> j \<notin> set (map snd seen) | Some e \<Rightarrow> receipt_ok applied seen ?v j e"
    if "j < length applied" for j
    using assms(1,2) that unfolding receipts_ok_def v by (auto split: option.splits intro: receipt_ok_append)
  have "case bs_kept s' ! j of None \<Rightarrow> j \<notin> set (map snd (seen @ [(start, slot)]))
      | Some e \<Rightarrow> receipt_ok applied (seen @ [(start, slot)]) ?v j e" if j: "j < length applied" for j
  proof (cases "j = slot")
    case False
    then show ?thesis
      using old [OF j] unfolding assms(6) keep_change_other [OF False]
      by (auto split: option.splits intro: receipt_ok_other)
  next
    case True
    obtain e where e: "bs_kept s' ! slot = Some e"
      "case bs_kept t ! slot of
        None \<Rightarrow> ec_count e = 1 \<and> ec_first e = \<lparr>ch_edit = es_index ?spec, ch_at = bs_length t, ch_line = bs_line t, ch_lines = receipt_lines ?spec\<rparr>
      | Some e' \<Rightarrow> ec_count e = ec_count e' + 1 \<and> ec_first e = ec_first e'"
      using keep_change_first [of slot t ?spec] assms(3) len unfolding assms(6) by auto
    have "receipt_ok applied (seen @ [(start, slot)]) ?v slot e"
    proof (cases "bs_kept t ! slot")
      case None
      then have first: "ec_count e = 1" "ch_edit (ec_first e) = es_index ?spec" "ch_at (ec_first e) = length (us @ ks)"
        "ch_line (ec_first e) = Suc (count_list (map fst (us @ ks)) LF)"
        using e(2) assms(4,5) by auto
      have new: "drop (length (us @ ks)) ?v = es_new ?spec"
        using assms(7) by simp
      have line: "line_at ?v (length (us @ ks)) = Suc (count_list (map fst (us @ ks)) LF)"
        by (simp add: line_at_def)
      have "slot \<notin> set (map snd seen)" using old [OF assms(3)] None by simp
      then have "count_list (map snd (seen @ [(start, slot)])) slot = 1"
        by (simp add: count_notin)
      then show ?thesis
        unfolding receipt_ok_def first new line by (simp add: startsWith_iff)
    next
      case (Some e')
      then show ?thesis
        using e(2) old [OF assms(3)] by (simp add: receipt_ok_def)
    qed
    then show ?thesis using e(1) True by simp
  qed
  moreover have "length (bs_kept s') = length applied" using assms(6) len by simp
  ultimately show ?thesis unfolding receipts_ok_def by blast
qed

lemma build_steps_receipts:
  assumes "decoded file" "built file us s" "receipts_ok applied seen (map fst us) s"
    and "reps_fit applied (bs_from s) (length (file_units file)) reps"
  shows "\<exists>vs. built file vs (fold (build_step file applied) reps s) \<and>
     vs @ drop (bs_from (fold (build_step file applied) reps s)) (file_units file) =
       us @ edit_units (file_units file) (bs_from s) (map (\<lambda>(start, slot). (start, spec_of applied slot)) reps) \<and>
     receipts_ok applied (seen @ reps) (map fst vs) (fold (build_step file applied) reps s)"
  using assms(2-)
proof (induction reps arbitrary: us s seen)
  case (Cons r reps)
  obtain start slot where r: "r = (start, slot)" by (cases r)
  let ?s = "build_step file applied (start, slot) s"
  have fit: "bs_from s \<le> start" "slot < length applied"
    "reps_fit applied (start + length (es_old (spec_of applied slot))) (length (file_units file)) reps"
    using Cons.prems(3) by (auto simp: r)
  note st = build_step_built [OF assms(1) Cons.prems(1) fit(1) reps_fit_le [OF fit(3)]]
  obtain t where t: "bs_kept t = bs_kept s" "bs_length t = length (us @ slice (file_units file) (bs_from s) start)"
    "bs_line t = Suc (count_list (map fst (us @ slice (file_units file) (bs_from s) start)) LF)"
    "bs_kept ?s = bs_kept (keep_change (spec_of applied slot) slot t)"
    using st(3) by blast
  have "receipts_ok applied (seen @ [(start, slot)])
      (map fst (us @ slice (file_units file) (bs_from s) start @ new_units (file_units file) (spec_of applied slot) start)) ?s"
    by (rule receipts_step [OF Cons.prems(2) t(1) fit(2) t(2,3,4) fst_new_units])
  from Cons.IH [OF st(1) this] fit(3) st(2) show ?case by (auto simp: r)
qed auto

lemma build_text_receipts:
  assumes "decoded file" "reps_fit applied 0 (length (file_units file)) reps"
  shows "receipts_ok applied reps (tb_text (bs_updated (build_text file applied reps))) (build_text file applied reps)"
proof -
  let ?s = "fold (build_step file applied) reps (build_start file applied)"
  have next_start: "next_ok (ft_value file) 0 (index_of (ft_value file) [LF] 0)"
    by (auto simp: next_ok_def)
  have start: "built file [] (build_start file applied)" "bs_from (build_start file applied) = 0"
    "receipts_ok applied [] (map fst []) (build_start file applied)"
    using next_start by (auto simp: built_def build_start_def feed_ok_def receipts_ok_def)
  obtain vs where vs: "built file vs ?s" "receipts_ok applied reps (map fst vs) ?s"
    using build_steps_receipts [OF assms(1) start(1,3)] assms(2) start(2) by auto
  have upd: "tb_text (bs_updated (build_text file applied reps)) = map fst vs @ drop (bs_from ?s) (ft_value file)"
    using vs(1) by (simp add: build_text_def Let_def built_def)
  have "bs_kept (build_text file applied reps) = bs_kept ?s"
    by (simp add: build_text_def Let_def)
  then show ?thesis
    using vs(2) unfolding upd receipts_ok_def by (auto split: option.splits intro: receipt_ok_append)
qed

lemma count_tags: "count_list (map (\<lambda>_. k) xs) c = (if k = c then length xs else 0)"
  by (induction xs) auto

lemma count_slot:
  assumes "slot < length applied"
  shows "count_list (map snd (replacements applied)) slot = length (starts_of applied slot)"
proof -
  have tagged: "count_list (concat (map (\<lambda>k. map snd (map (\<lambda>start. (start, k)) (f k))) ks)) slot =
      (if slot \<in> set ks then length (f slot) else 0)" if "distinct ks" for f :: "nat \<Rightarrow> nat list" and ks
    using that
  proof (induction ks)
    case (Cons k ks)
    have "count_list (map snd (map (\<lambda>start. (start, k)) (f k))) slot = (if k = slot then length (f k) else 0)"
      using count_tags [of k "f k" slot] by (simp add: o_def)
    then show ?case using Cons by auto
  qed simp
  have "mset (map snd (replacements applied)) = mset (map snd (all_reps applied))"
    using mset_replacements by (metis mset_map)
  then have "count_list (map snd (replacements applied)) slot = count_list (map snd (all_reps applied)) slot"
    by (metis count_mset_list)
  also have "\<dots> = length (starts_of applied slot)"
    using tagged [of "[0..<length applied]" "starts_of applied"] assms
    by (simp add: all_reps_def map_concat o_def)
  finally show ?thesis .
qed

text \<open>
  The receipt of a plan is about the new text: each entry names an edit that was
  applied, with as many replacements as were matched, at an index of the updated text where
  that edit's new text stands, and with the number of the line the index is on there.
\<close>

theorem receipts_name_their_changes:
  assumes "decodeForEdit bytes = Some file" "distinct (map es_index specs)" "list_all (\<lambda>spec. es_old spec \<noteq> []) specs"
    and "planFile file bytes specs hints maxBytes counts = Plan p"
  shows "list_all (\<lambda>e. list_ex (\<lambda>(m, starts, n). ch_edit (ec_first e) = es_index m \<and> ec_count e = n \<and>
        startsWith (drop (ch_at (ec_first e)) (fp_updated p)) (es_new m) \<and>
        ch_line (ec_first e) = line_at (fp_updated p) (ch_at (ec_first e)))
      (pl_applied (match_edits file specs hints counts))) (fp_edits p)"
  unfolding list_all_iff
proof
  fix e
  assume e: "e \<in> set (fp_edits p)"
  let ?s = "match_edits file specs hints counts"
  let ?applied = "applied_order ?s"
  let ?b = "build_text file ?applied (replacements ?applied)"
  note pf = plan_facts [OF assms]
  have ok: "receipts_ok ?applied (replacements ?applied) (fp_updated p) ?b"
    using build_text_receipts [OF decodeForEdit_decoded [OF assms(1)] pf(3)]
    by (simp add: pf(4) make_plan_def Let_def)
  have "Some e \<in> set (bs_kept ?b)"
    using e by (auto simp: pf(4) make_plan_def Let_def)
  then obtain slot where slot: "slot < length ?applied" "bs_kept ?b ! slot = Some e"
    using ok unfolding receipts_ok_def by (metis in_set_conv_nth)
  then have r: "receipt_ok ?applied (replacements ?applied) (fp_updated p) slot e"
    using ok unfolding receipts_ok_def by auto
  obtain m starts n where a: "?applied ! slot = (m, starts, n)" by (cases "?applied ! slot")
  obtain ms where ms: "list_all2 (matched_edit file) specs ms" "mset ?applied = mset ms"
    using pf(1) by blast
  have mem: "(m, starts, n) \<in> set (pl_applied ?s)"
    using nth_mem [OF slot(1)] a by (simp add: applied_order_def)
  have "(m, starts, n) \<in> set ms"
    using nth_mem [OF slot(1)] a ms(2) by (metis set_mset_mset)
  then obtain spec where "matched_edit file spec (m, starts, n)"
    using ms(1) by (metis in_set_conv_nth list_all2_conv_all_nth)
  then have "n = length starts"
    by (simp add: matched_edit_def right_count_def)
  then have "ec_count e = n"
    using r count_slot [OF slot(1)] a by (simp add: receipt_ok_def starts_of_def)
  then show "list_ex (\<lambda>(m, starts, n). ch_edit (ec_first e) = es_index m \<and> ec_count e = n \<and>
        startsWith (drop (ch_at (ec_first e)) (fp_updated p)) (es_new m) \<and>
        ch_line (ec_first e) = line_at (fp_updated p) (ch_at (ec_first e))) (pl_applied ?s)"
    unfolding list_ex_iff using mem r a by (intro bexI [of _ "(m, starts, n)"]) (auto simp: receipt_ok_def spec_of_def)
qed

text \<open>
  C16: An edit is not refused for nothing: where its text carries neither the file's
  byte-order mark nor a line end's CR, and occurs as often as it asks without an occurrence
  overlapping the next, a plan of this edit alone replaces exactly its occurrences.
\<close>

theorem edit_that_occurs_goes_through:
  assumes "decodeForEdit bytes = Some file" "es_old spec \<noteq> []" "readingsOf spec file = []"
    and "right_count spec spec (occurrences (ft_value file) (es_old spec)) (length (occurrences (ft_value file) (es_old spec)))"
  shows "\<exists>p. planFile file bytes [spec] hints None counts = Plan p \<and>
     fp_updated p = map fst (edit_units (file_units file) 0 (map (\<lambda>i. (i, spec)) (occurrences (ft_value file) (es_old spec)))) \<and>
     fp_bytes p = (if hasBom bytes then take 3 bytes else []) @
       utf8_encode (spell (edit_units (file_units file) 0 (map (\<lambda>i. (i, spec)) (occurrences (ft_value file) (es_old spec)))))"
proof -
  let ?all = "occurrences (ft_value file) (es_old spec)"
  let ?s = "match_edits file [spec] hints counts"
  have app: "pl_applied ?s = [(spec, ?all, length ?all)]" "pl_problems ?s = []"
    using edit_applies [OF assms(2-4)] by (simp_all add: match_edits_def isCrowded_def)
  then have applied: "applied_order ?s = [(spec, ?all, length ?all)]"
    by (simp add: applied_order_def)
  have noClash: "find_clashes (applied_order ?s) (replacements (applied_order ?s)) = []"
    by (simp add: applied find_clashes_def)
  have plan: "planFile file bytes [spec] hints None counts = Plan (make_plan file bytes ?s (applied_order ?s) (replacements (applied_order ?s)))"
    unfolding planFile_def Let_def applied_order_def [symmetric] noClash
    by (simp add: app(2) isCrowded_def clash_problems_def)
  have located: "map (\<lambda>(start, slot). (start, spec_of (applied_order ?s) slot)) (replacements (applied_order ?s)) =
      map (\<lambda>i. (i, spec)) ?all"
    by (simp add: applied replacements_def spec_of_def)
  have "distinct (map es_index [spec])" "list_all (\<lambda>spec. es_old spec \<noteq> []) [spec]"
    using assms(2) by simp_all
  note pf = plan_facts [OF assms(1) this plan]
  have bom: "ft_bom file = hasBom bytes"
    using assms(1) by (auto simp: decodeForEdit_def Let_def split: option.splits prod.splits)
  show ?thesis
    using build_text_edits_units [OF decodeForEdit_decoded [OF assms(1)] pf(3), unfolded located]
    by (intro exI [of _ "make_plan file bytes ?s (applied_order ?s) (replacements (applied_order ?s))"] conjI plan)
      (simp_all add: make_plan_def Let_def bom)
qed

theorem receipts_name_their_changes_witness:
  "list_ex (\<lambda>(m, starts, n). es_index m = 0 \<and> n = 1 \<and> startsWith [0x63, LF, 0x64, LF, 0x62] (es_new m))
     (pl_applied (match_edits sample_text [sample_spec] 100 (countBudget 100)))"
  using receipts_name_their_changes [OF sample_decoded sample_specs sample_plan]
  by (auto simp: list_ex_iff)

theorem edit_that_occurs_goes_through_witness:
  "\<exists>p. planFile sample_text sample_bytes [sample_spec] 7 None (countBudget 0) = Plan p"
proof -
  have "es_old sample_spec \<noteq> []" "readingsOf sample_spec sample_text = []"
    by (simp_all add: sample_spec_def sample_text_def readingsOf_def startsWith_def ends_with_def)
  moreover have "right_count sample_spec sample_spec (occurrences (ft_value sample_text) (es_old sample_spec))
      (length (occurrences (ft_value sample_text) (es_old sample_spec)))"
    by code_simp
  ultimately show ?thesis
    using edit_that_occurs_goes_through [OF sample_decoded] by blast
qed

text \<open>
  C17: The search for clashes, which links past replacements whose edit is already named,
  names exactly the clashes that comparing every replacement with all it overlaps names,
  in the same order.
\<close>

theorem clash_search_exact:
  assumes "1 < length applied" "list_all (\<lambda>(m, starts, n). sorted starts) applied"
  shows "find_clashes applied (replacements applied) = all_clashes applied (replacements applied)"
proof (rule find_clashes_exact [OF sorted_replacements assms(1)])
  fix slot
  assume "slot < length applied"
  then show "sorted (starts_of applied slot)"
    using assms(2) nth_mem by (fastforce simp: list_all_iff starts_of_def)
qed

theorem clash_search_exact_witness:
  "find_clashes [(sample_spec, [0, 5], 2), (sample_spec\<lparr>es_index := 1\<rparr>, [1], 1)]
     (replacements [(sample_spec, [0, 5], 2), (sample_spec\<lparr>es_index := 1\<rparr>, [1], 1)]) =
   all_clashes [(sample_spec, [0, 5], 2), (sample_spec\<lparr>es_index := 1\<rparr>, [1], 1)]
     (replacements [(sample_spec, [0, 5], 2), (sample_spec\<lparr>es_index := 1\<rparr>, [1], 1)])"
  by (rule clash_search_exact) simp_all

end
