(* ===== verification/Held_Traffic.thy ===== *)
theory Held_Traffic
  imports Capability_Grant
begin

section \<open>What a server sends, held until its plane opens\<close>

text \<open>
  Models the admission side of \<open>src/mcpl/server-connection.ts\<close>: the grant a connection acts
  under, its transport boundaries, the two planes, the buffer of what waits for one, and the
  flush that admits it. Listeners run inside a flush and may open, pause, close or
  re-authorize the connection there, so a flush is a machine with a stack of tasks: the
  snapshots being flushed and the reactions of listeners not yet run. What a listener does
  is an argument, \<open>ho_react\<close>; a listener that throws is contained and does no more.
\<close>

datatype event =
    Push_Event | Inference_Request | Model_Info | Channels_Register | Channels_Changed
  | Channels_Incoming | Channels_List | Tools_Observe | Manifest_Changed | Tools_List_Changed
  | Scope_Elevate | Host_Command | Stderr | Connect_Failed | Reconnect_Failed
  | Orphaned_Response | Closed_Event | Error_Event | Reconnect_Event

text \<open>\<open>hi_request\<close>: the id the responder answers, of a request; \<open>hi_epoch\<close>: the transport
  the responder is bound to.\<close>

record held_item =
  hi_event :: event
  hi_params :: jsval
  hi_request :: "jsval option"
  hi_epoch :: nat
  hi_kept :: bool

record manifest_state =
  mf_lastValidatedRevision :: "jsstring option"
  mf_lastFetchedAt :: "nat option"
  mf_lastNegotiatedAt :: "nat option"

definition no_manifest :: manifest_state where
  "no_manifest = \<lparr>mf_lastValidatedRevision = None, mf_lastFetchedAt = None, mf_lastNegotiatedAt = None\<rparr>"

record connection =
  cn_grant :: capability_grant
  cn_policyEstablished :: bool
  cn_observeFilter :: "jsval option"
  cn_epoch :: nat
  cn_manifest :: manifest_state
  cn_allowHostCommands :: bool
  cn_readTap :: bool
  cn_closed :: bool
  cn_transport :: bool
  cn_reconnectEnabled :: bool
  cn_controlReady :: bool
  cn_dataReady :: bool
  cn_held :: "held_item list"
  cn_heldRequests :: nat
  cn_keptRequests :: nat
  cn_droppedKept :: nat
  cn_droppedBuffered :: nat
  cn_refusedHeld :: nat

definition MAX_HELD_NOTIFICATIONS :: nat where "MAX_HELD_NOTIFICATIONS = 1000"

definition MAX_HELD_REQUESTS :: nat where "MAX_HELD_REQUESTS = 10000"

definition CAPABILITY_DISABLED :: int where "CAPABILITY_DISABLED = -32002"

definition isConnected :: "connection \<Rightarrow> bool" where
  "isConnected c \<longleftrightarrow> \<not> cn_closed c \<and> cn_transport c"

definition closedForGood :: "connection \<Rightarrow> bool" where
  "closedForGood c \<longleftrightarrow> cn_closed c \<and> \<not> cn_reconnectEnabled c"

definition hasResponder :: "held_item \<Rightarrow> bool" where
  "hasResponder i \<longleftrightarrow> hi_request i \<noteq> None"

definition WORLD_EVENTS :: "event list" where "WORLD_EVENTS = [Channels_Incoming, Push_Event]"

definition METHOD_EVENTS :: "event list" where
  "METHOD_EVENTS = [Push_Event, Inference_Request, Scope_Elevate, Channels_Register, Channels_Changed,
     Channels_Incoming, Model_Info, Manifest_Changed, Channels_List, Tools_List_Changed, Tools_Observe,
     Host_Command]"

definition PROCESS_EVENTS :: "event list" where
  "PROCESS_EVENTS = filter (\<lambda>e. e \<notin> set WORLD_EVENTS) METHOD_EVENTS"

definition EVENT_TO_REQUIRED_CAPABILITY :: "event \<Rightarrow> jsstring option" where
  "EVENT_TO_REQUIRED_CAPABILITY e =
     (case e of
        Push_Event \<Rightarrow> Some (js ''pushEvents'')
      | Inference_Request \<Rightarrow> Some (js ''inferenceRequest'')
      | Model_Info \<Rightarrow> Some (js ''modelInfo'')
      | Channels_Register \<Rightarrow> Some (js ''channels.register'')
      | Channels_Changed \<Rightarrow> Some (js ''channels.register'')
      | Channels_Incoming \<Rightarrow> Some (js ''channels.incoming'')
      | Channels_List \<Rightarrow> Some (js ''channels.register'')
      | Tools_Observe \<Rightarrow> Some (js ''toolLifecycle.observe'')
      | _ \<Rightarrow> None)"

definition isControlPlaneEvent :: "event \<Rightarrow> bool" where
  "isControlPlaneEvent e \<longleftrightarrow> e \<in> set [Stderr, Scope_Elevate, Channels_Register, Channels_Changed,
     Tools_List_Changed, Tools_Observe, Connect_Failed, Reconnect_Failed, Orphaned_Response, Host_Command]"

definition isLifecycleEvent :: "event \<Rightarrow> bool" where
  "isLifecycleEvent e \<longleftrightarrow> e \<in> set [Closed_Event, Error_Event, Reconnect_Event]"

definition planeReadyFor :: "event \<Rightarrow> connection \<Rightarrow> bool" where
  "planeReadyFor e c \<longleftrightarrow> isLifecycleEvent e \<or>
     (if isControlPlaneEvent e then cn_controlReady c else cn_dataReady c)"

text \<open>
  What the machine does, in order. The flag of an answer: whether it went out, which it does
  only on the transport the request came on and while that is not closed.
\<close>

datatype effect =
    Arrived held_item
  | Delivered held_item
  | Answered held_item bool
  | Refused held_item int bool
  | Discarded held_item
  | Dropped held_item
  | Replied jsval "int option" bool
  | Granted capability_grant
  | Boundary

definition goes_out :: "held_item \<Rightarrow> connection \<Rightarrow> bool" where
  "goes_out i c \<longleftrightarrow> hi_epoch i = cn_epoch c \<and> \<not> cn_closed c"

subsection \<open>Grants and transport boundaries\<close>

definition establishGrant :: "capability_grant \<Rightarrow> connection \<Rightarrow> connection" where
  "establishGrant g c =
     (let c = c\<lparr>cn_grant := g, cn_policyEstablished := True\<rparr>
      in if \<not> grant_has g (js ''toolLifecycle.observe'') then c\<lparr>cn_observeFilter := None\<rparr> else c)"

fun within_kept :: "nat \<Rightarrow> held_item list \<Rightarrow> held_item list \<times> held_item list" where
  "within_kept kept [] = ([], [])"
| "within_kept kept (i # is) =
     (if \<not> hi_kept i \<or> \<not> hasResponder i then (case within_kept kept is of (a, b) \<Rightarrow> (i # a, b))
      else if kept < MAX_HELD_REQUESTS then (case within_kept (kept + 1) is of (a, b) \<Rightarrow> (i # a, b))
      else (case within_kept kept is of (a, b) \<Rightarrow> (a, i # b)))"

definition replaceHeld :: "held_item list \<Rightarrow> connection \<Rightarrow> connection \<times> effect list" where
  "replaceHeld items c =
     (let (held, past) = within_kept 0 items
      in (c\<lparr>cn_held := held,
            cn_heldRequests := length (filter (\<lambda>i. \<not> hi_kept i \<and> hasResponder i) held),
            cn_keptRequests := length (filter (\<lambda>i. hi_kept i \<and> hasResponder i) held),
            cn_droppedKept := cn_droppedKept c + length past\<rparr>,
          map Dropped past))"

definition boundary_drops :: "connection \<Rightarrow> held_item \<Rightarrow> bool" where
  "boundary_drops c i \<longleftrightarrow> hi_event i \<in> set PROCESS_EVENTS \<or> closedForGood c \<and> hi_event i \<in> set WORLD_EVENTS"

definition keepAcrossBoundary :: "held_item list \<Rightarrow> connection \<Rightarrow> held_item list \<times> effect list" where
  "keepAcrossBoundary held c =
     (map (\<lambda>i. i\<lparr>hi_kept := True\<rparr>) (filter (\<lambda>i. \<not> boundary_drops c i) held),
      map Dropped (filter (boundary_drops c) held))"

definition resetPolicyForTransportBoundary :: "connection \<Rightarrow> connection \<times> effect list" where
  "resetPolicyForTransportBoundary c =
     (let c = c\<lparr>cn_grant := empty_grant, cn_policyEstablished := False, cn_epoch := cn_epoch c + 1\<rparr>;
          (kept, drops) = keepAcrossBoundary (cn_held c) c;
          (c, past) = replaceHeld kept c
      in (c\<lparr>cn_observeFilter := None, cn_manifest := no_manifest\<rparr>, Boundary # drops @ past))"

subsection \<open>Holding\<close>

fun remove_first :: "('a \<Rightarrow> bool) \<Rightarrow> 'a list \<Rightarrow> 'a list \<times> 'a list" where
  "remove_first P [] = ([], [])"
| "remove_first P (x # xs) = (if P x then (xs, [x]) else case remove_first P xs of (ys, r) \<Rightarrow> (x # ys, r))"

definition hold :: "held_item \<Rightarrow> connection \<Rightarrow> connection \<times> effect list" where
  "hold i c =
     (if hasResponder i \<and> hi_kept i then
        if MAX_HELD_REQUESTS \<le> cn_keptRequests c then (c\<lparr>cn_droppedKept := cn_droppedKept c + 1\<rparr>, [Dropped i])
        else (c\<lparr>cn_held := cn_held c @ [i], cn_keptRequests := cn_keptRequests c + 1\<rparr>, [])
      else if hasResponder i \<and> MAX_HELD_REQUESTS \<le> cn_heldRequests c then
        (c\<lparr>cn_refusedHeld := cn_refusedHeld c + 1\<rparr>, [Refused i (-32000) (goes_out i c)])
      else
        let (c, out) =
          (if \<not> hasResponder i \<and>
              MAX_HELD_NOTIFICATIONS \<le> length (cn_held c) - cn_heldRequests c - cn_keptRequests c then
             let (rest, oldest) = remove_first (\<lambda>j. \<not> hasResponder j) (cn_held c)
             in (c\<lparr>cn_droppedBuffered := cn_droppedBuffered c + 1, cn_held := rest\<rparr>, map Dropped oldest)
           else (c, []))
        in (c\<lparr>cn_held := cn_held c @ [i],
              cn_heldRequests := cn_heldRequests c + (if hasResponder i then 1 else 0)\<rparr>, out))"

subsection \<open>The order of a flush\<close>

text \<open>\<open>String\<close> of a number is an argument; the other values a \<open>removed\<close> list may hold are
  written out. An entry that is an object or an array is left out.\<close>

definition text_of :: "(rat \<Rightarrow> jsstring) \<Rightarrow> jsval \<Rightarrow> jsstring list" where
  "text_of number v =
     (case v of
        JStr s \<Rightarrow> [s]
      | JNum n \<Rightarrow> [number n]
      | JBool b \<Rightarrow> [if b then js ''true'' else js ''false'']
      | JNull \<Rightarrow> [js ''null'']
      | JUndef \<Rightarrow> [js ''undefined'']
      | _ \<Rightarrow> [])"

definition entries :: "jsval \<Rightarrow> jsval list" where
  "entries v = (case v of JArr vs \<Rightarrow> vs | _ \<Rightarrow> [])"

definition removedChannelIds :: "(rat \<Rightarrow> jsstring) \<Rightarrow> held_item \<Rightarrow> jsstring list" where
  "removedChannelIds number i =
     (if hi_event i \<noteq> Channels_Changed then []
      else concat (map (text_of number) (entries (field (hi_params i) (js ''removed'')))))"

definition registeredChannelIds :: "held_item \<Rightarrow> jsstring list" where
  "registeredChannelIds i =
     (let lists = (if hi_event i = Channels_Register then [field (hi_params i) (js ''channels'')]
                   else [field (hi_params i) (js ''added''), field (hi_params i) (js ''updated'')])
      in concat (map (\<lambda>channel. case field channel (js ''id'') of JStr s \<Rightarrow> [s] | _ \<Rightarrow> [])
           (concat (map entries lists))))"

definition isRegistration :: "held_item \<Rightarrow> bool" where
  "isRegistration i \<longleftrightarrow> \<not> hi_kept i \<and> (hi_event i = Channels_Register \<or> hi_event i = Channels_Changed)"

fun hoisted :: "(rat \<Rightarrow> jsstring) \<Rightarrow> jsstring list \<Rightarrow> held_item list \<Rightarrow> bool list" where
  "hoisted number staying [] = []"
| "hoisted number staying (i # is) =
     (if \<not> isRegistration i then False # hoisted number staying is
      else
        let removes = removedChannelIds number i; registers = registeredChannelIds i
        in if removes = [] \<and> \<not> list_ex (\<lambda>k. k \<in> set staying) registers then True # hoisted number staying is
           else False # hoisted number (staying @ removes @ registers) is)"

definition admissionOrder :: "(rat \<Rightarrow> jsstring) \<Rightarrow> held_item list \<Rightarrow> held_item list" where
  "admissionOrder number pending =
     (if \<not> list_ex hi_kept pending then pending
      else
        let marked = zip pending (hoisted number [] pending)
        in map fst (filter snd marked) @ map fst (filter (\<lambda>(i, first). \<not> first) marked))"

subsection \<open>The machine\<close>

text \<open>What a listener, or the host outside of one, does to the connection.\<close>

datatype op =
    Ready | Ready_Control | Pause_Data | Establish capability_grant | Set_Filter jsval
  | Stop_Reconnecting | Close_Host | Transport_Lost

datatype task =
    Flush nat "held_item list"
  | Report "held_item list"
  | React "op list"

record host =
  ho_listens :: "event \<Rightarrow> bool"
  ho_react :: "held_item \<Rightarrow> connection \<Rightarrow> op list"
  ho_number :: "rat \<Rightarrow> jsstring"

definition waits :: "held_item \<Rightarrow> bool" where
  "waits i \<longleftrightarrow> hi_kept i \<and> hi_event i \<in> set WORLD_EVENTS"

definition flushHeld :: "host \<Rightarrow> held_item list \<Rightarrow> connection \<Rightarrow> connection \<times> task list \<times> effect list" where
  "flushHeld h snapshot c =
     (let (c, pending, out) =
        (if \<not> isConnected c \<and> list_ex waits snapshot then
           case replaceHeld (cn_held c @ filter waits snapshot) c of
             (c, out) \<Rightarrow> (c, filter (\<lambda>i. \<not> waits i) snapshot, out)
         else (c, snapshot, []))
      in (c, [Flush (cn_epoch c) (admissionOrder (ho_number h) pending)], out))"

definition ownReport :: "held_item \<Rightarrow> bool" where
  "ownReport i \<longleftrightarrow> hi_event i = Connect_Failed \<or> hi_event i = Reconnect_Failed"

definition deliverOwnReports :: "connection \<Rightarrow> connection \<times> task list \<times> effect list" where
  "deliverOwnReports c =
     (let reports = filter ownReport (cn_held c)
      in if reports = [] then (c, [], [])
         else (c\<lparr>cn_held := filter (\<lambda>i. \<not> ownReport i) (cn_held c)\<rparr>, [Report reports], []))"

definition ready :: "host \<Rightarrow> connection \<Rightarrow> connection \<times> task list \<times> effect list" where
  "ready h c =
     (if closedForGood c then deliverOwnReports c
      else
        let c = c\<lparr>cn_controlReady := True, cn_dataReady := True\<rparr>;
            pending = cn_held c;
            (c, out) = replaceHeld [] c;
            c = c\<lparr>cn_droppedBuffered := 0, cn_refusedHeld := 0, cn_droppedKept := 0\<rparr>
        in flushHeld h pending c)"

definition readyControlPlane :: "host \<Rightarrow> connection \<Rightarrow> connection \<times> task list \<times> effect list" where
  "readyControlPlane h c =
     (if closedForGood c then deliverOwnReports c
      else
        let c = c\<lparr>cn_controlReady := True\<rparr>;
            pending = cn_held c;
            (c, out) = replaceHeld [] c
        in flushHeld h pending c)"

definition pauseDataPlane :: "connection \<Rightarrow> connection" where
  "pauseDataPlane c = c\<lparr>cn_dataReady := False\<rparr>"

text \<open>The connection's own \<open>close\<close> report has no responder.\<close>

definition own_event :: "event \<Rightarrow> jsval \<Rightarrow> connection \<Rightarrow> held_item" where
  "own_event e params c = \<lparr>hi_event = e, hi_params = params, hi_request = None, hi_epoch = cn_epoch c, hi_kept = False\<rparr>"

definition lost :: "connection \<Rightarrow> connection \<times> task list \<times> effect list" where
  "lost c =
     (if cn_closed c then (c, [], [])
      else
        let c = c\<lparr>cn_closed := True\<rparr>;
            (c, out) = resetPolicyForTransportBoundary c
        in (c, [Report [own_event Closed_Event JNull c]], out))"

text \<open>\<open>close\<close> emits its \<open>close\<close> event only once the transport's teardown is done: a later step.\<close>

definition close :: "connection \<Rightarrow> connection \<times> effect list" where
  "close c =
     (let c = c\<lparr>cn_reconnectEnabled := False\<rparr>
      in if cn_closed c then (c, []) else resetPolicyForTransportBoundary (c\<lparr>cn_closed := True\<rparr>))"

definition do_op :: "host \<Rightarrow> op \<Rightarrow> connection \<Rightarrow> connection \<times> task list \<times> effect list" where
  "do_op h x c =
     (case x of
        Ready \<Rightarrow> ready h c
      | Ready_Control \<Rightarrow> readyControlPlane h c
      | Pause_Data \<Rightarrow> (pauseDataPlane c, [], [])
      | Establish g \<Rightarrow> (establishGrant g c, [], [Granted g])
      | Set_Filter rules \<Rightarrow> (c\<lparr>cn_observeFilter := Some rules\<rparr>, [], [])
      | Stop_Reconnecting \<Rightarrow> (c\<lparr>cn_reconnectEnabled := False\<rparr>, [], [])
      | Close_Host \<Rightarrow> (case close c of (c, out) \<Rightarrow> (c, [], out))
      | Transport_Lost \<Rightarrow> lost c)"

text \<open>
  \<open>emit\<close>: the admission gate. A \<open>manifest-changed\<close> or \<open>tools-list-changed\<close> sent as a
  request is answered as it is admitted and passed on without its responder.
\<close>

definition emit :: "host \<Rightarrow> held_item \<Rightarrow> connection \<Rightarrow> connection \<times> task list \<times> effect list" where
  "emit h i c =
     (let refuse = (\<lambda>code. (c, [], [if hasResponder i then Refused i code (goes_out i c) else Discarded i]))
      in if \<not> planeReadyFor (hi_event i) c then
           (case hold (i\<lparr>hi_kept := False\<rparr>) c of (c, out) \<Rightarrow> (c, [], out))
         else if hi_event i = Host_Command \<and> \<not> cn_allowHostCommands c then refuse CAPABILITY_DISABLED
         else if (case EVENT_TO_REQUIRED_CAPABILITY (hi_event i) of None \<Rightarrow> False | Some cap \<Rightarrow> \<not> grant_has (cn_grant c) cap)
         then refuse CAPABILITY_DISABLED
         else if hasResponder i \<and> \<not> ho_listens h (hi_event i) then (c, [], [Refused i (-32601) (goes_out i c)])
         else if (hi_event i = Manifest_Changed \<or> hi_event i = Tools_List_Changed) \<and> hasResponder i then
           (c, [React (ho_react h (i\<lparr>hi_request := None\<rparr>) c)], [Answered i (goes_out i c), Delivered i])
         else (c, [React (ho_react h i c)], [Delivered i]))"

fun task_step :: "host \<Rightarrow> task \<Rightarrow> connection \<Rightarrow> connection \<times> task list \<times> effect list" where
  "task_step h (Flush epoch []) c = (c, [], [])"
| "task_step h (Flush epoch (i # is)) c =
     (if cn_epoch c \<noteq> epoch then
        let (kept, drops) = keepAcrossBoundary (i # is) c;
            (c, past) = replaceHeld (cn_held c @ kept) c
        in (c, [], drops @ past)
      else if hi_kept i \<and> \<not> planeReadyFor (hi_event i) c then
        (case hold i c of (c, out) \<Rightarrow> (c, [Flush epoch is], out))
      else (case emit h i c of (c, ts, out) \<Rightarrow> (c, ts @ [Flush epoch is], out)))"
| "task_step h (Report []) c = (c, [], [])"
| "task_step h (Report (i # is)) c = (c, [React (ho_react h i c), Report is], [Delivered i])"
| "task_step h (React []) c = (c, [], [])"
| "task_step h (React (x # xs)) c = (case do_op h x c of (c, ts, out) \<Rightarrow> (c, ts @ [React xs], out))"


subsection \<open>Every flush ends\<close>

text \<open>
  The measure of a machine: what is still to settle (with one for the \<open>close\<close> report a live
  connection may yet make), then the reactions not yet run, the items still to look at and
  the tasks.
\<close>

fun flush_items :: "task \<Rightarrow> held_item list" where
  "flush_items (Flush epoch is) = is"
| "flush_items _ = []"

fun task_items :: "task \<Rightarrow> held_item list" where
  "task_items (Flush epoch is) = is"
| "task_items (Report is) = is"
| "task_items (React xs) = []"

fun task_ops :: "task \<Rightarrow> op list" where
  "task_ops (React xs) = xs"
| "task_ops _ = []"

definition unsettled :: "connection \<Rightarrow> task list \<Rightarrow> nat" where
  "unsettled c ts = length (cn_held c) + length (concat (map task_items ts)) + (if cn_closed c then 0 else 1)"

lemma within_kept_length: "length (fst (within_kept n is)) \<le> length is"
  by (induction n "is" rule: within_kept.induct) (auto split: prod.split)

lemma length_keepAcross: "length (fst (keepAcrossBoundary is c)) \<le> length is"
  by (simp add: keepAcrossBoundary_def)

lemma replaceHeld_simps:
  "cn_held (fst (replaceHeld is c)) = fst (within_kept 0 is)"
  "cn_closed (fst (replaceHeld is c)) = cn_closed c"
  "cn_epoch (fst (replaceHeld is c)) = cn_epoch c"
  by (simp_all add: replaceHeld_def split: prod.split)

lemma hoisted_length [simp]: "length (hoisted number st is) = length is"
  by (induction number st "is" rule: hoisted.induct) (auto simp: Let_def)

lemma mset_hoisted:
  "length bs = length is \<Longrightarrow>
     mset (map fst (filter snd (zip is bs)) @ map fst (filter (\<lambda>(i, first). \<not> first) (zip is bs))) = mset is"
  by (induction "is" bs rule: list_induct2') auto

lemma mset_admissionOrder: "mset (admissionOrder number is) = mset is"
  by (simp add: admissionOrder_def Let_def mset_hoisted del: mset_append mset_map mset_filter)

lemma length_admissionOrder [simp]: "length (admissionOrder number is) = length is"
  by (metis mset_admissionOrder size_mset)

lemma remove_first_length: "length (fst (remove_first P xs)) \<le> length xs"
  by (induction P xs rule: remove_first.induct) (auto split: prod.split)

lemma hold_length: "length (cn_held (fst (hold i c))) \<le> length (cn_held c) + 1"
  using remove_first_length [of "\<lambda>j. \<not> hasResponder j" "cn_held c"]
  by (auto simp: hold_def Let_def split: prod.split)

lemma hold_simps:
  "cn_closed (fst (hold i c)) = cn_closed c"
  "cn_epoch (fst (hold i c)) = cn_epoch c"
  "cn_grant (fst (hold i c)) = cn_grant c"
  by (simp_all add: hold_def Let_def split: prod.split)

lemma reset_frame:
  "cn_closed (fst (resetPolicyForTransportBoundary c)) = cn_closed c"
  "length (cn_held (fst (resetPolicyForTransportBoundary c))) \<le> length (cn_held c)"
  using within_kept_length [of 0 "fst (keepAcrossBoundary (cn_held c)
      (c\<lparr>cn_grant := empty_grant, cn_policyEstablished := False, cn_epoch := cn_epoch c + 1\<rparr>))"]
    length_keepAcross [of "cn_held c" "c\<lparr>cn_grant := empty_grant, cn_policyEstablished := False, cn_epoch := cn_epoch c + 1\<rparr>"]
  by (auto simp: resetPolicyForTransportBoundary_def replaceHeld_def Let_def split: prod.split)

lemma flushHeld_measure:
  assumes "flushHeld h is c = (c', ts, out)"
  shows "unsettled c' ts \<le> unsettled c [] + length is \<and> concat (map task_ops ts) = []"
proof -
  have "length (filter waits is) + length (filter (\<lambda>i. \<not> waits i) is) = length is"
    by (rule sum_length_filter_compl)
  moreover have "length (fst (within_kept 0 (cn_held c @ filter waits is))) \<le> length (cn_held c @ filter waits is)"
    by (rule within_kept_length)
  ultimately show ?thesis
    using assms by (auto simp: flushHeld_def unsettled_def replaceHeld_def Let_def split: if_splits prod.splits)
qed

lemma own_reports_measure:
  assumes "deliverOwnReports c = (c', ts, out)"
  shows "unsettled c' ts \<le> unsettled c [] \<and> concat (map task_ops ts) = []"
  using assms sum_length_filter_compl [of ownReport "cn_held c"]
  by (auto simp: deliverOwnReports_def unsettled_def Let_def split: if_splits)

lemma replaceHeld_Nil: "replaceHeld [] c = (c\<lparr>cn_held := [], cn_heldRequests := 0, cn_keptRequests := 0\<rparr>, [])"
  by (simp add: replaceHeld_def)

text \<open>Both openings: the buffer is taken, the planes open, and what was taken is flushed.\<close>

definition opened :: "bool \<Rightarrow> connection \<Rightarrow> connection" where
  "opened both c =
     (if both then c\<lparr>cn_controlReady := True, cn_dataReady := True, cn_held := [], cn_heldRequests := 0,
        cn_keptRequests := 0, cn_droppedBuffered := 0, cn_refusedHeld := 0, cn_droppedKept := 0\<rparr>
      else c\<lparr>cn_controlReady := True, cn_held := [], cn_heldRequests := 0, cn_keptRequests := 0\<rparr>)"

lemma ready_opened:
  "ready h c = (if closedForGood c then deliverOwnReports c else flushHeld h (cn_held c) (opened True c))"
  "readyControlPlane h c = (if closedForGood c then deliverOwnReports c else flushHeld h (cn_held c) (opened False c))"
  by (simp_all add: ready_def readyControlPlane_def opened_def replaceHeld_Nil Let_def)

lemma opened_simps [simp]:
  "cn_held (opened both c) = []" "cn_closed (opened both c) = cn_closed c" "cn_epoch (opened both c) = cn_epoch c"
  "cn_grant (opened both c) = cn_grant c" "cn_heldRequests (opened both c) = 0" "cn_keptRequests (opened both c) = 0"
  "cn_controlReady (opened both c)" "cn_dataReady (opened both c) = (both \<or> cn_dataReady c)"
  "isConnected (opened both c) = isConnected c"
  by (simp_all add: opened_def isConnected_def)

lemma ready_measure:
  assumes "ready h c = (c', ts, out) \<or> readyControlPlane h c = (c', ts, out)"
  shows "unsettled c' ts \<le> unsettled c [] \<and> concat (map task_ops ts) = []"
proof (cases "closedForGood c")
  case True
  then show ?thesis
    using assms own_reports_measure [of c c' ts out] by (auto simp: ready_opened)
next
  case False
  then obtain both where "flushHeld h (cn_held c) (opened both c) = (c', ts, out)"
    using assms by (auto simp: ready_opened)
  from flushHeld_measure [OF this] show ?thesis
    by (simp add: unsettled_def)
qed

lemma do_op_measure:
  assumes "do_op h x c = (c', ts, out)"
  shows "unsettled c' ts \<le> unsettled c [] \<and> concat (map task_ops ts) = []"
proof -
  have b: "resetPolicyForTransportBoundary d = (c', out') \<Longrightarrow> cn_closed c' = cn_closed d \<and> length (cn_held c') \<le> length (cn_held d)"
    for d out'
    using reset_frame [of d] by simp
  show ?thesis
  proof (cases "x = Ready \<or> x = Ready_Control")
    case True
    then show ?thesis using assms ready_measure [of h c c' ts out] by (auto simp: do_op_def)
  next
    case False
    then show ?thesis
      using assms
      by (cases x)
        (auto simp: do_op_def pauseDataPlane_def establishGrant_def close_def lost_def unsettled_def Let_def
          split: if_splits prod.splits dest!: b)
  qed
qed

lemma emit_measure:
  assumes "emit h i c = (c', ts, out)"
  shows "unsettled c' ts \<le> unsettled c [] \<or> unsettled c' ts = unsettled c [] + 1 \<and> ts = []"
proof (cases "planeReadyFor (hi_event i) c")
  case True
  then show ?thesis using assms by (auto simp: emit_def unsettled_def Let_def split: if_splits)
next
  case False
  then have "c' = fst (hold (i\<lparr>hi_kept := False\<rparr>) c)" "ts = []"
    using assms by (auto simp: emit_def split: prod.splits)
  then show ?thesis
    using hold_length [of "i\<lparr>hi_kept := False\<rparr>" c] by (auto simp: unsettled_def hold_simps)
qed

definition run_order :: "((connection \<times> task list) \<times> connection \<times> task list) set" where
  "run_order = measures [\<lambda>(c, ts). unsettled c ts, \<lambda>(c, ts). length (concat (map task_ops ts)),
     \<lambda>(c, ts). length (concat (map flush_items ts)), \<lambda>(c, ts). length ts]"

lemma unsettled_append: "unsettled c (ts @ us) = unsettled c ts + length (concat (map task_items us))"
  by (simp add: unsettled_def)

lemma task_step_order:
  assumes "task_step h t c = (c', ts, out)"
  shows "((c', ts @ us), (c, t # us)) \<in> run_order"
proof (cases t)
  case (Flush epoch "is")
  show ?thesis
  proof (cases "is")
    case Nil
    then show ?thesis using assms Flush by (simp add: run_order_def unsettled_def)
  next
    case (Cons i js)
    consider (boundary) "cn_epoch c \<noteq> epoch"
      | (kept) "cn_epoch c = epoch" "hi_kept i \<and> \<not> planeReadyFor (hi_event i) c"
      | (admit) "cn_epoch c = epoch" "\<not> (hi_kept i \<and> \<not> planeReadyFor (hi_event i) c)"
      by blast
    then show ?thesis
    proof cases
      case boundary
      obtain kept drops where k: "keepAcrossBoundary (i # js) c = (kept, drops)" by fastforce
      have "length (fst (within_kept 0 (cn_held c @ kept))) \<le> length (cn_held c) + length (i # js)"
        using within_kept_length [of 0 "cn_held c @ kept"] length_keepAcross [of "i # js" c] k by simp
      then show ?thesis
        using assms Flush Cons boundary k
        by (auto simp: run_order_def unsettled_def replaceHeld_def split: prod.splits)
    next
      case kept
      then show ?thesis
        using assms Flush Cons hold_length [of i c] hold_simps(1) [of i c]
        by (auto simp: run_order_def unsettled_def split: prod.splits)
    next
      case admit
      obtain d us' out' where e: "emit h i c = (d, us', out')" by (cases "emit h i c") auto
      then have "c' = d" "ts = us' @ [Flush epoch js]"
        using assms Flush Cons admit by auto
      then show ?thesis
        using emit_measure [OF e] Flush Cons by (auto simp: run_order_def unsettled_def)
    qed
  qed
next
  case (Report "is")
  then show ?thesis
    using assms by (cases "is") (auto simp: run_order_def unsettled_def)
next
  case (React xs)
  show ?thesis
  proof (cases xs)
    case Nil
    then show ?thesis using assms React by (simp add: run_order_def unsettled_def)
  next
    case (Cons x ys)
    obtain d us' out' where e: "do_op h x c = (d, us', out')" by (cases "do_op h x c") auto
    then have "c' = d" "ts = us' @ [React ys]"
      using assms React Cons by auto
    then show ?thesis
      using do_op_measure [OF e] React Cons by (auto simp: run_order_def unsettled_def)
  qed
qed

function run_tasks :: "host \<Rightarrow> connection \<Rightarrow> task list \<Rightarrow> effect list \<Rightarrow> connection \<times> effect list" where
  "run_tasks h c [] hist = (c, hist)"
| "run_tasks h c (t # ts) hist = (case task_step h t c of (c, us, out) \<Rightarrow> run_tasks h c (us @ ts) (hist @ out))"
  by pat_completeness auto
termination
proof (relation "inv_image run_order (\<lambda>(h, c, ts, hist). (c, ts))")
  show "wf (inv_image run_order (\<lambda>(h, c, ts, hist). (c, ts)))"
    by (simp add: run_order_def)
qed (auto intro!: task_step_order dest: sym)


subsection \<open>What reaches a connection\<close>

datatype message = Message (ms_method: jsstring) (ms_params: jsval) (ms_id: "jsval option")

definition METHOD_TO_EVENT :: "jsstring \<Rightarrow> event option" where
  "METHOD_TO_EVENT = map_of
     [(js ''push/event'', Push_Event), (js ''inference/request'', Inference_Request),
      (js ''scope/elevate'', Scope_Elevate), (js ''channels/register'', Channels_Register),
      (js ''channels/changed'', Channels_Changed), (js ''channels/incoming'', Channels_Incoming),
      (js ''model/info'', Model_Info), (js ''mcpl/manifestChanged'', Manifest_Changed),
      (js ''channels/list'', Channels_List), (js ''notifications/tools/list_changed'', Tools_List_Changed),
      (js ''tools/observe'', Tools_Observe), (js ''host/command'', Host_Command)]"

definition item_of :: "event \<Rightarrow> message \<Rightarrow> nat \<Rightarrow> bool \<Rightarrow> held_item" where
  "item_of e m epoch kept =
     \<lparr>hi_event = e, hi_params = ms_params m, hi_request = ms_id m, hi_epoch = epoch, hi_kept = kept\<rparr>"

definition reply :: "message \<Rightarrow> int option \<Rightarrow> connection \<Rightarrow> effect list" where
  "reply m code c = (case ms_id m of None \<Rightarrow> [] | Some rid \<Rightarrow> [Replied rid code (\<not> cn_closed c)])"

definition afterBoundary :: "message \<Rightarrow> nat \<Rightarrow> connection \<Rightarrow> connection \<times> effect list" where
  "afterBoundary m epoch c =
     (case METHOD_TO_EVENT (ms_method m) of
        None \<Rightarrow> (c, [])
      | Some e \<Rightarrow>
          let i = item_of e m epoch True
          in if closedForGood c \<or> e \<notin> set WORLD_EVENTS then (c, [Arrived i, Dropped i])
             else (case hold i c of (c, out) \<Rightarrow> (c, Arrived i # out)))"

text \<open>
  \<open>dispatchMessage\<close>, of a request or notification its envelope was read from. The hints a
  tap reads change nothing here.
\<close>

definition dispatchMessage :: "host \<Rightarrow> message \<Rightarrow> nat \<Rightarrow> connection \<Rightarrow> connection \<times> effect list" where
  "dispatchMessage h m epoch c =
     (if epoch \<noteq> cn_epoch c then afterBoundary m epoch c
      else if ms_method m = js ''ping'' then (c, reply m None c)
      else if ms_method m = js ''tools/hints'' \<and> cn_readTap c then (c, reply m None c)
      else if ms_method m = js ''featureSets/changed'' then (c, reply m (Some (-32601)) c)
      else if ms_method m = js ''scope/elevate'' then (c, reply m (Some (-32601)) c)
      else
        (case METHOD_TO_EVENT (ms_method m) of
           None \<Rightarrow> (c, reply m (Some (-32601)) c)
         | Some e \<Rightarrow>
             let i = item_of e m epoch False
             in case emit h i c of (c, ts, out) \<Rightarrow> run_tasks h c ts (Arrived i # out)))"

text \<open>The start of a connection, and a reconnect's adoption of a fresh transport.\<close>

definition connected :: "bool \<Rightarrow> bool \<Rightarrow> connection" where
  "connected reconnect allow =
     \<lparr>cn_grant = empty_grant, cn_policyEstablished = False, cn_observeFilter = None, cn_epoch = 0,
      cn_manifest = no_manifest, cn_allowHostCommands = allow, cn_readTap = False, cn_closed = False,
      cn_transport = True, cn_reconnectEnabled = reconnect, cn_controlReady = False, cn_dataReady = False,
      cn_held = [], cn_heldRequests = 0, cn_keptRequests = 0, cn_droppedKept = 0, cn_droppedBuffered = 0,
      cn_refusedHeld = 0\<rparr>"

definition disconnected_stub :: "bool \<Rightarrow> connection" where
  "disconnected_stub reconnect = (connected reconnect False)\<lparr>cn_transport := False, cn_closed := True\<rparr>"

definition adopt :: "bool \<Rightarrow> connection \<Rightarrow> connection \<times> effect list" where
  "adopt allow c =
     (case resetPolicyForTransportBoundary (c\<lparr>cn_controlReady := False, cn_dataReady := False\<rparr>) of
        (c, out) \<Rightarrow> (c\<lparr>cn_transport := True, cn_allowHostCommands := allow, cn_closed := False\<rparr>, out))"

text \<open>
  What happens to a connection from outside a flush. \<open>Adopt\<close> does nothing to one that is
  not waiting for a transport, as \<open>attemptReconnect\<close> starts nothing for it.
\<close>

datatype call =
    Op op
  | Read nat message
  | Own event jsval
  | Set_Tap bool
  | Adopt bool

definition own_events :: "event list" where
  "own_events = [Stderr, Connect_Failed, Reconnect_Failed, Orphaned_Response, Closed_Event, Error_Event]"

fun do_call :: "host \<Rightarrow> call \<Rightarrow> connection \<Rightarrow> connection \<times> effect list" where
  "do_call h (Op x) c = (case do_op h x c of (c, ts, out) \<Rightarrow> run_tasks h c ts out)"
| "do_call h (Read epoch m) c = dispatchMessage h m epoch c"
| "do_call h (Own e params) c =
     (if e \<in> set own_events then
        let i = own_event e params c
        in case emit h i c of (c, ts, out) \<Rightarrow> run_tasks h c ts (Arrived i # out)
      else (c, []))"
| "do_call h (Set_Tap on) c = (c\<lparr>cn_readTap := on\<rparr>, [])"
| "do_call h (Adopt allow) c =
     (if \<not> cn_closed c \<or> \<not> cn_reconnectEnabled c then (c, [])
      else
        let (c, out) = adopt allow c; i = own_event Reconnect_Event JNull c
        in case emit h i c of (c, ts, after) \<Rightarrow> run_tasks h c ts (out @ Arrived i # after))"

fun do_calls :: "host \<Rightarrow> call list \<Rightarrow> connection \<Rightarrow> connection \<times> effect list" where
  "do_calls h [] c = (c, [])"
| "do_calls h (x # xs) c =
     (case do_call h x c of (c, out) \<Rightarrow> (case do_calls h xs c of (c, later) \<Rightarrow> (c, out @ later)))"

end
