(* ===== verification/Held_Traffic_Proofs.thy ===== *)
theory Held_Traffic_Proofs
  imports Held_Traffic "HOL-Library.Sublist"
begin

section \<open>Nothing a server sends is lost, let in too early or reordered\<close>

text \<open>
  Invariants of the machine of \<open>Held_Traffic\<close>, each proved for one task and lifted to whole
  runs by \<open>run_tasks_inv\<close> and \<open>do_calls_inv\<close>.
\<close>

lemma run_tasks_inv:
  assumes run: "run_tasks h c ts hist = (d, es)" and start: "P c ts hist"
    and step: "\<And>c t ts hist c' us out. P c (t # ts) hist \<Longrightarrow> task_step h t c = (c', us, out) \<Longrightarrow> P c' (us @ ts) (hist @ out)"
  shows "P d [] es"
  using run start step
proof (induction h c ts hist rule: run_tasks.induct)
  case (2 h c t ts hist)
  obtain c' us out where s: "task_step h t c = (c', us, out)"
    by (cases "task_step h t c") auto
  have "run_tasks h c' (us @ ts) (hist @ out) = (d, es)"
    using "2.prems"(1) s by simp
  then show ?case
    using "2.IH" [OF s [symmetric] refl] "2.prems"(3) [OF "2.prems"(2) s] "2.prems"(3) by blast
qed simp

lemma run_tasks_hist: "run_tasks h c ts hist = (d, es) \<Longrightarrow> run_tasks h c ts (k @ hist) = (d, k @ es)"
proof (induction h c ts hist rule: run_tasks.induct)
  case (2 h c t ts hist)
  obtain c' us out where s: "task_step h t c = (c', us, out)"
    by (cases "task_step h t c") auto
  then show ?case
    using "2.IH" [OF s [symmetric] refl] "2.prems" by simp
qed simp

text \<open>The event a message read on the current transport is dispatched as, if any.\<close>

definition reads_event :: "message \<Rightarrow> connection \<Rightarrow> event option" where
  "reads_event m c =
     (if ms_method m \<in> {js ''ping'', js ''featureSets/changed'', js ''scope/elevate''} \<or>
         ms_method m = js ''tools/hints'' \<and> cn_readTap c then None
      else METHOD_TO_EVENT (ms_method m))"

lemma dispatch_cases:
  assumes "epoch = cn_epoch c"
  shows "dispatchMessage h m epoch c =
     (case reads_event m c of
        None \<Rightarrow> (c, reply m (if ms_method m = js ''ping'' \<or> ms_method m = js ''tools/hints'' \<and> cn_readTap c
                       then None else Some (-32601)) c)
      | Some e \<Rightarrow> (case emit h (item_of e m epoch False) c of
                     (c, ts, out) \<Rightarrow> run_tasks h c ts (Arrived (item_of e m epoch False) # out)))"
  using assms by (simp add: dispatchMessage_def reads_event_def Let_def split: option.split)

lemma reads_event_known: "reads_event m c = Some e \<Longrightarrow> e \<in> set METHOD_EVENTS"
  by (auto simp: reads_event_def METHOD_TO_EVENT_def METHOD_EVENTS_def split: if_splits)

text \<open>What arrives on the current transport: a message, or a report the host makes itself.\<close>

definition fresh :: "connection \<Rightarrow> held_item \<Rightarrow> bool" where
  "fresh c i \<longleftrightarrow> \<not> hi_kept i \<and> hi_epoch i = cn_epoch c \<and> (hi_event i \<in> set METHOD_EVENTS \<or> \<not> hasResponder i)"

locale machine_invariant =
  fixes h :: host
    and allowed :: "call \<Rightarrow> bool"
    and P :: "connection \<Rightarrow> task list \<Rightarrow> effect list \<Rightarrow> bool"
  assumes task: "P c (t # ts) hist \<Longrightarrow> task_step h t c = (c', us, out) \<Longrightarrow> P c' (us @ ts) (hist @ out)"
    and op: "P c [] hist \<Longrightarrow> allowed (Op x) \<Longrightarrow> do_op h x c = (c', us, out) \<Longrightarrow> P c' us (hist @ out)"
    and arrival: "P c [] hist \<Longrightarrow> fresh c i \<Longrightarrow> (hi_event i = Reconnect_Event \<Longrightarrow> \<exists>allow. allowed (Adopt allow)) \<Longrightarrow>
      emit h i c = (c', us, out) \<Longrightarrow> P c' us (hist @ Arrived i # out)"
    and late: "P c [] hist \<Longrightarrow> allowed (Read epoch m) \<Longrightarrow> epoch \<noteq> cn_epoch c \<Longrightarrow> e \<in> set WORLD_EVENTS \<Longrightarrow>
      hold (item_of e m epoch True) c = (c', out) \<Longrightarrow> P c' [] (hist @ Arrived (item_of e m epoch True) # out)"
    and too_late: "P c [] hist \<Longrightarrow> P c [] (hist @ [Arrived i, Dropped i])"
    and replied: "P c [] hist \<Longrightarrow> P c [] (hist @ [Replied rid code sent])"
    and tapped: "P c [] hist \<Longrightarrow> P (c\<lparr>cn_readTap := on\<rparr>) [] hist"
    and adopted: "P c [] hist \<Longrightarrow> allowed (Adopt allow) \<Longrightarrow> cn_closed c \<Longrightarrow> adopt allow c = (c', out) \<Longrightarrow> P c' [] (hist @ out)"
begin

lemma run_holds: "run_tasks h c ts hist = (d, es) \<Longrightarrow> P c ts hist \<Longrightarrow> P d [] es"
  by (rule run_tasks_inv) (use task in auto)

lemma arrival_holds:
  assumes "P c [] hist" "fresh c i" "hi_event i \<noteq> Reconnect_Event"
    and "emit h i c = (c', ts, out)" "run_tasks h c' ts (Arrived i # out) = (d, es)"
  shows "P d [] (hist @ es)"
  using run_holds [OF run_tasks_hist [OF assms(5)]] arrival [OF assms(1,2) _ assms(4)] assms(3) by simp

lemma read_holds:
  assumes "P c [] hist" "allowed (Read epoch m)" "dispatchMessage h m epoch c = (d, es)"
  shows "P d [] (hist @ es)"
proof (cases "epoch = cn_epoch c")
  case False
  show ?thesis
  proof (cases "METHOD_TO_EVENT (ms_method m)")
    case None
    then show ?thesis using assms False by (simp add: dispatchMessage_def afterBoundary_def)
  next
    case (Some e)
    obtain c' out where hold: "hold (item_of e m epoch True) c = (c', out)" by fastforce
    show ?thesis
    proof (cases "closedForGood c \<or> e \<notin> set WORLD_EVENTS")
      case True
      then show ?thesis
        using assms False Some too_late [OF assms(1)] by (auto simp: dispatchMessage_def afterBoundary_def Let_def)
    next
      case world: False
      then show ?thesis
        using assms False Some hold late [OF assms(1,2) False _ hold]
        by (simp add: dispatchMessage_def afterBoundary_def)
    qed
  qed
next
  case True
  show ?thesis
  proof (cases "reads_event m c")
    case None
    then show ?thesis
      using assms True replied [OF assms(1)] by (auto simp: dispatch_cases reply_def split: option.splits)
  next
    case (Some e)
    obtain c' ts out where e: "emit h (item_of e m epoch False) c = (c', ts, out)"
      by (cases "emit h (item_of e m epoch False) c") auto
    have "fresh c (item_of e m epoch False)"
      using True reads_event_known [OF Some] by (simp add: fresh_def item_of_def)
    moreover have "hi_event (item_of e m epoch False) \<noteq> Reconnect_Event"
      using reads_event_known [OF Some] by (auto simp: item_of_def METHOD_EVENTS_def)
    ultimately show ?thesis
      using arrival_holds [OF assms(1) _ _ e] assms(3) True Some e by (simp add: dispatch_cases)
  qed
qed

lemma fresh_own: "fresh c (own_event e params c)"
  by (simp add: fresh_def own_event_def hasResponder_def)

lemma call_holds:
  assumes "P c [] hist" "allowed x" "do_call h x c = (d, es)"
  shows "P d [] (hist @ es)"
proof (cases x)
  case (Op y)
  obtain c' ts out where o: "do_op h y c = (c', ts, out)" by (cases "do_op h y c") auto
  then have "run_tasks h c' ts (hist @ out) = (d, hist @ es)"
    using assms(3) Op run_tasks_hist by simp
  then show ?thesis
    using run_holds op [OF assms(1) _ o] assms(2) Op by blast
next
  case (Read epoch m)
  then show ?thesis using read_holds assms by simp
next
  case (Own e params)
  obtain c' ts out where e: "emit h (own_event e params c) c = (c', ts, out)"
    by (cases "emit h (own_event e params c) c") auto
  then show ?thesis
    using assms Own arrival_holds [OF assms(1) fresh_own _ e]
    by (auto simp: Let_def own_event_def own_events_def split: if_splits)
next
  case (Set_Tap on)
  then show ?thesis using assms tapped by auto
next
  case (Adopt allow)
  show ?thesis
  proof (cases "\<not> cn_closed c \<or> \<not> cn_reconnectEnabled c")
    case True
    then show ?thesis using assms Adopt by auto
  next
    case False
    obtain c1 out where a: "adopt allow c = (c1, out)" by fastforce
    let ?i = "own_event Reconnect_Event JNull c1"
    obtain c2 ts after where e: "emit h ?i c1 = (c2, ts, after)" by (cases "emit h ?i c1") auto
    have "run_tasks h c2 ts (out @ Arrived ?i # after) = (d, es)"
      using assms(3) Adopt False a e by simp
    then have run: "run_tasks h c2 ts ((hist @ out) @ Arrived ?i # after) = (d, hist @ es)"
      using run_tasks_hist by fastforce
    have "P c1 [] (hist @ out)"
      using adopted [OF assms(1) _ _ a] assms(2) Adopt False by simp
    from arrival [OF this fresh_own _ e] show ?thesis
      using run_holds [OF run] assms(2) Adopt by auto
  qed
qed

lemma calls_hold:
  "P c [] hist \<Longrightarrow> list_all allowed xs \<Longrightarrow> do_calls h xs c = (d, es) \<Longrightarrow> P d [] (hist @ es)"
proof (induction xs arbitrary: c hist es)
  case (Cons x xs)
  obtain c' out where x: "do_call h x c = (c', out)" by fastforce
  obtain later where xs: "do_calls h xs c' = (d, later)" "es = out @ later"
    using Cons.prems x by (auto split: prod.splits)
  have "P c' [] (hist @ out)"
    using call_holds [OF Cons.prems(1) _ x] Cons.prems(2) by simp
  from Cons.IH [OF this _ xs(1)] show ?case
    using Cons.prems(2) xs(2) by simp
qed simp

end

subsection \<open>Accounts\<close>

text \<open>
  What became of each item, up to the mark a boundary puts on it. The three lifecycle events
  are the host's own and are not counted.
\<close>

definition plainly :: "held_item \<Rightarrow> held_item" where
  "plainly i = i\<lparr>hi_kept := False\<rparr>"

definition tally :: "held_item list \<Rightarrow> held_item multiset" where
  "tally is = mset (map plainly (filter (\<lambda>i. \<not> isLifecycleEvent (hi_event i)) is))"

fun arrives :: "effect \<Rightarrow> held_item list" where
  "arrives (Arrived i) = [i]"
| "arrives _ = []"

fun settles :: "effect \<Rightarrow> held_item list" where
  "settles (Delivered i) = [i]"
| "settles (Refused i code sent) = [i]"
| "settles (Discarded i) = [i]"
| "settles (Dropped i) = [i]"
| "settles _ = []"

definition arrived :: "effect list \<Rightarrow> held_item list" where
  "arrived hist = concat (map arrives hist)"

definition settled :: "effect list \<Rightarrow> held_item list" where
  "settled hist = concat (map settles hist)"

definition open_items :: "connection \<Rightarrow> task list \<Rightarrow> held_item list" where
  "open_items c ts = cn_held c @ concat (map task_items ts)"

lemma tally_append [simp]: "tally (is @ rest) = tally is + tally rest"
  by (simp add: tally_def)

lemma tally_Nil [simp]: "tally [] = {#}"
  by (simp add: tally_def)

definition one :: "held_item \<Rightarrow> held_item multiset" where
  "one i = (if isLifecycleEvent (hi_event i) then {#} else {#plainly i#})"

lemma tally_Cons [simp]: "tally (i # is) = one i + tally is"
  by (simp add: tally_def one_def)

lemma one_kept [simp]: "one (i\<lparr>hi_kept := b\<rparr>) = one i"
  by (simp add: one_def plainly_def)

lemma tally_mset: "mset is = mset rest \<Longrightarrow> tally is = tally rest"
  unfolding tally_def by (metis mset_filter mset_map)

lemma tally_kept [simp]: "tally (map (\<lambda>i. i\<lparr>hi_kept := b\<rparr>) is) = tally is"
  by (simp add: tally_def filter_map comp_def plainly_def [abs_def])

lemma tally_filter: "tally is = tally (filter P is) + tally (filter (\<lambda>i. \<not> P i) is)"
proof -
  have "mset is = mset (filter P is @ filter (\<lambda>i. \<not> P i) is)"
    by (induction "is") auto
  from tally_mset [OF this] show ?thesis by simp
qed

lemma account_simps [simp]:
  "arrived [] = []" "settled [] = []" "arrived (es @ fs) = arrived es @ arrived fs"
  "settled (es @ fs) = settled es @ settled fs" "arrived (e # es) = arrives e @ arrived es"
  "settled (e # es) = settles e @ settled es" "settled (map Dropped is) = is" "arrived (map Dropped is) = []"
  by (simp_all add: arrived_def settled_def comp_def)

lemma open_items_simps [simp]:
  "open_items c [] = cn_held c" "tally (open_items c (t # ts)) = tally (open_items c ts) + tally (task_items t)"
  "tally (open_items c (ts @ us)) = tally (open_items c ts) + tally (concat (map task_items us))"
  by (simp_all add: open_items_def add_ac)

lemma tally_within: "tally is = tally (fst (within_kept n is)) + tally (snd (within_kept n is))"
proof (induction n "is" rule: within_kept.induct)
  case (2 n i "is")
  then show ?case
    by (auto simp: add_ac split: prod.split)
qed simp

lemma tally_replaceHeld:
  "replaceHeld is c = (c', out) \<Longrightarrow> tally is = tally (cn_held c') + tally (settled out) \<and> arrived out = []"
  using tally_within [of "is" 0] by (auto simp: replaceHeld_def split: prod.splits)

lemma tally_keepAcross:
  "keepAcrossBoundary is c = (kept, out) \<Longrightarrow> tally is = tally kept + tally (settled out) \<and> arrived out = []"
  using tally_filter [of "is" "boundary_drops c"] by (auto simp: keepAcrossBoundary_def)

lemma tally_reset:
  assumes "resetPolicyForTransportBoundary c = (c', out)"
  shows "tally (cn_held c) = tally (cn_held c') + tally (settled out) \<and> arrived out = []"
proof -
  let ?c = "c\<lparr>cn_grant := empty_grant, cn_policyEstablished := False, cn_epoch := cn_epoch c + 1\<rparr>"
  obtain kept drops where k: "keepAcrossBoundary (cn_held c) ?c = (kept, drops)" by fastforce
  obtain d past where r: "replaceHeld kept ?c = (d, past)" by fastforce
  have "c' = d\<lparr>cn_observeFilter := None, cn_manifest := no_manifest\<rparr>" "out = Boundary # drops @ past"
    using assms k r by (auto simp: resetPolicyForTransportBoundary_def)
  then show ?thesis
    using tally_keepAcross [OF k] tally_replaceHeld [OF r] by simp
qed

lemma remove_first_split: "mset (fst (remove_first P xs)) + mset (snd (remove_first P xs)) = mset xs"
  by (induction P xs rule: remove_first.induct) (auto split: prod.split)

lemma tally_hold:
  assumes "hold i c = (c', out)"
  shows "tally (cn_held c) + tally [i] = tally (cn_held c') + tally (settled out) \<and> arrived out = []"
proof -
  obtain rest oldest where r: "remove_first (\<lambda>j. \<not> hasResponder j) (cn_held c) = (rest, oldest)" by fastforce
  then have "mset (cn_held c) = mset (rest @ oldest)"
    using remove_first_split [of "\<lambda>j. \<not> hasResponder j" "cn_held c"] by simp
  from tally_mset [OF this] show ?thesis
    using assms r by (auto simp: hold_def Let_def split: if_splits)
qed

lemma tally_flushHeld:
  assumes "flushHeld h is c = (c', ts, out)"
  shows "tally (cn_held c) + tally is = tally (open_items c' ts) + tally (settled out) \<and> arrived out = []"
proof (cases "\<not> isConnected c \<and> list_ex waits is")
  case True
  obtain d out' where r: "replaceHeld (cn_held c @ filter waits is) c = (d, out')" by fastforce
  then have "c' = d" "out = out'" "ts = [Flush (cn_epoch d) (admissionOrder (ho_number h) (filter (\<lambda>i. \<not> waits i) is))]"
    using assms True by (auto simp: flushHeld_def)
  then show ?thesis
    using tally_replaceHeld [OF r] tally_filter [of "is" waits]
      tally_mset [OF mset_admissionOrder [of "ho_number h" "filter (\<lambda>i. \<not> waits i) is"]] by simp
next
  case False
  then have "c' = c" "out = []" "ts = [Flush (cn_epoch c) (admissionOrder (ho_number h) is)]"
    using assms by (auto simp: flushHeld_def)
  then show ?thesis
    using tally_mset [OF mset_admissionOrder [of "ho_number h" "is"]] by simp
qed

lemma tally_own_reports:
  assumes "deliverOwnReports c = (c', ts, out)"
  shows "tally (cn_held c) = tally (open_items c' ts) + tally (settled out) \<and> arrived out = []"
  using assms tally_filter [of "cn_held c" ownReport]
  by (auto simp: deliverOwnReports_def Let_def split: if_splits)

lemma tally_close_report [simp]: "one (own_event Closed_Event v c) = {#}"
  by (simp add: one_def own_event_def isLifecycleEvent_def)

lemma tally_do_op:
  assumes "do_op h x c = (c', ts, out)"
  shows "tally (cn_held c) = tally (open_items c' ts) + tally (settled out) \<and> arrived out = []"
proof -
  have open_op: "x = Ready \<or> x = Ready_Control \<Longrightarrow> ?thesis"
    using assms tally_own_reports [of c c' ts out] tally_flushHeld [of h "cn_held c" "opened True c" c' ts out]
      tally_flushHeld [of h "cn_held c" "opened False c" c' ts out]
    by (auto simp: do_op_def ready_opened split: if_splits)
  show ?thesis
  proof (cases x)
    case Close_Host
    then show ?thesis
      using assms tally_reset [of "c\<lparr>cn_reconnectEnabled := False, cn_closed := True\<rparr>" c' out]
      by (auto simp: do_op_def close_def Let_def split: if_splits prod.splits)
  next
    case Transport_Lost
    then show ?thesis
      using assms tally_reset [of "c\<lparr>cn_closed := True\<rparr>" c' out]
      by (auto simp: do_op_def lost_def Let_def split: if_splits prod.splits)
  qed (use assms open_op in \<open>auto simp: do_op_def pauseDataPlane_def establishGrant_def Let_def split: if_splits\<close>)
qed

lemma tally_emit:
  assumes "emit h i c = (c', ts, out)"
  shows "tally (cn_held c) + tally [i] = tally (open_items c' ts) + tally (settled out) \<and> arrived out = []"
proof (cases "planeReadyFor (hi_event i) c")
  case True
  then show ?thesis using assms by (auto simp: emit_def Let_def split: if_splits)
next
  case False
  then show ?thesis
    using assms tally_hold [of "i\<lparr>hi_kept := False\<rparr>" c c' out] by (auto simp: emit_def split: prod.splits)
qed

lemma tally_task:
  assumes "task_step h t c = (c', ts, out)"
  shows "tally (cn_held c) + tally (task_items t) = tally (open_items c' ts) + tally (settled out) \<and> arrived out = []"
proof (cases t)
  case (Flush epoch "is")
  show ?thesis
  proof (cases "is")
    case (Cons i rest)
    consider (boundary) "cn_epoch c \<noteq> epoch"
      | (kept) "cn_epoch c = epoch" "hi_kept i \<and> \<not> planeReadyFor (hi_event i) c"
      | (admit) "cn_epoch c = epoch" "\<not> (hi_kept i \<and> \<not> planeReadyFor (hi_event i) c)"
      by blast
    then show ?thesis
    proof cases
      case boundary
      obtain kept drops where k: "keepAcrossBoundary (i # rest) c = (kept, drops)" by fastforce
      obtain d past where r: "replaceHeld (cn_held c @ kept) c = (d, past)" by fastforce
      then show ?thesis
        using assms Flush Cons boundary k tally_keepAcross [OF k] tally_replaceHeld [OF r] by (auto simp: add.assoc)
    next
      case kept
      then show ?thesis
        using assms Flush Cons tally_hold [of i c c' out] by (auto simp: add_ac split: prod.splits)
    next
      case admit
      obtain d us' out' where e: "emit h i c = (d, us', out')" by (cases "emit h i c") auto
      then show ?thesis
        using assms Flush Cons admit tally_emit [OF e] by (auto simp: add_ac)
    qed
  qed (use assms Flush in simp)
next
  case (Report "is")
  then show ?thesis
    using assms by (cases "is") (auto simp: add_ac)
next
  case (React xs)
  show ?thesis
  proof (cases xs)
    case (Cons x ys)
    obtain d us' out' where e: "do_op h x c = (d, us', out')" by (cases "do_op h x c") auto
    then show ?thesis
      using assms React Cons tally_do_op [OF e] by auto
  qed (use assms React in simp)
qed

interpretation accounts: machine_invariant h "\<lambda>_. True"
    "\<lambda>c ts hist. tally (arrived hist) = tally (open_items c ts) + tally (settled hist)" for h
proof
  fix c t ts hist c' us out
  assume P: "tally (arrived hist) = tally (open_items c (t # ts)) + tally (settled hist)"
    and s: "task_step h t c = (c', us, out)"
  have "tally (arrived (hist @ out)) = (tally (cn_held c) + tally (task_items t)) + tally (concat (map task_items ts)) + tally (settled hist)"
    using P tally_task [OF s] by (simp add: open_items_def add_ac)
  also have "\<dots> = tally (open_items c' (us @ ts)) + tally (settled (hist @ out))"
    unfolding tally_task [OF s, THEN conjunct1] by (simp add: add_ac)
  finally show "tally (arrived (hist @ out)) = tally (open_items c' (us @ ts)) + tally (settled (hist @ out))" .
next
  fix c hist x c' us out
  assume P: "tally (arrived hist) = tally (open_items c []) + tally (settled hist)" and o: "do_op h x c = (c', us, out)"
  show "tally (arrived (hist @ out)) = tally (open_items c' us) + tally (settled (hist @ out))"
    using P tally_do_op [OF o] by (simp add: add_ac)
next
  fix c hist i c' us out
  assume P: "tally (arrived hist) = tally (open_items c []) + tally (settled hist)" and e: "emit h i c = (c', us, out)"
  have "tally (arrived (hist @ Arrived i # out)) = (tally (cn_held c) + tally [i]) + tally (settled hist)"
    using P tally_emit [OF e] by (simp add: add_ac)
  then show "tally (arrived (hist @ Arrived i # out)) = tally (open_items c' us) + tally (settled (hist @ Arrived i # out))"
    unfolding tally_emit [OF e, THEN conjunct1] by (simp add: add_ac)
next
  fix c hist epoch m e c' out
  assume P: "tally (arrived hist) = tally (open_items c []) + tally (settled hist)"
    and o: "hold (item_of e m epoch True) c = (c', out)"
  let ?i = "item_of e m epoch True"
  have "tally (arrived (hist @ Arrived ?i # out)) = (tally (cn_held c) + tally [?i]) + tally (settled hist)"
    using P tally_hold [OF o] by (simp add: add_ac)
  then show "tally (arrived (hist @ Arrived ?i # out)) = tally (open_items c' []) + tally (settled (hist @ Arrived ?i # out))"
    unfolding tally_hold [OF o, THEN conjunct1] by (simp add: add_ac)
next
  fix c hist allow c' out
  assume P: "tally (arrived hist) = tally (open_items c []) + tally (settled hist)" and a: "adopt allow c = (c', out)"
  have "tally (cn_held c) = tally (cn_held c') + tally (settled out) \<and> arrived out = []"
    using a tally_reset [of "c\<lparr>cn_controlReady := False, cn_dataReady := False\<rparr>"]
    by (auto simp: adopt_def split: prod.splits)
  then show "tally (arrived (hist @ out)) = tally (open_items c' []) + tally (settled (hist @ out))"
    using P by (simp add: add_ac)
qed (simp_all add: add_ac)

subsection \<open>Authority\<close>

text \<open>
  A history read from the start: the grant in force, replaced when one is established and
  emptied at a boundary, holds what each delivered event requires.
\<close>

definition permitted :: "capability_grant \<Rightarrow> held_item \<Rightarrow> bool" where
  "permitted g i \<longleftrightarrow> (case EVENT_TO_REQUIRED_CAPABILITY (hi_event i) of None \<Rightarrow> True | Some cap \<Rightarrow> grant_has g cap)"

fun in_force :: "capability_grant \<Rightarrow> effect \<Rightarrow> capability_grant" where
  "in_force g (Granted g') = g'"
| "in_force g Boundary = empty_grant"
| "in_force g _ = g"

fun authorized :: "capability_grant \<Rightarrow> effect list \<Rightarrow> bool" where
  "authorized g [] \<longleftrightarrow> True"
| "authorized g (e # es) \<longleftrightarrow> (case e of Delivered i \<Rightarrow> permitted g i | _ \<Rightarrow> True) \<and> authorized (in_force g e) es"

definition obeys :: "capability_grant \<Rightarrow> effect list \<Rightarrow> capability_grant \<Rightarrow> bool" where
  "obeys g es g' \<longleftrightarrow> authorized g es \<and> foldl in_force g es = g'"

lemma authorized_append: "authorized g (es @ fs) \<longleftrightarrow> authorized g es \<and> authorized (foldl in_force g es) fs"
  by (induction es arbitrary: g) auto

lemma obeys_append: "obeys g es g' \<Longrightarrow> obeys g' fs g'' \<Longrightarrow> obeys g (es @ fs) g''"
  by (auto simp: obeys_def authorized_append)

lemma obeys_Nil [simp]: "obeys g [] g' \<longleftrightarrow> g = g'"
  by (simp add: obeys_def)

lemma obeys_Cons [simp]:
  "obeys g (e # es) g' \<longleftrightarrow> (case e of Delivered i \<Rightarrow> permitted g i | _ \<Rightarrow> True) \<and> obeys (in_force g e) es g'"
  by (auto simp: obeys_def)

lemma obeys_drops [simp]: "obeys g (map Dropped is) g' \<longleftrightarrow> g = g'"
  by (induction "is") auto

text \<open>What a \<open>Report\<close> delivers needs no capability.\<close>

fun task_free :: "task \<Rightarrow> bool" where
  "task_free (Report is) \<longleftrightarrow> list_all (\<lambda>i. EVENT_TO_REQUIRED_CAPABILITY (hi_event i) = None) is"
| "task_free _ \<longleftrightarrow> True"

lemma replaceHeld_out: "\<exists>is. snd (replaceHeld items c) = map Dropped is"
  by (auto simp: replaceHeld_def split: prod.split)

lemma replaceHeld_grant [simp]: "cn_grant (fst (replaceHeld is c)) = cn_grant c"
  by (simp add: replaceHeld_def split: prod.split)

lemma hold_out: "(\<exists>is. snd (hold i c) = map Dropped is) \<or> snd (hold i c) = [Refused i (-32000) (goes_out i c)]"
proof -
  have "[Dropped i] = map Dropped [i]" "[] = map Dropped []" by simp_all
  then show ?thesis
    unfolding hold_def Let_def
    by (simp split: prod.split del: list.map) metis
qed

lemma obeys_replaceHeld:
  "replaceHeld is c = (c', out) \<Longrightarrow> obeys g out g \<and> cn_grant c' = cn_grant c"
  using replaceHeld_out [of "is" c] replaceHeld_grant [of "is" c] by auto

lemma obeys_keepAcross: "keepAcrossBoundary is c = (kept, out) \<Longrightarrow> obeys g out g"
  by (auto simp: keepAcrossBoundary_def)

lemma free_events [simp]:
  "ownReport i \<Longrightarrow> EVENT_TO_REQUIRED_CAPABILITY (hi_event i) = None"
  "EVENT_TO_REQUIRED_CAPABILITY (hi_event (own_event Closed_Event v d)) = None"
  by (auto simp: ownReport_def own_event_def EVENT_TO_REQUIRED_CAPABILITY_def)

lemma emit_cases:
  assumes "emit h i c = (c', ts, out)"
  obtains (held) "\<not> planeReadyFor (hi_event i) c" "hold (i\<lparr>hi_kept := False\<rparr>) c = (c', out)" "ts = []"
    | (refused) code where "planeReadyFor (hi_event i) c" "hasResponder i" "c' = c" "ts = []" "out = [Refused i code (goes_out i c)]" "code \<noteq> -32000"
    | (discarded) "planeReadyFor (hi_event i) c" "\<not> hasResponder i" "c' = c" "ts = []" "out = [Discarded i]"
    | (delivered) xs where "planeReadyFor (hi_event i) c" "permitted (cn_grant c) i" "c' = c" "ts = [React xs]"
        "out = [Delivered i] \<or> out = [Answered i (goes_out i c), Delivered i]" "\<exists>j. xs = ho_react h j c"
proof -
  define blocked where "blocked \<longleftrightarrow> hi_event i = Host_Command \<and> \<not> cn_allowHostCommands c \<or> \<not> permitted (cn_grant c) i"
  have e: "emit h i c =
     (if \<not> planeReadyFor (hi_event i) c then (case hold (i\<lparr>hi_kept := False\<rparr>) c of (c, out) \<Rightarrow> (c, [], out))
      else if blocked then (c, [], [if hasResponder i then Refused i CAPABILITY_DISABLED (goes_out i c) else Discarded i])
      else if hasResponder i \<and> \<not> ho_listens h (hi_event i) then (c, [], [Refused i (-32601) (goes_out i c)])
      else if (hi_event i = Manifest_Changed \<or> hi_event i = Tools_List_Changed) \<and> hasResponder i then
           (c, [React (ho_react h (i\<lparr>hi_request := None\<rparr>) c)], [Answered i (goes_out i c), Delivered i])
      else (c, [React (ho_react h i c)], [Delivered i]))"
    by (simp add: emit_def blocked_def permitted_def Let_def split: option.split)
  show thesis
  proof (cases "planeReadyFor (hi_event i) c")
    case False
    then show ?thesis using assms held e by (auto split: prod.splits)
  next
    case True
    then have e': "(c', ts, out) =
       (if blocked then (c, [], [if hasResponder i then Refused i CAPABILITY_DISABLED (goes_out i c) else Discarded i])
        else if hasResponder i \<and> \<not> ho_listens h (hi_event i) then (c, [], [Refused i (-32601) (goes_out i c)])
        else if (hi_event i = Manifest_Changed \<or> hi_event i = Tools_List_Changed) \<and> hasResponder i then
           (c, [React (ho_react h (i\<lparr>hi_request := None\<rparr>) c)], [Answered i (goes_out i c), Delivered i])
        else (c, [React (ho_react h i c)], [Delivered i]))"
      using e assms by simp
    show ?thesis
    proof (cases blocked)
      case True
      then show ?thesis
        using e' refused [of CAPABILITY_DISABLED] discarded \<open>planeReadyFor (hi_event i) c\<close>
        by (cases "hasResponder i") (simp_all add: CAPABILITY_DISABLED_def)
    next
      case False
      then have "permitted (cn_grant c) i" by (simp add: blocked_def)
      then show ?thesis
        using e' False refused [of "-32601"] delivered True by (auto split: if_splits)
    qed
  qed
qed

lemma obeys_reset:
  assumes "resetPolicyForTransportBoundary c = (c', out)"
  shows "obeys g out (cn_grant c') \<and> cn_grant c' = empty_grant"
proof -
  let ?c = "c\<lparr>cn_grant := empty_grant, cn_policyEstablished := False, cn_epoch := cn_epoch c + 1\<rparr>"
  obtain kept drops where k: "keepAcrossBoundary (cn_held c) ?c = (kept, drops)" by fastforce
  obtain d past where r: "replaceHeld kept ?c = (d, past)" by fastforce
  have "c' = d\<lparr>cn_observeFilter := None, cn_manifest := no_manifest\<rparr>" "out = Boundary # drops @ past"
    using assms k r by (auto simp: resetPolicyForTransportBoundary_def)
  then show ?thesis
    using obeys_keepAcross [OF k, of empty_grant] obeys_replaceHeld [OF r, of empty_grant]
    by (simp add: obeys_append)
qed

lemma obeys_hold:
  assumes "hold i c = (c', out)"
  shows "obeys g out g \<and> cn_grant c' = cn_grant c"
  using hold_out [of i c] hold_simps(3) [of i c] assms by auto

lemma obeys_flushHeld:
  assumes "flushHeld h is c = (c', ts, out)"
  shows "obeys (cn_grant c) out (cn_grant c') \<and> list_all task_free ts"
proof (cases "\<not> isConnected c \<and> list_ex waits is")
  case True
  obtain d out' where r: "replaceHeld (cn_held c @ filter waits is) c = (d, out')" by fastforce
  then show ?thesis
    using assms True obeys_replaceHeld [OF r, of "cn_grant c"] by (auto simp: flushHeld_def)
next
  case False
  then show ?thesis using assms by (auto simp: flushHeld_def)
qed

lemma obeys_own_reports:
  assumes "deliverOwnReports c = (c', ts, out)"
  shows "obeys (cn_grant c) out (cn_grant c') \<and> list_all task_free ts"
  using assms by (auto simp: deliverOwnReports_def Let_def list_all_iff split: if_splits)

lemma obeys_do_op:
  assumes "do_op h x c = (c', ts, out)"
  shows "obeys (cn_grant c) out (cn_grant c') \<and> list_all task_free ts"
proof (cases x)
  case Ready
  then show ?thesis
    using assms obeys_own_reports [of c c' ts out] obeys_flushHeld [of h "cn_held c" "opened True c" c' ts out]
    by (simp add: do_op_def ready_opened split: if_splits)
next
  case Ready_Control
  then show ?thesis
    using assms obeys_own_reports [of c c' ts out] obeys_flushHeld [of h "cn_held c" "opened False c" c' ts out]
    by (simp add: do_op_def ready_opened split: if_splits)
next
  case Close_Host
  show ?thesis
  proof (cases "cn_closed c")
    case True
    then show ?thesis using assms Close_Host by (auto simp: do_op_def close_def)
  next
    case False
    obtain d out' where r: "resetPolicyForTransportBoundary (c\<lparr>cn_reconnectEnabled := False, cn_closed := True\<rparr>) = (d, out')"
      by fastforce
    then show ?thesis
      using assms Close_Host False obeys_reset [OF r, of "cn_grant c"] by (auto simp: do_op_def close_def)
  qed
next
  case Transport_Lost
  show ?thesis
  proof (cases "cn_closed c")
    case True
    then show ?thesis using assms Transport_Lost by (simp add: do_op_def lost_def)
  next
    case False
    obtain d out' where r: "resetPolicyForTransportBoundary (c\<lparr>cn_closed := True\<rparr>) = (d, out')" by fastforce
    then show ?thesis
      using assms Transport_Lost False obeys_reset [OF r, of "cn_grant c"] by (auto simp: do_op_def lost_def)
  qed
next
  case (Establish g)
  then show ?thesis using assms by (auto simp: do_op_def establishGrant_def Let_def)
qed (use assms in \<open>auto simp: do_op_def pauseDataPlane_def\<close>)

lemma obeys_emit:
  assumes "emit h i c = (c', ts, out)"
  shows "obeys (cn_grant c) out (cn_grant c') \<and> list_all task_free ts"
  using assms
proof (cases rule: emit_cases)
  case held
  from obeys_hold [OF held(2), of "cn_grant c"] show ?thesis
    using held(3) by simp
qed auto

lemma obeys_task:
  assumes "task_step h t c = (c', ts, out)" "task_free t"
  shows "obeys (cn_grant c) out (cn_grant c') \<and> list_all task_free ts"
proof (cases t)
  case (Flush epoch "is")
  show ?thesis
  proof (cases "is")
    case (Cons i rest)
    consider (boundary) "cn_epoch c \<noteq> epoch"
      | (kept) "cn_epoch c = epoch" "hi_kept i \<and> \<not> planeReadyFor (hi_event i) c"
      | (admit) "cn_epoch c = epoch" "\<not> (hi_kept i \<and> \<not> planeReadyFor (hi_event i) c)"
      by blast
    then show ?thesis
    proof cases
      case boundary
      obtain kept drops where k: "keepAcrossBoundary (i # rest) c = (kept, drops)" by fastforce
      obtain d past where r: "replaceHeld (cn_held c @ kept) c = (d, past)" by fastforce
      then have "c' = d" "ts = []" "out = drops @ past"
        using assms(1) Flush Cons boundary k by auto
      then show ?thesis
        using obeys_append [OF obeys_keepAcross [OF k, of "cn_grant c"]] obeys_replaceHeld [OF r, of "cn_grant c"] by simp
    next
      case kept
      obtain d out' where o: "hold i c = (d, out')" by fastforce
      then have "c' = d" "ts = [Flush epoch rest]" "out = out'"
        using assms(1) Flush Cons kept by auto
      then show ?thesis
        using obeys_hold [OF o, of "cn_grant c"] by simp
    next
      case admit
      obtain d us' out' where e: "emit h i c = (d, us', out')" by (cases "emit h i c") auto
      then have "c' = d" "ts = us' @ [Flush epoch rest]" "out = out'"
        using assms(1) Flush Cons admit by auto
      then show ?thesis
        using obeys_emit [OF e] by simp
    qed
  next
    case Nil
    then show ?thesis using assms(1) Flush by simp
  qed
next
  case (Report "is")
  then show ?thesis
    using assms by (cases "is") (auto simp: permitted_def)
next
  case (React xs)
  show ?thesis
  proof (cases xs)
    case (Cons x ys)
    obtain d us' out' where e: "do_op h x c = (d, us', out')" by (cases "do_op h x c") auto
    then have "c' = d" "ts = us' @ [React ys]" "out = out'"
      using assms(1) React Cons by auto
    then show ?thesis
      using obeys_do_op [OF e] by simp
  next
    case Nil
    then show ?thesis using assms(1) React by simp
  qed
qed

interpretation authority: machine_invariant h "\<lambda>_. True"
    "\<lambda>c ts hist. obeys g hist (cn_grant c) \<and> list_all task_free ts" for h g
proof
  fix c t ts hist c' us out
  assume P: "obeys g hist (cn_grant c) \<and> list_all task_free (t # ts)" and s: "task_step h t c = (c', us, out)"
  then have "obeys (cn_grant c) out (cn_grant c') \<and> list_all task_free us"
    using obeys_task [OF s] by simp
  then show "obeys g (hist @ out) (cn_grant c') \<and> list_all task_free (us @ ts)"
    using P obeys_append [of g hist "cn_grant c" out] by simp
next
  fix c hist x c' us out
  assume P: "obeys g hist (cn_grant c) \<and> list_all task_free []" and o: "do_op h x c = (c', us, out)"
  show "obeys g (hist @ out) (cn_grant c') \<and> list_all task_free us"
    using P obeys_do_op [OF o] obeys_append [of g hist "cn_grant c" out] by simp
next
  fix c hist i c' us out
  assume P: "obeys g hist (cn_grant c) \<and> list_all task_free []" and e: "emit h i c = (c', us, out)"
  show "obeys g (hist @ Arrived i # out) (cn_grant c') \<and> list_all task_free us"
    using P obeys_emit [OF e] obeys_append [of g hist "cn_grant c" "Arrived i # out"] by simp
next
  fix c hist epoch m e c' out
  assume P: "obeys g hist (cn_grant c) \<and> list_all task_free []" and o: "hold (item_of e m epoch True) c = (c', out)"
  show "obeys g (hist @ Arrived (item_of e m epoch True) # out) (cn_grant c') \<and> list_all task_free []"
    using P obeys_hold [OF o, of "cn_grant c"]
      obeys_append [of g hist "cn_grant c" "Arrived (item_of e m epoch True) # out"] by simp
next
  fix c hist allow c' out
  assume P: "obeys g hist (cn_grant c) \<and> list_all task_free []" and a: "adopt allow c = (c', out)"
  obtain d out' where r: "resetPolicyForTransportBoundary (c\<lparr>cn_controlReady := False, cn_dataReady := False\<rparr>) = (d, out')"
    by fastforce
  have "obeys (cn_grant c) out (cn_grant c')"
    using a r obeys_reset [OF r, of "cn_grant c"] by (auto simp: adopt_def)
  then show "obeys g (hist @ out) (cn_grant c') \<and> list_all task_free []"
    using P obeys_append [of g hist "cn_grant c" out] by simp
next
  fix c hist i
  assume P: "obeys g hist (cn_grant c) \<and> list_all task_free []"
  show "obeys g (hist @ [Arrived i, Dropped i]) (cn_grant c) \<and> list_all task_free []"
    using P obeys_append [of g hist "cn_grant c" "[Arrived i, Dropped i]"] by simp
next
  fix c hist rid code sent
  assume P: "obeys g hist (cn_grant c) \<and> list_all task_free []"
  show "obeys g (hist @ [Replied rid code sent]) (cn_grant c) \<and> list_all task_free []"
    using P obeys_append [of g hist "cn_grant c" "[Replied rid code sent]"] by simp
qed simp

end
