(* ===== verification/Held_Bounds.thy ===== *)
theory Held_Bounds
  imports Held_Traffic_Proofs
begin

section \<open>The bounds on what is held\<close>

text \<open>
  The three counts \<open>hold\<close> keeps: requests a server waits on, requests a boundary kept, and
  notifications. During a flush the first and the last are bounded together with what the
  flush has yet to look at, so holding again what was held never refuses or drops it.
\<close>

definition live_requests :: "held_item list \<Rightarrow> nat" where
  "live_requests is = length (filter (\<lambda>i. \<not> hi_kept i \<and> hasResponder i) is)"

definition kept_requests :: "held_item list \<Rightarrow> nat" where
  "kept_requests is = length (filter (\<lambda>i. hi_kept i \<and> hasResponder i) is)"

definition notifications :: "held_item list \<Rightarrow> nat" where
  "notifications is = length (filter (\<lambda>i. \<not> hasResponder i) is)"

lemmas counts_defs = live_requests_def kept_requests_def notifications_def

lemma counts_simps [simp]:
  "live_requests [] = 0" "kept_requests [] = 0" "notifications [] = 0"
  "live_requests (is @ rest) = live_requests is + live_requests rest"
  "kept_requests (is @ rest) = kept_requests is + kept_requests rest"
  "notifications (is @ rest) = notifications is + notifications rest"
  "live_requests (i # is) = (if \<not> hi_kept i \<and> hasResponder i then 1 else 0) + live_requests is"
  "kept_requests (i # is) = (if hi_kept i \<and> hasResponder i then 1 else 0) + kept_requests is"
  "notifications (i # is) = (if \<not> hasResponder i then 1 else 0) + notifications is"
  by (simp_all add: counts_defs)

lemma hasResponder_kept [simp]: "hasResponder (i\<lparr>hi_kept := b\<rparr>) = hasResponder i"
  by (simp add: hasResponder_def)

lemma counts_total: "length is = live_requests is + kept_requests is + notifications is"
  by (induction "is") auto

lemma counts_mset:
  assumes "mset is = mset rest"
  shows "live_requests is = live_requests rest" "kept_requests is = kept_requests rest"
    "notifications is = notifications rest"
  unfolding counts_defs using assms by (metis mset_filter size_mset)+

lemma counts_filter_le:
  "live_requests (filter P is) \<le> live_requests is" "notifications (filter P is) \<le> notifications is"
  by (induction "is") auto

lemma within_kept_counts:
  "live_requests (fst (within_kept n is)) = live_requests is \<and>
   notifications (fst (within_kept n is)) = notifications is \<and>
   (n \<le> MAX_HELD_REQUESTS \<longrightarrow> n + kept_requests (fst (within_kept n is)) \<le> MAX_HELD_REQUESTS)"
proof (induction n "is" rule: within_kept.induct)
  case (2 n i "is")
  obtain a b where "within_kept n is = (a, b)" by fastforce
  moreover obtain a' b' where "within_kept (n + 1) is = (a', b')" by fastforce
  ultimately show ?case using "2.IH" by auto
qed simp

text \<open>The counters are exact.\<close>

definition exact :: "connection \<Rightarrow> bool" where
  "exact c \<longleftrightarrow> cn_heldRequests c = live_requests (cn_held c) \<and> cn_keptRequests c = kept_requests (cn_held c) \<and>
     kept_requests (cn_held c) \<le> MAX_HELD_REQUESTS"

lemma replaceHeld_counts:
  assumes "replaceHeld is c = (c', out)"
  shows "exact c' \<and> live_requests (cn_held c') = live_requests is \<and> notifications (cn_held c') = notifications is"
  using assms within_kept_counts [of 0 "is"]
  by (auto simp: replaceHeld_def exact_def live_requests_def [symmetric] kept_requests_def [symmetric] split: prod.splits)

lemma kept_counts:
  "live_requests (map (\<lambda>i. i\<lparr>hi_kept := True\<rparr>) is) = 0"
  "notifications (map (\<lambda>i. i\<lparr>hi_kept := True\<rparr>) is) = notifications is"
  by (induction "is") auto

lemma keepAcross_counts:
  assumes "keepAcrossBoundary is c = (kept, out)"
  shows "live_requests kept = 0 \<and> notifications kept \<le> notifications is"
  using assms counts_filter_le(2) [of "\<lambda>i. \<not> boundary_drops c i" "is"]
  by (auto simp: keepAcrossBoundary_def kept_counts)

lemma reset_counts:
  assumes "resetPolicyForTransportBoundary c = (c', out)"
  shows "exact c' \<and> live_requests (cn_held c') = 0 \<and> notifications (cn_held c') \<le> notifications (cn_held c)"
proof -
  let ?c = "c\<lparr>cn_grant := empty_grant, cn_policyEstablished := False, cn_epoch := cn_epoch c + 1\<rparr>"
  obtain kept drops where k: "keepAcrossBoundary (cn_held c) ?c = (kept, drops)" by fastforce
  obtain d past where r: "replaceHeld kept ?c = (d, past)" by fastforce
  have "c' = d\<lparr>cn_observeFilter := None, cn_manifest := no_manifest\<rparr>"
    using assms k r by (auto simp: resetPolicyForTransportBoundary_def)
  then show ?thesis
    using keepAcross_counts [OF k] replaceHeld_counts [OF r] by (simp add: exact_def)
qed

lemma remove_first_notification:
  assumes "0 < notifications is"
  shows "\<exists>i rest. remove_first (\<lambda>j. \<not> hasResponder j) is = (rest, [i]) \<and> \<not> hasResponder i \<and>
     live_requests rest = live_requests is \<and> kept_requests rest = kept_requests is \<and> notifications rest + 1 = notifications is"
  using assms by (induction "is") (auto split: if_splits)

text \<open>
  \<open>hold\<close>, by what the item is and whether there is room; \<open>room\<close> is room for it among its
  kind.
\<close>

definition room :: "held_item \<Rightarrow> connection \<Rightarrow> bool" where
  "room i c \<longleftrightarrow>
     (if \<not> hasResponder i then notifications (cn_held c) < MAX_HELD_NOTIFICATIONS
      else if hi_kept i then kept_requests (cn_held c) < MAX_HELD_REQUESTS
      else live_requests (cn_held c) < MAX_HELD_REQUESTS)"

lemma held_length: "exact c \<Longrightarrow> length (cn_held c) - cn_heldRequests c - cn_keptRequests c = notifications (cn_held c)"
  using counts_total [of "cn_held c"] by (simp add: exact_def)

lemma hold_room:
  assumes "exact c" "room i c"
  shows "snd (hold i c) = [] \<and> cn_held (fst (hold i c)) = cn_held c @ [i] \<and> exact (fst (hold i c))"
  using assms held_length [OF assms(1)]
  by (cases "hasResponder i"; cases "hi_kept i") (simp_all add: hold_def room_def exact_def)

lemma hold_no_room:
  assumes "exact c" "\<not> room i c" "notifications (cn_held c) \<le> MAX_HELD_NOTIFICATIONS"
  shows "exact (fst (hold i c)) \<and> live_requests (cn_held (fst (hold i c))) = live_requests (cn_held c) \<and>
    notifications (cn_held (fst (hold i c))) = notifications (cn_held c)"
proof (cases "hasResponder i")
  case True
  then show ?thesis
    using assms by (cases "hi_kept i") (simp_all add: hold_def room_def exact_def)
next
  case False
  then have n: "notifications (cn_held c) = MAX_HELD_NOTIFICATIONS"
    using assms by (simp add: room_def)
  then obtain j rest where "remove_first (\<lambda>j. \<not> hasResponder j) (cn_held c) = (rest, [j])"
    "live_requests rest = live_requests (cn_held c)" "kept_requests rest = kept_requests (cn_held c)"
    "notifications rest + 1 = notifications (cn_held c)"
    using remove_first_notification [of "cn_held c"] by (auto simp: MAX_HELD_NOTIFICATIONS_def)
  then show ?thesis
    using assms False n held_length [OF assms(1)] by (simp add: hold_def exact_def)
qed

text \<open>
  A connection's own reports have no responder: taking them out of the buffer leaves the
  counters exact.
\<close>

definition plain_reports :: "held_item list \<Rightarrow> bool" where
  "plain_reports is \<longleftrightarrow> list_all (\<lambda>i. ownReport i \<longrightarrow> \<not> hasResponder i) is"

definition calm :: "effect \<Rightarrow> bool" where
  "calm e \<longleftrightarrow> (case e of Refused i code sent \<Rightarrow> code \<noteq> -32000 | _ \<Rightarrow> True)"

abbreviation in_flush :: "task list \<Rightarrow> held_item list" where
  "in_flush ts \<equiv> concat (map flush_items ts)"

lemma plain_reports_simps [simp]:
  "plain_reports []" "plain_reports (is @ rest) \<longleftrightarrow> plain_reports is \<and> plain_reports rest"
  "plain_reports (i # is) \<longleftrightarrow> (ownReport i \<longrightarrow> \<not> hasResponder i) \<and> plain_reports is"
  "plain_reports is \<Longrightarrow> plain_reports (filter P is)"
  "plain_reports (map (\<lambda>i. i\<lparr>hi_kept := b\<rparr>) is) \<longleftrightarrow> plain_reports is"
  by (auto simp: plain_reports_def list_all_iff ownReport_def)

lemma plain_reports_within: "plain_reports is \<Longrightarrow> plain_reports (fst (within_kept n is))"
  by (induction n "is" rule: within_kept.induct) (auto split: prod.split)

lemma plain_reports_mset: "mset is = mset rest \<Longrightarrow> plain_reports is \<longleftrightarrow> plain_reports rest"
  unfolding plain_reports_def list_all_iff by (metis set_mset_mset)

lemma calm_drops [simp]: "list_all calm (map Dropped is)"
  by (simp add: list_all_iff calm_def)

lemma calm_simps [simp]:
  "calm (Delivered i)" "calm (Answered i sent)" "calm (Discarded i)" "calm (Dropped i)" "calm Boundary"
  "calm (Granted g)" "calm (Arrived i)" "calm (Refused i code sent) \<longleftrightarrow> code \<noteq> -32000"
  by (simp_all add: calm_def)

definition bounded :: "connection \<Rightarrow> held_item list \<Rightarrow> nat \<Rightarrow> nat \<Rightarrow> bool" where
  "bounded c is r n \<longleftrightarrow> exact c \<and> plain_reports (cn_held c @ is) \<and>
     live_requests (cn_held c @ is) \<le> r \<and> notifications (cn_held c @ is) \<le> n"

lemma replaceHeld_bounded:
  assumes "replaceHeld is c = (c', out)" "plain_reports (is @ rest)"
    and "live_requests (is @ rest) \<le> r" "notifications (is @ rest) \<le> n"
  shows "bounded c' rest r n \<and> list_all calm out"
  using assms replaceHeld_counts [OF assms(1)] plain_reports_within [of "is" 0]
  by (auto simp: bounded_def replaceHeld_def split: prod.splits)

lemma reset_bounded:
  assumes "resetPolicyForTransportBoundary c = (c', out)" "bounded c is r n"
  shows "bounded c' is r n \<and> list_all calm out"
proof -
  let ?c = "c\<lparr>cn_grant := empty_grant, cn_policyEstablished := False, cn_epoch := cn_epoch c + 1\<rparr>"
  obtain kept drops where k: "keepAcrossBoundary (cn_held c) ?c = (kept, drops)" by fastforce
  obtain d past where r: "replaceHeld kept ?c = (d, past)" by fastforce
  have c': "c' = d\<lparr>cn_observeFilter := None, cn_manifest := no_manifest\<rparr>" "out = Boundary # drops @ past"
    using assms(1) k r by (auto simp: resetPolicyForTransportBoundary_def)
  have "plain_reports (kept @ is)" "live_requests (kept @ is) \<le> r" "notifications (kept @ is) \<le> n"
    using assms(2) k keepAcross_counts [OF k] by (auto simp: bounded_def keepAcrossBoundary_def)
  from replaceHeld_bounded [OF r this] show ?thesis
    using c' k by (auto simp: bounded_def exact_def keepAcrossBoundary_def)
qed

lemma waits_counts:
  "live_requests (filter waits is) = 0"
  "live_requests (filter (\<lambda>i. \<not> waits i) is) = live_requests is"
  "notifications (filter waits is) + notifications (filter (\<lambda>i. \<not> waits i) is) = notifications is"
  by (induction "is") (auto simp: waits_def)

lemma admissionOrder_counts:
  "plain_reports (admissionOrder number is) = plain_reports is"
  "live_requests (admissionOrder number is) = live_requests is"
  "notifications (admissionOrder number is) = notifications is"
  using mset_admissionOrder [of number "is"]
  by (auto dest: plain_reports_mset counts_mset)

lemma flushHeld_bounded:
  assumes "flushHeld h is c = (c', ts, out)" "cn_held c = []" "exact c"
    and "plain_reports (is @ rest)" "live_requests (is @ rest) \<le> r" "notifications (is @ rest) \<le> n"
  shows "bounded c' (in_flush ts @ rest) r n \<and> list_all calm out"
proof (cases "\<not> isConnected c \<and> list_ex waits is")
  case True
  obtain d out' where r: "replaceHeld (cn_held c @ filter waits is) c = (d, out')" by fastforce
  let ?order = "admissionOrder (ho_number h) (filter (\<lambda>i. \<not> waits i) is)"
  have e: "c' = d" "out = out'" "ts = [Flush (cn_epoch d) ?order]"
    using assms(1) True r by (auto simp: flushHeld_def)
  have "bounded d (?order @ rest) r n \<and> list_all calm out'"
    by (rule replaceHeld_bounded [OF r])
      (use assms waits_counts [of "is"] in \<open>auto simp: admissionOrder_counts\<close>)
  then show ?thesis using e by simp
next
  case False
  then have "c' = c" "out = []" "ts = [Flush (cn_epoch c) (admissionOrder (ho_number h) is)]"
    using assms(1) by (auto simp: flushHeld_def)
  then show ?thesis
    using assms by (simp add: bounded_def admissionOrder_counts)
qed

lemma own_reports_bounded:
  assumes "deliverOwnReports c = (c', ts, out)" "bounded c rest r n"
  shows "bounded c' (in_flush ts @ rest) r n \<and> list_all calm out"
proof -
  have "plain_reports is \<Longrightarrow> live_requests (filter (\<lambda>i. \<not> ownReport i) is) = live_requests is \<and>
      kept_requests (filter (\<lambda>i. \<not> ownReport i) is) = kept_requests is" for "is"
    by (induction "is") auto
  then show ?thesis
    using assms counts_filter_le(2) [of "\<lambda>i. \<not> ownReport i" "cn_held c"]
    by (auto simp: deliverOwnReports_def bounded_def exact_def Let_def split: if_splits)
qed

lemma opened_bounded:
  assumes "do_op h x c = (c', ts, out)" "x = Ready \<or> x = Ready_Control" "bounded c rest r n"
  shows "bounded c' (in_flush ts @ rest) r n \<and> list_all calm out"
proof (cases "closedForGood c")
  case True
  then show ?thesis
    using assms own_reports_bounded [of c c' ts out rest r n] by (auto simp: do_op_def ready_opened)
next
  case False
  then obtain both where f: "flushHeld h (cn_held c) (opened both c) = (c', ts, out)"
    using assms(1,2) by (auto simp: do_op_def ready_opened)
  show ?thesis
    by (rule flushHeld_bounded [OF f]) (use assms(3) in \<open>auto simp: bounded_def exact_def\<close>)
qed

lemma do_op_bounded:
  assumes "do_op h x c = (c', ts, out)" "bounded c rest r n"
  shows "bounded c' (in_flush ts @ rest) r n \<and> list_all calm out"
proof (cases x)
  case Close_Host
  show ?thesis
  proof (cases "cn_closed c")
    case True
    then show ?thesis using assms Close_Host by (auto simp: do_op_def close_def bounded_def exact_def)
  next
    case False
    obtain d out' where r: "resetPolicyForTransportBoundary (c\<lparr>cn_reconnectEnabled := False, cn_closed := True\<rparr>) = (d, out')"
      by fastforce
    show ?thesis
      using assms Close_Host False r reset_bounded [OF r, of rest r n]
      by (auto simp: do_op_def close_def bounded_def exact_def)
  qed
next
  case Transport_Lost
  show ?thesis
  proof (cases "cn_closed c")
    case True
    then show ?thesis using assms Transport_Lost by (simp add: do_op_def lost_def)
  next
    case False
    obtain d out' where r: "resetPolicyForTransportBoundary (c\<lparr>cn_closed := True\<rparr>) = (d, out')" by fastforce
    show ?thesis
      using assms Transport_Lost False r reset_bounded [OF r, of rest r n]
      by (auto simp: do_op_def lost_def bounded_def exact_def)
  qed
next
  case (Establish g)
  then show ?thesis using assms by (auto simp: do_op_def establishGrant_def bounded_def exact_def Let_def)
next
  case Ready
  then show ?thesis using opened_bounded assms by blast
next
  case Ready_Control
  then show ?thesis using opened_bounded assms by blast
qed (use assms in \<open>auto simp: do_op_def pauseDataPlane_def bounded_def exact_def\<close>)

abbreviation within_bounds :: "connection \<Rightarrow> task list \<Rightarrow> bool" where
  "within_bounds c ts \<equiv> bounded c (in_flush ts) MAX_HELD_REQUESTS MAX_HELD_NOTIFICATIONS"

text \<open>What the flush looks at next has room, unless a boundary kept it.\<close>

lemma hold_flushed:
  assumes "hold i c = (c', out)" "bounded c (i # is) MAX_HELD_REQUESTS MAX_HELD_NOTIFICATIONS"
  shows "bounded c' is MAX_HELD_REQUESTS MAX_HELD_NOTIFICATIONS \<and> list_all calm out"
proof (cases "room i c")
  case True
  have "exact c" using assms(2) by (simp add: bounded_def)
  from hold_room [OF this True] show ?thesis
    using assms by (auto simp: bounded_def)
next
  case False
  then have i: "hasResponder i" "hi_kept i"
    using assms(2) by (auto simp: room_def bounded_def split: if_splits)
  then have "c' = c\<lparr>cn_droppedKept := cn_droppedKept c + 1\<rparr>" "out = [Dropped i]"
    using assms False by (auto simp: hold_def room_def bounded_def exact_def)
  then show ?thesis
    using assms(2) i by (auto simp: bounded_def exact_def)
qed

lemma emit_flushed:
  assumes "emit h i c = (c', ts, out)" "bounded c (i # is) MAX_HELD_REQUESTS MAX_HELD_NOTIFICATIONS"
    and "hi_kept i \<Longrightarrow> planeReadyFor (hi_event i) c"
  shows "bounded c' is MAX_HELD_REQUESTS MAX_HELD_NOTIFICATIONS \<and> in_flush ts = [] \<and> list_all calm out"
  using assms(1)
proof (cases rule: emit_cases)
  case held
  then have "i\<lparr>hi_kept := False\<rparr> = i"
    using assms(3) by (cases i) auto
  then show ?thesis
    using hold_flushed [of i c c' out "is"] held assms(2) by simp
qed (use assms(2) in \<open>auto simp: bounded_def\<close>)

lemma task_bounded:
  assumes "task_step h t c = (c', us, out)" "within_bounds c (t # ts)"
  shows "within_bounds c' (us @ ts) \<and> list_all calm out"
proof (cases t)
  case (Flush epoch "is")
  show ?thesis
  proof (cases "is")
    case (Cons i rest)
    have b: "bounded c (i # rest @ in_flush ts) MAX_HELD_REQUESTS MAX_HELD_NOTIFICATIONS"
      using assms(2) Flush Cons by simp
    consider (boundary) "cn_epoch c \<noteq> epoch"
      | (kept) "cn_epoch c = epoch" "hi_kept i \<and> \<not> planeReadyFor (hi_event i) c"
      | (admit) "cn_epoch c = epoch" "\<not> (hi_kept i \<and> \<not> planeReadyFor (hi_event i) c)"
      by blast
    then show ?thesis
    proof cases
      case boundary
      obtain kept drops where k: "keepAcrossBoundary (i # rest) c = (kept, drops)" by fastforce
      obtain d past where r: "replaceHeld (cn_held c @ kept) c = (d, past)" by fastforce
      have e: "c' = d" "us = []" "out = drops @ past"
        using assms(1) Flush Cons boundary k r by auto
      have pr: "plain_reports (i # rest)" using b by (simp add: bounded_def)
      have "plain_reports kept" "list_all calm drops"
        using k pr by (auto simp: keepAcrossBoundary_def)
      moreover have "bounded d (in_flush ts) MAX_HELD_REQUESTS MAX_HELD_NOTIFICATIONS \<and> list_all calm past"
        by (rule replaceHeld_bounded [OF r])
          (use b keepAcross_counts [OF k] \<open>plain_reports kept\<close> in \<open>auto simp: bounded_def\<close>)
      ultimately show ?thesis using e by simp
    next
      case kept
      obtain d out' where o: "hold i c = (d, out')" by fastforce
      then have e: "c' = d" "us = [Flush epoch rest]" "out = out'"
        using assms(1) Flush Cons kept by auto
      then show ?thesis
        using hold_flushed [OF o b] by simp
    next
      case admit
      obtain d us' out' where e: "emit h i c = (d, us', out')" by (cases "emit h i c") auto
      then have d: "c' = d" "us = us' @ [Flush epoch rest]" "out = out'"
        using assms(1) Flush Cons admit by auto
      have "hi_kept i \<Longrightarrow> planeReadyFor (hi_event i) c" using admit by simp
      from emit_flushed [OF e b this] show ?thesis
        using d by (simp del: concat_eq_Nil_conv)
    qed
  next
    case Nil
    then show ?thesis using assms Flush by simp
  qed
next
  case (Report "is")
  then show ?thesis
    using assms by (cases "is") auto
next
  case (React xs)
  show ?thesis
  proof (cases xs)
    case (Cons x ys)
    obtain d us' out' where e: "do_op h x c = (d, us', out')" by (cases "do_op h x c") auto
    then have d: "c' = d" "us = us' @ [React ys]" "out = out'"
      using assms(1) React Cons by auto
    have "bounded c (in_flush ts) MAX_HELD_REQUESTS MAX_HELD_NOTIFICATIONS"
      using assms(2) React by simp
    from do_op_bounded [OF e this] show ?thesis
      using d by simp
  next
    case Nil
    then show ?thesis using assms React by simp
  qed
qed

text \<open>What arrives is held within the bounds, or refused, or displaces the oldest.\<close>

lemma hold_arriving:
  assumes "hold i c = (c', out)" "within_bounds c []" "ownReport i \<Longrightarrow> \<not> hasResponder i"
  shows "within_bounds c' []"
proof -
  have p: "set (cn_held c') \<subseteq> insert i (set (cn_held c))"
  proof -
    have "set (fst (remove_first P is)) \<subseteq> set is" for P and "is" :: "held_item list"
      by (induction P "is" rule: remove_first.induct) (auto split: prod.splits)
    then show ?thesis
      using assms(1) by (auto simp: hold_def Let_def split: if_splits prod.splits) (metis fst_conv subset_eq)+
  qed
  have "plain_reports (cn_held c')"
    using p assms(2,3) by (auto simp: plain_reports_def bounded_def list_all_iff)
  moreover have "exact c" "notifications (cn_held c) \<le> MAX_HELD_NOTIFICATIONS"
    using assms(2) by (simp_all add: bounded_def)
  ultimately show ?thesis
    using hold_room [of c i] hold_no_room [of c i] assms(1,2)
    by (cases "room i c") (auto simp: bounded_def room_def split: if_splits)
qed

lemma emit_arriving:
  assumes "emit h i c = (c', ts, out)" "within_bounds c []" "fresh c i"
  shows "within_bounds c' ts"
  using assms(1)
proof (cases rule: emit_cases)
  case held
  have "ownReport i \<Longrightarrow> \<not> hasResponder i"
    using assms(3) by (auto simp: fresh_def ownReport_def METHOD_EVENTS_def)
  then show ?thesis
    using hold_arriving [OF held(2) assms(2)] held(3) by (simp add: ownReport_def)
qed (use assms(2) in \<open>auto simp: bounded_def\<close>)

interpretation bounds: machine_invariant h "\<lambda>_. True" "\<lambda>c ts hist. within_bounds c ts" for h
proof
  fix c t ts c' us out
  assume "within_bounds c (t # ts)" "task_step h t c = (c', us, out)"
  then show "within_bounds c' (us @ ts)"
    using task_bounded by blast
next
  fix c x c' us out
  assume "within_bounds c []" "do_op h x c = (c', us, out)"
  then show "within_bounds c' us"
    using do_op_bounded [of h x c c' us out "[]"] by simp
next
  fix c i c' us out
  assume "within_bounds c []" "fresh c i" "emit h i c = (c', us, out)"
  then show "within_bounds c' us"
    using emit_arriving by blast
next
  fix c epoch m e c' out
  assume "within_bounds c []" "e \<in> set WORLD_EVENTS" "hold (item_of e m epoch True) c = (c', out)"
  then show "within_bounds c' []"
    by (rule_tac hold_arriving) (auto simp: item_of_def ownReport_def WORLD_EVENTS_def)
next
  fix c allow c' out
  assume P: "within_bounds c []" and a: "adopt allow c = (c', out)"
  obtain d out' where r: "resetPolicyForTransportBoundary (c\<lparr>cn_controlReady := False, cn_dataReady := False\<rparr>) = (d, out')"
    by fastforce
  show "within_bounds c' []"
    using P a r reset_bounded [OF r, of "[]" MAX_HELD_REQUESTS MAX_HELD_NOTIFICATIONS]
    by (auto simp: adopt_def bounded_def exact_def)
qed (auto simp: bounded_def exact_def)

end
