(* ===== verification/Held_Properties.thy ===== *)
theory Held_Properties
  imports Held_Bounds
begin

section \<open>Properties of held traffic\<close>

subsection \<open>The order of a flush\<close>

definition writes_channel :: "(rat \<Rightarrow> jsstring) \<Rightarrow> jsstring \<Rightarrow> held_item \<Rightarrow> bool" where
  "writes_channel number k i \<longleftrightarrow> isRegistration i \<and> k \<in> set (removedChannelIds number i @ registeredChannelIds i)"

abbreviation goes_first :: "(rat \<Rightarrow> jsstring) \<Rightarrow> jsstring list \<Rightarrow> held_item list \<Rightarrow> held_item list" where
  "goes_first number staying is \<equiv> map fst (filter snd (zip is (hoisted number staying is)))"

abbreviation stays_put :: "(rat \<Rightarrow> jsstring) \<Rightarrow> jsstring list \<Rightarrow> held_item list \<Rightarrow> held_item list" where
  "stays_put number staying is \<equiv> map fst (filter (\<lambda>(i, first). \<not> first) (zip is (hoisted number staying is)))"

lemma staying_channel:
  "k \<in> set staying \<Longrightarrow> filter (writes_channel number k) (goes_first number staying is) = []"
  by (induction number staying "is" rule: hoisted.induct)
    (auto simp: Let_def writes_channel_def list_ex_iff)

lemma channel_order:
  "filter (writes_channel number k) (goes_first number staying is) @
   filter (writes_channel number k) (stays_put number staying is) = filter (writes_channel number k) is"
proof (induction number staying "is" rule: hoisted.induct)
  case (2 number staying i "is")
  let ?stay = "staying @ removedChannelIds number i @ registeredChannelIds i"
  have "writes_channel number k i \<Longrightarrow> filter (writes_channel number k) (goes_first number ?stay is) = []"
    by (rule staying_channel) (auto simp: writes_channel_def)
  moreover have "writes_channel number k i \<Longrightarrow> isRegistration i"
    by (simp add: writes_channel_def)
  ultimately show ?case
    using 2 by (cases "writes_channel number k i") (auto simp: Let_def)
qed simp

lemma others_stay: "filter (\<lambda>i. \<not> isRegistration i) (goes_first number staying is) = [] \<and>
   filter (\<lambda>i. \<not> isRegistration i) (stays_put number staying is) = filter (\<lambda>i. \<not> isRegistration i) is"
  by (induction number staying "is" rule: hoisted.induct) (auto simp: Let_def)

text \<open>
  C33: A flush admits exactly what was held. Only the current transport's channel registrations
  move, to the front; everything else keeps its order, and so do the writes to any one
  channel: its registrations, updates and removals come in the order the server sent them.
\<close>

theorem admission_order_safe:
  "mset (admissionOrder number is) = mset is \<and>
   filter (\<lambda>i. \<not> isRegistration i) (admissionOrder number is) = filter (\<lambda>i. \<not> isRegistration i) is \<and>
   filter (writes_channel number k) (admissionOrder number is) = filter (writes_channel number k) is"
proof -
  have "filter (writes_channel number k) (goes_first number [] is) @
      filter (writes_channel number k) (stays_put number [] is) = filter (writes_channel number k) is"
    by (rule channel_order)
  moreover have "filter (\<lambda>i. \<not> isRegistration i) (goes_first number [] is) = [] \<and>
      filter (\<lambda>i. \<not> isRegistration i) (stays_put number [] is) = filter (\<lambda>i. \<not> isRegistration i) is"
    by (rule others_stay)
  ultimately show ?thesis
    using mset_admissionOrder [of number "is"] by (simp add: admissionOrder_def Let_def)
qed

subsection \<open>Every flush ends\<close>

definition machine_next :: "host \<Rightarrow> connection \<times> task list \<Rightarrow> connection \<times> task list" where
  "machine_next h = (\<lambda>(c, ts). case ts of [] \<Rightarrow> (c, []) | t # ts \<Rightarrow> (case task_step h t c of (c, us, out) \<Rightarrow> (c, us @ ts)))"

text \<open>
  C34: Whatever the listeners do inside a flush, reopening, pausing, closing or losing the
  connection included, the machine comes to an empty stack of tasks.
\<close>

theorem flush_ends: "\<exists>n. snd ((machine_next h ^^ n) (c, ts)) = []"
proof -
  have "\<exists>n. snd ((machine_next h ^^ n) s) = []" for s
  proof (induction s rule: wf_induct_rule [OF wf_measures, of
      "[\<lambda>(c, ts). unsettled c ts, \<lambda>(c, ts). length (concat (map task_ops ts)),
        \<lambda>(c, ts). length (concat (map flush_items ts)), \<lambda>(c, ts). length ts]"])
    case (1 s)
    obtain c ts where s: "s = (c, ts)" by fastforce
    show ?case
    proof (cases ts)
      case Nil
      then show ?thesis using s by (intro exI [of _ 0]) simp
    next
      case (Cons t us)
      obtain d vs out where step: "task_step h t c = (d, vs, out)" by (cases "task_step h t c") auto
      have "((d, vs @ us), s) \<in> run_order"
        using task_step_order [OF step] s Cons by simp
      then obtain n where "snd ((machine_next h ^^ n) (d, vs @ us)) = []"
        using 1 unfolding run_order_def by blast
      moreover have "machine_next h s = (d, vs @ us)"
        using s Cons step by (simp add: machine_next_def)
      ultimately show ?thesis
        by (intro exI [of _ "Suc n"]) (simp add: funpow_swap1)
    qed
  qed
  then show ?thesis .
qed

subsection \<open>Accounts, authority and bounds of whole runs\<close>

text \<open>A connection as it starts: connected, or a stub whose first connect failed.\<close>

definition first_connection :: "bool \<Rightarrow> bool \<Rightarrow> bool \<Rightarrow> connection" where
  "first_connection dialed reconnect allow = (if dialed then connected reconnect allow else disconnected_stub reconnect)"

lemma first_connection_simps [simp]:
  "cn_held (first_connection dialed reconnect allow) = []"
  "cn_grant (first_connection dialed reconnect allow) = empty_grant"
  "cn_heldRequests (first_connection dialed reconnect allow) = 0"
  "cn_keptRequests (first_connection dialed reconnect allow) = 0"
  by (simp_all add: first_connection_def connected_def disconnected_stub_def)

text \<open>
  C7: Nothing is lost or doubled. After any calls, each message that arrived was delivered,
  refused, discarded for want of authority or dropped at a bound or a boundary, once, or is
  still held.
\<close>

theorem every_message_accounted:
  "case do_calls h calls (first_connection dialed reconnect allow) of
     (c, hist) \<Rightarrow> tally (arrived hist) = tally (settled hist) + tally (cn_held c)"
  using accounts.calls_hold [where hist = "[]" and c = "first_connection dialed reconnect allow" and xs = calls and h = h]
  by (auto simp: list_all_iff add.commute split: prod.split)

text \<open>
  C6: An event that needs a capability reaches a listener only while the grant in force holds
  it, live or held, whatever listeners do during a flush; and the grant in force is the last
  one established since the last transport boundary, none at first.
\<close>

theorem only_authorized_delivered:
  "case do_calls h calls (first_connection dialed reconnect allow) of
     (c, hist) \<Rightarrow> authorized empty_grant hist \<and> foldl in_force empty_grant hist = cn_grant c"
  using authority.calls_hold [where g = empty_grant and hist = "[]" and c = "first_connection dialed reconnect allow" and xs = calls and h = h]
  by (auto simp: list_all_iff obeys_def split: prod.split)

text \<open>
  C29: In every reachable state the counters are exact and the buffer is within its three
  bounds, and opening a plane never refuses a request for room: what was held is held again.
\<close>

theorem held_within_bounds:
  "case do_calls h calls (first_connection dialed reconnect allow) of
     (c, hist) \<Rightarrow> cn_heldRequests c = live_requests (cn_held c) \<and> cn_keptRequests c = kept_requests (cn_held c) \<and>
       live_requests (cn_held c) \<le> MAX_HELD_REQUESTS \<and> kept_requests (cn_held c) \<le> MAX_HELD_REQUESTS \<and>
       notifications (cn_held c) \<le> MAX_HELD_NOTIFICATIONS \<and>
       list_all calm (snd (do_call h (Op x) c))"
proof -
  obtain c hist where r: "do_calls h calls (first_connection dialed reconnect allow) = (c, hist)" by fastforce
  have "within_bounds (first_connection dialed reconnect allow) []"
    by (simp add: bounded_def exact_def MAX_HELD_REQUESTS_def MAX_HELD_NOTIFICATIONS_def)
  from bounds.calls_hold [OF this _ r] have b: "within_bounds c []"
    by (simp add: list_all_iff)
  obtain c' us out where o: "do_op h x c = (c', us, out)" by (cases "do_op h x c") auto
  obtain d es where run: "run_tasks h c' us out = (d, es)" by fastforce
  have start: "within_bounds c' us \<and> list_all calm out"
    using do_op_bounded [OF o, of "[]"] b by simp
  have "within_bounds d [] \<and> list_all calm es"
    by (rule run_tasks_inv [OF run, of "\<lambda>c ts hist. within_bounds c ts \<and> list_all calm hist"])
      (use start task_bounded in \<open>auto simp del: concat.simps\<close>)
  then show ?thesis
    using b r o run by (simp add: bounded_def exact_def)
qed

end
