(* ===== verification/Held_Order.thy ===== *)
theory Held_Order
  imports Held_Properties
begin

section \<open>Each plane keeps the order of arrival\<close>

text \<open>
  While no transport boundary comes, the machine never overtakes: what is held, then what the
  innermost flush has yet to look at, then the outer ones, is in the order of arrival, and an
  open plane holds nothing.
\<close>

definition in_plane :: "bool \<Rightarrow> held_item \<Rightarrow> bool" where
  "in_plane control i \<longleftrightarrow> \<not> isLifecycleEvent (hi_event i) \<and> isControlPlaneEvent (hi_event i) = control"

fun delivers :: "effect \<Rightarrow> held_item list" where
  "delivers (Delivered i) = [i]"
| "delivers _ = []"

definition delivered :: "effect list \<Rightarrow> held_item list" where
  "delivered hist = concat (map delivers hist)"

lemma delivered_simps [simp]:
  "delivered [] = []" "delivered (e # es) = delivers e @ delivered es" "delivered (es @ fs) = delivered es @ delivered fs"
  "delivered (map Dropped is) = []"
  by (simp_all add: delivered_def comp_def)

fun steady_op :: "op \<Rightarrow> bool" where
  "steady_op Ready \<longleftrightarrow> True"
| "steady_op Ready_Control \<longleftrightarrow> True"
| "steady_op Pause_Data \<longleftrightarrow> True"
| "steady_op (Establish g) \<longleftrightarrow> True"
| "steady_op (Set_Filter rules) \<longleftrightarrow> True"
| "steady_op _ \<longleftrightarrow> False"

fun steady_call :: "call \<Rightarrow> bool" where
  "steady_call (Op x) \<longleftrightarrow> steady_op x"
| "steady_call (Read epoch m) \<longleftrightarrow> epoch = 0"
| "steady_call (Adopt allow) \<longleftrightarrow> False"
| "steady_call _ \<longleftrightarrow> True"

fun steady_task :: "task \<Rightarrow> bool" where
  "steady_task (Flush epoch is) \<longleftrightarrow> epoch = 0 \<and> list_all (\<lambda>i. \<not> hi_kept i) is"
| "steady_task (Report is) \<longleftrightarrow> False"
| "steady_task (React xs) \<longleftrightarrow> list_all steady_op xs"

definition steady :: "connection \<Rightarrow> task list \<Rightarrow> bool" where
  "steady c ts \<longleftrightarrow> cn_epoch c = 0 \<and> isConnected c \<and> list_all (\<lambda>i. \<not> hi_kept i) (cn_held c) \<and> list_all steady_task ts"

definition plane_open :: "bool \<Rightarrow> connection \<Rightarrow> bool" where
  "plane_open control c \<longleftrightarrow> (if control then cn_controlReady c else cn_dataReady c)"

definition in_order :: "bool \<Rightarrow> connection \<Rightarrow> task list \<Rightarrow> effect list \<Rightarrow> bool" where
  "in_order control c ts hist \<longleftrightarrow> steady c ts \<and>
     (plane_open control c \<longrightarrow> filter (in_plane control) (cn_held c) = []) \<and>
     subseq (filter (in_plane control) (delivered hist @ cn_held c @ in_flush ts)) (filter (in_plane control) (arrived hist))"

lemma plane_open_ready: "in_plane control i \<Longrightarrow> planeReadyFor (hi_event i) c = plane_open control c"
  by (auto simp: in_plane_def planeReadyFor_def plane_open_def)

lemma remove_first_subseq: "subseq (fst (remove_first P xs)) xs"
  by (induction P xs rule: remove_first.induct) (auto split: prod.split)

lemma subseq_set_le: "subseq xs ys \<Longrightarrow> set xs \<subseteq> set ys"
  by (induction rule: list_emb.induct) auto

lemma hold_subseq:
  assumes "hold i c = (c', out)"
  shows "subseq (cn_held c') (cn_held c @ [i])" "delivered out = []"
proof -
  obtain rest oldest where r: "remove_first (\<lambda>j. \<not> hasResponder j) (cn_held c) = (rest, oldest)" by fastforce
  then have s: "subseq rest (cn_held c)"
    using remove_first_subseq [of "\<lambda>j. \<not> hasResponder j" "cn_held c"] by simp
  show "subseq (cn_held c') (cn_held c @ [i])"
    using assms r s by (auto simp: hold_def Let_def intro: list_emb_append_mono split: if_splits)
  show "delivered out = []"
    using hold_out [of i c] assms by auto
qed

lemma hold_planes:
  "cn_controlReady (fst (hold i c)) = cn_controlReady c" "cn_dataReady (fst (hold i c)) = cn_dataReady c"
  "cn_transport (fst (hold i c)) = cn_transport c"
  by (simp_all add: hold_def Let_def split: prod.split)

lemma hold_frame:
  assumes "hold i c = (c', out)"
  shows "plane_open control c' = plane_open control c" "isConnected c' = isConnected c" "cn_epoch c' = cn_epoch c"
  using hold_planes [of i c] hold_simps [of i c] assms by (simp_all add: plane_open_def isConnected_def)

lemma establish_frame [simp]:
  "cn_held (establishGrant g c) = cn_held c" "cn_closed (establishGrant g c) = cn_closed c"
  "cn_epoch (establishGrant g c) = cn_epoch c" "cn_transport (establishGrant g c) = cn_transport c"
  "cn_controlReady (establishGrant g c) = cn_controlReady c" "cn_dataReady (establishGrant g c) = cn_dataReady c"
  by (simp_all add: establishGrant_def Let_def)

text \<open>One item leaves the head of the flush, or arrives, and is held or let go.\<close>

lemma held_in_order:
  assumes "hold i c = (c', out)" "steady c ts" "\<not> hi_kept i" "\<not> planeReadyFor (hi_event i) c"
    and "plane_open control c \<longrightarrow> filter (in_plane control) (cn_held c) = []"
    and "subseq (filter (in_plane control) (A @ cn_held c @ i # in_flush ts)) B"
  shows "steady c' ts \<and> (plane_open control c' \<longrightarrow> filter (in_plane control) (cn_held c') = []) \<and>
    subseq (filter (in_plane control) (A @ delivered out @ cn_held c' @ in_flush ts)) B"
proof (intro conjI)
  note s = hold_subseq [OF assms(1)]
  have sub: "set (cn_held c') \<subseteq> insert i (set (cn_held c))"
    using subseq_set_le [OF s(1)] by simp
  show "steady c' ts"
    using assms(2,3) sub hold_frame(2,3) [OF assms(1)] unfolding steady_def list_all_iff by (metis insertE subsetD)
  have "plane_open control c \<Longrightarrow> \<not> in_plane control i"
    using assms(4) plane_open_ready by blast
  then show "plane_open control c' \<longrightarrow> filter (in_plane control) (cn_held c') = []"
    using assms(5) sub unfolding hold_frame(1) [OF assms(1), of control] filter_empty_conv by blast
  have "subseq (cn_held c' @ in_flush ts) (cn_held c @ i # in_flush ts)"
    using list_emb_append_mono [OF s(1), of "in_flush ts" "in_flush ts"] by simp
  then have "subseq (A @ cn_held c' @ in_flush ts) (A @ cn_held c @ i # in_flush ts)"
    by (simp add: subseq_append')
  from subseq_order.order_trans [OF subseq_filter [OF this] assms(6)]
  show "subseq (filter (in_plane control) (A @ delivered out @ cn_held c' @ in_flush ts)) B"
    using s(2) by simp
qed

lemma emitted_in_order:
  assumes "emit h i c = (c', us, out)" "\<And>i c. list_all steady_op (ho_react h i c)" "steady c ts" "\<not> hi_kept i"
    and open_empty: "plane_open control c \<longrightarrow> filter (in_plane control) (cn_held c) = []"
    and sub: "subseq (filter (in_plane control) (A @ cn_held c @ i # in_flush ts)) B"
  shows "steady c' (us @ ts) \<and> (plane_open control c' \<longrightarrow> filter (in_plane control) (cn_held c') = []) \<and>
    in_flush us = [] \<and> subseq (filter (in_plane control) (A @ delivered out @ cn_held c' @ in_flush ts)) B"
  using assms(1)
proof (cases rule: emit_cases)
  case held
  have "i\<lparr>hi_kept := False\<rparr> = i" using assms(4) by (cases i) simp
  then show ?thesis
    using held_in_order [OF _ assms(3,4) held(1) open_empty sub] held(2,3) by simp
next
  case (delivered xs)
  have d: "delivered out = [i]" using delivered(5) by auto
  have "filter (in_plane control) (A @ [i] @ cn_held c @ in_flush ts) = filter (in_plane control) (A @ cn_held c @ i # in_flush ts)"
    using open_empty plane_open_ready [of control i c] delivered(1) by (cases "in_plane control i") auto
  then show ?thesis
    using sub d assms(2,3) delivered(3,4,6) open_empty by (auto simp: steady_def)
next
  case (refused code)
  have "subseq (filter (in_plane control) (A @ cn_held c @ in_flush ts)) (filter (in_plane control) (A @ cn_held c @ i # in_flush ts))"
    by (intro subseq_filter) (simp add: subseq_append' list_emb.list_emb_Cons)
  then show ?thesis
    using refused assms(3) open_empty sub subseq_order.order_trans by fastforce
next
  case discarded
  have "subseq (filter (in_plane control) (A @ cn_held c @ in_flush ts)) (filter (in_plane control) (A @ cn_held c @ i # in_flush ts))"
    by (intro subseq_filter) (simp add: subseq_append' list_emb.list_emb_Cons)
  then show ?thesis
    using discarded assms(3) open_empty sub subseq_order.order_trans by fastforce
qed

lemma op_in_order:
  assumes "do_op h x c = (c', us, out)" "steady_op x" "steady c ts"
    and "plane_open control c \<longrightarrow> filter (in_plane control) (cn_held c) = []"
  shows "steady c' (us @ ts) \<and> (plane_open control c' \<longrightarrow> filter (in_plane control) (cn_held c') = []) \<and>
    delivered out = [] \<and> arrived out = [] \<and> cn_held c' @ in_flush us = cn_held c"
proof -
  have opened: "x = Ready \<or> x = Ready_Control \<Longrightarrow> ?thesis"
  proof -
    assume "x = Ready \<or> x = Ready_Control"
    moreover have "\<not> closedForGood c"
      using assms(3) by (simp add: steady_def isConnected_def closedForGood_def)
    ultimately obtain both where "flushHeld h (cn_held c) (opened both c) = (c', us, out)"
      using assms(1) by (auto simp: do_op_def ready_opened)
    moreover have "admissionOrder (ho_number h) (cn_held c) = cn_held c"
      using assms(3) by (auto simp: admissionOrder_def steady_def list_ex_iff list_all_iff)
    ultimately have "c' = opened both c" "us = [Flush 0 (cn_held c)]" "out = []"
      using assms(3) by (auto simp: flushHeld_def steady_def)
    then show ?thesis
      using assms(3) by (simp add: steady_def)
  qed
  show ?thesis
  proof (cases "x = Ready \<or> x = Ready_Control")
    case False
    then show ?thesis
      using assms
      by (cases x) (auto simp: do_op_def pauseDataPlane_def steady_def plane_open_def isConnected_def)
  qed (rule opened)
qed

lemma task_in_order:
  assumes "task_step h t c = (c', us, out)" "in_order control c (t # ts) hist"
    and react: "\<And>i c. list_all steady_op (ho_react h i c)"
  shows "in_order control c' (us @ ts) (hist @ out)"
proof (cases t)
  case (Flush epoch "is")
  have st: "steady c ts" and e0: "cn_epoch c = epoch" and open_empty: "plane_open control c \<longrightarrow> filter (in_plane control) (cn_held c) = []"
    using assms(2) Flush by (simp_all add: in_order_def steady_def)
  show ?thesis
  proof (cases "is")
    case Nil
    then show ?thesis using assms(1,2) Flush by (simp add: in_order_def steady_def)
  next
    case (Cons i rest)
    have i: "\<not> hi_kept i" and st': "steady c (Flush epoch rest # ts)"
      using assms(2) Flush Cons by (simp_all add: in_order_def steady_def)
    have sub: "subseq (filter (in_plane control) (delivered hist @ cn_held c @ i # in_flush (Flush epoch rest # ts)))
        (filter (in_plane control) (arrived hist))"
      using assms(2) Flush Cons by (simp add: in_order_def)
    obtain d vs out' where e: "emit h i c = (d, vs, out')" by (cases "emit h i c") auto
    then have r: "c' = d" "us = vs @ [Flush epoch rest]" "out = out'"
      using assms(1) Flush Cons e0 i by auto
    have "arrived out' = []" using tally_emit [OF e] by simp
    then show ?thesis
      using emitted_in_order [OF e react st' i open_empty sub] r
      by (simp add: in_order_def del: concat_eq_Nil_conv)
  qed
next
  case (Report "is")
  then show ?thesis using assms(2) by (simp add: in_order_def steady_def)
next
  case (React xs)
  show ?thesis
  proof (cases xs)
    case Nil
    then show ?thesis using assms(1,2) React by (simp add: in_order_def steady_def)
  next
    case (Cons x ys)
    obtain d vs out' where e: "do_op h x c = (d, vs, out')" by (cases "do_op h x c") auto
    then have r: "c' = d" "us = vs @ [React ys]" "out = out'"
      using assms(1) React Cons by auto
    have "steady_op x" "steady c (React ys # ts)" "plane_open control c \<longrightarrow> filter (in_plane control) (cn_held c) = []"
      using assms(2) React Cons by (simp_all add: in_order_def steady_def)
    note o = op_in_order [OF e this]
    have eq: "cn_held d @ in_flush vs @ in_flush ts = cn_held c @ in_flush ts"
      using o by (metis append.assoc)
    show ?thesis
      using o r assms(2) React Cons by (simp add: in_order_def eq del: filter_append)
  qed
qed

lemma order_invariant:
  assumes react: "\<And>i c. list_all steady_op (ho_react h i c)"
  shows "machine_invariant h steady_call (in_order control)"
proof
  fix c t ts hist c' us out
  assume "in_order control c (t # ts) hist" "task_step h t c = (c', us, out)"
  then show "in_order control c' (us @ ts) (hist @ out)"
    using task_in_order react by blast
next
  fix c hist x c' us out
  assume P: "in_order control c [] hist" and x: "steady_call (Op x)" and e: "do_op h x c = (c', us, out)"
  have "steady_op x" "steady c []" "plane_open control c \<longrightarrow> filter (in_plane control) (cn_held c) = []"
    using P x by (simp_all add: in_order_def)
  note o = op_in_order [OF e this]
  have "cn_held c' @ in_flush us = cn_held c"
    using o by simp
  then show "in_order control c' us (hist @ out)"
    using o P by (simp add: in_order_def del: filter_append)
next
  fix c hist i c' us out
  assume P: "in_order control c [] hist" and i: "fresh c i" and e: "emit h i c = (c', us, out)"
  have k: "\<not> hi_kept i" and st: "steady c []" and open_empty: "plane_open control c \<longrightarrow> filter (in_plane control) (cn_held c) = []"
    using P i by (simp_all add: in_order_def fresh_def)
  have "subseq (filter (in_plane control) (delivered hist @ cn_held c)) (filter (in_plane control) (arrived hist))"
    using P by (simp add: in_order_def)
  then have sub: "subseq (filter (in_plane control) (delivered hist @ cn_held c @ i # in_flush []))
      (filter (in_plane control) (arrived hist @ [i]))"
    using list_emb_append_mono [of "(=)" "filter (in_plane control) (delivered hist @ cn_held c)"
      "filter (in_plane control) (arrived hist)" "filter (in_plane control) [i]" "filter (in_plane control) [i]"] by simp
  have "arrived out = []" using tally_emit [OF e] by simp
  then show "in_order control c' us (hist @ Arrived i # out)"
    using emitted_in_order [OF e react st k open_empty sub] by (simp add: in_order_def del: concat_eq_Nil_conv)
next
  fix c hist i
  assume P: "in_order control c [] hist"
  then have "subseq (filter (in_plane control) (delivered hist @ cn_held c)) (filter (in_plane control) (arrived hist))"
    by (simp add: in_order_def)
  from list_emb_prefix [OF this, of "filter (in_plane control) [i]"]
  show "in_order control c [] (hist @ [Arrived i, Dropped i])"
    using P by (simp add: in_order_def)
qed (auto simp: in_order_def steady_def isConnected_def plane_open_def)

text \<open>
  C21: While no transport boundary comes, each plane's events are delivered in the order they
  arrived, those still held after them, across pauses and re-openings, also ones listeners
  make in the middle of a flush.
\<close>

theorem planes_keep_order:
  assumes "\<And>i c. list_all steady_op (ho_react h i c)" "list_all steady_call calls"
    and "do_calls h calls (connected reconnect allow) = (c, hist)"
  shows "subseq (filter (in_plane control) (delivered hist @ cn_held c)) (filter (in_plane control) (arrived hist))"
proof -
  have "in_order control (connected reconnect allow) [] []"
    by (simp add: in_order_def steady_def isConnected_def connected_def)
  from machine_invariant.calls_hold [OF order_invariant [OF assms(1)] this assms(2,3)]
  show ?thesis by (simp add: in_order_def)
qed

text \<open>A listener that pauses and reopens the planes while a flush runs.\<close>

definition pausing_host :: host where
  "pausing_host = \<lparr>ho_listens = \<lambda>e. True,
     ho_react = \<lambda>i c. if hi_params i = JTrue then [Pause_Data, Ready] else [], ho_number = \<lambda>n. []\<rparr>"

definition sample_calls :: "call list" where
  "sample_calls = [Read 0 (Message (js ''push/event'') JTrue None), Read 0 (Message (js ''push/event'') JNull None),
     Op (Establish \<lparr>granted = [js ''pushEvents''], deniedPaths = []\<rparr>), Op Ready,
     Read 0 (Message (js ''push/event'') (JBool False) None)]"

theorem planes_keep_order_witness:
  "subseq (filter (in_plane False) (delivered (snd (do_calls pausing_host sample_calls (connected False False))) @
       cn_held (fst (do_calls pausing_host sample_calls (connected False False)))))
     (filter (in_plane False) (arrived (snd (do_calls pausing_host sample_calls (connected False False))))) \<and>
   map hi_params (delivered (snd (do_calls pausing_host sample_calls (connected False False)))) = [JTrue, JNull, JBool False]"
proof (intro conjI)
  show "subseq (filter (in_plane False) (delivered (snd (do_calls pausing_host sample_calls (connected False False))) @
       cn_held (fst (do_calls pausing_host sample_calls (connected False False)))))
     (filter (in_plane False) (arrived (snd (do_calls pausing_host sample_calls (connected False False)))))"
  proof (rule planes_keep_order [where h = pausing_host and calls = sample_calls and reconnect = False and allow = False])
    show "list_all steady_op (ho_react pausing_host i c)" for i c
      by (simp add: pausing_host_def)
    show "list_all steady_call sample_calls"
      by (simp add: sample_calls_def)
  qed simp
  show "map hi_params (delivered (snd (do_calls pausing_host sample_calls (connected False False)))) = [JTrue, JNull, JBool False]"
    by code_simp
qed


end
