(* ===== verification/Policy_Exchange.thy ===== *)
theory Policy_Exchange
  imports Feature_Sets Held_Traffic
begin

section \<open>How a server's authority is negotiated (src/framework.ts)\<close>

text \<open>
  The composition of a connection (\<open>Held_Traffic\<close>), the feature sets of its server and the
  grant computed from its manifest: the policy exchange of each transport
  (\<open>settlePolicyExchange\<close>, \<open>registerMcplServerFeatures\<close>) and the refresh a
  \<open>mcpl/manifestChanged\<close> asks for (\<open>handleManifestChanged\<close>). Between two steps of the state
  \<open>exchange\<close> the host awaits an answer or a timer, and anything else may happen: an answer
  that comes late, or never, is a step that is taken late, or not.

  The server stays configured, and its configuration does not change. Console lines are
  left out; what the framework records of a server is in the history. \<open>String\<close> of a number
  is an argument, \<open>number\<close>.
\<close>

subsection \<open>Manifests\<close>

fun key_text :: "(rat \<Rightarrow> jsstring) \<Rightarrow> jsval \<Rightarrow> jsstring" where
  "key_text number (JStr s) = s"
| "key_text number (JNum n) = number n"
| "key_text number (JBool b) = (if b then js ''true'' else js ''false'')"
| "key_text number JNull = js ''null''"
| "key_text number JUndef = js ''undefined''"
| "key_text number (JObj es) = js ''[object Object]''"
| "key_text number (JArr vs) = join_with (of_char CHR '','')
     (map (\<lambda>v. if v = JNull \<or> v = JUndef then [] else key_text number v) vs)"

definition indexed :: "(rat \<Rightarrow> jsstring) \<Rightarrow> jsval list \<Rightarrow> jsobject" where
  "indexed number vs = zip (map (\<lambda>i. number (of_nat i)) [0..<length vs]) vs"

text \<open>\<open>{...value}\<close>, of a value read from JSON.\<close>

definition spread :: "(rat \<Rightarrow> jsstring) \<Rightarrow> jsval \<Rightarrow> jsobject" where
  "spread number v =
     (case v of
        JObj es \<Rightarrow> es
      | JArr vs \<Rightarrow> indexed number vs
      | JStr s \<Rightarrow> indexed number (map (\<lambda>c. JStr [c]) s)
      | _ \<Rightarrow> [])"

definition manifest_object :: "(rat \<Rightarrow> jsstring) \<Rightarrow> jsval \<Rightarrow> jsobject option" where
  "manifest_object number v = (if truthy v then Some (spread number v) else None)"

definition featureSetsRaw :: "(rat \<Rightarrow> jsstring) \<Rightarrow> jsobject \<Rightarrow> feature_sets_raw option" where
  "featureSetsRaw number caps =
     (let v = own caps (js ''featureSets'')
      in case v of
           JUndef \<Rightarrow> None
         | JNull \<Rightarrow> None
         | JArr ds \<Rightarrow> Some (ArrayForm (map (\<lambda>d. (key_text number (field d (js ''name'')), d)) ds))
         | _ \<Rightarrow> Some (RecordForm (spread number v)))"

text \<open>Reading a member of a declaration that is \<open>null\<close> throws.\<close>

definition unreadable :: "jsval \<Rightarrow> bool" where
  "unreadable v \<longleftrightarrow> v = JNull \<or> v = JUndef"

definition derivation_throws :: "feature_sets_raw option \<Rightarrow> bool" where
  "derivation_throws raw =
     (case raw of
        None \<Rightarrow> False
      | Some (RecordForm m) \<Rightarrow> list_ex (\<lambda>(name, d). unreadable d) m
      | Some (ArrayForm ds) \<Rightarrow> list_ex (\<lambda>(name, d). unreadable d) ds)"

definition toolsetDeclarationsOf :: "jsval \<Rightarrow> jsobject option" where
  "toolsetDeclarationsOf sent =
     (case sent of
        JObj es \<Rightarrow>
          let present = filter (\<lambda>k. own es k \<noteq> JUndef) [js ''toolHints'', js ''toolsets'', js ''surface'']
          in if present = [] then None else Some (map (\<lambda>k. (k, own es k)) present)
      | _ \<Rightarrow> None)"

definition announcedDomainsOf :: "jsval \<Rightarrow> jsstring list" where
  "announcedDomainsOf announce =
     (case field announce (js ''domains'') of
        JArr vs \<Rightarrow> concat (map (\<lambda>v. case v of JStr s \<Rightarrow> [s] | _ \<Rightarrow> []) vs)
      | _ \<Rightarrow> [])"

subsection \<open>State\<close>

record server_config =
  sc_id :: jsstring
  sc_mask :: mask_config
  sc_toolLifecycle :: jsval
  sc_sets :: fs_config
  sc_hints :: bool
  sc_number :: "rat \<Rightarrow> jsstring"

text \<open>
  \<open>manifestRefreshState\<close> of a connection; a refresh is in flight while the phase is not
  \<open>Idle\<close>. \<open>Telling\<close> keeps what the refresh computed before it told the server.
\<close>

record refresh_state =
  rf_queued :: bool
  rf_lastCompletedAt :: nat
  rf_queuedEpoch :: "nat option"
  rf_queuedDomains :: "jsstring list option"

record told =
  tl_epoch :: nat
  tl_domains :: "jsstring list"
  tl_fetched :: jsval
  tl_masked :: jsobject
  tl_dropped :: "jsstring list"
  tl_grant :: capability_grant
  tl_revoked :: "jsstring list"
  tl_added :: "jsstring list"
  tl_oldEnabled :: "jsstring list"

datatype phase = Idle | Fetching nat "jsstring list" | Telling told

datatype timer = Floor_Timer | After_Run "nat option" "jsstring list"

record exchange =
  ex_conn :: connection
  ex_sets :: feature_sets
  ex_capabilities :: "jsobject option"
  ex_droppedCapabilities :: "jsstring list"
  ex_mcpToolsAdvertised :: bool
  ex_toolsetDeclarations :: "jsobject option"
  ex_marker :: "nat option"
  ex_asked :: "(nat \<times> capability_grant) list"
  ex_refresh :: refresh_state
  ex_phase :: phase
  ex_timers :: "timer list"

datatype impact =
    Capability_Revoked jsstring
  | Expansion_Applied jsstring
  | Expansion_Pending jsstring
  | Feature_Degraded jsstring
  | Feature_Restored jsstring bool
  | Toolsets_Changed

text \<open>
  The history: what the connection did, the policy told to the server with the manifest and
  the grant it was derived from, the grants that came into force and why, the fetches, and
  the records the framework makes.
\<close>

datatype moment =
    Conn effect
  | Announced nat "jsstring list"
  | Fetch nat "jsstring list" nat
  | Completed nat
  | Asked nat jsobject capability_grant fs_update
  | Accepted nat capability_grant
  | Reduced capability_grant
  | Refusal bool bool
  | Set_Disabled fs_disabled_trace
  | Change_Receipt "jsstring option" "jsstring list" "impact list"
  | Stateful_Set jsstring bool bool
  | Hub_Told "jsobject option"
  | Tools_Relisted
  | Handler_Failed

definition MANIFEST_FETCH_FLOOR_MS :: nat where "MANIFEST_FETCH_FLOOR_MS = 5000"

definition in_flight :: "exchange \<Rightarrow> bool" where
  "in_flight x \<longleftrightarrow> ex_phase x \<noteq> Idle"

definition mcplPlanesMayOpen :: "nat option \<Rightarrow> connection \<Rightarrow> bool" where
  "mcplPlanesMayOpen marker c \<longleftrightarrow> marker \<noteq> Some (cn_epoch c)"

definition lift_marker :: "nat \<Rightarrow> exchange \<Rightarrow> exchange" where
  "lift_marker epoch x = (if ex_marker x = Some epoch then x\<lparr>ex_marker := None\<rparr> else x)"

definition activate :: "capability_grant \<Rightarrow> exchange \<Rightarrow> exchange" where
  "activate g x = x\<lparr>ex_conn := establishGrant g (ex_conn x)\<rparr>"

text \<open>\<open>closeMcplServerForGood\<close>, of which the registry's bookkeeping is left out.\<close>

definition closeMcplServerForGood :: "exchange \<Rightarrow> exchange \<times> moment list" where
  "closeMcplServerForGood x = (case close (ex_conn x) of (c, out) \<Rightarrow> (x\<lparr>ex_conn := c\<rparr>, map Conn out))"

definition negotiated_capabilities :: "server_config \<Rightarrow> jsval \<Rightarrow> jsobject option \<times> jsstring list" where
  "negotiated_capabilities cfg raw =
     maskNegotiatedCapabilities (expandAdvertisementShorthand (manifest_object (sc_number cfg) raw)) (sc_mask cfg)"

definition grant_for :: "server_config \<Rightarrow> bool \<Rightarrow> jsobject option \<Rightarrow> capability_grant" where
  "grant_for cfg tools caps =
     computeGrant caps (enabledCapabilities (sc_mask cfg)) (sc_toolLifecycle cfg) tools"

subsection \<open>The policy exchange of a transport\<close>

definition registerMcplServerFeatures :: "server_config \<Rightarrow> bool \<Rightarrow> nat \<Rightarrow> exchange \<Rightarrow> exchange \<times> moment list" where
  "registerMcplServerFeatures cfg closeOnFailure epoch x =
     (case ex_capabilities x of
        None \<Rightarrow> (lift_marker epoch x, [])
      | Some caps \<Rightarrow>
          let grant = grant_for cfg (ex_mcpToolsAdvertised x) (Some caps);
              raw = featureSetsRaw (sc_number cfg) caps
          in if derivation_throws raw then
               if closeOnFailure then (case closeMcplServerForGood x of (x, out) \<Rightarrow> (lift_marker epoch x, out @ [Handler_Failed]))
               else (lift_marker epoch x, [Handler_Failed])
             else
               (case initializeServer (ex_sets x) (sc_id cfg) raw (sc_sets cfg) (Some grant) of
                  (sets, update, traces) \<Rightarrow>
                    (x\<lparr>ex_sets := sets, ex_asked := ex_asked x @ [(epoch, grant)]\<rparr>,
                     map Set_Disabled traces @ [Asked epoch caps grant update])))"

definition settlePolicyExchange :: "server_config \<Rightarrow> bool \<Rightarrow> nat \<Rightarrow> exchange \<Rightarrow> exchange \<times> moment list" where
  "settlePolicyExchange cfg closeOnFailure epoch x =
     registerMcplServerFeatures cfg closeOnFailure epoch (x\<lparr>ex_marker := Some epoch\<rparr>)"

definition refuses :: "jsval \<Rightarrow> bool" where
  "refuses receipt \<longleftrightarrow> truthy receipt \<and> field receipt (js ''accepted'') = JBool False"

definition closes :: "jsval \<Rightarrow> bool" where
  "closes receipt \<longleftrightarrow> field receipt (js ''fallback'') = JStr (js ''close'')"

text \<open>
  A degraded receipt's \<open>unavailableFeatures\<close> is iterated for the log: one that is neither
  left out nor iterable, or holds an entry with no members, throws after the grant is in force.
\<close>

definition degraded_throws :: "jsval \<Rightarrow> bool" where
  "degraded_throws receipt \<longleftrightarrow>
     field receipt (js ''accepted'') = JTrue \<and> field receipt (js ''mode'') = JStr (js ''degraded'') \<and>
     (case field receipt (js ''unavailableFeatures'') of
        JUndef \<Rightarrow> False
      | JNull \<Rightarrow> False
      | JStr s \<Rightarrow> False
      | JArr vs \<Rightarrow> list_ex unreadable vs
      | _ \<Rightarrow> True)"

definition stateful_sets :: "server_config \<Rightarrow> exchange \<Rightarrow> moment list" where
  "stateful_sets cfg x =
     (let decls = (case getDeclaredFeatureSets (ex_sets x) (sc_id cfg) of None \<Rightarrow> [] | Some m \<Rightarrow> m);
          rollback = (\<lambda>d. field d (js ''rollback'')); hostState = (\<lambda>d. field d (js ''hostState''))
      in map (\<lambda>(name, d). Stateful_Set name (truthy (hostState d)) (truthy (rollback d)))
           (filter (\<lambda>(name, d). truthy (rollback d) \<or> truthy (hostState d)) decls))"

text \<open>The rest of \<open>registerMcplServerFeatures\<close>: the answer to one Request, \<open>None\<close> when it failed.\<close>

definition initial_answered :: "server_config \<Rightarrow> nat \<times> capability_grant \<Rightarrow> jsval option \<Rightarrow> exchange \<Rightarrow> exchange \<times> moment list" where
  "initial_answered cfg asked answer x =
     (let (epoch, grant) = asked
      in if cn_epoch (ex_conn x) \<noteq> epoch then (lift_marker epoch x, [])
         else
           (case answer of
              None \<Rightarrow> (lift_marker epoch x, [])
            | Some receipt \<Rightarrow>
                if refuses receipt then
                  if closes receipt then
                    (case closeMcplServerForGood x of (x, out) \<Rightarrow> (lift_marker epoch x, Refusal True True # out))
                  else (lift_marker epoch x, [Refusal True False])
                else
                  let x = activate grant x
                  in (lift_marker epoch x,
                      Accepted epoch grant # (if degraded_throws receipt then [] else stateful_sets cfg x))))"

subsection \<open>Refreshing a manifest\<close>

definition queueOn :: "nat \<Rightarrow> jsstring list \<Rightarrow> refresh_state \<Rightarrow> refresh_state" where
  "queueOn epoch domains st =
     (let held = (if rf_queuedEpoch st \<noteq> Some epoch then None else rf_queuedDomains st)
      in st\<lparr>rf_queuedDomains := Some (js_add_all domains (case held of None \<Rightarrow> [] | Some ds \<Rightarrow> ds)),
           rf_queuedEpoch := Some epoch\<rparr>)"

definition takeQueued :: "refresh_state \<Rightarrow> jsstring list \<times> refresh_state" where
  "takeQueued st =
     ((case rf_queuedDomains st of None \<Rightarrow> [] | Some ds \<Rightarrow> ds), st\<lparr>rf_queuedDomains := None\<rparr>)"

text \<open>Up to the fetch. \<open>epoch\<close>: the transport the connection is on as the handler runs.\<close>

definition handleManifestChanged :: "jsval \<Rightarrow> nat \<Rightarrow> nat \<Rightarrow> exchange \<Rightarrow> exchange \<times> moment list" where
  "handleManifestChanged announce epoch now x =
     (let domains = announcedDomainsOf announce; st = ex_refresh x
      in if in_flight x then (x\<lparr>ex_refresh := queueOn epoch domains (st\<lparr>rf_queued := True\<rparr>)\<rparr>, [])
         else if int now - int (rf_lastCompletedAt st) < int MANIFEST_FETCH_FLOOR_MS then
           (x\<lparr>ex_refresh := queueOn epoch domains (st\<lparr>rf_queued := True\<rparr>),
              ex_timers := ex_timers x @ (if rf_queued st then [] else [Floor_Timer])\<rparr>, [])
         else (x\<lparr>ex_phase := Fetching epoch domains\<rparr>, [Fetch epoch domains now]))"

definition rerunManifestRefresh :: "jsstring list \<Rightarrow> nat \<Rightarrow> exchange \<Rightarrow> exchange \<times> moment list" where
  "rerunManifestRefresh domains now x =
     handleManifestChanged (JObj [(js ''domains'', JArr (map JStr domains))]) (cn_epoch (ex_conn x)) now x"

text \<open>The \<open>finally\<close> of a refresh.\<close>

definition finish_refresh :: "nat \<Rightarrow> exchange \<Rightarrow> exchange \<times> moment list" where
  "finish_refresh now x =
     (let st = (ex_refresh x)\<lparr>rf_lastCompletedAt := now\<rparr>
      in if rf_queued st then
           let (domains, st') = takeQueued (st\<lparr>rf_queued := False\<rparr>)
           in (x\<lparr>ex_phase := Idle, ex_refresh := st', ex_timers := ex_timers x @ [After_Run (rf_queuedEpoch st) domains]\<rparr>,
               [Completed now])
         else (x\<lparr>ex_phase := Idle, ex_refresh := st\<rparr>, [Completed now]))"

definition and_then :: "exchange \<times> moment list \<Rightarrow> (exchange \<Rightarrow> exchange \<times> moment list) \<Rightarrow> exchange \<times> moment list" where
  "and_then r f = (case r of (x, out) \<Rightarrow> (case f x of (y, later) \<Rightarrow> (y, out @ later)))"

definition enabled_names :: "server_config \<Rightarrow> exchange \<Rightarrow> jsstring list" where
  "enabled_names cfg x =
     filter (isEnabled (ex_sets x) (sc_id cfg))
       (case getDeclaredFeatureSets (ex_sets x) (sc_id cfg) of None \<Rightarrow> [] | Some m \<Rightarrow> keys m)"

definition revoked_paths :: "capability_grant \<Rightarrow> exchange \<Rightarrow> jsstring list" where
  "revoked_paths newGrant x =
     sort (filter (\<lambda>p. p \<notin> set (effectiveList newGrant)) (effectiveList (cn_grant (ex_conn x))))"

definition added_paths :: "capability_grant \<Rightarrow> exchange \<Rightarrow> jsstring list" where
  "added_paths newGrant x =
     sort (filter (\<lambda>p. p \<notin> set (effectiveList (cn_grant (ex_conn x)))) (effectiveList newGrant))"

text \<open>The reduction, before the server is told.\<close>

definition reduce_first :: "capability_grant \<Rightarrow> exchange \<Rightarrow> exchange \<times> moment list" where
  "reduce_first newGrant x =
     (let oldEffective = effectiveList (cn_grant (ex_conn x));
          interim = \<lparr>granted = filter (\<lambda>p. p \<in> set oldEffective) (effectiveList newGrant), deniedPaths = deniedPaths newGrant\<rparr>
      in if length (revoked_paths newGrant x) > 0 then (activate interim x, [Reduced interim]) else (x, []))"

text \<open>
  The feature sets derived from what is active, and the Request that tells the proposed
  policy, derived on a manager of its own.
\<close>

definition tell_policy :: "server_config \<Rightarrow> told \<Rightarrow> nat \<Rightarrow> exchange \<Rightarrow> exchange \<times> moment list" where
  "tell_policy cfg t now x =
     (let raw = featureSetsRaw (sc_number cfg) (tl_masked t)
      in if derivation_throws raw then and_then (finish_refresh now x) (\<lambda>x. (x, [Handler_Failed]))
         else
           (case initializeServer (ex_sets x) (sc_id cfg) raw (sc_sets cfg) (Some (cn_grant (ex_conn x))) of
              (sets, _, traces) \<Rightarrow>
                let update = fst (snd (initializeServer [] (sc_id cfg) raw (sc_sets cfg) (Some (tl_grant t))))
                in (x\<lparr>ex_sets := sets, ex_phase := Telling t\<rparr>,
                    map Set_Disabled traces @ [Asked (tl_epoch t) (tl_masked t) (tl_grant t) update])))"

text \<open>The answer to the fetch: reduce, derive from what is active, tell. Only an object is read.\<close>

definition fetch_answered :: "server_config \<Rightarrow> nat \<Rightarrow> jsstring list \<Rightarrow> jsval option \<Rightarrow> nat \<Rightarrow> exchange \<Rightarrow> exchange \<times> moment list" where
  "fetch_answered cfg epoch domains answer now x =
     (case answer of
        None \<Rightarrow> finish_refresh now x
      | Some fetched \<Rightarrow>
          if cn_epoch (ex_conn x) \<noteq> epoch then finish_refresh now x
          else if \<not> (case fetched of JObj es \<Rightarrow> True | JArr vs \<Rightarrow> True | _ \<Rightarrow> False) then finish_refresh now x
          else
            let (negotiated, gone) = negotiated_capabilities cfg fetched;
                masked = (case negotiated of None \<Rightarrow> [(js ''version'', JStr (js ''0.5''))] | Some m \<Rightarrow> m);
                newGrant = grant_for cfg (ex_mcpToolsAdvertised x) negotiated;
                t = \<lparr>tl_epoch = epoch, tl_domains = domains, tl_fetched = fetched, tl_masked = masked, tl_dropped = gone,
                     tl_grant = newGrant, tl_revoked = revoked_paths newGrant x, tl_added = added_paths newGrant x,
                     tl_oldEnabled = enabled_names cfg x\<rparr>
            in and_then (reduce_first newGrant x) (tell_policy cfg t now))"

definition derive_for :: "server_config \<Rightarrow> jsobject \<Rightarrow> capability_grant \<Rightarrow> exchange \<Rightarrow> exchange \<times> moment list" where
  "derive_for cfg masked grant x =
     (case initializeServer (ex_sets x) (sc_id cfg) (featureSetsRaw (sc_number cfg) masked) (sc_sets cfg) (Some grant) of
        (sets, _, traces) \<Rightarrow> (x\<lparr>ex_sets := sets\<rparr>, map Set_Disabled traces))"

definition json_of :: "jsobject option \<Rightarrow> jsval" where
  "json_of d = (case d of None \<Rightarrow> JNull | Some es \<Rightarrow> JObj es)"

text \<open>What follows the receipt: the manifest is adopted and one receipt of the change made.\<close>

definition adopt_manifest :: "server_config \<Rightarrow> told \<Rightarrow> bool \<Rightarrow> nat \<Rightarrow> exchange \<Rightarrow> exchange \<times> moment list" where
  "adopt_manifest cfg t negotiated now x =
     (let revision = (case field (tl_fetched t) (js ''revision'') of JStr s \<Rightarrow> Some s | _ \<Rightarrow> None);
          c = ex_conn x;
          manifest = (cn_manifest c)\<lparr>mf_lastValidatedRevision := revision, mf_lastFetchedAt := Some now\<rparr>;
          manifest = (if negotiated then manifest\<lparr>mf_lastNegotiatedAt := Some now\<rparr> else manifest);
          declarations = toolsetDeclarationsOf (tl_fetched t);
          changed = (sc_hints cfg \<and> \<not> same_json (json_of declarations) (json_of (ex_toolsetDeclarations x)));
          newEnabled = enabled_names cfg x;
          degraded = sort (filter (\<lambda>n. n \<notin> set newEnabled) (tl_oldEnabled t));
          restored = sort (filter (\<lambda>n. n \<notin> set (tl_oldEnabled t)) newEnabled);
          impacts = map Capability_Revoked (tl_revoked t)
            @ map (if negotiated then Expansion_Applied else Expansion_Pending) (tl_added t)
            @ map Feature_Degraded degraded @ map (\<lambda>n. Feature_Restored n negotiated) restored
            @ (if changed then [Toolsets_Changed] else [])
      in (x\<lparr>ex_conn := c\<lparr>cn_manifest := manifest\<rparr>, ex_capabilities := Some (tl_masked t),
            ex_droppedCapabilities := tl_dropped t, ex_toolsetDeclarations := declarations\<rparr>,
          (if changed then [Hub_Told declarations] else []) @
            [Change_Receipt revision (tl_domains t) impacts, Tools_Relisted]))"

definition policy_answered :: "server_config \<Rightarrow> told \<Rightarrow> jsval option \<Rightarrow> nat \<Rightarrow> exchange \<Rightarrow> exchange \<times> moment list" where
  "policy_answered cfg t answer now x =
     (if cn_epoch (ex_conn x) \<noteq> tl_epoch t then finish_refresh now x
      else
        (case answer of
           None \<Rightarrow> and_then (adopt_manifest cfg t False now x) (finish_refresh now)
         | Some receipt \<Rightarrow>
             if refuses receipt then
               if closes receipt then
                 and_then (and_then (x, [Refusal False True]) closeMcplServerForGood) (finish_refresh now)
               else
                 and_then
                   (and_then
                     (and_then (activate empty_grant x, [Refusal False False, Reduced empty_grant])
                       (derive_for cfg (tl_masked t) empty_grant))
                     (adopt_manifest cfg t False now))
                   (finish_refresh now)
             else
               and_then
                 (and_then
                   (and_then (activate (tl_grant t) x, [Accepted (tl_epoch t) (tl_grant t)])
                     (derive_for cfg (tl_masked t) (tl_grant t)))
                   (adopt_manifest cfg t True now))
                 (finish_refresh now)))"

subsection \<open>Steps\<close>

text \<open>
  What the framework does as the connection delivers an event: \<open>hi_epoch\<close> of a delivered
  \<open>manifest-changed\<close> or \<open>reconnect\<close> is the transport the connection is on then.
\<close>

definition listen :: "server_config \<Rightarrow> nat \<Rightarrow> effect \<Rightarrow> exchange \<Rightarrow> exchange \<times> moment list" where
  "listen cfg now e x =
     (case e of
        Delivered i \<Rightarrow>
          (case hi_event i of
             Manifest_Changed \<Rightarrow>
               and_then (x, [Announced (hi_epoch i) (announcedDomainsOf (hi_params i))])
                 (handleManifestChanged (hi_params i) (hi_epoch i) now)
           | Closed_Event \<Rightarrow> (x\<lparr>ex_sets := removeServer (ex_sets x) (sc_id cfg)\<rparr>, [])
           | Reconnect_Event \<Rightarrow> settlePolicyExchange cfg False (hi_epoch i) x
           | _ \<Rightarrow> (x, []))
      | _ \<Rightarrow> (x, []))"

fun listen_all :: "server_config \<Rightarrow> nat \<Rightarrow> effect list \<Rightarrow> exchange \<Rightarrow> exchange \<times> moment list" where
  "listen_all cfg now [] x = (x, [])"
| "listen_all cfg now (e # es) x =
     (case listen cfg now e x of (y, out) \<Rightarrow> (case listen_all cfg now es y of (z, later) \<Rightarrow> (z, Conn e # out @ later)))"

text \<open>
  The framework's own listeners establish no grant inside a flush, and open a plane only as
  \<open>readyMcplPlanes\<close> does, which passes by a connection whose exchange is in flight.
\<close>

fun frame_op :: "nat option \<Rightarrow> connection \<Rightarrow> op \<Rightarrow> bool" where
  "frame_op marker c (Establish g) = False"
| "frame_op marker c Ready = mcplPlanesMayOpen marker c"
| "frame_op marker c Ready_Control = mcplPlanesMayOpen marker c"
| "frame_op marker c _ = True"

definition framed :: "host \<Rightarrow> nat option \<Rightarrow> host" where
  "framed h marker = h\<lparr>ho_react := \<lambda>i c. filter (frame_op marker c) (ho_react h i c)\<rparr>"

definition run_call :: "server_config \<Rightarrow> host \<Rightarrow> call \<Rightarrow> nat \<Rightarrow> exchange \<Rightarrow> exchange \<times> moment list" where
  "run_call cfg h call now x =
     (case do_call (framed h (ex_marker x)) call (ex_conn x) of
        (c, out) \<Rightarrow> listen_all cfg now out (x\<lparr>ex_conn := c\<rparr>))"

datatype xinput =
    Outside call nat
  | Open_Planes bool nat
  | Reconnected bool jsval bool nat
  | Initial_Answer nat "jsval option"
  | Fetch_Answer "jsval option" nat
  | Policy_Answer "jsval option" nat
  | Timer_Fires nat nat

definition outside_call :: "call \<Rightarrow> bool" where
  "outside_call call \<longleftrightarrow> (case call of Op (Establish g) \<Rightarrow> False | Op Ready \<Rightarrow> False | Op Ready_Control \<Rightarrow> False
     | Adopt allow \<Rightarrow> False | _ \<Rightarrow> True)"

text \<open>\<open>readyMcplPlanes\<close>, of this connection.\<close>

definition readyMcplPlanes :: "server_config \<Rightarrow> host \<Rightarrow> bool \<Rightarrow> nat \<Rightarrow> exchange \<Rightarrow> exchange \<times> moment list" where
  "readyMcplPlanes cfg h quiesced now x =
     (if \<not> mcplPlanesMayOpen (ex_marker x) (ex_conn x) then (x, [])
      else run_call cfg h (Op (if quiesced then Ready_Control else Ready)) now x)"

text \<open>A manifest as the handshake reads it: expanded, then masked.\<close>

definition handshake :: "server_config \<Rightarrow> jsval \<Rightarrow> bool \<Rightarrow> exchange \<Rightarrow> exchange" where
  "handshake cfg raw tools x =
     (case negotiated_capabilities cfg raw of
        (caps, gone) \<Rightarrow>
          x\<lparr>ex_capabilities := caps, ex_droppedCapabilities := gone, ex_mcpToolsAdvertised := tools,
            ex_toolsetDeclarations := toolsetDeclarationsOf raw\<rparr>)"

text \<open>
  A fresh transport. Its \<open>reconnect\<close> event starts its exchange synchronously, so the marker
  is set here, before any listener of that event could open a plane.
\<close>

definition reconnected :: "server_config \<Rightarrow> host \<Rightarrow> bool \<Rightarrow> jsval \<Rightarrow> bool \<Rightarrow> nat \<Rightarrow> exchange \<Rightarrow> exchange \<times> moment list" where
  "reconnected cfg h allow raw tools now x =
     (if \<not> cn_closed (ex_conn x) \<or> \<not> cn_reconnectEnabled (ex_conn x) then (x, [])
      else run_call cfg h (Adopt allow) now
        ((handshake cfg raw tools x)\<lparr>ex_marker := Some (cn_epoch (ex_conn x) + 1)\<rparr>))"

definition fire :: "timer \<Rightarrow> nat \<Rightarrow> exchange \<Rightarrow> exchange \<times> moment list" where
  "fire tm now x =
     (case tm of
        After_Run queuedEpoch domains \<Rightarrow>
          if Some (cn_epoch (ex_conn x)) = queuedEpoch then rerunManifestRefresh domains now x else (x, [])
      | Floor_Timer \<Rightarrow>
          let st = ex_refresh x
          in if rf_queued st \<and> \<not> in_flight x then
               let (domains, st') = takeQueued (st\<lparr>rf_queued := False\<rparr>); x = x\<lparr>ex_refresh := st'\<rparr>
               in if rf_queuedEpoch st' = Some (cn_epoch (ex_conn x)) then rerunManifestRefresh domains now x else (x, [])
             else (x, []))"

definition drop_nth :: "nat \<Rightarrow> 'a list \<Rightarrow> 'a list" where
  "drop_nth k xs = take k xs @ drop (Suc k) xs"

definition xstep :: "server_config \<Rightarrow> host \<Rightarrow> xinput \<Rightarrow> exchange \<Rightarrow> exchange \<times> moment list" where
  "xstep cfg h inp x =
     (case inp of
        Outside call now \<Rightarrow> if outside_call call then run_call cfg h call now x else (x, [])
      | Open_Planes quiesced now \<Rightarrow> readyMcplPlanes cfg h quiesced now x
      | Reconnected allow raw tools now \<Rightarrow> reconnected cfg h allow raw tools now x
      | Initial_Answer k answer \<Rightarrow>
          if k < length (ex_asked x)
          then initial_answered cfg (ex_asked x ! k) answer (x\<lparr>ex_asked := drop_nth k (ex_asked x)\<rparr>)
          else (x, [])
      | Fetch_Answer answer now \<Rightarrow>
          (case ex_phase x of Fetching epoch domains \<Rightarrow> fetch_answered cfg epoch domains answer now x | _ \<Rightarrow> (x, []))
      | Policy_Answer answer now \<Rightarrow>
          (case ex_phase x of Telling t \<Rightarrow> policy_answered cfg t answer now x | _ \<Rightarrow> (x, []))
      | Timer_Fires k now \<Rightarrow>
          if k < length (ex_timers x)
          then fire (ex_timers x ! k) now (x\<lparr>ex_timers := drop_nth k (ex_timers x)\<rparr>)
          else (x, []))"

fun xsteps :: "server_config \<Rightarrow> host \<Rightarrow> xinput list \<Rightarrow> exchange \<Rightarrow> exchange \<times> moment list" where
  "xsteps cfg h [] x = (x, [])"
| "xsteps cfg h (inp # inps) x =
     (case xstep cfg h inp x of (y, out) \<Rightarrow> (case xsteps cfg h inps y of (z, later) \<Rightarrow> (z, out @ later)))"

text \<open>
  A connect hands the connection back, a stub when its first attempt failed and it retries:
  its listeners are wired and its exchange starts in one step. A runtime connect, unlike one
  of the staged startup, closes a connection whose exchange throws.
\<close>

definition handed_back :: "server_config \<Rightarrow> bool \<Rightarrow> bool \<Rightarrow> jsval \<Rightarrow> bool \<Rightarrow> exchange" where
  "handed_back cfg reconnect allow raw tools =
     handshake cfg raw tools
       \<lparr>ex_conn = (if raw = JUndef then disconnected_stub reconnect else connected reconnect allow),
        ex_sets = [], ex_capabilities = None, ex_droppedCapabilities = [],
        ex_mcpToolsAdvertised = False, ex_toolsetDeclarations = None, ex_marker = Some 0, ex_asked = [],
        ex_refresh = \<lparr>rf_queued = False, rf_lastCompletedAt = 0, rf_queuedEpoch = None, rf_queuedDomains = None\<rparr>,
        ex_phase = Idle, ex_timers = []\<rparr>"

definition connectMcplServer :: "server_config \<Rightarrow> bool \<Rightarrow> bool \<Rightarrow> bool \<Rightarrow> jsval \<Rightarrow> bool \<Rightarrow> exchange \<times> moment list" where
  "connectMcplServer cfg staged reconnect allow raw tools =
     settlePolicyExchange cfg (\<not> staged) 0 (handed_back cfg reconnect allow raw tools)"

definition exchange_run :: "server_config \<Rightarrow> host \<Rightarrow> bool \<Rightarrow> bool \<Rightarrow> bool \<Rightarrow> jsval \<Rightarrow> bool \<Rightarrow> xinput list \<Rightarrow> exchange \<times> moment list" where
  "exchange_run cfg h staged reconnect allow raw tools inps =
     and_then (connectMcplServer cfg staged reconnect allow raw tools) (xsteps cfg h inps)"

end
