(* ===== verification/Exchange_Transport.thy ===== *)
theory Exchange_Transport
  imports Policy_Exchange Held_Order
begin

section \<open>The connection under the framework\<close>

text \<open>
  What the framework relies on as it drives a connection: no flush establishes a grant, a
  \<open>manifest-changed\<close> is delivered only on the transport it came on and only once that
  transport's exchange has settled, and the planes stay closed until then.
\<close>

definition timely :: "nat \<Rightarrow> held_item \<Rightarrow> bool" where
  "timely epoch i \<longleftrightarrow> (hi_event i = Manifest_Changed \<longrightarrow> hi_epoch i = epoch) \<and> hi_event i \<noteq> Reconnect_Event"

definition closed_until :: "nat option \<Rightarrow> connection \<Rightarrow> bool" where
  "closed_until marker c \<longleftrightarrow>
     (\<forall>m. marker = Some m \<longrightarrow> m \<le> cn_epoch c \<and> (m = cn_epoch c \<longrightarrow> \<not> cn_controlReady c \<and> \<not> cn_dataReady c))"

fun boundaries :: "effect list \<Rightarrow> nat" where
  "boundaries [] = 0"
| "boundaries (e # es) = (if e = Boundary then 1 else 0) + boundaries es"

fun stamped :: "nat option \<Rightarrow> nat \<Rightarrow> effect list \<Rightarrow> bool" where
  "stamped marker epoch [] \<longleftrightarrow> True"
| "stamped marker epoch (e # es) \<longleftrightarrow>
     (case e of
        Delivered i \<Rightarrow> (hi_event i = Manifest_Changed \<longrightarrow> hi_epoch i = epoch \<and> marker \<noteq> Some epoch) \<and>
          (hi_event i = Reconnect_Event \<longrightarrow> hi_epoch i = epoch \<and> marker = Some epoch)
      | Granted g \<Rightarrow> False
      | _ \<Rightarrow> True) \<and> stamped marker (if e = Boundary then Suc epoch else epoch) es"

lemma boundaries_append [simp]: "boundaries (es @ fs) = boundaries es + boundaries fs"
  by (induction es) auto

lemma stamped_append [simp]:
  "stamped marker epoch (es @ fs) \<longleftrightarrow> stamped marker epoch es \<and> stamped marker (epoch + boundaries es) fs"
  by (induction es arbitrary: epoch) (auto split: effect.splits)

lemma stamped_drops [simp]: "stamped marker epoch (map Dropped is)" "boundaries (map Dropped is) = 0"
  by (induction "is") auto

definition sound :: "nat option \<Rightarrow> connection \<Rightarrow> bool" where
  "sound marker c \<longleftrightarrow> list_all (timely (cn_epoch c)) (cn_held c) \<and> closed_until marker c"

definition keeps :: "nat option \<Rightarrow> connection \<Rightarrow> effect list \<Rightarrow> connection \<Rightarrow> bool" where
  "keeps marker c out c' \<longleftrightarrow>
     stamped marker (cn_epoch c) out \<and> cn_epoch c' = cn_epoch c + boundaries out \<and> sound marker c'"

lemma keeps_sound: "keeps marker c out c' \<Longrightarrow> sound marker c'"
  by (simp add: keeps_def)

lemma keeps_refl: "sound marker c \<Longrightarrow> keeps marker c [] c"
  by (simp add: keeps_def)

lemma keeps_trans: "keeps marker c out c' \<Longrightarrow> keeps marker c' out' c'' \<Longrightarrow> keeps marker c (out @ out') c''"
  by (simp add: keeps_def)

text \<open>Where a plane is opened, or a task may open one, the marked transport is past.\<close>

definition past_marker :: "nat option \<Rightarrow> connection \<Rightarrow> bool" where
  "past_marker marker c \<longleftrightarrow> (\<forall>m. marker = Some m \<longrightarrow> m < cn_epoch c)"

fun opens :: "op \<Rightarrow> bool" where
  "opens Ready = True"
| "opens Ready_Control = True"
| "opens _ = False"

fun establishes :: "op \<Rightarrow> bool" where
  "establishes (Establish g) = True"
| "establishes _ = False"

definition op_ok :: "nat option \<Rightarrow> connection \<Rightarrow> op \<Rightarrow> bool" where
  "op_ok marker c x \<longleftrightarrow> \<not> establishes x \<and> (opens x \<longrightarrow> past_marker marker c)"

fun task_ok :: "nat option \<Rightarrow> connection \<Rightarrow> task \<Rightarrow> bool" where
  "task_ok marker c (Flush epoch is) \<longleftrightarrow> list_all (timely epoch) is"
| "task_ok marker c (Report is) \<longleftrightarrow> list_all (\<lambda>i. hi_event i \<noteq> Manifest_Changed \<and> hi_event i \<noteq> Reconnect_Event) is"
| "task_ok marker c (React xs) \<longleftrightarrow> list_all (op_ok marker c) xs"

lemma frame_op_ok:
  assumes "sound marker c" "frame_op marker c x"
  shows "op_ok marker c x"
proof -
  have "opens x \<Longrightarrow> mcplPlanesMayOpen marker c" "\<not> establishes x"
    using assms(2) by (cases x; simp)+
  then show ?thesis
    using assms(1) by (auto simp: op_ok_def past_marker_def mcplPlanesMayOpen_def sound_def closed_until_def order.strict_iff_order)
qed

lemma task_ok_later:
  assumes "cn_epoch c \<le> cn_epoch c'"
  shows "task_ok marker c t \<Longrightarrow> task_ok marker c' t"
  using assms by (cases t) (auto simp: list_all_iff op_ok_def past_marker_def intro: order.strict_trans2)

lemma past_marker_closed: "past_marker marker c \<Longrightarrow> closed_until marker c"
  by (auto simp: past_marker_def closed_until_def)

lemma within_kept_set: "set (fst (within_kept n is)) \<subseteq> set is"
  by (induction n "is" rule: within_kept.induct) (auto split: prod.splits if_splits)

lemma replaceHeld_frame:
  assumes "replaceHeld is c = (c', out)"
  shows "set (cn_held c') \<subseteq> set is" "cn_epoch c' = cn_epoch c" "cn_controlReady c' = cn_controlReady c"
    "cn_dataReady c' = cn_dataReady c" "\<exists>ds. out = map Dropped ds"
  using assms within_kept_set [of 0 "is"] replaceHeld_out [of "is" c]
  by (auto simp: replaceHeld_def split: prod.splits)

lemma keeps_replaceHeld:
  assumes "replaceHeld is c = (c', out)" "closed_until marker c" "list_all (timely (cn_epoch c)) is"
  shows "keeps marker c out c'"
proof -
  obtain ds where "out = map Dropped ds" using replaceHeld_frame(5) [OF assms(1)] by blast
  then show ?thesis
    using replaceHeld_frame(1-4) [OF assms(1)] assms(2,3)
    by (auto simp: keeps_def sound_def closed_until_def list_all_iff)
qed

lemma kept_not_manifest:
  assumes "keepAcrossBoundary is c = (kept, out)" "list_all (timely epoch) is"
  shows "list_all (timely epoch') kept \<and> (\<exists>ds. out = map Dropped ds)"
  using assms
  by (auto simp: keepAcrossBoundary_def boundary_drops_def list_all_iff timely_def PROCESS_EVENTS_def
      METHOD_EVENTS_def WORLD_EVENTS_def)

lemma keeps_reset:
  assumes "resetPolicyForTransportBoundary c = (c', out)" "sound marker c"
  shows "keeps marker c out c' \<and> cn_epoch c' = Suc (cn_epoch c) \<and>
    cn_controlReady c' = cn_controlReady c \<and> cn_dataReady c' = cn_dataReady c"
proof -
  let ?c = "c\<lparr>cn_grant := empty_grant, cn_policyEstablished := False, cn_epoch := cn_epoch c + 1\<rparr>"
  obtain kept drops where k: "keepAcrossBoundary (cn_held c) ?c = (kept, drops)" by fastforce
  obtain d past where r: "replaceHeld kept ?c = (d, past)" by fastforce
  have out: "c' = d\<lparr>cn_observeFilter := None, cn_manifest := no_manifest\<rparr>" "out = Boundary # drops @ past"
    using assms k r by (auto simp: resetPolicyForTransportBoundary_def)
  obtain ds where ds: "drops = map Dropped ds" "list_all (timely (cn_epoch ?c)) kept"
    using kept_not_manifest [OF k] assms(2) unfolding sound_def by blast
  have "closed_until marker ?c"
    using assms(2) by (auto simp: sound_def closed_until_def)
  from keeps_replaceHeld [OF r this ds(2)] show ?thesis
    using replaceHeld_frame(2-4) [OF r] by (auto simp: out ds(1) keeps_def closed_until_def sound_def)
qed

lemma stamped_reset:
  assumes "resetPolicyForTransportBoundary c = (c', out)"
  shows "stamped marker epoch out \<and> boundaries out = 1"
proof -
  let ?c = "c\<lparr>cn_grant := empty_grant, cn_policyEstablished := False, cn_epoch := cn_epoch c + 1\<rparr>"
  obtain kept drops where k: "keepAcrossBoundary (cn_held c) ?c = (kept, drops)" by fastforce
  obtain d past where r: "replaceHeld kept ?c = (d, past)" by fastforce
  obtain ds where "past = map Dropped ds" using replaceHeld_frame(5) [OF r] by blast
  moreover have "\<exists>ds. drops = map Dropped ds" using k by (auto simp: keepAcrossBoundary_def)
  moreover have "out = Boundary # drops @ past"
    using assms k r by (auto simp: resetPolicyForTransportBoundary_def)
  ultimately show ?thesis by auto
qed

lemma keeps_hold:
  assumes "hold i c = (c', out)" "sound marker c" "timely (cn_epoch c) i"
  shows "keeps marker c out c' \<and> cn_epoch c' = cn_epoch c"
proof -
  have "set (cn_held c') \<subseteq> insert i (set (cn_held c))"
    using subseq_set_le [OF hold_subseq(1) [OF assms(1)]] by simp
  moreover have "cn_epoch c' = cn_epoch c" "cn_controlReady c' = cn_controlReady c" "cn_dataReady c' = cn_dataReady c"
    using hold_simps(2) [of i c] hold_planes [of i c] assms(1) by simp_all
  moreover have "stamped marker e out \<and> boundaries out = 0" for e
    using hold_out [of i c] assms(1) by auto
  ultimately show ?thesis
    using assms(2,3) by (auto simp: keeps_def sound_def closed_until_def list_all_iff)
qed

lemma keeps_flushHeld:
  assumes "flushHeld h is c = (c', ts, out)" "sound marker c" "list_all (timely (cn_epoch c)) is"
  shows "keeps marker c out c' \<and> list_all (task_ok marker c') ts"
proof (cases "\<not> isConnected c \<and> list_ex waits is")
  case True
  obtain d out' where r: "replaceHeld (cn_held c @ filter waits is) c = (d, out')" by fastforce
  have "list_all (timely (cn_epoch c)) (cn_held c @ filter waits is)"
    using assms(2,3) by (auto simp: sound_def list_all_iff)
  from keeps_replaceHeld [OF r _ this, of marker] have "keeps marker c out' d"
    using assms(2) by (simp add: sound_def)
  moreover have "list_all (timely (cn_epoch d)) (admissionOrder (ho_number h) (filter (\<lambda>i. \<not> waits i) is))"
    using assms(3) replaceHeld_frame(2) [OF r] mset_admissionOrder [of "ho_number h" "filter (\<lambda>i. \<not> waits i) is"]
    unfolding list_all_iff by (metis filter_is_subset set_mset_mset subsetD)
  ultimately show ?thesis
    using assms(1) True r by (auto simp: flushHeld_def)
next
  case False
  have "list_all (timely (cn_epoch c)) (admissionOrder (ho_number h) is)"
    using assms(3) mset_admissionOrder [of "ho_number h" "is"] unfolding list_all_iff by (metis set_mset_mset)
  then show ?thesis
    using assms False keeps_refl [of marker c] by (auto simp: flushHeld_def)
qed

lemma keeps_own_reports:
  assumes "deliverOwnReports c = (c', ts, out)" "sound marker c"
  shows "keeps marker c out c' \<and> list_all (task_ok marker c') ts"
  using assms
  by (auto simp: deliverOwnReports_def keeps_def sound_def closed_until_def list_all_iff ownReport_def Let_def split: if_splits)

lemma keeps_do_op:
  assumes "do_op h x c = (c', ts, out)" "sound marker c" "op_ok marker c x"
  shows "keeps marker c out c' \<and> list_all (task_ok marker c') ts"
proof (cases "opens x")
  case True
  then have "x = Ready \<or> x = Ready_Control" by (cases x) auto
  then obtain both where b: "(c', ts, out) = (if closedForGood c then deliverOwnReports c else flushHeld h (cn_held c) (opened both c))"
  proof
    assume "x = Ready"
    then show ?thesis using assms(1) that [of True] by (simp add: do_op_def ready_opened)
  next
    assume "x = Ready_Control"
    then show ?thesis using assms(1) that [of False] by (simp add: do_op_def ready_opened)
  qed
  have "past_marker marker c" using assms(3) True by (simp add: op_ok_def)
  then have "sound marker (opened both c)"
    by (simp add: sound_def past_marker_closed past_marker_def)
  then show ?thesis
    using keeps_own_reports [of c c' ts out marker] keeps_flushHeld [of h "cn_held c" "opened both c" c' ts out marker]
      assms(2) b by (auto simp: sound_def keeps_def split: if_splits)
next
  case False
  consider (shut) "x = Close_Host \<or> x = Transport_Lost" "\<not> cn_closed c" | (quiet) "x = Close_Host \<or> x = Transport_Lost" "cn_closed c"
    | (plain) "x \<noteq> Close_Host" "x \<noteq> Transport_Lost" by blast
  then show ?thesis
  proof cases
    case shut
    define d where "d = (if x = Close_Host then c\<lparr>cn_reconnectEnabled := False, cn_closed := True\<rparr> else c\<lparr>cn_closed := True\<rparr>)"
    obtain d' out' where r: "resetPolicyForTransportBoundary d = (d', out')" by fastforce
    have "sound marker d" "cn_epoch d = cn_epoch c"
      using assms(2) by (auto simp: d_def sound_def closed_until_def)
    then have k: "keeps marker c out' d'"
      using keeps_reset [OF r, of marker] by (simp add: keeps_def)
    have "c' = d'" "out = out'" "ts = [] \<or> ts = [Report [own_event Closed_Event JNull d']]"
      using assms(1) shut r by (auto simp: do_op_def close_def lost_def d_def split: if_splits)
    then show ?thesis
      using k by (auto simp: own_event_def)
  next
    case quiet
    then show ?thesis
      using assms by (auto simp: do_op_def close_def lost_def keeps_def sound_def closed_until_def)
  next
    case plain
    then show ?thesis
      using assms False
      by (cases x) (auto simp: do_op_def pauseDataPlane_def keeps_def sound_def closed_until_def op_ok_def)
  qed
qed

lemma keeps_emit:
  assumes "emit (framed h marker) i c = (c', ts, out)" "sound marker c" "hi_event i = Manifest_Changed \<longrightarrow> hi_epoch i = cn_epoch c"
    "hi_event i = Reconnect_Event \<longrightarrow> hi_epoch i = cn_epoch c \<and> marker = Some (cn_epoch c)"
  shows "keeps marker c out c' \<and> list_all (task_ok marker c') ts"
  using assms(1)
proof (cases rule: emit_cases)
  case held
  then have "timely (cn_epoch c) (i\<lparr>hi_kept := False\<rparr>)"
    using assms(3) by (auto simp: timely_def planeReadyFor_def isLifecycleEvent_def)
  then show ?thesis using keeps_hold [OF held(2) assms(2)] held(3) by simp
next
  case (delivered xs)
  have "hi_event i = Manifest_Changed \<Longrightarrow> marker \<noteq> Some (cn_epoch c)"
    using delivered(1) assms(2)
    by (auto simp: planeReadyFor_def isLifecycleEvent_def isControlPlaneEvent_def sound_def closed_until_def)
  moreover have "list_all (op_ok marker c) xs"
    using delivered(6) frame_op_ok [OF assms(2)] by (auto simp: framed_def list_all_iff)
  ultimately show ?thesis
    using delivered(3,4,5) assms(2,3,4) by (auto simp: keeps_def sound_def)
qed (use assms(2) in \<open>auto simp: keeps_def sound_def\<close>)

lemma keeps_task:
  assumes "task_step (framed h marker) t c = (c', ts, out)" "sound marker c" "task_ok marker c t"
  shows "keeps marker c out c' \<and> list_all (task_ok marker c') ts"
proof (cases t)
  case (Flush epoch "is")
  show ?thesis
  proof (cases "is")
    case (Cons i rest)
    consider (boundary) "cn_epoch c \<noteq> epoch"
      | (kept) "cn_epoch c = epoch" "hi_kept i \<and> \<not> planeReadyFor (hi_event i) c"
      | (admit) "cn_epoch c = epoch" "\<not> (hi_kept i \<and> \<not> planeReadyFor (hi_event i) c)"
      by blast
    then show ?thesis
    proof cases
      case boundary
      obtain kept drops where k: "keepAcrossBoundary (i # rest) c = (kept, drops)" by fastforce
      obtain d past where r: "replaceHeld (cn_held c @ kept) c = (d, past)" by fastforce
      have out: "c' = d" "ts = []" "out = drops @ past"
        using assms(1) Flush Cons boundary k r by auto
      obtain ds where ds: "drops = map Dropped ds" "list_all (timely (cn_epoch c)) kept"
        using kept_not_manifest [OF k] assms(3) Flush Cons by fastforce
      have "keeps marker c past d"
        by (rule keeps_replaceHeld [OF r]) (use assms(2) ds(2) in \<open>auto simp: sound_def\<close>)
      then show ?thesis by (simp add: out ds(1) keeps_def)
    next
      case kept
      obtain d out' where o: "hold i c = (d, out')" by fastforce
      then have "c' = d" "ts = [Flush epoch rest]" "out = out'"
        using assms(1) Flush Cons kept by auto
      then show ?thesis
        using keeps_hold [OF o assms(2)] assms(3) Flush Cons kept(1) by simp
    next
      case admit
      obtain d us' out' where e: "emit (framed h marker) i c = (d, us', out')" by (cases "emit (framed h marker) i c") auto
      then have "c' = d" "ts = us' @ [Flush epoch rest]" "out = out'"
        using assms(1) Flush Cons admit by auto
      then show ?thesis
        using keeps_emit [OF e assms(2)] assms(3) Flush Cons admit(1) by (simp add: timely_def)
    qed
  next
    case Nil
    then show ?thesis using assms(1,2) Flush keeps_refl by simp
  qed
next
  case (Report "is")
  show ?thesis
  proof (cases "is")
    case (Cons i rest)
    have "list_all (op_ok marker c) (ho_react (framed h marker) i c)"
      using frame_op_ok [OF assms(2)] by (auto simp: framed_def list_all_iff)
    then show ?thesis
      using assms Report Cons by (auto simp: keeps_def sound_def)
  next
    case Nil
    then show ?thesis using assms(1,2) Report keeps_refl by simp
  qed
next
  case (React xs)
  show ?thesis
  proof (cases xs)
    case (Cons x ys)
    obtain d us' out' where e: "do_op (framed h marker) x c = (d, us', out')" by (cases "do_op (framed h marker) x c") auto
    then have out: "c' = d" "ts = us' @ [React ys]" "out = out'"
      using assms(1) React Cons by auto
    have k: "keeps marker c out' d \<and> list_all (task_ok marker d) us'"
      using keeps_do_op [OF e assms(2)] assms(3) React Cons by simp
    then have "task_ok marker d (React ys)"
      using task_ok_later [of c d marker "React ys"] assms(3) React Cons by (simp add: keeps_def)
    then show ?thesis using k out by simp
  next
    case Nil
    then show ?thesis using assms(1,2) React keeps_refl by simp
  qed
qed

definition marked :: "nat option \<Rightarrow> connection \<Rightarrow> connection \<Rightarrow> task list \<Rightarrow> effect list \<Rightarrow> bool" where
  "marked marker c0 c ts hist \<longleftrightarrow> keeps marker c0 hist c \<and> list_all (task_ok marker c) ts"

lemma marked_extend:
  assumes "marked marker c0 c ts hist" "keeps marker c out c'" "list_all (task_ok marker c') us"
  shows "marked marker c0 c' (us @ ts) (hist @ out)"
proof -
  have "list_all (task_ok marker c') ts"
    using assms(1,2) task_ok_later [of c c' marker] by (auto simp: marked_def keeps_def list_all_iff)
  then show ?thesis
    using assms keeps_trans by (auto simp: marked_def)
qed

lemma marked_quiet:
  "marked marker c0 c [] hist \<Longrightarrow> stamped marker (cn_epoch c) out \<Longrightarrow> boundaries out = 0 \<Longrightarrow> marked marker c0 c [] (hist @ out)"
  by (auto simp: marked_def keeps_def)

lemma sound_tap: "sound marker (c\<lparr>cn_readTap := on\<rparr>) = sound marker c"
  by (simp add: sound_def closed_until_def)

lemma keeps_arrived: "keeps marker c out c' \<Longrightarrow> keeps marker c (Arrived i # out) c'"
  by (simp add: keeps_def)

interpretation under_framework: machine_invariant "framed h marker" outside_call "marked marker c0" for h marker c0
proof
  fix c t ts hist c' us out
  assume P: "marked marker c0 c (t # ts) hist" and s: "task_step (framed h marker) t c = (c', us, out)"
  then have "keeps marker c out c' \<and> list_all (task_ok marker c') us"
    using keeps_task [OF s] by (auto simp: marked_def dest: keeps_sound)
  moreover have "marked marker c0 c ts hist" using P by (simp add: marked_def)
  ultimately show "marked marker c0 c' (us @ ts) (hist @ out)"
    using marked_extend by blast
next
  fix c hist x c' us out
  assume P: "marked marker c0 c [] hist" and "outside_call (Op x)" and o: "do_op (framed h marker) x c = (c', us, out)"
  then have "op_ok marker c x"
    by (cases x) (auto simp: outside_call_def op_ok_def)
  then show "marked marker c0 c' us (hist @ out)"
    using marked_extend [OF P, of out c' us] keeps_do_op [OF o] P by (auto simp: marked_def dest: keeps_sound)
next
  fix c hist i c' us out
  assume P: "marked marker c0 c [] hist" and f: "fresh c i" and r: "hi_event i = Reconnect_Event \<Longrightarrow> \<exists>allow. outside_call (Adopt allow)"
    and e: "emit (framed h marker) i c = (c', us, out)"
  then have "keeps marker c out c' \<and> list_all (task_ok marker c') us"
    using keeps_emit [OF e] by (auto simp: marked_def fresh_def outside_call_def dest: keeps_sound)
  then show "marked marker c0 c' us (hist @ Arrived i # out)"
    using marked_extend [OF P, of "Arrived i # out" c' us] keeps_arrived by fastforce
next
  fix c hist epoch m e c' out
  assume P: "marked marker c0 c [] hist" and w: "e \<in> set WORLD_EVENTS" and o: "hold (item_of e m epoch True) c = (c', out)"
  have "timely (cn_epoch c) (item_of e m epoch True)"
    using w by (auto simp: timely_def item_of_def WORLD_EVENTS_def)
  then have "keeps marker c out c'"
    using keeps_hold [OF o] P by (auto simp: marked_def dest: keeps_sound)
  then show "marked marker c0 c' [] (hist @ Arrived (item_of e m epoch True) # out)"
    using marked_extend [OF P, of "Arrived (item_of e m epoch True) # out" c' "[]"] keeps_arrived by fastforce
next
  fix c hist on
  assume "marked marker c0 c [] hist"
  then show "marked marker c0 (c\<lparr>cn_readTap := on\<rparr>) [] hist"
    by (simp add: marked_def keeps_def sound_tap)
next
  fix c hist allow c' out
  assume "outside_call (Adopt allow)"
  then show "marked marker c0 c' [] (hist @ out)" by (simp add: outside_call_def)
qed (auto intro!: marked_quiet)

text \<open>A whole call, an opening of the planes, and an adopted transport.\<close>

lemma outside_keeps:
  assumes "do_call (framed h marker) call c = (c', out)" "outside_call call" "sound marker c"
  shows "keeps marker c out c'"
  using under_framework.call_holds [of marker c c "[]" call h c' out] assms keeps_refl
  by (auto simp: marked_def)

lemma open_keeps:
  assumes "do_call (framed h marker) (Op x) c = (c', out)" "opens x" "mcplPlanesMayOpen marker c" "sound marker c"
  shows "keeps marker c out c'"
proof -
  have "frame_op marker c x" using assms(2,3) by (cases x) auto
  then have ok: "op_ok marker c x" using frame_op_ok assms(4) by blast
  obtain d ts out' where o: "do_op (framed h marker) x c = (d, ts, out')" by (cases "do_op (framed h marker) x c") auto
  have "marked marker c d ts out'"
    using keeps_do_op [OF o assms(4) ok] by (simp add: marked_def)
  then have "marked marker c c' [] out"
    using under_framework.run_holds [of h marker d ts out' c' out c] assms(1) o by simp
  then show ?thesis by (simp add: marked_def)
qed

lemma adopted_keeps:
  assumes "do_call (framed h (Some (Suc (cn_epoch c)))) (Adopt allow) c = (c', out)" "cn_closed c" "cn_reconnectEnabled c"
    and "list_all (timely (cn_epoch c)) (cn_held c)"
  shows "keeps (Some (Suc (cn_epoch c))) c out c'"
proof -
  let ?m = "Some (Suc (cn_epoch c))"
  obtain c1 out1 where a: "adopt allow c = (c1, out1)" by fastforce
  obtain d where r: "resetPolicyForTransportBoundary (c\<lparr>cn_controlReady := False, cn_dataReady := False\<rparr>) = (d, out1)"
    and d: "c1 = d\<lparr>cn_transport := True, cn_allowHostCommands := allow, cn_closed := False\<rparr>"
    using a by (cases "resetPolicyForTransportBoundary (c\<lparr>cn_controlReady := False, cn_dataReady := False\<rparr>)")
      (auto simp: adopt_def)
  have "sound None (c\<lparr>cn_controlReady := False, cn_dataReady := False\<rparr>)"
    using assms(4) by (simp add: sound_def closed_until_def)
  from keeps_reset [OF r this] have k: "keeps None c out1 d" "cn_epoch d = Suc (cn_epoch c)"
    "\<not> cn_controlReady d" "\<not> cn_dataReady d"
    by (auto simp: keeps_def)
  have "sound None d" by (rule keeps_sound [OF k(1)])
  then have c1: "cn_epoch c1 = Suc (cn_epoch c)" "sound ?m c1"
    using k(2-4) by (simp_all add: d sound_def closed_until_def)
  have "stamped ?m (cn_epoch c) out1" "boundaries out1 = 1"
    using stamped_reset [OF r] by blast+
  then have m: "marked ?m c c1 [] out1"
    using c1 by (simp add: marked_def keeps_def)
  let ?i = "own_event Reconnect_Event JNull c1"
  obtain c2 ts after where e: "emit (framed h ?m) ?i c1 = (c2, ts, after)" by (cases "emit (framed h ?m) ?i c1") auto
  have "run_tasks (framed h ?m) c2 ts (out1 @ Arrived ?i # after) = (c', out)"
    using assms(1-3) a e by simp
  moreover have "marked ?m c c2 ts (out1 @ Arrived ?i # after)"
  proof -
    have "keeps ?m c1 after c2 \<and> list_all (task_ok ?m c2) ts"
      using keeps_emit [OF e c1(2)] c1(1) by (simp add: own_event_def)
    then have k2: "keeps ?m c1 (Arrived ?i # after) c2" "list_all (task_ok ?m c2) ts"
      using keeps_arrived by blast+
    from marked_extend [OF m k2] show ?thesis by simp
  qed
  ultimately show ?thesis
    using under_framework.run_holds [of h ?m c2 ts _ c' out c] by (simp add: marked_def)
qed

end
