(* ===== verification/Exchange_Authority.thy ===== *)
theory Exchange_Authority
  imports Exchange_Transport
begin

section \<open>Authority comes from an accepted policy only\<close>

text \<open>
  A history read from the start: the grant in force and the transport. Each moment must be
  lawful for what came before it.
\<close>

fun force :: "capability_grant \<Rightarrow> moment \<Rightarrow> capability_grant" where
  "force g (Conn e) = in_force g e"
| "force g (Accepted epoch g') = g'"
| "force g (Reduced g') = g'"
| "force g _ = g"

fun epoch_after :: "nat \<Rightarrow> moment \<Rightarrow> nat" where
  "epoch_after n (Conn e) = (if e = Boundary then Suc n else n)"
| "epoch_after n _ = n"

abbreviation in_force_after :: "moment list \<Rightarrow> capability_grant" where
  "in_force_after hist \<equiv> foldl force empty_grant hist"

abbreviation transport_after :: "moment list \<Rightarrow> nat" where
  "transport_after hist \<equiv> foldl epoch_after 0 hist"

definition was_asked :: "moment list \<Rightarrow> nat \<Rightarrow> capability_grant \<Rightarrow> bool" where
  "was_asked hist epoch g \<longleftrightarrow> (\<exists>caps update. Asked epoch caps g update \<in> set hist)"

text \<open>Capabilities a manifest had once its shorthand was expanded and the host's mask applied.\<close>

definition sent_by_server :: "server_config \<Rightarrow> jsobject \<Rightarrow> bool" where
  "sent_by_server cfg caps \<longleftrightarrow> (\<exists>raw. fst (negotiated_capabilities cfg raw) = Some caps)"

fun lawful_moment :: "server_config \<Rightarrow> moment list \<Rightarrow> moment \<Rightarrow> bool" where
  "lawful_moment cfg pre (Conn e) \<longleftrightarrow>
     (case e of Delivered i \<Rightarrow> permitted (in_force_after pre) i | Granted g \<Rightarrow> False | _ \<Rightarrow> True)"
| "lawful_moment cfg pre (Accepted epoch g) \<longleftrightarrow> epoch = transport_after pre \<and> was_asked pre epoch g"
| "lawful_moment cfg pre (Reduced g) \<longleftrightarrow> set (granted g) \<subseteq> set (granted (in_force_after pre))"
| "lawful_moment cfg pre (Asked epoch caps g update) \<longleftrightarrow> sent_by_server cfg caps \<and> (\<exists>tools. g = grant_for cfg tools (Some caps))"
| "lawful_moment cfg pre _ \<longleftrightarrow> True"

fun lawful :: "server_config \<Rightarrow> moment list \<Rightarrow> moment list \<Rightarrow> bool" where
  "lawful cfg pre [] \<longleftrightarrow> True"
| "lawful cfg pre (m # ms) \<longleftrightarrow> lawful_moment cfg pre m \<and> lawful cfg (pre @ [m]) ms"

lemma lawful_append [simp]: "lawful cfg pre (ms @ ns) \<longleftrightarrow> lawful cfg pre ms \<and> lawful cfg (pre @ ms) ns"
  by (induction ms arbitrary: pre) auto

lemma lawful_split: "lawful cfg pre (ms @ m # ns) \<Longrightarrow> lawful_moment cfg (pre @ ms) m"
  by simp

lemma was_asked_append [simp]: "was_asked (xs @ ys) e g \<longleftrightarrow> was_asked xs e g \<or> was_asked ys e g"
  by (auto simp: was_asked_def)

lemma was_asked_Nil [simp]: "\<not> was_asked [] e g"
  by (simp add: was_asked_def)

text \<open>Moments that neither grant nor take away.\<close>

fun quiet :: "server_config \<Rightarrow> moment \<Rightarrow> bool" where
  "quiet cfg (Conn e) \<longleftrightarrow> False"
| "quiet cfg (Accepted epoch g) \<longleftrightarrow> False"
| "quiet cfg (Reduced g) \<longleftrightarrow> False"
| "quiet cfg (Asked epoch caps g update) \<longleftrightarrow> sent_by_server cfg caps \<and> (\<exists>tools. g = grant_for cfg tools (Some caps))"
| "quiet cfg _ \<longleftrightarrow> True"

lemma quiet_lawful: "list_all (quiet cfg) ms \<Longrightarrow> lawful cfg pre ms"
proof (induction ms arbitrary: pre)
  case (Cons m ms)
  then show ?case by (cases m) auto
qed simp

lemma quiet_force: "list_all (quiet cfg) ms \<Longrightarrow> foldl force g ms = g \<and> foldl epoch_after n ms = n"
proof (induction ms)
  case (Cons m ms)
  then show ?case by (cases m) auto
qed simp

lemma quiet_maps [simp]: "list_all (quiet cfg) (map Set_Disabled traces)"
  by (simp add: list_all_iff)

lemma quiet_stateful [simp]: "list_all (quiet cfg) (stateful_sets cfg x)"
  by (auto simp: stateful_sets_def list_all_iff Let_def)

subsection \<open>The invariant\<close>

definition asked_ok :: "server_config \<Rightarrow> exchange \<Rightarrow> moment list \<Rightarrow> bool" where
  "asked_ok cfg x hist \<longleftrightarrow> list_all (\<lambda>(epoch, g). was_asked hist epoch g) (ex_asked x) \<and>
     (case ex_phase x of Telling t \<Rightarrow> was_asked hist (tl_epoch t) (tl_grant t) \<and> sent_by_server cfg (tl_masked t) | _ \<Rightarrow> True) \<and>
     (case ex_capabilities x of Some caps \<Rightarrow> sent_by_server cfg caps | None \<Rightarrow> True)"

definition governed :: "server_config \<Rightarrow> exchange \<Rightarrow> moment list \<Rightarrow> bool" where
  "governed cfg x hist \<longleftrightarrow> sound (ex_marker x) (ex_conn x) \<and> lawful cfg [] hist \<and>
     in_force_after hist = cn_grant (ex_conn x) \<and> transport_after hist = cn_epoch (ex_conn x) \<and> asked_ok cfg x hist"

lemma asked_ok_append: "asked_ok cfg x hist \<Longrightarrow> asked_ok cfg x (hist @ out)"
  by (auto simp: asked_ok_def list_all_iff split: phase.splits)

lemma governed_quiet:
  assumes "governed cfg x hist" "list_all (quiet cfg) out"
    and "cn_grant (ex_conn y) = cn_grant (ex_conn x)" "cn_epoch (ex_conn y) = cn_epoch (ex_conn x)"
    and "sound (ex_marker y) (ex_conn y)" "asked_ok cfg y (hist @ out)"
  shows "governed cfg y (hist @ out)"
  using assms quiet_lawful [OF assms(2)] quiet_force [OF assms(2)] by (simp add: governed_def)

lemma sound_None: "sound marker c \<Longrightarrow> sound None c"
  by (simp add: sound_def closed_until_def)

text \<open>Effects of the connection, with what the framework's listeners add in between.\<close>

definition interleaved :: "server_config \<Rightarrow> effect list \<Rightarrow> moment list \<Rightarrow> bool" where
  "interleaved cfg es ms \<longleftrightarrow> (\<exists>outs. length outs = length es \<and> list_all (list_all (quiet cfg)) outs \<and>
     ms = concat (map (\<lambda>(e, out). Conn e # out) (zip es outs)))"

lemma interleaved_Nil [simp]: "interleaved cfg [] ms \<longleftrightarrow> ms = []"
  by (auto simp: interleaved_def)

lemma interleaved_Cons: "list_all (quiet cfg) out \<Longrightarrow> interleaved cfg es ms \<Longrightarrow> interleaved cfg (e # es) (Conn e # out @ ms)"
proof -
  assume q: "list_all (quiet cfg) out" and "interleaved cfg es ms"
  then obtain outs where "length outs = length es" "list_all (list_all (quiet cfg)) outs"
    "ms = concat (map (\<lambda>(e, out). Conn e # out) (zip es outs))"
    unfolding interleaved_def by blast
  then show ?thesis
    unfolding interleaved_def using q by (intro exI [of _ "out # outs"]) simp
qed

lemma interleaved_ConsE:
  assumes "interleaved cfg (e # es) ms"
  obtains out ns where "list_all (quiet cfg) out" "interleaved cfg es ns" "ms = Conn e # out @ ns"
proof -
  obtain outs where o: "length outs = Suc (length es)" "list_all (list_all (quiet cfg)) outs"
    "ms = concat (map (\<lambda>(e, out). Conn e # out) (zip (e # es) outs))"
    using assms unfolding interleaved_def by auto
  then obtain out rest where "outs = out # rest" by (cases outs) auto
  then show ?thesis
    using o by (intro that [of out "concat (map (\<lambda>(e, out). Conn e # out) (zip es rest))"])
      (auto simp: interleaved_def)
qed

lemma interleaved_lawful:
  assumes "interleaved cfg es ms" "authorized (in_force_after pre) es" "stamped marker epoch es"
  shows "lawful cfg pre ms \<and> foldl force (in_force_after pre) ms = foldl in_force (in_force_after pre) es \<and>
    foldl epoch_after n ms = n + boundaries es"
  using assms
proof (induction es arbitrary: ms pre epoch n)
  case (Cons e es)
  obtain out ns where o: "list_all (quiet cfg) out" "interleaved cfg es ns" "ms = Conn e # out @ ns"
    by (rule interleaved_ConsE [OF Cons.prems(1)])
  have pre: "in_force_after (pre @ Conn e # out) = in_force (in_force_after pre) e"
    using quiet_force [OF o(1)] by simp
  have "authorized (in_force_after (pre @ Conn e # out)) es" "stamped marker (if e = Boundary then Suc epoch else epoch) es"
    using Cons.prems(2,3) unfolding pre by auto
  note IH = Cons.IH [OF o(2) this]
  have "lawful_moment cfg pre (Conn e)"
    using Cons.prems(2,3) by (auto split: effect.splits)
  then show ?case
    using IH quiet_lawful [OF o(1)] quiet_force [OF o(1)] unfolding o(3) by (auto simp: Nat.add_Suc_right)
qed simp

lemma do_call_obeys: "do_call h call c = (c', out) \<Longrightarrow> obeys (cn_grant c) out (cn_grant c')"
  using authority.call_holds [where g = "cn_grant c" and hist = "[]" and c = c and x = call and h = h and d = c' and es = out] by simp

text \<open>One listener.\<close>

lemma settle_frame:
  assumes "settlePolicyExchange cfg False epoch x = (y, out)" "asked_ok cfg x hist"
  shows "ex_conn y = ex_conn x" "list_all (quiet cfg) out" "ex_marker y = Some epoch \<or> ex_marker y = None"
    "asked_ok cfg y (hist @ out)" "ex_phase y = ex_phase x"
proof -
  have "ex_conn y = ex_conn x \<and> list_all (quiet cfg) out \<and> (ex_marker y = Some epoch \<or> ex_marker y = None) \<and>
      asked_ok cfg y (hist @ out) \<and> ex_phase y = ex_phase x"
  proof (cases "ex_capabilities x")
    case None
    then show ?thesis
      using assms by (auto simp: settlePolicyExchange_def registerMcplServerFeatures_def lift_marker_def asked_ok_def)
  next
    case (Some caps)
    let ?raw = "featureSetsRaw (sc_number cfg) caps"
    show ?thesis
    proof (cases "derivation_throws ?raw")
      case True
      then show ?thesis
        using assms Some asked_ok_append [OF assms(2)]
        by (auto simp: settlePolicyExchange_def registerMcplServerFeatures_def lift_marker_def asked_ok_def Let_def
            split: phase.splits)
    next
      case False
      let ?grant = "grant_for cfg (ex_mcpToolsAdvertised x) (Some caps)"
      obtain sets update traces where i: "initializeServer (ex_sets x) (sc_id cfg) ?raw (sc_sets cfg) (Some ?grant) = (sets, update, traces)"
        by (metis prod_cases3)
      have y: "y = x\<lparr>ex_marker := Some epoch, ex_sets := sets, ex_asked := ex_asked x @ [(epoch, ?grant)]\<rparr>"
        "out = map Set_Disabled traces @ [Asked epoch caps ?grant update]"
        using assms Some False i
        by (simp_all add: settlePolicyExchange_def registerMcplServerFeatures_def Let_def)
      have "was_asked (hist @ out) epoch ?grant" by (auto simp: y was_asked_def)
      then show ?thesis
        using asked_ok_append [OF assms(2), of out] Some by (auto simp: y asked_ok_def simp del: was_asked_append)
    qed
  qed
  then show "ex_conn y = ex_conn x" "list_all (quiet cfg) out" "ex_marker y = Some epoch \<or> ex_marker y = None"
    "asked_ok cfg y (hist @ out)" "ex_phase y = ex_phase x" by simp_all
qed

lemma handle_frame:
  assumes "handleManifestChanged announce epoch now x = (y, out)"
  shows "ex_conn y = ex_conn x" "list_all (quiet cfg) out" "ex_marker y = ex_marker x" "ex_asked y = ex_asked x"
    "ex_phase y = ex_phase x \<or> ex_phase x = Idle \<and> (\<exists>ds. ex_phase y = Fetching epoch ds)" "ex_sets y = ex_sets x"
    "ex_capabilities y = ex_capabilities x"
  using assms by (auto simp: handleManifestChanged_def in_flight_def Let_def split: if_splits)

lemma handle_asked: "handleManifestChanged announce epoch now x = (y, out) \<Longrightarrow> asked_ok cfg x hist \<Longrightarrow> asked_ok cfg y (hist @ out)"
  using handle_frame(4,5,7) [of announce epoch now x y out] asked_ok_append [of cfg x hist out]
  by (auto simp: asked_ok_def split: phase.splits)

lemma listen_frame:
  assumes "listen cfg now e x = (y, out)" "stamped marker epoch [e]" "ex_marker x = marker \<or> ex_marker x = None"
    and "asked_ok cfg x hist"
  shows "ex_conn y = ex_conn x" "list_all (quiet cfg) out" "ex_marker y = marker \<or> ex_marker y = None"
    "asked_ok cfg y (hist @ out)"
proof -
  have "ex_conn y = ex_conn x \<and> list_all (quiet cfg) out \<and> (ex_marker y = marker \<or> ex_marker y = None) \<and>
      asked_ok cfg y (hist @ out)"
  proof (cases "\<exists>i. e = Delivered i \<and> hi_event i \<in> {Manifest_Changed, Closed_Event, Reconnect_Event}")
    case False
    then have "y = x \<and> out = []"
      using assms(1) by (auto simp: listen_def split: effect.splits event.splits)
    then show ?thesis using assms(3,4) by simp
  next
    case True
    then obtain i where i: "e = Delivered i" "hi_event i \<in> {Manifest_Changed, Closed_Event, Reconnect_Event}" by blast
    consider (manifest) "hi_event i = Manifest_Changed" | (shut) "hi_event i = Closed_Event" | (again) "hi_event i = Reconnect_Event"
      using i(2) by blast
    then show ?thesis
    proof cases
      case manifest
      obtain z later where z: "handleManifestChanged (hi_params i) (hi_epoch i) now x = (z, later)" by fastforce
      then have y: "y = z" "out = Announced (hi_epoch i) (announcedDomainsOf (hi_params i)) # later"
        using assms(1) i manifest by (simp_all add: listen_def and_then_def)
      show ?thesis
        using handle_frame [OF z] handle_asked [OF z, of cfg "hist @ [Announced (hi_epoch i) (announcedDomainsOf (hi_params i))]"]
          asked_ok_append [OF assms(4)] assms(3) y by auto
    next
      case shut
      then have "y = x\<lparr>ex_sets := removeServer (ex_sets x) (sc_id cfg)\<rparr>" "out = []"
        using assms(1) i by (simp_all add: listen_def)
      then show ?thesis using assms(3,4) by (auto simp: asked_ok_def)
    next
      case again
      then have s: "settlePolicyExchange cfg False (hi_epoch i) x = (y, out)"
        using assms(1) i by (simp add: listen_def)
      have "marker = Some (hi_epoch i)"
        using assms(2) i again by auto
      then show ?thesis
        using settle_frame [OF s assms(4)] by simp
    qed
  qed
  then show "ex_conn y = ex_conn x" "list_all (quiet cfg) out" "ex_marker y = marker \<or> ex_marker y = None"
    "asked_ok cfg y (hist @ out)" by simp_all
qed

lemma listen_all_frame:
  assumes "listen_all cfg now es x = (y, ms)" "stamped marker epoch es" "ex_marker x = marker \<or> ex_marker x = None"
    and "asked_ok cfg x hist"
  shows "ex_conn y = ex_conn x \<and> interleaved cfg es ms \<and> (ex_marker y = marker \<or> ex_marker y = None) \<and>
    asked_ok cfg y (hist @ ms)"
  using assms
proof (induction cfg now es x arbitrary: y ms epoch hist rule: listen_all.induct)
  case (2 cfg now e es x)
  obtain z out where l: "listen cfg now e x = (z, out)" by fastforce
  obtain y' later where ls: "listen_all cfg now es z = (y', later)" by fastforce
  have y: "y = y'" "ms = Conn e # out @ later"
    using "2.prems"(1) l ls by simp_all
  have "stamped marker epoch [e]" using "2.prems"(2) by simp
  note f = listen_frame [OF l this "2.prems"(3) asked_ok_append [OF "2.prems"(4), of "[Conn e]"]]
  have "stamped marker (if e = Boundary then Suc epoch else epoch) es" using "2.prems"(2) by simp
  from "2.IH" [OF l [symmetric] ls this f(3,4)]
  have IH: "ex_conn y' = ex_conn z" "interleaved cfg es later" "ex_marker y' = marker \<or> ex_marker y' = None"
      "asked_ok cfg y' (((hist @ [Conn e]) @ out) @ later)" by simp_all
  show ?case
    using IH(1,3,4) f(1) interleaved_Cons [OF f(2) IH(2)] y by simp
qed (auto simp: interleaved_def)

text \<open>A call on the connection, given what \<open>Exchange_Transport\<close> shows of it.\<close>

lemma governed_call:
  assumes "governed cfg x hist" "do_call h call (ex_conn x) = (c, out)" "keeps (ex_marker x) (ex_conn x) out c"
    and "listen_all cfg now out (x\<lparr>ex_conn := c\<rparr>) = (y, ms)"
  shows "governed cfg y (hist @ ms)"
proof -
  have k: "stamped (ex_marker x) (cn_epoch (ex_conn x)) out" "cn_epoch c = cn_epoch (ex_conn x) + boundaries out"
    "sound (ex_marker x) c"
    using assms(3) by (simp_all add: keeps_def)
  have g: "lawful cfg [] hist" "in_force_after hist = cn_grant (ex_conn x)" "transport_after hist = cn_epoch (ex_conn x)" "asked_ok cfg x hist"
    using assms(1) by (simp_all add: governed_def)
  have "asked_ok cfg (x\<lparr>ex_conn := c\<rparr>) hist" using g(4) by (simp add: asked_ok_def)
  from listen_all_frame [OF assms(4) k(1) _ this] have f: "ex_conn y = c" "interleaved cfg out ms"
    "ex_marker y = ex_marker x \<or> ex_marker y = None" "asked_ok cfg y (hist @ ms)"
    by simp_all
  have o: "authorized (in_force_after hist) out" "foldl in_force (in_force_after hist) out = cn_grant c"
    using do_call_obeys [OF assms(2)] g(2) by (simp_all add: obeys_def)
  have "sound (ex_marker y) (ex_conn y)"
    using k(3) sound_None [of "ex_marker x" c] f(1,3) by metis
  then show ?thesis
    using interleaved_lawful [OF f(2) o(1) k(1), of "transport_after hist"] o(2) f(1,4) g k(2)
    by (simp add: governed_def)
qed

subsection \<open>Every step keeps it\<close>

lemma establishGrant_simps [simp]: "cn_grant (establishGrant g c) = g"
  by (simp add: establishGrant_def Let_def)

lemma sound_establish [simp]: "sound marker (establishGrant g c) \<longleftrightarrow> sound marker c"
  by (simp add: sound_def closed_until_def)

lemma activate_simps [simp]:
  "cn_grant (ex_conn (activate g x)) = g" "cn_epoch (ex_conn (activate g x)) = cn_epoch (ex_conn x)"
  "sound marker (ex_conn (activate g x)) \<longleftrightarrow> sound marker (ex_conn x)" "ex_marker (activate g x) = ex_marker x"
  "ex_asked (activate g x) = ex_asked x" "ex_phase (activate g x) = ex_phase x" "ex_sets (activate g x) = ex_sets x"
  "ex_refresh (activate g x) = ex_refresh x" "ex_timers (activate g x) = ex_timers x" "asked_ok cfg (activate g x) = asked_ok cfg x"
  by (simp_all add: activate_def asked_ok_def fun_eq_iff)

lemma governed_accept:
  assumes "governed cfg x hist" "epoch = cn_epoch (ex_conn x)" "was_asked hist epoch g"
  shows "governed cfg (activate g x) (hist @ [Accepted epoch g])"
  using assms asked_ok_append [of cfg x hist] by (simp add: governed_def)

lemma governed_reduce:
  assumes "governed cfg x hist" "set (granted g) \<subseteq> set (granted (cn_grant (ex_conn x)))"
  shows "governed cfg (activate g x) (hist @ [Reduced g])"
  using assms asked_ok_append [of cfg x hist] by (simp add: governed_def)

lemma governed_log:
  assumes "governed cfg x hist" "list_all (quiet cfg) out"
  shows "governed cfg x (hist @ out)"
  using governed_quiet [OF assms] assms(1) asked_ok_append by (simp add: governed_def)

lemma governed_lift: "governed cfg x hist \<Longrightarrow> governed cfg (lift_marker epoch x) hist"
  using sound_None [of "ex_marker x" "ex_conn x"] by (simp add: governed_def lift_marker_def asked_ok_def)

lemma governed_then:
  assumes "and_then r f = (z, out)" "governed cfg (fst r) (hist @ snd r)"
    and "\<And>y ms. f (fst r) = (y, ms) \<Longrightarrow> governed cfg y (hist @ snd r @ ms)"
  shows "governed cfg z (hist @ out)"
  using assms by (auto simp: and_then_def split: prod.splits)

lemma conn_moments:
  assumes "authorized (in_force_after pre) es" "stamped marker epoch es"
  shows "lawful cfg pre (map Conn es) \<and> foldl force (in_force_after pre) (map Conn es) = foldl in_force (in_force_after pre) es \<and>
    foldl epoch_after n (map Conn es) = n + boundaries es"
proof -
  have "interleaved cfg es (map Conn es)"
  proof (induction es)
    case (Cons e es)
    then show ?case using interleaved_Cons [of cfg "[]" es "map Conn es" e] by simp
  qed simp
  from interleaved_lawful [OF this assms] show ?thesis .
qed

lemma governed_close:
  assumes "closeMcplServerForGood x = (y, out)" "governed cfg x hist"
  shows "governed cfg y (hist @ out)"
proof -
  obtain c es where c: "close (ex_conn x) = (c, es)" by fastforce
  then have y: "y = x\<lparr>ex_conn := c\<rparr>" "out = map Conn es"
    using assms(1) by (simp_all add: closeMcplServerForGood_def)
  let ?h = "\<lparr>ho_listens = (\<lambda>_. False), ho_react = (\<lambda>i c. []), ho_number = (\<lambda>_. [])\<rparr>"
  have op: "do_op ?h Close_Host (ex_conn x) = (c, [], es)"
    using c by (simp add: do_op_def)
  have g: "sound (ex_marker x) (ex_conn x)" "in_force_after hist = cn_grant (ex_conn x)"
    using assms(2) by (simp_all add: governed_def)
  have k: "stamped (ex_marker x) (cn_epoch (ex_conn x)) es" "cn_epoch c = cn_epoch (ex_conn x) + boundaries es" "sound (ex_marker x) c"
    using keeps_do_op [OF op g(1)] by (simp_all add: keeps_def op_ok_def)
  have o: "authorized (in_force_after hist) es" "foldl in_force (in_force_after hist) es = cn_grant c"
    using obeys_do_op [OF op] g(2) by (simp_all add: obeys_def)
  show ?thesis
    using conn_moments [OF o(1) k(1), of cfg "transport_after hist"] k o(2) assms(2) asked_ok_append [of cfg x hist out]
    by (auto simp: governed_def y asked_ok_def)
qed

lemma governed_run_call:
  assumes "run_call cfg h call now x = (y, ms)" "governed cfg x hist"
    and "\<And>c out. do_call (framed h (ex_marker x)) call (ex_conn x) = (c, out) \<Longrightarrow> keeps (ex_marker x) (ex_conn x) out c"
  shows "governed cfg y (hist @ ms)"
proof -
  obtain c out where d: "do_call (framed h (ex_marker x)) call (ex_conn x) = (c, out)" by fastforce
  then show ?thesis
    using governed_call [OF assms(2) d assms(3) [OF d], of now y ms] assms(1) by (simp add: run_call_def)
qed

lemma finish_frame:
  assumes "finish_refresh now x = (y, out)"
  shows "ex_conn y = ex_conn x" "ex_marker y = ex_marker x" "ex_asked y = ex_asked x" "ex_phase y = Idle" "out = [Completed now]"
    "ex_sets y = ex_sets x" "ex_capabilities y = ex_capabilities x"
  using assms by (auto simp: finish_refresh_def Let_def split: if_splits prod.splits)

lemma governed_finish:
  assumes "finish_refresh now x = (y, out)" "governed cfg x hist"
  shows "governed cfg y (hist @ out)"
  by (rule governed_quiet [OF assms(2)])
    (use finish_frame [OF assms(1)] assms(2) asked_ok_append [of cfg x hist] in \<open>auto simp: governed_def asked_ok_def\<close>)

lemma governed_adopt:
  assumes "adopt_manifest cfg t negotiated now x = (y, out)" "governed cfg x hist" "sent_by_server cfg (tl_masked t)"
  shows "governed cfg y (hist @ out)"
proof -
  obtain m where c: "ex_conn y = ex_conn x\<lparr>cn_manifest := m\<rparr>" and r: "ex_marker y = ex_marker x" "ex_asked y = ex_asked x"
    "ex_phase y = ex_phase x" "ex_capabilities y = Some (tl_masked t)" and q: "list_all (quiet cfg) out"
    using assms(1) by (auto simp: adopt_manifest_def Let_def)
  have "sound (ex_marker y) (ex_conn y) = sound (ex_marker x) (ex_conn x)"
    by (simp add: c r sound_def closed_until_def)
  then show ?thesis
    using governed_quiet [OF assms(2) q, of y] assms(2,3) asked_ok_append [of cfg x hist out] c r
    by (simp add: governed_def asked_ok_def)
qed

lemma derive_for_frame:
  assumes "derive_for cfg masked g x = (y, out)"
  shows "\<exists>sets traces. y = x\<lparr>ex_sets := sets\<rparr> \<and> out = map Set_Disabled traces"
  using assms by (auto simp: derive_for_def split: prod.splits)

lemma governed_derive:
  assumes "derive_for cfg masked g x = (y, out)" "governed cfg x hist"
  shows "governed cfg y (hist @ out)"
  using derive_for_frame [OF assms(1)] governed_quiet [OF assms(2), of out y] assms(2) asked_ok_append [of cfg x hist out]
  by (auto simp: governed_def asked_ok_def)

lemma governed_asked_phase:
  "governed cfg x hist \<Longrightarrow> ex_phase x = Telling t \<Longrightarrow> was_asked hist (tl_epoch t) (tl_grant t) \<and> sent_by_server cfg (tl_masked t)"
  by (simp add: governed_def asked_ok_def)

lemma effectiveList_set [simp]: "set (effectiveList g) = set (granted g)"
  by (simp add: effectiveList_def)

lemma governed_reduce_first:
  assumes "reduce_first newGrant x = (y, out)" "governed cfg x hist"
  shows "governed cfg y (hist @ out)"
proof (cases "length (revoked_paths newGrant x) > 0")
  case True
  let ?interim = "\<lparr>granted = filter (\<lambda>p. p \<in> set (effectiveList (cn_grant (ex_conn x)))) (effectiveList newGrant),
     deniedPaths = deniedPaths newGrant\<rparr>"
  have "y = activate ?interim x" "out = [Reduced ?interim]"
    using assms(1) True by (simp_all add: reduce_first_def Let_def)
  moreover have "set (granted ?interim) \<subseteq> set (granted (cn_grant (ex_conn x)))" by auto
  ultimately show ?thesis
    using governed_reduce [OF assms(2), of ?interim] by simp
next
  case False
  then show ?thesis using assms by (simp add: reduce_first_def Let_def)
qed

lemma governed_tell:
  assumes "tell_policy cfg t now x = (y, out)" "governed cfg x hist" "sent_by_server cfg (tl_masked t)"
    and "\<exists>tools. tl_grant t = grant_for cfg tools (Some (tl_masked t))"
  shows "governed cfg y (hist @ out)"
proof (cases "derivation_throws (featureSetsRaw (sc_number cfg) (tl_masked t))")
  case True
  then obtain ms where f: "finish_refresh now x = (y, ms)" "out = ms @ [Handler_Failed]"
    using assms(1) by (auto simp: tell_policy_def and_then_def split: prod.splits)
  show ?thesis using governed_log [OF governed_finish [OF f(1) assms(2)], of "[Handler_Failed]"] f(2) by simp
next
  case False
  obtain sets up traces where i: "initializeServer (ex_sets x) (sc_id cfg) (featureSetsRaw (sc_number cfg) (tl_masked t))
      (sc_sets cfg) (Some (cn_grant (ex_conn x))) = (sets, up, traces)"
    by (metis prod_cases3)
  obtain update where y: "y = x\<lparr>ex_sets := sets, ex_phase := Telling t\<rparr>"
    "out = map Set_Disabled traces @ [Asked (tl_epoch t) (tl_masked t) (tl_grant t) update]"
    using assms(1) False i by (auto simp: tell_policy_def Let_def)
  have "was_asked (hist @ out) (tl_epoch t) (tl_grant t)"
    by (auto simp: y was_asked_def)
  then have "asked_ok cfg y (hist @ out)"
    using asked_ok_append [of cfg x hist out] assms(2,3)
    by (auto simp: y governed_def asked_ok_def simp del: was_asked_append)
  then show ?thesis
    using governed_quiet [OF assms(2), of out y] assms(2-4) by (simp add: y governed_def)
qed

lemma negotiated_object:
  assumes "case fetched of JObj es \<Rightarrow> True | JArr vs \<Rightarrow> True | _ \<Rightarrow> False"
  shows "\<exists>m gone. negotiated_capabilities cfg fetched = (Some m, gone)"
  using assms
  by (auto simp: negotiated_capabilities_def manifest_object_def expandAdvertisementShorthand_def
      maskNegotiatedCapabilities_def Let_def split: jsval.splits)

lemma fetch_cases:
  assumes "fetch_answered cfg epoch domains answer now x = (y, out)"
  obtains (over) "finish_refresh now x = (y, out)"
    | (told) t where "cn_epoch (ex_conn x) = epoch" "tl_epoch t = epoch" "sent_by_server cfg (tl_masked t)"
        "\<exists>tools. tl_grant t = grant_for cfg tools (Some (tl_masked t))"
        "and_then (reduce_first (tl_grant t) x) (tell_policy cfg t now) = (y, out)"
proof (cases "\<exists>fetched. answer = Some fetched \<and> cn_epoch (ex_conn x) = epoch \<and> (case fetched of JObj es \<Rightarrow> True | JArr vs \<Rightarrow> True | _ \<Rightarrow> False)")
  case False
  then have "finish_refresh now x = (y, out)"
    using assms by (auto simp: fetch_answered_def split: option.splits jsval.splits if_splits)
  then show ?thesis by (rule over)
next
  case True
  then obtain fetched where f: "answer = Some fetched" "cn_epoch (ex_conn x) = epoch"
    "case fetched of JObj es \<Rightarrow> True | JArr vs \<Rightarrow> True | _ \<Rightarrow> False" by blast
  obtain m gone where n: "negotiated_capabilities cfg fetched = (Some m, gone)"
    using negotiated_object [OF f(3)] by blast
  let ?g = "grant_for cfg (ex_mcpToolsAdvertised x) (Some m)"
  let ?t = "\<lparr>tl_epoch = epoch, tl_domains = domains, tl_fetched = fetched, tl_masked = m, tl_dropped = gone,
     tl_grant = ?g, tl_revoked = revoked_paths ?g x, tl_added = added_paths ?g x, tl_oldEnabled = enabled_names cfg x\<rparr>"
  show ?thesis
  proof (rule told [of ?t])
    show "sent_by_server cfg (tl_masked ?t)" using n by (auto simp: sent_by_server_def intro!: exI [of _ fetched])
    show "and_then (reduce_first (tl_grant ?t) x) (tell_policy cfg ?t now) = (y, out)"
      using assms f n by (simp add: fetch_answered_def Let_def)
  qed (use f in auto)
qed

lemma governed_fetch:
  assumes "fetch_answered cfg epoch domains answer now x = (y, out)" "governed cfg x hist"
  shows "governed cfg y (hist @ out)"
  using assms(1)
proof (cases rule: fetch_cases)
  case over
  then show ?thesis using governed_finish assms(2) by blast
next
  case (told t)
  obtain z ms where r: "reduce_first (tl_grant t) x = (z, ms)" by fastforce
  have g: "governed cfg z (hist @ ms)" by (rule governed_reduce_first [OF r assms(2)])
  show ?thesis
    using told(5) unfolding r
  proof (rule governed_then)
    show "governed cfg (fst (z, ms)) (hist @ snd (z, ms))" using g by simp
    show "tell_policy cfg t now (fst (z, ms)) = (w, ns) \<Longrightarrow> governed cfg w (hist @ snd (z, ms) @ ns)" for w ns
      using governed_tell [of cfg t now z w ns "hist @ ms"] g told(3,4) by simp
  qed
qed

text \<open>A chain of steps each of which keeps the invariant.\<close>

lemma governed_andI:
  assumes "and_then (and_then r f) k = (z, out)" "\<And>y ms. and_then r f = (y, ms) \<Longrightarrow> governed cfg y (hist @ ms)"
    and "\<And>y ms w ns. governed cfg y (hist @ ms) \<Longrightarrow> k y = (w, ns) \<Longrightarrow> governed cfg w ((hist @ ms) @ ns)"
  shows "governed cfg z (hist @ out)"
proof -
  obtain y ms where r: "and_then r f = (y, ms)" by fastforce
  obtain w ns where k: "k y = (w, ns)" by fastforce
  have "z = w" "out = ms @ ns" using assms(1) r k by (simp_all add: and_then_def)
  then show ?thesis using assms(3) [OF assms(2) [OF r] k] by simp
qed

lemma governed_and1:
  assumes "and_then (y, ms) k = (z, out)" "governed cfg y (hist @ ms)"
    and "\<And>w ns. k y = (w, ns) \<Longrightarrow> governed cfg w ((hist @ ms) @ ns)"
  shows "governed cfg z (hist @ out)"
  using assms by (auto simp: and_then_def split: prod.splits)

lemma governed_policy:
  assumes "policy_answered cfg t answer now x = (y, out)" "governed cfg x hist" "ex_phase x = Telling t"
  shows "governed cfg y (hist @ out)"
proof -
  note asked = governed_asked_phase [OF assms(2,3)]
  have adopt: "\<And>x' negotiated y' ms hist. adopt_manifest cfg t negotiated now x' = (y', ms) \<Longrightarrow> governed cfg x' hist \<Longrightarrow> governed cfg y' (hist @ ms)"
    using governed_adopt asked by blast
  consider (late) "cn_epoch (ex_conn x) \<noteq> tl_epoch t" | (unanswered) "cn_epoch (ex_conn x) = tl_epoch t" "answer = None"
    | (shut) r where "cn_epoch (ex_conn x) = tl_epoch t" "answer = Some r" "refuses r" "closes r"
    | (refused) r where "cn_epoch (ex_conn x) = tl_epoch t" "answer = Some r" "refuses r" "\<not> closes r"
    | (accepted) r where "cn_epoch (ex_conn x) = tl_epoch t" "answer = Some r" "\<not> refuses r"
    by (cases answer) blast+
  then show ?thesis
  proof cases
    case late
    then show ?thesis using assms governed_finish by (simp add: policy_answered_def)
  next
    case unanswered
    then have a: "and_then (adopt_manifest cfg t False now x) (finish_refresh now) = (y, out)"
      using assms(1) by (simp add: policy_answered_def)
    obtain z ms where r: "adopt_manifest cfg t False now x = (z, ms)" by fastforce
    show ?thesis
      using a unfolding r
      by (rule governed_and1) (use adopt [OF r assms(2)] governed_finish in blast)+
  next
    case shut
    then have a: "and_then (and_then (x, [Refusal False True]) closeMcplServerForGood) (finish_refresh now) = (y, out)"
      using assms(1) by (simp add: policy_answered_def)
    have g: "governed cfg x (hist @ [Refusal False True])" using governed_log [OF assms(2)] by simp
    show ?thesis
    proof (rule governed_andI [OF a])
      fix z ms
      assume "and_then (x, [Refusal False True]) closeMcplServerForGood = (z, ms)"
      then show "governed cfg z (hist @ ms)"
        by (rule governed_and1) (use g governed_close in blast)+
    qed (use governed_finish in blast)
  next
    case refused
    then have a: "and_then (and_then (and_then (activate empty_grant x, [Refusal False False, Reduced empty_grant])
          (derive_for cfg (tl_masked t) empty_grant)) (adopt_manifest cfg t False now)) (finish_refresh now) = (y, out)"
      using assms(1) by (simp add: policy_answered_def)
    have g: "governed cfg (activate empty_grant x) (hist @ [Refusal False False, Reduced empty_grant])"
      using governed_reduce [OF governed_log [OF assms(2), of "[Refusal False False]"], of empty_grant]
      by (simp add: empty_grant_def)
    show ?thesis
    proof (rule governed_andI [OF a])
      fix z ms
      assume b: "and_then (and_then (activate empty_grant x, [Refusal False False, Reduced empty_grant])
          (derive_for cfg (tl_masked t) empty_grant)) (adopt_manifest cfg t False now) = (z, ms)"
      show "governed cfg z (hist @ ms)"
      proof (rule governed_andI [OF b])
        fix z ms
        assume "and_then (activate empty_grant x, [Refusal False False, Reduced empty_grant])
          (derive_for cfg (tl_masked t) empty_grant) = (z, ms)"
        then show "governed cfg z (hist @ ms)"
          by (rule governed_and1) (use g governed_derive in blast)+
      qed (use adopt in blast)
    qed (use governed_finish in blast)
  next
    case accepted
    then have a: "and_then (and_then (and_then (activate (tl_grant t) x, [Accepted (tl_epoch t) (tl_grant t)])
          (derive_for cfg (tl_masked t) (tl_grant t))) (adopt_manifest cfg t True now)) (finish_refresh now) = (y, out)"
      using assms(1) by (simp add: policy_answered_def)
    have g: "governed cfg (activate (tl_grant t) x) (hist @ [Accepted (tl_epoch t) (tl_grant t)])"
      using governed_accept [OF assms(2)] accepted(1) asked by simp
    show ?thesis
    proof (rule governed_andI [OF a])
      fix z ms
      assume b: "and_then (and_then (activate (tl_grant t) x, [Accepted (tl_epoch t) (tl_grant t)])
          (derive_for cfg (tl_masked t) (tl_grant t))) (adopt_manifest cfg t True now) = (z, ms)"
      show "governed cfg z (hist @ ms)"
      proof (rule governed_andI [OF b])
        fix z ms
        assume "and_then (activate (tl_grant t) x, [Accepted (tl_epoch t) (tl_grant t)])
          (derive_for cfg (tl_masked t) (tl_grant t)) = (z, ms)"
        then show "governed cfg z (hist @ ms)"
          by (rule governed_and1) (use g governed_derive in blast)+
      qed (use adopt in blast)
    qed (use governed_finish in blast)
  qed
qed

end
