(* ===== verification/Exchange_Consent.thy ===== *)
theory Exchange_Consent
  imports Exchange_Authority
begin

section \<open>No authority without the server's consent\<close>

lemma governed_conn:
  assumes "governed cfg x hist" "ex_conn y = ex_conn x" "ex_marker y = ex_marker x" "set (ex_asked y) \<subseteq> set (ex_asked x)"
    and "ex_phase y = ex_phase x" "ex_capabilities y = ex_capabilities x"
  shows "governed cfg y hist"
  using assms by (auto simp: governed_def asked_ok_def list_all_iff)

lemma drop_nth_subset: "set (drop_nth k xs) \<subseteq> set xs"
  using set_take_subset [of k xs] set_drop_subset [of "Suc k" xs] by (auto simp: drop_nth_def)

lemma governed_initial:
  assumes "initial_answered cfg (epoch, g) answer x = (y, out)" "governed cfg x hist" "was_asked hist epoch g"
  shows "governed cfg y (hist @ out)"
proof -
  consider (late) "cn_epoch (ex_conn x) \<noteq> epoch" | (unanswered) "cn_epoch (ex_conn x) = epoch" "answer = None"
    | (shut) r where "cn_epoch (ex_conn x) = epoch" "answer = Some r" "refuses r" "closes r"
    | (refused) r where "cn_epoch (ex_conn x) = epoch" "answer = Some r" "refuses r" "\<not> closes r"
    | (accepted) r where "cn_epoch (ex_conn x) = epoch" "answer = Some r" "\<not> refuses r"
    by (cases answer) blast+
  then show ?thesis
  proof cases
    case shut
    obtain z ms where c: "closeMcplServerForGood x = (z, ms)" by fastforce
    then have y: "y = lift_marker epoch z" "out = Refusal True True # ms"
      using assms(1) shut by (simp_all add: initial_answered_def)
    have "governed cfg x (hist @ [Refusal True True])" using governed_log [OF assms(2)] by simp
    from governed_lift [OF governed_close [OF c this]] show ?thesis by (simp add: y)
  next
    case accepted
    then have y: "y = lift_marker epoch (activate g x)" "out = Accepted epoch g # (if degraded_throws r then [] else stateful_sets cfg (activate g x))"
      using assms(1) by (simp_all add: initial_answered_def Let_def)
    have "governed cfg (activate g x) (hist @ [Accepted epoch g])"
      by (rule governed_accept [OF assms(2)]) (use accepted assms(3) in auto)
    from governed_lift [OF governed_log [OF this, of "if degraded_throws r then [] else stateful_sets cfg (activate g x)"]]
    show ?thesis by (simp add: y)
  next
    case refused
    then show ?thesis
      using assms governed_lift [OF governed_log [OF assms(2), of "[Refusal True False]"]] by (auto simp: initial_answered_def)
  qed (use assms governed_lift in \<open>auto simp: initial_answered_def\<close>)
qed

lemma governed_handle:
  assumes "handleManifestChanged announce epoch now x = (y, out)" "governed cfg x hist"
  shows "governed cfg y (hist @ out)"
  by (rule governed_quiet [OF assms(2)])
    (use handle_frame [OF assms(1)] handle_asked [OF assms(1)] assms(2) in \<open>auto simp: governed_def\<close>)

lemma governed_fire:
  assumes "fire tm now x = (y, out)" "governed cfg x hist"
  shows "governed cfg y (hist @ out)"
proof (cases tm)
  case Floor_Timer
  obtain ds st where t: "takeQueued (ex_refresh x\<lparr>rf_queued := False\<rparr>) = (ds, st)" by fastforce
  have "governed cfg (x\<lparr>ex_refresh := st\<rparr>) hist"
    by (rule governed_conn [OF assms(2)]) auto
  then show ?thesis
    using assms Floor_Timer t governed_handle
    by (auto simp: fire_def rerunManifestRefresh_def Let_def split: if_splits)
next
  case (After_Run queued ds)
  then show ?thesis
    using assms governed_handle by (auto simp: fire_def rerunManifestRefresh_def split: if_splits)
qed

lemma governed_handshake: "governed cfg x hist \<Longrightarrow> governed cfg (handshake cfg raw tools x) hist"
  by (auto simp: handshake_def governed_def asked_ok_def sent_by_server_def intro: exI [of _ raw] split: prod.split option.split)

lemma governed_marked:
  assumes "governed cfg x hist" "sound marker (ex_conn x)"
  shows "governed cfg (x\<lparr>ex_marker := marker\<rparr>) hist"
  using assms by (simp add: governed_def asked_ok_def)

text \<open>
  A reconnect marks its next transport before the adoption, so the marker is ahead of the
  connection as the call starts.
\<close>

lemma governed_reconnected:
  assumes "reconnected cfg h allow raw tools now x = (y, out)" "governed cfg x hist"
  shows "governed cfg y (hist @ out)"
proof (cases "\<not> cn_closed (ex_conn x) \<or> \<not> cn_reconnectEnabled (ex_conn x)")
  case True
  then show ?thesis using assms by (simp add: reconnected_def)
next
  case False
  let ?m = "Some (Suc (cn_epoch (ex_conn x)))"
  let ?x = "(handshake cfg raw tools x)\<lparr>ex_marker := ?m\<rparr>"
  have conn: "ex_conn (handshake cfg raw tools x) = ex_conn x"
    by (simp add: handshake_def split: prod.split)
  obtain c es where d: "do_call (framed h ?m) (Adopt allow) (ex_conn x) = (c, es)" by fastforce
  have l: "listen_all cfg now es (?x\<lparr>ex_conn := c\<rparr>) = (y, out)"
    using assms(1) False d by (simp add: reconnected_def run_call_def conn)
  have held: "list_all (timely (cn_epoch (ex_conn x))) (cn_held (ex_conn x))"
    using assms(2) by (simp add: governed_def sound_def)
  have k: "stamped ?m (cn_epoch (ex_conn x)) es" "cn_epoch c = cn_epoch (ex_conn x) + boundaries es" "sound ?m c"
    using adopted_keeps [OF d _ _ held] False by (simp_all add: keeps_def)
  have g: "lawful cfg [] hist" "in_force_after hist = cn_grant (ex_conn x)" "transport_after hist = cn_epoch (ex_conn x)"
    using assms(2) by (simp_all add: governed_def)
  have "asked_ok cfg (handshake cfg raw tools x) hist"
    using governed_handshake [OF assms(2)] by (simp add: governed_def)
  then have "asked_ok cfg (?x\<lparr>ex_conn := c\<rparr>) hist" by (simp add: asked_ok_def)
  from listen_all_frame [OF l k(1) _ this] have f: "ex_conn y = c" "interleaved cfg es out"
    "ex_marker y = ?m \<or> ex_marker y = None" "asked_ok cfg y (hist @ out)" by simp_all
  have o: "authorized (in_force_after hist) es" "foldl in_force (in_force_after hist) es = cn_grant c"
    using do_call_obeys [OF d] g(2) by (simp_all add: obeys_def)
  have "sound (ex_marker y) (ex_conn y)"
    using k(3) sound_None [of ?m c] f(1,3) by metis
  then show ?thesis
    using interleaved_lawful [OF f(2) o(1) k(1), of "transport_after hist"] o(2) f(1,4) g k(2)
    by (simp add: governed_def)
qed

lemma governed_xstep:
  assumes "xstep cfg h inp x = (y, out)" "governed cfg x hist"
  shows "governed cfg y (hist @ out)"
proof (cases inp)
  case (Outside call now)
  then show ?thesis
    using assms governed_run_call [of cfg h call now x y out hist] outside_keeps [of h "ex_marker x" call "ex_conn x"]
    by (auto simp: xstep_def governed_def split: if_splits)
next
  case (Open_Planes quiesced now)
  let ?op = "if quiesced then Ready_Control else Ready"
  show ?thesis
  proof (cases "mcplPlanesMayOpen (ex_marker x) (ex_conn x)")
    case True
    have "opens ?op" by simp
    then have "do_call (framed h (ex_marker x)) (Op ?op) (ex_conn x) = (c, es) \<Longrightarrow> keeps (ex_marker x) (ex_conn x) es c" for c es
      using open_keeps [of h "ex_marker x" ?op "ex_conn x" c es] True assms(2) by (simp add: governed_def)
    then show ?thesis
      using assms Open_Planes True governed_run_call [of cfg h "Op ?op" now x y out hist]
      by (simp add: xstep_def readyMcplPlanes_def)
  next
    case False
    then show ?thesis using assms Open_Planes by (simp add: xstep_def readyMcplPlanes_def)
  qed
next
  case (Reconnected allow raw tools now)
  then show ?thesis using assms governed_reconnected by (simp add: xstep_def)
next
  case (Initial_Answer k answer)
  show ?thesis
  proof (cases "k < length (ex_asked x)")
    case True
    obtain epoch g where a: "ex_asked x ! k = (epoch, g)" by fastforce
    have "governed cfg (x\<lparr>ex_asked := drop_nth k (ex_asked x)\<rparr>) hist"
      by (rule governed_conn [OF assms(2)]) (use drop_nth_subset [of k "ex_asked x"] in auto)
    moreover have "was_asked hist epoch g"
      using assms(2) nth_mem [OF True] a by (auto simp: governed_def asked_ok_def list_all_iff)
    ultimately show ?thesis
      using governed_initial assms(1) Initial_Answer True a by (simp add: xstep_def)
  next
    case False
    then show ?thesis using assms Initial_Answer by (simp add: xstep_def)
  qed
next
  case (Fetch_Answer answer now)
  then show ?thesis using assms governed_fetch by (auto simp: xstep_def split: phase.splits)
next
  case (Policy_Answer answer now)
  then show ?thesis using assms governed_policy by (auto simp: xstep_def split: phase.splits)
next
  case (Timer_Fires k now)
  have "governed cfg (x\<lparr>ex_timers := drop_nth k (ex_timers x)\<rparr>) hist"
    by (rule governed_conn [OF assms(2)]) auto
  then show ?thesis using assms Timer_Fires governed_fire by (auto simp: xstep_def split: if_splits)
qed

text \<open>Whole runs, for any invariant every step keeps.\<close>

lemma xsteps_keep:
  assumes "\<And>inp x y out hist. P x hist \<Longrightarrow> xstep cfg h inp x = (y, out) \<Longrightarrow> P y (hist @ out)"
  shows "P x hist \<Longrightarrow> xsteps cfg h inps x = (y, out) \<Longrightarrow> P y (hist @ out)"
proof (induction inps arbitrary: x hist out)
  case (Cons inp inps)
  obtain z ms where s: "xstep cfg h inp x = (z, ms)" by fastforce
  obtain later where r: "xsteps cfg h inps z = (y, later)" "out = ms @ later"
    using Cons.prems(2) s by (auto split: prod.splits)
  show ?case
    using Cons.IH [OF assms [OF Cons.prems(1) s] r(1)] r(2) by simp
qed simp

lemma exchange_run_keep:
  assumes "\<And>inp x y out hist. P x hist \<Longrightarrow> xstep cfg h inp x = (y, out) \<Longrightarrow> P y (hist @ out)"
    and "\<And>x hist. connectMcplServer cfg staged reconnect allow raw tools = (x, hist) \<Longrightarrow> P x hist"
    and "exchange_run cfg h staged reconnect allow raw tools inps = (y, hist)"
  shows "P y hist"
proof -
  obtain x ms where c: "connectMcplServer cfg staged reconnect allow raw tools = (x, ms)" by fastforce
  obtain out where r: "xsteps cfg h inps x = (y, out)" "hist = ms @ out"
    using assms(3) c by (auto simp: exchange_run_def and_then_def split: prod.splits)
  show ?thesis
    using xsteps_keep [of P cfg h, OF assms(1) assms(2) [OF c] r(1)] r(2) by simp
qed

lemma handed_back_simps [simp]:
  "ex_conn (handed_back cfg reconnect allow raw tools) = (if raw = JUndef then disconnected_stub reconnect else connected reconnect allow)"
  "ex_marker (handed_back cfg reconnect allow raw tools) = Some 0" "ex_asked (handed_back cfg reconnect allow raw tools) = []"
  "ex_phase (handed_back cfg reconnect allow raw tools) = Idle" "ex_timers (handed_back cfg reconnect allow raw tools) = []"
  "ex_sets (handed_back cfg reconnect allow raw tools) = []"
  "ex_refresh (handed_back cfg reconnect allow raw tools) =
     \<lparr>rf_queued = False, rf_lastCompletedAt = 0, rf_queuedEpoch = None, rf_queuedDomains = None\<rparr>"
  by (simp_all add: handed_back_def handshake_def split: prod.split)

lemma governed_handed_back: "governed cfg (handed_back cfg reconnect allow raw tools) []"
  unfolding handed_back_def
  by (rule governed_handshake)
    (simp add: governed_def asked_ok_def sound_def closed_until_def disconnected_stub_def connected_def)

lemma governed_connect:
  assumes "connectMcplServer cfg staged reconnect allow raw tools = (x, hist)"
  shows "governed cfg x hist"
proof -
  let ?x = "handed_back cfg reconnect allow raw tools"
  have g: "governed cfg ?x []" by (rule governed_handed_back)
  have s: "settlePolicyExchange cfg (\<not> staged) 0 ?x = (x, hist)"
    using assms by (simp add: connectMcplServer_def)
  have ex: "?x\<lparr>ex_marker := Some 0\<rparr> = ?x" by simp
  consider (throws) caps where "ex_capabilities ?x = Some caps" "\<not> staged" "derivation_throws (featureSetsRaw (sc_number cfg) caps)"
    | (same) "settlePolicyExchange cfg False 0 ?x = (x, hist)"
    using s by (auto simp: settlePolicyExchange_def registerMcplServerFeatures_def Let_def split: option.splits if_splits)
  then show ?thesis
  proof cases
    case throws
    obtain z ms where c: "closeMcplServerForGood ?x = (z, ms)" by fastforce
    then have "x = lift_marker 0 z" "hist = ms @ [Handler_Failed]"
      using s throws ex by (simp_all add: settlePolicyExchange_def registerMcplServerFeatures_def Let_def)
    then show ?thesis
      using governed_lift [OF governed_log [OF governed_close [OF c g], of "[Handler_Failed]"]] by simp
  next
    case same
    have "asked_ok cfg ?x []" using g by (simp add: governed_def)
    note f = settle_frame [OF same this]
    have "sound (ex_marker x) (ex_conn x)"
      using f(1,3) g sound_None [of "Some 0" "ex_conn ?x"] by (auto simp: governed_def)
    then show ?thesis
      using governed_quiet [OF g f(2), of x] f(1,4) by simp
  qed
qed

lemma governed_run:
  assumes "exchange_run cfg h staged reconnect allow raw tools inps = (x, hist)"
  shows "governed cfg x hist"
  by (rule exchange_run_keep [of "governed cfg", OF governed_xstep governed_connect assms])

subsection \<open>What the history shows\<close>

text \<open>
  A path in force was in a policy the server accepted on this transport, computed from a
  manifest it sent and the host's configuration, and in every reduction since.
\<close>

definition consented :: "server_config \<Rightarrow> moment list \<Rightarrow> jsstring \<Rightarrow> bool" where
  "consented cfg hist p \<longleftrightarrow>
     (\<exists>pre epoch g post raw tools caps update.
        hist = pre @ Accepted epoch g # post \<and> Conn Boundary \<notin> set post \<and>
        Asked epoch caps g update \<in> set pre \<and>
        g = negotiatedGrant (manifest_object (sc_number cfg) raw) (sc_mask cfg) (sc_toolLifecycle cfg) tools \<and>
        grant_has g p \<and> list_all (\<lambda>m. case m of Reduced g' \<Rightarrow> grant_has g' p | _ \<Rightarrow> True) post)"

lemma negotiated_grant_for:
  "fst (negotiated_capabilities cfg raw) = Some caps \<Longrightarrow>
     grant_for cfg tools (Some caps) = negotiatedGrant (manifest_object (sc_number cfg) raw) (sc_mask cfg) (sc_toolLifecycle cfg) tools"
  by (simp add: grant_for_def negotiatedGrant_def negotiated_capabilities_def)

lemma asked_lawful:
  assumes "lawful cfg [] hist" "Asked epoch caps g update \<in> set hist"
  shows "\<exists>raw tools. g = negotiatedGrant (manifest_object (sc_number cfg) raw) (sc_mask cfg) (sc_toolLifecycle cfg) tools"
proof -
  obtain ms ns where "hist = ms @ Asked epoch caps g update # ns"
    using split_list [OF assms(2)] by blast
  then have "sent_by_server cfg caps \<and> (\<exists>tools. g = grant_for cfg tools (Some caps))"
    using lawful_split [of cfg "[]" ms "Asked epoch caps g update" ns] assms(1) by simp
  then show ?thesis
    using negotiated_grant_for unfolding sent_by_server_def by blast
qed

lemma in_force_consented: "lawful cfg [] hist \<Longrightarrow> grant_has (in_force_after hist) p \<Longrightarrow> consented cfg hist p"
proof (induction hist rule: rev_induct)
  case Nil
  then show ?case by (simp add: empty_grant_def grant_has_def)
next
  case (snoc m hist)
  have l: "lawful cfg [] hist" "lawful_moment cfg hist m" using snoc.prems(1) by simp_all
  have step: "consented cfg (hist @ [m]) p"
    if h: "consented cfg hist p" "m \<noteq> Conn Boundary" "\<And>g. m = Reduced g \<Longrightarrow> grant_has g p"
  proof -
    obtain pre epoch g post raw tools caps update where c: "hist = pre @ Accepted epoch g # post" "Conn Boundary \<notin> set post"
      "Asked epoch caps g update \<in> set pre"
      "g = negotiatedGrant (manifest_object (sc_number cfg) raw) (sc_mask cfg) (sc_toolLifecycle cfg) tools" "grant_has g p"
      "list_all (\<lambda>m. case m of Reduced g' \<Rightarrow> grant_has g' p | _ \<Rightarrow> True) post"
      using h(1) unfolding consented_def by blast
    moreover have "list_all (\<lambda>m. case m of Reduced g' \<Rightarrow> grant_has g' p | _ \<Rightarrow> True) (post @ [m])"
      using c(6) h(3) by (auto split: moment.split)
    moreover have "Conn Boundary \<notin> set (post @ [m])" using c(2) h(2) by auto
    moreover have "hist @ [m] = pre @ Accepted epoch g # (post @ [m])" using c(1) by simp
    ultimately show ?thesis unfolding consented_def by blast
  qed
  show ?case
  proof (cases m)
    case (Accepted epoch g)
    obtain caps update where a: "Asked epoch caps g update \<in> set hist"
      using l(2) Accepted by (auto simp: was_asked_def)
    obtain raw tools where "g = negotiatedGrant (manifest_object (sc_number cfg) raw) (sc_mask cfg) (sc_toolLifecycle cfg) tools"
      using asked_lawful [OF l(1) a] by blast
    moreover have "grant_has g p" using snoc.prems(2) Accepted by simp
    moreover have "hist @ [m] = hist @ Accepted epoch g # []" using Accepted by simp
    ultimately show ?thesis using a unfolding consented_def by fastforce
  next
    case (Reduced g)
    then have "grant_has g p" "grant_has (in_force_after hist) p"
      using snoc.prems(2) l(2) by (auto simp: grant_has_def)
    then show ?thesis using step snoc.IH [OF l(1)] Reduced by blast
  next
    case (Conn e)
    have "e \<noteq> Boundary" using snoc.prems(2) Conn by (auto simp: empty_grant_def grant_has_def)
    moreover have "\<not> (\<exists>g. e = Granted g)" using l(2) Conn by auto
    ultimately have "grant_has (in_force_after hist) p"
      using snoc.prems(2) Conn by (cases e) auto
    then show ?thesis using step snoc.IH [OF l(1)] Conn \<open>e \<noteq> Boundary\<close> by blast
  qed (use snoc.prems(2) step snoc.IH [OF l(1)] in auto)
qed


text \<open>
  A server that advertises push events and one feature set over them, whose policy is
  accepted, and a push event read once its planes are open.
\<close>

definition sample_config :: server_config where
  "sample_config = \<lparr>sc_id = js ''s'', sc_mask = \<lparr>enabledCapabilities = None, disabledCapabilities = None\<rparr>,
     sc_toolLifecycle = JUndef, sc_sets = \<lparr>enabledFeatureSets = None, disabledFeatureSets = None\<rparr>,
     sc_hints = False, sc_number = \<lambda>n. js ''0''\<rparr>"

definition quiet_host :: host where
  "quiet_host = \<lparr>ho_listens = \<lambda>_. True, ho_react = \<lambda>i c. [], ho_number = \<lambda>n. js ''0''\<rparr>"

definition sample_manifest :: jsval where
  "sample_manifest = JObj [(js ''pushEvents'', JTrue),
     (js ''featureSets'', JObj [(js ''f'', JObj [(js ''uses'', JArr [JStr (js ''pushEvents'')])])])]"

definition sample_push :: held_item where
  "sample_push = \<lparr>hi_event = Push_Event, hi_params = JNull, hi_request = None, hi_epoch = 0, hi_kept = False\<rparr>"

definition sample_inputs :: "xinput list" where
  "sample_inputs = [Initial_Answer 0 (Some (JObj [(js ''accepted'', JTrue)])), Open_Planes False 1,
     Outside (Read 0 (Message (js ''push/event'') JNull None)) 2]"

definition sample_run :: "exchange \<times> moment list" where
  "sample_run = exchange_run sample_config quiet_host True False False sample_manifest False sample_inputs"

lemma sample_delivery: "last (snd sample_run) = Conn (Delivered sample_push) \<and> snd sample_run \<noteq> []"
  by code_simp

lemma push_capability: "EVENT_TO_REQUIRED_CAPABILITY (hi_event sample_push) = Some (js ''pushEvents'')"
  by (simp add: EVENT_TO_REQUIRED_CAPABILITY_def sample_push_def)


end
