(* ===== verification/Exchange_Refresh.thy ===== *)
theory Exchange_Refresh
  imports Exchange_Consent
begin

section \<open>Refreshes keep their distance, and no announcement is lost\<close>

fun running :: "bool \<Rightarrow> moment \<Rightarrow> bool" where
  "running r (Fetch epoch ds now) = True"
| "running r (Completed now) = False"
| "running r _ = r"

fun completed_at :: "nat \<Rightarrow> moment \<Rightarrow> nat" where
  "completed_at n (Completed now) = now"
| "completed_at n _ = n"

fun paced :: "bool \<Rightarrow> nat \<Rightarrow> moment list \<Rightarrow> bool" where
  "paced r n [] \<longleftrightarrow> True"
| "paced r n (m # ms) \<longleftrightarrow>
     (case m of Fetch epoch ds now \<Rightarrow> \<not> r \<and> n + MANIFEST_FETCH_FLOOR_MS \<le> now | Completed now \<Rightarrow> r | _ \<Rightarrow> True) \<and>
     paced (running r m) (completed_at n m) ms"

lemma paced_append [simp]:
  "paced r n (ms @ ns) \<longleftrightarrow> paced r n ms \<and> paced (foldl running r ms) (foldl completed_at n ms) ns"
  by (induction ms arbitrary: r n) auto

text \<open>Announcements no fetch that names their domains has followed yet on their transport.\<close>

fun outstanding :: "(nat \<times> jsstring list) list \<Rightarrow> moment \<Rightarrow> (nat \<times> jsstring list) list" where
  "outstanding os (Announced epoch ds) = os @ [(epoch, ds)]"
| "outstanding os (Fetch epoch ds now) = filter (\<lambda>(e, named). \<not> (e = epoch \<and> set named \<subseteq> set ds)) os"
| "outstanding os _ = os"

abbreviation still_outstanding :: "moment list \<Rightarrow> (nat \<times> jsstring list) list" where
  "still_outstanding hist \<equiv> foldl outstanding [] hist"

definition waiting :: "exchange \<Rightarrow> nat \<Rightarrow> jsstring list \<Rightarrow> bool" where
  "waiting x epoch ds \<longleftrightarrow>
     rf_queued (ex_refresh x) \<and> rf_queuedEpoch (ex_refresh x) = Some epoch \<and>
       (\<exists>named. rf_queuedDomains (ex_refresh x) = Some named \<and> set ds \<subseteq> set named) \<and>
       (in_flight x \<or> Floor_Timer \<in> set (ex_timers x)) \<or>
     (\<exists>named. After_Run (Some epoch) named \<in> set (ex_timers x) \<and> set ds \<subseteq> set named)"

definition queue_ok :: "exchange \<Rightarrow> bool" where
  "queue_ok x \<longleftrightarrow> (rf_queued (ex_refresh x) \<longrightarrow>
     (in_flight x \<or> Floor_Timer \<in> set (ex_timers x)) \<and>
     rf_queuedEpoch (ex_refresh x) \<noteq> None \<and> rf_queuedDomains (ex_refresh x) \<noteq> None)"

definition awaited :: "nat \<Rightarrow> exchange \<Rightarrow> moment list \<Rightarrow> bool" where
  "awaited n x hist \<longleftrightarrow> (\<forall>(epoch, ds) \<in> set (still_outstanding hist). epoch \<le> n \<and> (epoch = n \<longrightarrow> waiting x epoch ds))"

definition refreshing :: "nat \<Rightarrow> exchange \<Rightarrow> moment list \<Rightarrow> bool" where
  "refreshing n x hist \<longleftrightarrow> queue_ok x \<and> awaited n x hist \<and> paced False 0 hist \<and>
     foldl running False hist = in_flight x \<and> foldl completed_at 0 hist = rf_lastCompletedAt (ex_refresh x)"

subsection \<open>Moments that are none of these\<close>

fun plain_moment :: "moment \<Rightarrow> bool" where
  "plain_moment (Announced epoch ds) \<longleftrightarrow> False"
| "plain_moment (Fetch epoch ds now) \<longleftrightarrow> False"
| "plain_moment (Completed now) \<longleftrightarrow> False"
| "plain_moment _ \<longleftrightarrow> True"

lemma plain_moments:
  "list_all plain_moment ms \<Longrightarrow> foldl running r ms = r \<and> foldl completed_at n ms = n \<and> foldl outstanding os ms = os \<and> paced r n ms"
proof (induction ms)
  case (Cons m ms)
  then show ?case by (cases m) auto
qed simp

lemma plain_maps [simp]:
  "list_all plain_moment (map Conn es)" "list_all plain_moment (map Set_Disabled ts)" "list_all plain_moment (stateful_sets cfg x)"
  by (auto simp: list_all_iff stateful_sets_def Let_def)

definition same_refresh :: "exchange \<Rightarrow> exchange \<Rightarrow> bool" where
  "same_refresh x y \<longleftrightarrow> ex_refresh y = ex_refresh x \<and> in_flight y = in_flight x \<and> ex_timers y = ex_timers x"

lemma refreshing_plain:
  assumes "refreshing n x hist" "list_all plain_moment out" "same_refresh x y"
  shows "refreshing n y (hist @ out)"
  using assms plain_moments [OF assms(2)]
  by (auto simp: refreshing_def same_refresh_def queue_ok_def awaited_def waiting_def)

lemma refreshing_later: "refreshing n x hist \<Longrightarrow> n \<le> m \<Longrightarrow> refreshing m x hist"
  by (fastforce simp: refreshing_def awaited_def)

text \<open>The handler, called for an announcement or by a timer whose announcements it takes over.\<close>

lemma handle_refreshing:
  assumes "handleManifestChanged announce n now x = (y, out)" "queue_ok x"
    and "\<forall>(epoch, ds) \<in> set (still_outstanding hist). epoch \<le> n \<and> (epoch = n \<longrightarrow> waiting x epoch ds \<or> set ds \<subseteq> set (announcedDomainsOf announce))"
    and "paced False 0 hist" "foldl running False hist = in_flight x" "foldl completed_at 0 hist = rf_lastCompletedAt (ex_refresh x)"
  shows "refreshing n y (hist @ out)"
proof -
  let ?ds = "announcedDomainsOf announce"
  consider (busy) "in_flight x" "y = x\<lparr>ex_refresh := queueOn n ?ds (ex_refresh x\<lparr>rf_queued := True\<rparr>)\<rparr>" "out = []"
    | (early) "\<not> in_flight x" "out = []"
        "y = x\<lparr>ex_refresh := queueOn n ?ds (ex_refresh x\<lparr>rf_queued := True\<rparr>),
               ex_timers := ex_timers x @ (if rf_queued (ex_refresh x) then [] else [Floor_Timer])\<rparr>"
    | (go) "\<not> in_flight x" "rf_lastCompletedAt (ex_refresh x) + MANIFEST_FETCH_FLOOR_MS \<le> now"
        "y = x\<lparr>ex_phase := Fetching n ?ds\<rparr>" "out = [Fetch n ?ds now]"
    using assms(1) by (auto simp: handleManifestChanged_def Let_def split: if_splits)
  then show ?thesis
  proof cases
    case go
    have "\<forall>(epoch, ds) \<in> set (still_outstanding (hist @ out)). epoch \<le> n \<and> (epoch = n \<longrightarrow> waiting y epoch ds)"
      using assms(3) go(1) by (auto simp: go(3,4) waiting_def in_flight_def)
    moreover have "queue_ok y" using assms(2) by (auto simp: queue_ok_def go(3) in_flight_def)
    ultimately show ?thesis
      using assms(4-6) go(1,2) by (auto simp: refreshing_def awaited_def go(3,4) in_flight_def)
  next
    case busy
    have "\<forall>(epoch, ds) \<in> set (still_outstanding hist). epoch \<le> n \<and> (epoch = n \<longrightarrow> waiting y epoch ds)"
      using assms(3) busy(1)
      by (fastforce simp: busy(2) waiting_def in_flight_def queueOn_def Let_def split: option.splits)
    moreover have "queue_ok y" using busy(1) by (auto simp: queue_ok_def busy(2) in_flight_def queueOn_def Let_def)
    ultimately show ?thesis
      using assms(4-6) by (auto simp: refreshing_def awaited_def busy(2,3) in_flight_def queueOn_def Let_def)
  next
    case early
    have q: "rf_queued (ex_refresh x) \<Longrightarrow> Floor_Timer \<in> set (ex_timers x)"
      using assms(2) early(1) by (simp add: queue_ok_def)
    have "\<forall>(epoch, ds) \<in> set (still_outstanding hist). epoch \<le> n \<and> (epoch = n \<longrightarrow> waiting y epoch ds)"
      using assms(3) early(1) q
      by (fastforce simp: early(3) waiting_def in_flight_def queueOn_def Let_def split: option.splits)
    moreover have "queue_ok y" using early(1) q by (auto simp: queue_ok_def early(3) in_flight_def queueOn_def Let_def)
    ultimately show ?thesis
      using assms(4-6) by (auto simp: refreshing_def awaited_def early(2,3) in_flight_def queueOn_def Let_def)
  qed
qed

lemma handle_announced:
  assumes "handleManifestChanged announce n now x = (y, out)" "refreshing n x hist"
  shows "refreshing n y ((hist @ [Announced n (announcedDomainsOf announce)]) @ out)"
  by (rule handle_refreshing [OF assms(1)]) (use assms(2) in \<open>auto simp: refreshing_def awaited_def\<close>)

lemma finish_refreshing:
  assumes "finish_refresh now x = (y, out)" "refreshing n x hist" "in_flight x"
  shows "refreshing n y (hist @ out)"
proof -
  have out: "out = [Completed now]" using finish_frame(5) [OF assms(1)] .
  have y: "ex_phase y = Idle" using finish_frame(4) [OF assms(1)] .
  have w: "waiting y epoch ds" if "waiting x epoch ds" for epoch ds
    using that assms(1,3)
    by (auto simp: waiting_def finish_refresh_def takeQueued_def Let_def split: if_splits)
  have "queue_ok y" "rf_lastCompletedAt (ex_refresh y) = now"
    using assms(1) by (auto simp: queue_ok_def finish_refresh_def takeQueued_def Let_def split: if_splits)
  then show ?thesis
    using assms(2,3) w y by (fastforce simp: refreshing_def awaited_def out in_flight_def)
qed

subsection \<open>Every step\<close>

lemma settle_refresh:
  assumes "settlePolicyExchange cfg onFailure epoch x = (y, out)"
  shows "same_refresh x y \<and> list_all plain_moment out"
proof (cases "ex_capabilities x")
  case None
  then show ?thesis
    using assms by (auto simp: settlePolicyExchange_def registerMcplServerFeatures_def lift_marker_def same_refresh_def in_flight_def)
next
  case (Some caps)
  let ?raw = "featureSetsRaw (sc_number cfg) caps"
  obtain z ms where c: "closeMcplServerForGood (x\<lparr>ex_marker := Some epoch\<rparr>) = (z, ms)" by fastforce
  then have z: "same_refresh x z" "list_all plain_moment ms"
    by (auto simp: closeMcplServerForGood_def same_refresh_def in_flight_def split: prod.splits)
  obtain sets update traces where i: "initializeServer (ex_sets x) (sc_id cfg) ?raw (sc_sets cfg)
      (Some (grant_for cfg (ex_mcpToolsAdvertised x) (Some caps))) = (sets, update, traces)"
    by (metis prod_cases3)
  show ?thesis
    using assms Some c z i
    by (auto simp: settlePolicyExchange_def registerMcplServerFeatures_def lift_marker_def same_refresh_def in_flight_def Let_def
        split: if_splits)
qed

lemma listen_refreshing:
  assumes "listen cfg now e x = (y, out)" "stamped marker n [e]" "refreshing n x hist"
  shows "refreshing n y (hist @ Conn e # out)"
proof -
  have r: "refreshing n x (hist @ [Conn e])"
    using refreshing_plain [OF assms(3), of "[Conn e]" x] by (simp add: same_refresh_def)
  show ?thesis
  proof (cases "\<exists>i. e = Delivered i \<and> hi_event i \<in> {Manifest_Changed, Closed_Event, Reconnect_Event}")
    case False
    then have "y = x \<and> out = []"
      using assms(1) by (auto simp: listen_def split: effect.splits event.splits)
    then show ?thesis using r by simp
  next
    case True
    then obtain i where i: "e = Delivered i" "hi_event i \<in> {Manifest_Changed, Closed_Event, Reconnect_Event}" by blast
    consider (manifest) "hi_event i = Manifest_Changed" | (shut) "hi_event i = Closed_Event" | (again) "hi_event i = Reconnect_Event"
      using i(2) by blast
    then show ?thesis
    proof cases
      case manifest
      then have n: "hi_epoch i = n" using assms(2) i by simp
      obtain z later where z: "handleManifestChanged (hi_params i) n now x = (z, later)" by fastforce
      then have "y = z" "out = Announced n (announcedDomainsOf (hi_params i)) # later"
        using assms(1) i manifest n by (simp_all add: listen_def and_then_def)
      then show ?thesis using handle_announced [OF z r] by simp
    next
      case shut
      then have "y = x\<lparr>ex_sets := removeServer (ex_sets x) (sc_id cfg)\<rparr>" "out = []"
        using assms(1) i by (simp_all add: listen_def)
      then show ?thesis using refreshing_plain [OF r, of "[]" y] by (simp add: same_refresh_def in_flight_def)
    next
      case again
      then have s: "settlePolicyExchange cfg False (hi_epoch i) x = (y, out)"
        using assms(1) i by (simp add: listen_def)
      then show ?thesis using refreshing_plain [OF r, of out y] settle_refresh [OF s] by simp
    qed
  qed
qed

lemma listen_all_refreshing:
  "listen_all cfg now es x = (y, ms) \<Longrightarrow> stamped marker n es \<Longrightarrow> refreshing n x hist \<Longrightarrow> refreshing (n + boundaries es) y (hist @ ms)"
proof (induction cfg now es x arbitrary: y ms n hist rule: listen_all.induct)
  case (2 cfg now e es x)
  obtain z out where l: "listen cfg now e x = (z, out)" by fastforce
  obtain later where ls: "listen_all cfg now es z = (y, later)" "ms = Conn e # out @ later"
    using "2.prems"(1) l by (auto split: prod.splits)
  have "stamped marker n [e]" using "2.prems"(2) by simp
  from listen_refreshing [OF l this "2.prems"(3)]
  have "refreshing (if e = Boundary then Suc n else n) z (hist @ Conn e # out)"
    using refreshing_later by auto
  from "2.IH" [OF l [symmetric] ls(1) _ this] show ?case
    using "2.prems"(2) ls(2) by (cases "e = Boundary") auto
qed simp

lemma refreshing_conn: "refreshing n x hist \<Longrightarrow> refreshing n (x\<lparr>ex_conn := c\<rparr>) hist"
  using refreshing_plain [of n x hist "[]" "x\<lparr>ex_conn := c\<rparr>"] by (simp add: same_refresh_def in_flight_def)

lemma run_call_refreshing:
  assumes "run_call cfg h call now x = (y, ms)" "refreshing (cn_epoch (ex_conn x)) x hist"
    and "\<And>c out. do_call (framed h (ex_marker x)) call (ex_conn x) = (c, out) \<Longrightarrow>
      stamped marker (cn_epoch (ex_conn x)) out \<and> cn_epoch c = cn_epoch (ex_conn x) + boundaries out"
    and "\<And>c out. do_call (framed h (ex_marker x)) call (ex_conn x) = (c, out) \<Longrightarrow> cn_epoch (ex_conn y) = cn_epoch c"
  shows "refreshing (cn_epoch (ex_conn y)) y (hist @ ms)"
proof -
  obtain c out where d: "do_call (framed h (ex_marker x)) call (ex_conn x) = (c, out)" by fastforce
  then have l: "listen_all cfg now out (x\<lparr>ex_conn := c\<rparr>) = (y, ms)"
    using assms(1) by (simp add: run_call_def)
  show ?thesis
    using listen_all_refreshing [OF l conjunct1 [OF assms(3) [OF d]] refreshing_conn [OF assms(2)]] assms(3,4) [OF d] by simp
qed

lemma fire_refreshing:
  assumes "fire tm now (x\<lparr>ex_timers := drop_nth k (ex_timers x)\<rparr>) = (y, out)" "refreshing (cn_epoch (ex_conn x)) x hist"
    and k: "k < length (ex_timers x)" "tm = ex_timers x ! k"
  shows "refreshing (cn_epoch (ex_conn x)) y (hist @ out)"
proof -
  let ?n = "cn_epoch (ex_conn x)" and ?x = "x\<lparr>ex_timers := drop_nth k (ex_timers x)\<rparr>"
  have timers: "set (ex_timers x) = insert tm (set (drop_nth k (ex_timers x)))"
    using k id_take_nth_drop [OF k(1)] unfolding drop_nth_def by (metis Un_insert_right list.simps(15) set_append)
  have r: "queue_ok x" "\<forall>(e, ds) \<in> set (still_outstanding hist). e \<le> ?n \<and> (e = ?n \<longrightarrow> waiting x e ds)" "paced False 0 hist"
    "foldl running False hist = in_flight x" "foldl completed_at 0 hist = rf_lastCompletedAt (ex_refresh x)"
    using assms(2) by (simp_all add: refreshing_def awaited_def)
  have flight: "in_flight ?x = in_flight x" by (simp add: in_flight_def)
  have domains: "announcedDomainsOf (JObj [(js ''domains'', JArr (map JStr ds))]) = ds" for ds
    by (simp add: announcedDomainsOf_def own_def comp_def)
  show ?thesis
  proof (cases tm)
    case (After_Run queued named)
    have w: "waiting ?x e ds \<or> queued = Some e \<and> set ds \<subseteq> set named" if "waiting x e ds" for e ds
      using that timers After_Run flight unfolding waiting_def by auto
    have q: "queue_ok ?x" using r(1) timers After_Run flight unfolding queue_ok_def by auto
    show ?thesis
    proof (cases "queued = Some ?n")
      case True
      then have h: "handleManifestChanged (JObj [(js ''domains'', JArr (map JStr named))]) ?n now ?x = (y, out)"
        using assms(1) After_Run by (simp add: fire_def rerunManifestRefresh_def)
      show ?thesis
        by (rule handle_refreshing [OF h q]) (use r(2-5) w flight in \<open>fastforce simp: domains\<close>)+
    next
      case False
      then have "y = ?x" "out = []" using assms(1) After_Run by (auto simp: fire_def)
      then show ?thesis
        using r q w False flight by (fastforce simp: refreshing_def awaited_def)
    qed
  next
    case Floor_Timer
    let ?st = "ex_refresh x"
    show ?thesis
    proof (cases "rf_queued ?st \<and> \<not> in_flight x")
      case False
      then have y: "y = ?x" "out = []" using assms(1) Floor_Timer flight by (auto simp: fire_def Let_def)
      have w: "waiting ?x e ds" if "waiting x e ds" for e ds
        using that timers Floor_Timer False flight unfolding waiting_def by auto
      have q: "queue_ok ?x" using r(1) False flight unfolding queue_ok_def by auto
      show ?thesis using r w q flight by (fastforce simp: refreshing_def awaited_def y)
    next
      case True
      obtain named e where named: "rf_queuedDomains ?st = Some named" "rf_queuedEpoch ?st = Some e"
        using True r(1) by (auto simp: queue_ok_def)
      let ?z = "?x\<lparr>ex_refresh := ?st\<lparr>rf_queued := False, rf_queuedDomains := None\<rparr>\<rparr>"
      have f: "fire tm now ?x = (if e = ?n then rerunManifestRefresh named now ?z else (?z, []))"
        using True Floor_Timer named flight by (simp add: fire_def takeQueued_def Let_def)
      have w: "waiting ?z e' ds \<or> e' = e \<and> set ds \<subseteq> set named" if "waiting x e' ds" for e' ds
        using that timers Floor_Timer named unfolding waiting_def by auto
      have q: "queue_ok ?z" by (simp add: queue_ok_def)
      have zf: "in_flight ?z = in_flight x" by (simp add: in_flight_def)
      show ?thesis
      proof (cases "e = ?n")
        case True
        then have h: "handleManifestChanged (JObj [(js ''domains'', JArr (map JStr named))]) ?n now ?z = (y, out)"
          using assms(1) f by (simp add: rerunManifestRefresh_def)
        show ?thesis
          by (rule handle_refreshing [OF h q]) (use r(2-5) w zf in \<open>fastforce simp: domains\<close>)+
      next
        case False
        then have "y = ?z" "out = []" using assms(1) f by auto
        then show ?thesis
          using r q w False zf by (fastforce simp: refreshing_def awaited_def)
      qed
    qed
  qed
qed

text \<open>What neither announces, fetches nor completes, and never goes back to an earlier transport.\<close>

definition calm_step :: "exchange \<Rightarrow> exchange \<times> moment list \<Rightarrow> bool" where
  "calm_step x r \<longleftrightarrow> same_refresh x (fst r) \<and> list_all plain_moment (snd r) \<and> cn_epoch (ex_conn x) \<le> cn_epoch (ex_conn (fst r))"

lemma calm_then:
  assumes "calm_step x r" "\<And>y. same_refresh x y \<Longrightarrow> cn_epoch (ex_conn x) \<le> cn_epoch (ex_conn y) \<Longrightarrow> calm_step y (f y)"
  shows "calm_step x (and_then r f)"
proof -
  obtain y ms where r: "r = (y, ms)" by fastforce
  obtain z ns where f: "f y = (z, ns)" by fastforce
  have "calm_step y (z, ns)" using assms(2) [of y] assms(1) r f by (simp add: calm_step_def)
  then show ?thesis using assms(1) r f by (auto simp: calm_step_def and_then_def same_refresh_def)
qed

lemma calm_refreshing:
  assumes "calm_step x (y, out)" "refreshing (cn_epoch (ex_conn x)) x hist"
  shows "refreshing (cn_epoch (ex_conn y)) y (hist @ out)"
  using refreshing_later [OF refreshing_plain [OF assms(2)]] assms(1) by (simp add: calm_step_def)

lemma calm_steps [simp]:
  "calm_step x (activate g x, [Accepted epoch g])" "calm_step x (activate g x, [Refusal b c, Reduced g])"
  "calm_step x (activate g x, [Reduced g])" "calm_step x (x, [])" "calm_step x (x, [Refusal b c])" "calm_step x (x, [Handler_Failed])"
  by (simp_all add: calm_step_def same_refresh_def in_flight_def)

lemma calm_close [simp]: "calm_step x (closeMcplServerForGood x)"
proof -
  have "cn_epoch (ex_conn x) \<le> cn_epoch (fst (close (ex_conn x)))"
    by (auto simp: close_def resetPolicyForTransportBoundary_def replaceHeld_def Let_def split: prod.split)
  then show ?thesis
    by (auto simp: closeMcplServerForGood_def calm_step_def same_refresh_def in_flight_def split: prod.split)
qed

lemma calm_derive [simp]: "calm_step x (derive_for cfg masked g x)"
  by (auto simp: derive_for_def calm_step_def same_refresh_def in_flight_def split: prod.split)

lemma calm_adopt [simp]: "calm_step x (adopt_manifest cfg t negotiated now x)"
  by (auto simp: adopt_manifest_def calm_step_def same_refresh_def in_flight_def Let_def)

lemma calm_reduce [simp]: "calm_step x (reduce_first g x)"
  by (simp add: reduce_first_def Let_def)

lemma calm_initial: "calm_step x (initial_answered cfg asked answer x)"
proof -
  have c: "calm_step x (closeMcplServerForGood x)" by simp
  then show ?thesis
    by (auto simp: initial_answered_def calm_step_def same_refresh_def in_flight_def lift_marker_def Let_def
        split: prod.splits option.splits)
qed

lemma then_finish:
  assumes "and_then r (finish_refresh now) = (y, out)" "calm_step x r" "in_flight x" "refreshing (cn_epoch (ex_conn x)) x hist"
  shows "refreshing (cn_epoch (ex_conn y)) y (hist @ out)"
proof -
  obtain z ms where r: "r = (z, ms)" by fastforce
  obtain w ns where f: "finish_refresh now z = (w, ns)" by fastforce
  have y: "y = w" "out = ms @ ns" using assms(1) r f by (simp_all add: and_then_def)
  have "in_flight z" using assms(2,3) r by (simp add: calm_step_def same_refresh_def)
  from finish_refreshing [OF f calm_refreshing [OF assms(2) [unfolded r] assms(4)] this] show ?thesis
    using finish_frame(1) [OF f] y by simp
qed

lemma policy_refreshing:
  assumes "policy_answered cfg t answer now x = (y, out)" "in_flight x" "refreshing (cn_epoch (ex_conn x)) x hist"
  shows "refreshing (cn_epoch (ex_conn y)) y (hist @ out)"
proof -
  let ?r = "if cn_epoch (ex_conn x) \<noteq> tl_epoch t then (x, [])
     else case answer of
       None \<Rightarrow> adopt_manifest cfg t False now x
     | Some receipt \<Rightarrow>
         if refuses receipt then
           if closes receipt then and_then (x, [Refusal False True]) closeMcplServerForGood
           else and_then (and_then (activate empty_grant x, [Refusal False False, Reduced empty_grant])
             (derive_for cfg (tl_masked t) empty_grant)) (adopt_manifest cfg t False now)
         else and_then (and_then (activate (tl_grant t) x, [Accepted (tl_epoch t) (tl_grant t)])
           (derive_for cfg (tl_masked t) (tl_grant t))) (adopt_manifest cfg t True now)"
  have "finish_refresh now x = and_then (x, []) (finish_refresh now)"
    by (simp add: and_then_def split: prod.split)
  then have r: "and_then ?r (finish_refresh now) = (y, out)"
    using assms(1) by (cases answer) (auto simp: policy_answered_def split: if_splits)
  have "calm_step x (and_then (x, [Refusal False True]) closeMcplServerForGood)"
    "calm_step x (and_then (and_then (activate empty_grant x, [Refusal False False, Reduced empty_grant])
       (derive_for cfg (tl_masked t) empty_grant)) (adopt_manifest cfg t False now))"
    "calm_step x (and_then (and_then (activate (tl_grant t) x, [Accepted (tl_epoch t) (tl_grant t)])
       (derive_for cfg (tl_masked t) (tl_grant t))) (adopt_manifest cfg t True now))"
    by (intro calm_then calm_steps calm_derive calm_adopt calm_close)+
  then have "calm_step x ?r" by (simp split: option.split)
  from then_finish [OF r this assms(2,3)] show ?thesis .
qed

lemma fetch_refreshing:
  assumes "fetch_answered cfg epoch domains answer now x = (y, out)" "ex_phase x = Fetching epoch domains"
    and "refreshing (cn_epoch (ex_conn x)) x hist"
  shows "refreshing (cn_epoch (ex_conn y)) y (hist @ out)"
  using assms(1)
proof (cases rule: fetch_cases)
  case over
  have "in_flight x" using assms(2) by (simp add: in_flight_def)
  from finish_refreshing [OF over assms(3) this] show ?thesis
    using finish_frame(1) [OF over] by simp
next
  case (told t)
  obtain z ms where r: "reduce_first (tl_grant t) x = (z, ms)" by fastforce
  obtain w ns where w: "tell_policy cfg t now z = (w, ns)" by fastforce
  have y: "y = w" "out = ms @ ns" using told(5) r w by (simp_all add: and_then_def)
  have c: "calm_step x (z, ms)" using calm_reduce [of x "tl_grant t"] r by simp
  have z: "refreshing (cn_epoch (ex_conn z)) z (hist @ ms)" by (rule calm_refreshing [OF c assms(3)])
  have flight: "in_flight z" using c assms(2) by (simp add: calm_step_def same_refresh_def in_flight_def)
  have "refreshing (cn_epoch (ex_conn w)) w ((hist @ ms) @ ns)"
  proof (cases "derivation_throws (featureSetsRaw (sc_number cfg) (tl_masked t))")
    case True
    then obtain ks where f: "finish_refresh now z = (w, ks)" "ns = ks @ [Handler_Failed]"
      using w by (auto simp: tell_policy_def and_then_def split: prod.splits)
    have "refreshing (cn_epoch (ex_conn w)) w ((hist @ ms) @ ks)"
      using finish_refreshing [OF f(1) z flight] finish_frame(1) [OF f(1)] by simp
    then have "refreshing (cn_epoch (ex_conn w)) w (((hist @ ms) @ ks) @ [Handler_Failed])"
      by (rule calm_refreshing [OF calm_steps(6)])
    then show ?thesis by (simp add: f(2))
  next
    case False
    obtain sets up traces where i: "initializeServer (ex_sets z) (sc_id cfg) (featureSetsRaw (sc_number cfg) (tl_masked t))
        (sc_sets cfg) (Some (cn_grant (ex_conn z))) = (sets, up, traces)"
      by (metis prod_cases3)
    have "calm_step z (w, ns)"
      using w False i flight by (auto simp: tell_policy_def Let_def calm_step_def same_refresh_def in_flight_def)
    then show ?thesis using calm_refreshing z by blast
  qed
  then show ?thesis using y by simp
qed

lemma run_call_keeps_refreshing:
  assumes "run_call cfg h call now x = (y, ms)" "asked_ok cfg x hist'" "refreshing (cn_epoch (ex_conn x)) x hist"
    and "\<And>c out. do_call (framed h (ex_marker x)) call (ex_conn x) = (c, out) \<Longrightarrow>
      stamped (ex_marker x) (cn_epoch (ex_conn x)) out \<and> cn_epoch c = cn_epoch (ex_conn x) + boundaries out"
  shows "refreshing (cn_epoch (ex_conn y)) y (hist @ ms)"
proof (rule run_call_refreshing [OF assms(1,3,4)])
  fix c out
  assume d: "do_call (framed h (ex_marker x)) call (ex_conn x) = (c, out)"
  have "asked_ok cfg (x\<lparr>ex_conn := c\<rparr>) hist'" using assms(2) by (simp add: asked_ok_def)
  moreover have "listen_all cfg now out (x\<lparr>ex_conn := c\<rparr>) = (y, ms)"
    using assms(1) d by (simp add: run_call_def)
  ultimately show "cn_epoch (ex_conn y) = cn_epoch c"
    using listen_all_frame [of cfg now out "x\<lparr>ex_conn := c\<rparr>" y ms "ex_marker x"] assms(4) [OF d] by fastforce
qed

lemma fire_conn: "fire tm now x = (y, out) \<Longrightarrow> ex_conn y = ex_conn x"
proof (cases tm)
  case Floor_Timer
  obtain ds st where t: "takeQueued (ex_refresh x\<lparr>rf_queued := False\<rparr>) = (ds, st)" by fastforce
  assume "fire tm now x = (y, out)"
  then have "y = x \<or> y = x\<lparr>ex_refresh := st\<rparr> \<or> rerunManifestRefresh ds now (x\<lparr>ex_refresh := st\<rparr>) = (y, out)"
    using Floor_Timer t by (auto simp: fire_def Let_def split: if_splits)
  then show ?thesis using handle_frame(1) by (fastforce simp: rerunManifestRefresh_def)
next
  case (After_Run queued ds)
  assume "fire tm now x = (y, out)"
  then have "y = x \<or> rerunManifestRefresh ds now x = (y, out)"
    using After_Run by (auto simp: fire_def split: if_splits)
  then show ?thesis using handle_frame(1) by (fastforce simp: rerunManifestRefresh_def)
qed

lemma refreshing_open:
  assumes "readyMcplPlanes cfg h quiesced now x = (y, out)" "governed cfg x hist" "refreshing (cn_epoch (ex_conn x)) x hist"
  shows "refreshing (cn_epoch (ex_conn y)) y (hist @ out)"
proof (cases "mcplPlanesMayOpen (ex_marker x) (ex_conn x)")
  case True
  let ?op = "if quiesced then Ready_Control else Ready"
  have s: "sound (ex_marker x) (ex_conn x)" "asked_ok cfg x hist" using assms(2) by (simp_all add: governed_def)
  have r: "run_call cfg h (Op ?op) now x = (y, out)"
    using assms(1) True by (simp add: readyMcplPlanes_def)
  have "opens ?op" by simp
  then have "do_call (framed h (ex_marker x)) (Op ?op) (ex_conn x) = (c, es) \<Longrightarrow> keeps (ex_marker x) (ex_conn x) es c" for c es
    using open_keeps True s(1) by blast
  then show ?thesis
    by (intro run_call_keeps_refreshing [OF r s(2) assms(3)]) (simp add: keeps_def)
next
  case False
  then show ?thesis using assms by (simp add: readyMcplPlanes_def)
qed

lemma refreshing_outside:
  assumes "run_call cfg h call now x = (y, out)" "outside_call call" "governed cfg x hist" "refreshing (cn_epoch (ex_conn x)) x hist"
  shows "refreshing (cn_epoch (ex_conn y)) y (hist @ out)"
proof -
  have s: "sound (ex_marker x) (ex_conn x)" "asked_ok cfg x hist" using assms(3) by (simp_all add: governed_def)
  have "do_call (framed h (ex_marker x)) call (ex_conn x) = (c, es) \<Longrightarrow> keeps (ex_marker x) (ex_conn x) es c" for c es
    using outside_keeps assms(2) s(1) by blast
  then show ?thesis
    by (intro run_call_keeps_refreshing [OF assms(1) s(2) assms(4)]) (simp add: keeps_def)
qed

lemma refreshing_reconnected:
  assumes "reconnected cfg h allow raw tools now x = (y, out)" "governed cfg x hist" "refreshing (cn_epoch (ex_conn x)) x hist"
  shows "refreshing (cn_epoch (ex_conn y)) y (hist @ out)"
proof (cases "\<not> cn_closed (ex_conn x) \<or> \<not> cn_reconnectEnabled (ex_conn x)")
  case True
  then show ?thesis using assms by (simp add: reconnected_def)
next
  case False
  let ?m = "Some (Suc (cn_epoch (ex_conn x)))"
  let ?x = "(handshake cfg raw tools x)\<lparr>ex_marker := ?m\<rparr>"
  have conn: "ex_conn ?x = ex_conn x" "ex_marker ?x = ?m" "same_refresh x ?x"
    by (simp_all add: handshake_def same_refresh_def in_flight_def split: prod.split)
  have r: "run_call cfg h (Adopt allow) now ?x = (y, out)"
    using assms(1) False by (simp add: reconnected_def)
  have held: "list_all (timely (cn_epoch (ex_conn x))) (cn_held (ex_conn x))"
    using assms(2) by (simp add: governed_def sound_def)
  have "asked_ok cfg (handshake cfg raw tools x) hist"
    using governed_handshake [OF assms(2)] by (simp add: governed_def)
  then have a: "asked_ok cfg ?x hist" by (simp add: asked_ok_def)
  have f: "refreshing (cn_epoch (ex_conn ?x)) ?x hist"
    using refreshing_plain [OF assms(3), of "[]" ?x] conn by simp
  have "do_call (framed h ?m) (Adopt allow) (ex_conn x) = (c, es) \<Longrightarrow> keeps ?m (ex_conn x) es c" for c es
    by (rule adopted_keeps [OF _ _ _ held]) (use False in simp_all)
  then have "do_call (framed h (ex_marker ?x)) (Adopt allow) (ex_conn ?x) = (c, es) \<Longrightarrow>
      stamped (ex_marker ?x) (cn_epoch (ex_conn ?x)) es \<and> cn_epoch c = cn_epoch (ex_conn ?x) + boundaries es" for c es
    unfolding conn keeps_def by blast
  then show ?thesis by (rule run_call_keeps_refreshing [OF r a f])
qed

lemma refreshing_xstep:
  assumes "xstep cfg h inp x = (y, out)" "governed cfg x hist" "refreshing (cn_epoch (ex_conn x)) x hist"
  shows "refreshing (cn_epoch (ex_conn y)) y (hist @ out)"
proof -
  have same: "refreshing (cn_epoch (ex_conn x)) x (hist @ [])" using assms(3) by simp
  show ?thesis
  proof (cases inp)
    case (Outside call now)
    show ?thesis
    proof (cases "outside_call call")
      case True
      then have "run_call cfg h call now x = (y, out)"
        using assms(1) Outside by (simp add: xstep_def)
      then show ?thesis using refreshing_outside True assms(2,3) by blast
    next
      case False
      then show ?thesis using assms(1) Outside same by (simp add: xstep_def)
    qed
  next
    case (Open_Planes quiesced now)
    then have "readyMcplPlanes cfg h quiesced now x = (y, out)"
      using assms(1) by (simp add: xstep_def)
    then show ?thesis using refreshing_open assms(2,3) by blast
  next
    case (Reconnected allow raw tools now)
    then have "reconnected cfg h allow raw tools now x = (y, out)"
      using assms(1) by (simp add: xstep_def)
    then show ?thesis using refreshing_reconnected assms(2,3) by blast
  next
    case (Initial_Answer k answer)
    show ?thesis
    proof (cases "k < length (ex_asked x)")
      case True
      let ?x = "x\<lparr>ex_asked := drop_nth k (ex_asked x)\<rparr>"
      have "calm_step ?x (y, out)"
        using assms(1) Initial_Answer True calm_initial [of ?x cfg "ex_asked x ! k" answer] by (simp add: xstep_def)
      then have "calm_step x (y, out)"
        by (simp add: calm_step_def same_refresh_def in_flight_def)
      then show ?thesis using calm_refreshing assms(3) by blast
    next
      case False
      then show ?thesis using assms(1) Initial_Answer same by (simp add: xstep_def)
    qed
  next
    case (Fetch_Answer answer now)
    show ?thesis
    proof (cases "ex_phase x")
      case (Fetching epoch domains)
      then have "fetch_answered cfg epoch domains answer now x = (y, out)"
        using assms(1) Fetch_Answer by (simp add: xstep_def)
      from fetch_refreshing [OF this Fetching assms(3)] show ?thesis .
    qed (use assms(1) Fetch_Answer same in \<open>simp_all add: xstep_def\<close>)
  next
    case (Policy_Answer answer now)
    show ?thesis
    proof (cases "ex_phase x")
      case (Telling t)
      then have "policy_answered cfg t answer now x = (y, out)" "in_flight x"
        using assms(1) Policy_Answer by (simp_all add: xstep_def in_flight_def)
      from policy_refreshing [OF this assms(3)] show ?thesis .
    qed (use assms(1) Policy_Answer same in \<open>simp_all add: xstep_def\<close>)
  next
    case (Timer_Fires k now)
    show ?thesis
    proof (cases "k < length (ex_timers x)")
      case True
      let ?x = "x\<lparr>ex_timers := drop_nth k (ex_timers x)\<rparr>"
      have f: "fire (ex_timers x ! k) now ?x = (y, out)"
        using assms(1) Timer_Fires True by (simp add: xstep_def)
      have "ex_conn y = ex_conn x" using fire_conn [OF f] by simp
      then show ?thesis using fire_refreshing [OF f assms(3) True refl] by simp
    next
      case False
      then show ?thesis using assms(1) Timer_Fires same by (simp add: xstep_def)
    qed
  qed
qed

subsection \<open>Whole runs\<close>

lemma governed_and_refreshing:
  assumes "exchange_run cfg h staged reconnect allow raw tools inps = (x, hist)"
  shows "governed cfg x hist \<and> refreshing (cn_epoch (ex_conn x)) x hist"
proof (rule exchange_run_keep [OF _ _ assms])
  fix inp x y out hist
  assume "governed cfg x hist \<and> refreshing (cn_epoch (ex_conn x)) x hist" "xstep cfg h inp x = (y, out)"
  then show "governed cfg y (hist @ out) \<and> refreshing (cn_epoch (ex_conn y)) y (hist @ out)"
    using governed_xstep refreshing_xstep by blast
next
  fix x hist
  assume c: "connectMcplServer cfg staged reconnect allow raw tools = (x, hist)"
  let ?x = "handed_back cfg reconnect allow raw tools"
  have "refreshing 0 ?x []"
    by (simp add: refreshing_def queue_ok_def awaited_def in_flight_def)
  moreover have "same_refresh ?x x \<and> list_all plain_moment hist"
    by (rule settle_refresh) (use c in \<open>simp add: connectMcplServer_def\<close>)
  ultimately have "refreshing 0 x ([] @ hist)" using refreshing_plain by blast
  then show "governed cfg x hist \<and> refreshing (cn_epoch (ex_conn x)) x hist"
    using governed_connect [OF c] refreshing_later [of 0 x hist "cn_epoch (ex_conn x)"] by simp
qed

lemma paced_fetches:
  "paced r n (mid @ Fetch epoch ds now # post) \<Longrightarrow>
     (\<exists>t. Completed t \<in> set mid \<and> t + MANIFEST_FETCH_FLOOR_MS \<le> now) \<or> \<not> r \<and> n + MANIFEST_FETCH_FLOOR_MS \<le> now"
proof (induction mid arbitrary: r n)
  case (Cons m mid)
  then show ?case by (cases m) fastforce+
qed simp

text \<open>
  C30: However its announcements come, a server is fetched from at most once at a time, and at
  least five seconds after the last fetch and its policy exchange were done with.
\<close>

theorem fetches_keep_their_distance:
  "case exchange_run cfg h staged reconnect allow raw tools inps of
     (x, hist) \<Rightarrow> \<forall>pre e ds n mid e' ds' n' post. hist = pre @ Fetch e ds n # mid @ Fetch e' ds' n' # post \<longrightarrow>
       (\<exists>t. Completed t \<in> set mid \<and> t + 5000 \<le> n')"
proof -
  obtain x hist where r: "exchange_run cfg h staged reconnect allow raw tools inps = (x, hist)" by fastforce
  have p: "paced False 0 hist"
    using governed_and_refreshing [OF r] by (simp add: refreshing_def)
  have "\<exists>t. Completed t \<in> set mid \<and> t + 5000 \<le> n'" if "hist = pre @ Fetch e ds n # mid @ Fetch e' ds' n' # post"
    for pre e ds n mid e' ds' n' post
    using p paced_fetches [of True _ mid e' ds' n' post] unfolding that by (auto simp: MANIFEST_FETCH_FLOOR_MS_def)
  then show ?thesis using r by auto
qed

lemma outstanding_until_fetched:
  "(epoch, ds) \<in> set os \<Longrightarrow> (epoch, ds) \<in> set (foldl outstanding os post) \<or>
     (\<exists>named now. Fetch epoch named now \<in> set post \<and> set ds \<subseteq> set named)"
proof (induction post arbitrary: os)
  case (Cons m post)
  then have "(epoch, ds) \<in> set (outstanding os m) \<or> (\<exists>named now. m = Fetch epoch named now \<and> set ds \<subseteq> set named)"
    by (cases m) auto
  then show ?case using Cons.IH by fastforce
qed simp

text \<open>
  C9: No announcement on the connection's transport is lost. One that came was followed by a
  fetch whose receipt names its domains, or still waits: it is queued behind the refresh in
  flight or a timer set for the floor, or it is held by a timer set for after a run.
\<close>

theorem no_announcement_lost:
  "case exchange_run cfg h staged reconnect allow raw tools inps of
     (x, hist) \<Rightarrow> \<forall>pre ds post. hist = pre @ Announced (cn_epoch (ex_conn x)) ds # post \<longrightarrow>
       (\<exists>named now. Fetch (cn_epoch (ex_conn x)) named now \<in> set post \<and> set ds \<subseteq> set named) \<or>
       waiting x (cn_epoch (ex_conn x)) ds"
proof -
  obtain x hist where r: "exchange_run cfg h staged reconnect allow raw tools inps = (x, hist)" by fastforce
  let ?e = "cn_epoch (ex_conn x)"
  have a: "awaited ?e x hist"
    using governed_and_refreshing [OF r] by (simp add: refreshing_def)
  have "(\<exists>named now. Fetch ?e named now \<in> set post \<and> set ds \<subseteq> set named) \<or> waiting x ?e ds"
    if h: "hist = pre @ Announced ?e ds # post" for pre ds post
  proof -
    have "(?e, ds) \<in> set (still_outstanding (pre @ [Announced ?e ds]))" by simp
    from outstanding_until_fetched [OF this, of post]
    show ?thesis using a unfolding awaited_def h by auto
  qed
  then show ?thesis using r by auto
qed

text \<open>Two announcements, the second while the first one's fetch is in flight.\<close>

definition announcing_inputs :: "xinput list" where
  "announcing_inputs = [Initial_Answer 0 (Some (JObj [(js ''accepted'', JTrue)])), Open_Planes False 1,
     Outside (Read 0 (Message (js ''mcpl/manifestChanged'') JNull None)) 6000,
     Outside (Read 0 (Message (js ''mcpl/manifestChanged'') (JObj [(js ''domains'', JArr [JStr (js ''d'')])]) None)) 6001]"

definition announcing_run :: "exchange \<times> moment list" where
  "announcing_run = exchange_run sample_config quiet_host True False False sample_manifest False announcing_inputs"

definition refetching_run :: "exchange \<times> moment list" where
  "refetching_run = exchange_run sample_config quiet_host True False False sample_manifest False
     (announcing_inputs @ [Fetch_Answer None 7000, Timer_Fires 0 12000])"

lemma announcing_history:
  "\<exists>pre. snd announcing_run = pre @ [Announced 0 [js ''d'']]" "cn_epoch (ex_conn (fst announcing_run)) = 0"
proof -
  have "last (snd announcing_run) = Announced 0 [js ''d''] \<and> snd announcing_run \<noteq> []" by code_simp
  then show "\<exists>pre. snd announcing_run = pre @ [Announced 0 [js ''d'']]" by (metis append_butlast_last_id)
  show "cn_epoch (ex_conn (fst announcing_run)) = 0" by code_simp
qed

theorem no_announcement_lost_witness: "waiting (fst announcing_run) 0 [js ''d'']"
proof -
  obtain pre where h: "snd announcing_run = pre @ Announced 0 [js ''d''] # []"
    using announcing_history(1) by blast
  have "\<forall>pre ds post. snd announcing_run = pre @ Announced 0 ds # post \<longrightarrow>
      (\<exists>named now. Fetch 0 named now \<in> set post \<and> set ds \<subseteq> set named) \<or> waiting (fst announcing_run) 0 ds"
    using no_announcement_lost [of sample_config quiet_host True False False sample_manifest False announcing_inputs,
        folded announcing_run_def] unfolding case_prod_beta announcing_history(2) .
  from this [rule_format, OF h] show ?thesis by simp
qed

fun is_fetch :: "moment \<Rightarrow> bool" where
  "is_fetch (Fetch epoch ds now) = True"
| "is_fetch _ = False"

fun between_fetches :: "moment list \<Rightarrow> (moment \<times> moment list \<times> moment list) option" where
  "between_fetches [] = None"
| "between_fetches (m # ms) =
     (if is_fetch m then Some (m, takeWhile (\<lambda>m. \<not> is_fetch m) ms, dropWhile (\<lambda>m. \<not> is_fetch m) ms) else between_fetches ms)"

lemma between_fetches_split: "between_fetches ms = Some (m, mid, post) \<Longrightarrow> \<exists>pre. ms = pre @ m # mid @ post"
proof (induction ms)
  case (Cons x ms)
  show ?case
  proof (cases "is_fetch x")
    case True
    then show ?thesis using Cons.prems by (intro exI [of _ "[]"]) auto
  next
    case False
    then obtain pre where "ms = pre @ m # mid @ post" using Cons by auto
    then show ?thesis by (intro exI [of _ "x # pre"]) simp
  qed
qed simp

lemma refetching_evaluated:
  "map_option (\<lambda>(m, mid, post). (m, filter (\<lambda>m. case m of Completed t \<Rightarrow> True | _ \<Rightarrow> False) mid, post)) (between_fetches (snd refetching_run)) =
   Some (Fetch 0 [] 6000, [Completed 7000], [Fetch 0 [js ''d''] 12000])"
  by code_simp

lemma refetching_history:
  "\<exists>pre mid. snd refetching_run = pre @ Fetch 0 [] 6000 # mid @ Fetch 0 [js ''d''] 12000 # [] \<and>
     filter (\<lambda>m. case m of Completed t \<Rightarrow> True | _ \<Rightarrow> False) mid = [Completed 7000]"
proof -
  obtain mid where "between_fetches (snd refetching_run) = Some (Fetch 0 [] 6000, mid, [Fetch 0 [js ''d''] 12000])"
    "filter (\<lambda>m. case m of Completed t \<Rightarrow> True | _ \<Rightarrow> False) mid = [Completed 7000]"
    using refetching_evaluated by (auto simp: map_option_eq_Some)
  with between_fetches_split show ?thesis by blast
qed

theorem fetches_keep_their_distance_witness: "\<exists>t. t + 5000 \<le> (12000 :: nat) \<and> t = 7000"
proof -
  obtain pre mid where h: "snd refetching_run = pre @ Fetch 0 [] 6000 # mid @ Fetch 0 [js ''d''] 12000 # []"
    "filter (\<lambda>m. case m of Completed t \<Rightarrow> True | _ \<Rightarrow> False) mid = [Completed 7000]"
    using refetching_history by blast
  have "\<forall>pre e ds n mid e' ds' n' post. snd refetching_run = pre @ Fetch e ds n # mid @ Fetch e' ds' n' # post \<longrightarrow>
      (\<exists>t. Completed t \<in> set mid \<and> t + 5000 \<le> n')"
    using fetches_keep_their_distance [of sample_config quiet_host True False False sample_manifest False
        "announcing_inputs @ [Fetch_Answer None 7000, Timer_Fires 0 12000]", folded refetching_run_def]
    unfolding case_prod_beta .
  from this [rule_format, OF h(1)] obtain t where t: "Completed t \<in> set mid" "t + 5000 \<le> 12000" by blast
  have "Completed t \<in> set (filter (\<lambda>m. case m of Completed t \<Rightarrow> True | _ \<Rightarrow> False) mid)"
    using t(1) by simp
  then show ?thesis using t(2) unfolding h(2) by simp
qed

end
