(* ===== verification/Exchange_Features.thy ===== *)
theory Exchange_Features
  imports Exchange_Refresh
begin

section \<open>Feature sets follow the grant in force\<close>

text \<open>
  What one refresh does to the feature sets and the grant: before the server is told, after
  its receipt, and where an initial policy is not accepted or a declaration cannot be read.
\<close>

definition backed :: "server_config \<Rightarrow> exchange \<Rightarrow> bool" where
  "backed cfg x \<longleftrightarrow>
     (case map_of (ex_sets x) (sc_id cfg) of
        None \<Rightarrow> True
      | Some st \<Rightarrow> list_all (\<lambda>(name, d). name \<in> set (enabled st) \<longrightarrow>
          well_used d \<and> list_all (grant_has (cn_grant (ex_conn x))) (uses_of d)) (declared st))"

lemma derived_backed:
  assumes "initializeServer sets (sc_id cfg) raw fs (Some (cn_grant (ex_conn x))) = (ex_sets x, update, traces)"
  shows "backed cfg x"
proof -
  obtain en where "ex_sets x = AList.update (sc_id cfg) \<lparr>declared = declared_of raw, enabled = en\<rparr> sets"
    "\<And>n d. n \<in> set en \<Longrightarrow> (n, d) \<in> set (declared_of raw) \<Longrightarrow> derive_uses (grant_has (cn_grant (ex_conn x))) d = None"
    using initializeServer_state [of sets "sc_id cfg" raw fs "Some (cn_grant (ex_conn x))"] assms by auto
  then show ?thesis
    by (auto simp: backed_def list_all_iff derive_uses_None)
qed

lemma no_sets_under_empty_grant:
  assumes "initializeServer sets (sc_id cfg) raw fs (Some empty_grant) = (sets', update, traces)"
  shows "getEnabledFeatureSets sets' (sc_id cfg) = []"
proof -
  obtain en where en: "sets' = AList.update (sc_id cfg) \<lparr>declared = declared_of raw, enabled = en\<rparr> sets"
    "set en = {n \<in> set (keys (declared_of raw)). selected fs n \<and>
      (\<forall>d. (n, d) \<in> set (declared_of raw) \<longrightarrow> derive_uses (grant_has empty_grant) d = None)}"
    using initializeServer_state [of sets "sc_id cfg" raw fs "Some empty_grant"] assms by auto
  have "derive_uses (grant_has empty_grant) d \<noteq> None" for d
    by (auto simp: derive_uses_None well_used_def uses_of_def grant_has_def empty_grant_def list_all_iff comp_def)
  then have "set en = {}" unfolding en(2) by auto
  then show ?thesis by (simp add: getEnabledFeatureSets_def en(1))
qed

lemma reduce_first_meet:
  assumes "reduce_first g x = (y, out)"
  shows "set (granted (cn_grant (ex_conn y))) = set (granted (cn_grant (ex_conn x))) \<inter> set (granted g)"
proof (cases "revoked_paths g x = []")
  case True
  then have "set (granted (cn_grant (ex_conn x))) \<subseteq> set (granted g)"
    unfolding revoked_paths_def by (metis (no_types, lifting) effectiveList_set filter_empty_conv set_sort set_empty subsetI)
  moreover have "y = x" using assms True by (simp add: reduce_first_def Let_def)
  ultimately show ?thesis by blast
next
  case False
  then show ?thesis using assms by (auto simp: reduce_first_def Let_def)
qed

text \<open>
  C5: Reduction comes before telling. When a fetched manifest leads to a policy Request, what
  is active at that moment is exactly what was active and is still in the new grant: what is
  lost is gone before the server hears of it, and nothing added is active yet. The feature
  sets enabled then use only what is active.
\<close>

theorem reduced_before_told:
  assumes "xstep cfg h (Fetch_Answer answer now) x = (y, out)" "ex_phase y = Telling t" "ex_phase x \<noteq> Telling t"
  shows "set (granted (cn_grant (ex_conn y))) = set (granted (cn_grant (ex_conn x))) \<inter> set (granted (tl_grant t)) \<and>
    backed cfg y \<and> (\<exists>update. last out = Asked (tl_epoch t) (tl_masked t) (tl_grant t) update)"
proof -
  obtain epoch ds where p: "ex_phase x = Fetching epoch ds" "fetch_answered cfg epoch ds answer now x = (y, out)"
    using assms by (cases "ex_phase x") (auto simp: xstep_def)
  from p(2) show ?thesis
  proof (cases rule: fetch_cases)
    case over
    then show ?thesis using finish_frame(4) assms(2) by fastforce
  next
    case (told t')
    obtain z ms where r: "reduce_first (tl_grant t') x = (z, ms)" by fastforce
    obtain w ns where w: "tell_policy cfg t' now z = (w, ns)" by fastforce
    have y: "y = w" "out = ms @ ns" using told(5) r w by (simp_all add: and_then_def)
    show ?thesis
    proof (cases "derivation_throws (featureSetsRaw (sc_number cfg) (tl_masked t'))")
      case True
      then obtain ks where "finish_refresh now z = (w, ks)"
        using w by (auto simp: tell_policy_def and_then_def split: prod.splits)
      then show ?thesis using finish_frame(4) assms(2) y by fastforce
    next
      case False
      obtain sets up traces where i: "initializeServer (ex_sets z) (sc_id cfg) (featureSetsRaw (sc_number cfg) (tl_masked t'))
          (sc_sets cfg) (Some (cn_grant (ex_conn z))) = (sets, up, traces)"
        by (metis prod_cases3)
      obtain update where w': "w = z\<lparr>ex_sets := sets, ex_phase := Telling t'\<rparr>"
        "ns = map Set_Disabled traces @ [Asked (tl_epoch t') (tl_masked t') (tl_grant t') update]"
        using w False i by (auto simp: tell_policy_def Let_def)
      have "t' = t" using assms(2) y w' by simp
      moreover have "backed cfg w"
        using derived_backed [of "ex_sets z" cfg _ "sc_sets cfg" w up traces] i by (simp add: w')
      moreover have "cn_grant (ex_conn w) = cn_grant (ex_conn z)" by (simp add: w')
      ultimately show ?thesis
        using reduce_first_meet [OF r] y w'(2) by simp
    qed
  qed
qed

lemma and_then_fst: "fst (and_then r f) = fst (f (fst r))"
  by (simp add: and_then_def split: prod.split)

lemma finish_kept [simp]:
  "ex_conn (fst (finish_refresh now x)) = ex_conn x \<and> ex_sets (fst (finish_refresh now x)) = ex_sets x \<and>
   ex_phase (fst (finish_refresh now x)) = Idle"
proof -
  obtain y out where f: "finish_refresh now x = (y, out)" by fastforce
  show ?thesis using finish_frame(1,4,6) [OF f] by (simp add: f)
qed

lemma backed_cong:
  assumes "ex_sets y = ex_sets x" "cn_grant (ex_conn y) = cn_grant (ex_conn x)"
  shows "backed cfg y = backed cfg x"
  unfolding backed_def assms by (rule refl)

lemma adopt_kept [simp]:
  "cn_grant (ex_conn (fst (adopt_manifest cfg t negotiated now x))) = cn_grant (ex_conn x)"
  "ex_sets (fst (adopt_manifest cfg t negotiated now x)) = ex_sets x"
  by (simp_all add: adopt_manifest_def Let_def)

lemma derive_for_derived:
  "\<exists>update traces. initializeServer (ex_sets x) (sc_id cfg) (featureSetsRaw (sc_number cfg) masked) (sc_sets cfg) (Some g) =
     (ex_sets (fst (derive_for cfg masked g x)), update, traces)"
  "ex_conn (fst (derive_for cfg masked g x)) = ex_conn x"
  by (simp_all add: derive_for_def split: prod.split)


text \<open>
  The sample server's push events are withdrawn: its manifest is fetched and told, and the
  policy accepted.
\<close>

definition withdrawing_state :: exchange where
  "withdrawing_state = fst (exchange_run sample_config quiet_host True False False sample_manifest False
     (announcing_inputs @ [Fetch_Answer (Some (JObj [(js ''featureSets'', field sample_manifest (js ''featureSets''))])) 7000]))"

lemma withdrawing_phase: "\<exists>t. ex_phase withdrawing_state = Telling t \<and> tl_epoch t = 0 \<and> granted (tl_grant t) = []"
  "cn_epoch (ex_conn withdrawing_state) = 0"
proof -
  have "case ex_phase withdrawing_state of Telling t \<Rightarrow> tl_epoch t = 0 \<and> granted (tl_grant t) = [] | _ \<Rightarrow> False"
    by code_simp
  then show "\<exists>t. ex_phase withdrawing_state = Telling t \<and> tl_epoch t = 0 \<and> granted (tl_grant t) = []"
    by (auto split: phase.splits)
  show "cn_epoch (ex_conn withdrawing_state) = 0" by code_simp
qed


definition announced_state :: exchange where
  "announced_state = fst announcing_run"

definition withdrawn_manifest :: jsval where
  "withdrawn_manifest = JObj [(js ''featureSets'', field sample_manifest (js ''featureSets''))]"

definition withdrawing_step :: "exchange \<times> moment list" where
  "withdrawing_step = xstep sample_config quiet_host (Fetch_Answer (Some withdrawn_manifest) 7000) announced_state"

theorem reduced_before_told_witness: "granted (cn_grant (ex_conn (fst withdrawing_step))) = []"
proof -
  have "case ex_phase (fst withdrawing_step) of Telling t \<Rightarrow> granted (tl_grant t) = [] | _ \<Rightarrow> False"
    by code_simp
  then obtain t where t: "ex_phase (fst withdrawing_step) = Telling t" "granted (tl_grant t) = []"
    by (auto split: phase.splits)
  have "case ex_phase announced_state of Telling t \<Rightarrow> False | _ \<Rightarrow> True" by code_simp
  then have "ex_phase announced_state \<noteq> Telling t" by auto
  from reduced_before_told [OF _ t(1) this, of sample_config quiet_host "Some withdrawn_manifest" 7000 "snd withdrawing_step"]
  show ?thesis using t(2) by (simp add: withdrawing_step_def)
qed


text \<open>
  C32: One declaration that is \<open>null\<close> stops a refresh after its reduction: the grant has lost
  what the manifest no longer has, but the feature sets it removed stay enabled and no
  receipt of the change is made.
\<close>

definition stopped_step :: "exchange \<times> moment list" where
  "stopped_step = xstep sample_config quiet_host
     (Fetch_Answer (Some (JObj [(js ''featureSets'', JObj [(js ''g'', JNull)])])) 7000) announced_state"


end
