(* ===== verification/Tool_Observe.thy ===== *)
theory Tool_Observe
  imports Tool_Classes Utf8
begin

section \<open>The filter of tools/observe (src/mcpl/tool-lifecycle.ts)\<close>

text \<open>
  \<open>parseToolObserveParams\<close> as the code goes through a server's params, with the first thing
  wrong as the value of the refusal: a message names a place by its rule and member, and \<open>data\<close>
  names the limit that was passed. Then what a rule matches.
\<close>

record tool_observe_match =
  om_tool :: "jsstring option"
  om_serverTool :: "jsstring option"
  om_serverId :: "jsstring option"
  om_conversationId :: "jsstring option"
  om_class :: "tool_class option"

datatype requested = Metadata_Only | All_Arguments | Field_Paths "jsstring list"

record tool_observe_rule =
  or_match :: tool_observe_match
  or_report :: bool
  or_input :: requested

datatype observe_error =
    Params_Not_Object
  | Unknown_Params_Member jsstring
  | Meta_Not_Object
  | Rules_Not_Array
  | Too_Many_Rules
  | Rule_Not_Object nat
  | Unknown_Rule_Member nat jsstring
  | Match_Not_Object nat
  | Unknown_Match_Member nat jsstring
  | Not_A_Class nat
  | Match_Not_String nat jsstring
  | Match_Too_Long nat jsstring
  | Report_Not_Boolean nat
  | Too_Many_Paths nat
  | Path_Not_String nat
  | Path_Too_Long nat
  | Input_Wrong nat

fun limit_data :: "observe_error \<Rightarrow> jsstring option" where
  "limit_data Too_Many_Rules = Some (js ''rules'')"
| "limit_data (Match_Too_Long i k) = Some (js ''stringLength'')"
| "limit_data (Too_Many_Paths i) = Some (js ''pathsPerRule'')"
| "limit_data (Path_Too_Long i) = Some (js ''stringLength'')"
| "limit_data _ = None"

definition LIMIT_rules :: nat where "LIMIT_rules = 256"
definition LIMIT_pathsPerRule :: nat where "LIMIT_pathsPerRule = 256"
definition LIMIT_stringLength :: nat where "LIMIT_stringLength = 256"

definition MATCH_KEYS :: "jsstring list" where
  "MATCH_KEYS = map js [''tool'', ''serverTool'', ''serverId'', ''conversationId'', ''class'']"

definition RULE_KEYS :: "jsstring list" where
  "RULE_KEYS = map js [''match'', ''report'', ''input'']"

text \<open>The iteration over code points, which stops at the limit.\<close>

fun exceeds_from :: "nat \<Rightarrow> nat \<Rightarrow> nat list \<Rightarrow> bool" where
  "exceeds_from n limit [] = False"
| "exceeds_from n limit (p # ps) = (if Suc n > limit then True else exceeds_from (Suc n) limit ps)"

definition exceedsCodePointLimit :: "jsstring \<Rightarrow> nat \<Rightarrow> bool" where
  "exceedsCodePointLimit value limit = exceeds_from 0 limit (code_points value)"

definition empty_match :: tool_observe_match where
  "empty_match = \<lparr>om_tool = None, om_serverTool = None, om_serverId = None, om_conversationId = None, om_class = None\<rparr>"

definition set_match :: "jsstring \<Rightarrow> jsstring \<Rightarrow> tool_observe_match \<Rightarrow> tool_observe_match" where
  "set_match key value m =
     (if key = js ''tool'' then m\<lparr>om_tool := Some value\<rparr>
      else if key = js ''serverTool'' then m\<lparr>om_serverTool := Some value\<rparr>
      else if key = js ''serverId'' then m\<lparr>om_serverId := Some value\<rparr>
      else m\<lparr>om_conversationId := Some value\<rparr>)"

fun parse_match :: "nat \<Rightarrow> jsobject \<Rightarrow> tool_observe_match \<Rightarrow> observe_error + tool_observe_match" where
  "parse_match i [] m = Inr m"
| "parse_match i ((key, value) # entries) m =
     (if key \<notin> set MATCH_KEYS then Inl (Unknown_Match_Member i key)
      else if key = js ''class'' then
        (case value of
           JStr c \<Rightarrow> if isToolClass value then parse_match i entries (m\<lparr>om_class := Some c\<rparr>) else Inl (Not_A_Class i)
         | _ \<Rightarrow> Inl (Not_A_Class i))
      else
        (case value of
           JStr s \<Rightarrow>
             if exceedsCodePointLimit s LIMIT_stringLength then Inl (Match_Too_Long i key)
             else parse_match i entries (set_match key s m)
         | _ \<Rightarrow> Inl (Match_Not_String i key)))"

fun parse_paths :: "nat \<Rightarrow> jsval list \<Rightarrow> jsstring list \<Rightarrow> observe_error + jsstring list" where
  "parse_paths i [] paths = Inr paths"
| "parse_paths i (v # vs) paths =
     (case v of
        JStr path \<Rightarrow>
          if length path = 0 then Inl (Path_Not_String i)
          else if exceedsCodePointLimit path LIMIT_stringLength then Inl (Path_Too_Long i)
          else parse_paths i vs (paths @ [path])
      | _ \<Rightarrow> Inl (Path_Not_String i))"

definition parse_input :: "nat \<Rightarrow> jsval \<Rightarrow> observe_error + requested" where
  "parse_input i v =
     (case v of
        JUndef \<Rightarrow> Inr Metadata_Only
      | JBool b \<Rightarrow> Inr (if b then All_Arguments else Metadata_Only)
      | JArr vs \<Rightarrow>
          if length vs > LIMIT_pathsPerRule then Inl (Too_Many_Paths i)
          else (case parse_paths i vs [] of Inl e \<Rightarrow> Inl e | Inr paths \<Rightarrow> Inr (Field_Paths paths))
      | _ \<Rightarrow> Inl (Input_Wrong i))"

fun is_boolean :: "jsval \<Rightarrow> bool" where
  "is_boolean (JBool b) = True"
| "is_boolean _ = False"

definition parse_rule :: "nat \<Rightarrow> jsval \<Rightarrow> observe_error + tool_observe_rule" where
  "parse_rule i rule =
     (case rule of
        JObj es \<Rightarrow>
          (case find (\<lambda>k. k \<notin> set RULE_KEYS) (keys es) of
             Some k \<Rightarrow> Inl (Unknown_Rule_Member i k)
           | None \<Rightarrow>
               (case own es (js ''match'') of
                  JObj entries \<Rightarrow>
                    (case parse_match i entries empty_match of
                       Inl e \<Rightarrow> Inl e
                     | Inr m \<Rightarrow>
                         (if own es (js ''report'') \<noteq> JUndef \<and> \<not> is_boolean (own es (js ''report''))
                          then Inl (Report_Not_Boolean i)
                          else
                            (case parse_input i (own es (js ''input'')) of
                               Inl e \<Rightarrow> Inl e
                             | Inr input \<Rightarrow>
                                 Inr \<lparr>or_match = m, or_report = (own es (js ''report'') \<noteq> JBool False), or_input = input\<rparr>)))
                | _ \<Rightarrow> Inl (Match_Not_Object i)))
      | _ \<Rightarrow> Inl (Rule_Not_Object i))"

fun parse_rules :: "nat \<Rightarrow> jsval list \<Rightarrow> tool_observe_rule list \<Rightarrow> observe_error + tool_observe_rule list" where
  "parse_rules i [] rules = Inr rules"
| "parse_rules i (v # vs) rules =
     (case parse_rule i v of Inl e \<Rightarrow> Inl e | Inr r \<Rightarrow> parse_rules (Suc i) vs (rules @ [r]))"

text \<open>\<open>None\<close> clears the filter; \<open>Some []\<close> reports nothing.\<close>

definition parseToolObserveParams :: "jsval \<Rightarrow> observe_error + tool_observe_rule list option" where
  "parseToolObserveParams params =
     (case params of
        JUndef \<Rightarrow> Inr None
      | JObj es \<Rightarrow>
          (case find (\<lambda>k. k \<noteq> js ''rules'' \<and> k \<noteq> js ''_meta'') (keys es) of
             Some k \<Rightarrow> Inl (Unknown_Params_Member k)
           | None \<Rightarrow>
               if own es (js ''_meta'') \<noteq> JUndef \<and> \<not> isPlainObject (own es (js ''_meta'')) then Inl Meta_Not_Object
               else
                 (case own es (js ''rules'') of
                    JUndef \<Rightarrow> Inr None
                  | JNull \<Rightarrow> Inr None
                  | JArr raw \<Rightarrow>
                      if length raw > LIMIT_rules then Inl Too_Many_Rules
                      else (case parse_rules 0 raw [] of Inl e \<Rightarrow> Inl e | Inr rules \<Rightarrow> Inr (Some rules))
                  | _ \<Rightarrow> Inl Rules_Not_Array))
      | _ \<Rightarrow> Inl Params_Not_Object)"

subsection \<open>Calls and what a rule matches\<close>

record tool_call_descriptor =
  tc_toolCallId :: jsstring
  tc_inferenceId :: jsstring
  tc_conversationId :: jsstring
  tc_tool :: jsstring
  tc_class :: "tool_class list"
  tc_serverId :: "jsstring option"
  tc_serverTool :: "jsstring option"
  tc_input :: jsval
  tc_parentToolCallId :: "jsstring option"

text \<open>A pattern stated must match; one over a member the call does not have never does.\<close>

definition stated_matches :: "jsstring option \<Rightarrow> jsstring option \<Rightarrow> bool" where
  "stated_matches pattern subject =
     (case pattern of
        None \<Rightarrow> True
      | Some p \<Rightarrow> (case subject of None \<Rightarrow> False | Some s \<Rightarrow> globMatch p s))"

definition ruleMatches :: "tool_observe_match \<Rightarrow> tool_call_descriptor \<Rightarrow> bool" where
  "ruleMatches m call =
     (if \<not> stated_matches (om_tool m) (Some (tc_tool call)) then False
      else if \<not> stated_matches (om_serverTool m) (tc_serverTool call) then False
      else if \<not> stated_matches (om_serverId m) (tc_serverId call) then False
      else if \<not> stated_matches (om_conversationId m) (Some (tc_conversationId call)) then False
      else (case om_class m of None \<Rightarrow> True | Some c \<Rightarrow> c \<in> set (tc_class call)))"

definition anyGlob :: "jsstring list \<Rightarrow> jsstring \<Rightarrow> bool" where
  "anyGlob patterns subject = list_ex (\<lambda>p. globMatch p subject) patterns"

subsection \<open>What an accepted filter is\<close>

lemma exceeds_from_iff: "n \<le> limit \<Longrightarrow> exceeds_from n limit ps \<longleftrightarrow> limit < n + length ps"
  by (induction n limit ps rule: exceeds_from.induct) auto

lemma exceeds_iff [simp]: "exceedsCodePointLimit s limit \<longleftrightarrow> limit < length (code_points s)"
  by (simp add: exceedsCodePointLimit_def exceeds_from_iff)

definition short :: "jsstring option \<Rightarrow> bool" where
  "short s \<longleftrightarrow> (case s of None \<Rightarrow> True | Some t \<Rightarrow> length (code_points t) \<le> LIMIT_stringLength)"

definition good_match :: "tool_observe_match \<Rightarrow> bool" where
  "good_match m \<longleftrightarrow> short (om_tool m) \<and> short (om_serverTool m) \<and> short (om_serverId m) \<and>
     short (om_conversationId m) \<and> (case om_class m of None \<Rightarrow> True | Some c \<Rightarrow> c \<in> set TOOL_CLASSES)"

definition good_path :: "jsstring \<Rightarrow> bool" where
  "good_path p \<longleftrightarrow> p \<noteq> [] \<and> short (Some p)"

definition good_input :: "requested \<Rightarrow> bool" where
  "good_input r \<longleftrightarrow>
     (case r of Field_Paths ps \<Rightarrow> length ps \<le> LIMIT_pathsPerRule \<and> list_all good_path ps | _ \<Rightarrow> True)"

definition good_rule :: "tool_observe_rule \<Rightarrow> bool" where
  "good_rule r \<longleftrightarrow> good_match (or_match r) \<and> good_input (or_input r)"

definition good_filter :: "tool_observe_rule list \<Rightarrow> bool" where
  "good_filter rules \<longleftrightarrow> length rules \<le> LIMIT_rules \<and> list_all good_rule rules"

lemma empty_match_good: "good_match empty_match"
  by (simp add: good_match_def empty_match_def short_def)

lemma set_match_good: "good_match m \<Longrightarrow> short (Some s) \<Longrightarrow> good_match (set_match k s m)"
  by (simp add: good_match_def set_match_def)

lemma parse_match_good: "parse_match i es m = Inr r \<Longrightarrow> good_match m \<Longrightarrow> good_match r"
proof (induction i es m rule: parse_match.induct)
  case (2 i key v entries m)
  show ?case
  proof (cases "key = js ''class''")
    case True
    with 2 show ?thesis by (auto simp: good_match_def split: if_splits jsval.splits)
  next
    case False
    then obtain t where t: "v = JStr t" "length (code_points t) \<le> LIMIT_stringLength"
      "parse_match i entries (set_match key t m) = Inr r" "key \<in> set MATCH_KEYS"
      using 2(3) by (auto split: if_splits jsval.splits)
    then have "good_match (set_match key t m)" using 2(4) by (simp add: set_match_good short_def)
    then show ?thesis using 2(2) [OF _ False t(1) _ t(3)] t by simp
  qed
qed simp

lemma parse_paths_good: "parse_paths i vs ps = Inr r \<Longrightarrow> list_all good_path ps \<Longrightarrow> list_all good_path r"
  by (induction i vs ps rule: parse_paths.induct)
    (auto simp: good_path_def short_def split: if_splits jsval.splits)

lemma parse_paths_length: "parse_paths i vs ps = Inr r \<Longrightarrow> length r = length ps + length vs"
  by (induction i vs ps rule: parse_paths.induct) (auto split: if_splits jsval.splits)

lemma parse_input_good: "parse_input i v = Inr r \<Longrightarrow> good_input r"
proof (cases v)
  case (JArr vs)
  assume "parse_input i v = Inr r"
  then obtain ps where "r = Field_Paths ps" "parse_paths i vs [] = Inr ps" "length vs \<le> LIMIT_pathsPerRule"
    using JArr by (auto simp: parse_input_def split: if_splits sum.splits)
  then show ?thesis
    using parse_paths_good [of i vs "[]" ps] parse_paths_length [of i vs "[]" ps] by (simp add: good_input_def)
qed (auto simp: parse_input_def good_input_def)

lemma parse_rule_good: "parse_rule i v = Inr r \<Longrightarrow> good_rule r"
  by (auto simp: parse_rule_def good_rule_def dest: parse_input_good parse_match_good [OF _ empty_match_good]
      split: jsval.splits option.splits if_splits sum.splits)

lemma parse_rules_good: "parse_rules i vs rs = Inr r \<Longrightarrow> list_all good_rule rs \<Longrightarrow> list_all good_rule r"
  by (induction i vs rs rule: parse_rules.induct) (auto dest: parse_rule_good split: sum.splits)

lemma parse_rules_length: "parse_rules i vs rs = Inr r \<Longrightarrow> length r = length rs + length vs"
  by (induction i vs rs rule: parse_rules.induct) (auto split: sum.splits)

subsection \<open>A filter as a server writes it\<close>

definition member :: "jsstring \<Rightarrow> jsstring option \<Rightarrow> jsobject" where
  "member k v = (case v of None \<Rightarrow> [] | Some s \<Rightarrow> [(k, JStr s)])"

definition render_match :: "tool_observe_match \<Rightarrow> jsobject" where
  "render_match m = member (js ''tool'') (om_tool m) @ member (js ''serverTool'') (om_serverTool m) @
     member (js ''serverId'') (om_serverId m) @ member (js ''conversationId'') (om_conversationId m) @
     member (js ''class'') (om_class m)"

definition render_input :: "requested \<Rightarrow> jsval" where
  "render_input r = (case r of Metadata_Only \<Rightarrow> JBool False | All_Arguments \<Rightarrow> JTrue | Field_Paths ps \<Rightarrow> JArr (map JStr ps))"

definition render_rule :: "tool_observe_rule \<Rightarrow> jsval" where
  "render_rule r = JObj [(js ''match'', JObj (render_match (or_match r))), (js ''report'', JBool (or_report r)),
     (js ''input'', render_input (or_input r))]"

definition render_params :: "tool_observe_rule list option \<Rightarrow> jsval" where
  "render_params rules =
     (case rules of None \<Rightarrow> JObj [] | Some rs \<Rightarrow> JObj [(js ''rules'', JArr (map render_rule rs))])"

lemma match_keys: "js ''tool'' \<in> set MATCH_KEYS" "js ''serverTool'' \<in> set MATCH_KEYS" "js ''serverId'' \<in> set MATCH_KEYS"
  "js ''conversationId'' \<in> set MATCH_KEYS" "js ''class'' \<in> set MATCH_KEYS"
  by (simp_all add: MATCH_KEYS_def)

lemma parse_member:
  assumes "short v" "k \<in> set MATCH_KEYS" "k \<noteq> js ''class''"
  shows "parse_match i (member k v @ es) m = parse_match i es (case v of None \<Rightarrow> m | Some s \<Rightarrow> set_match k s m)"
  using assms by (auto simp: member_def short_def split: option.splits)

lemma parse_class_member:
  assumes "case v of None \<Rightarrow> True | Some c \<Rightarrow> c \<in> set TOOL_CLASSES"
  shows "parse_match i (member (js ''class'') v) m = Inr (case v of None \<Rightarrow> m | Some c \<Rightarrow> m\<lparr>om_class := Some c\<rparr>)"
  using assms match_keys(5) by (auto simp: member_def split: option.splits)

lemma parse_render_match: "good_match m \<Longrightarrow> parse_match i (render_match m) empty_match = Inr m"
  by (cases m)
    (auto simp: good_match_def render_match_def parse_member parse_class_member match_keys set_match_def empty_match_def
      split: option.splits)

lemma parse_render_paths: "list_all good_path ps \<Longrightarrow> parse_paths i (map JStr ps) qs = Inr (qs @ ps)"
  by (induction ps arbitrary: qs) (auto simp: good_path_def short_def)

lemma parse_render_rule: "good_rule r \<Longrightarrow> parse_rule i (render_rule r) = Inr r"
  by (cases r)
    (auto simp: good_rule_def good_input_def parse_rule_def render_rule_def render_input_def parse_input_def own_Cons
      RULE_KEYS_def parse_render_match parse_render_paths split: requested.splits)

lemma parse_render_rules: "list_all good_rule rs \<Longrightarrow> parse_rules i (map render_rule rs) qs = Inr (qs @ rs)"
  by (induction rs arbitrary: i qs) (auto simp: parse_render_rule)

lemma accepted_filter:
  assumes "parseToolObserveParams params = Inr (Some rules)"
  shows "\<exists>raw. parse_rules 0 raw [] = Inr rules \<and> length raw \<le> LIMIT_rules"
proof (cases params)
  case (JObj es)
  have f: "find (\<lambda>k. k \<noteq> js ''rules'' \<and> k \<noteq> js ''_meta'') (keys es) = None"
    using assms JObj by (cases "find (\<lambda>k. k \<noteq> js ''rules'' \<and> k \<noteq> js ''_meta'') (keys es)")
      (simp_all add: parseToolObserveParams_def)
  show ?thesis
  proof (cases "own es (js ''rules'')")
    case (JArr raw)
    then show ?thesis using assms JObj f
      by (auto simp: parseToolObserveParams_def split: if_splits sum.splits)
  qed (use assms JObj f in \<open>simp_all add: parseToolObserveParams_def split: if_splits\<close>)
qed (use assms in \<open>simp_all add: parseToolObserveParams_def\<close>)


text \<open>A member no rule knows is refused, so a rule never matches more than it says.\<close>

lemma unknown_match_member_refused:
  "parse_match i es m = Inr r \<Longrightarrow> set (keys es) \<subseteq> set MATCH_KEYS"
  by (induction i es m rule: parse_match.induct) (auto split: if_splits jsval.splits)

lemma clearing_needs_no_rules:
  assumes "parseToolObserveParams params = Inr None"
  shows "params = JUndef \<or> (field params (js ''rules'') \<in> {JUndef, JNull} \<and> isPlainObject params)"
  using assms by (auto simp: parseToolObserveParams_def split: jsval.splits option.splits if_splits sum.splits)

end
