(* ===== verification/Tool_Arguments.thy ===== *)
theory Tool_Arguments
  imports Js_Values Utf8 "HOL-Library.Sublist"
begin

section \<open>Arguments shown to an observer (src/mcpl/tool-lifecycle.ts)\<close>

text \<open>
  Field selection and bounding. Both build objects member by member, so the place of a new
  member is written out: keys that are array indices come first, in their order, the others
  as they were set. The text of a number is an argument, \<open>number\<close>; the size of a value is
  that of its JSON text in UTF-8.
\<close>

subsection \<open>Members, copies, texts\<close>

definition decimal :: "jsstring \<Rightarrow> nat" where
  "decimal ds = foldl (\<lambda>n c. 10 * n + (unat c - 0x30)) 0 ds"

definition index_of_key :: "jsstring \<Rightarrow> nat option" where
  "index_of_key k =
     (if k \<noteq> [] \<and> list_all (\<lambda>c. 0x30 \<le> c \<and> c \<le> 0x39) k \<and> (hd k \<noteq> 0x30 \<or> length k = 1) \<and> decimal k < 2 ^ 32 - 1
      then Some (decimal k) else None)"

definition index_before :: "nat \<Rightarrow> jsstring \<Rightarrow> bool" where
  "index_before n j \<longleftrightarrow> (case index_of_key j of None \<Rightarrow> False | Some i \<Rightarrow> i < n)"

definition js_put :: "jsstring \<Rightarrow> 'v \<Rightarrow> (jsstring, 'v) jsmap \<Rightarrow> (jsstring, 'v) jsmap" where
  "js_put k v m =
     (if k \<in> set (keys m) then AList.update k v m
      else (case index_of_key k of
          None \<Rightarrow> m @ [(k, v)]
        | Some n \<Rightarrow> takeWhile (\<lambda>(j, _). index_before n j) m @ (k, v) # dropWhile (\<lambda>(j, _). index_before n j) m))"

definition cloneJson :: "jsval \<Rightarrow> jsval" where
  "cloneJson v = (case json_norm v of None \<Rightarrow> JUndef | Some w \<Rightarrow> w)"

fun stringify :: "(rat \<Rightarrow> jsstring) \<Rightarrow> jsval \<Rightarrow> jsstring option" where
  "stringify number JUndef = None"
| "stringify number JNull = Some (js ''null'')"
| "stringify number (JBool b) = Some (if b then js ''true'' else js ''false'')"
| "stringify number (JNum n) = Some (number n)"
| "stringify number (JStr s) = Some (json_string s)"
| "stringify number (JArr vs) =
     Some (0x5B # join_with 0x2C (map (\<lambda>v. case stringify number v of None \<Rightarrow> js ''null'' | Some t \<Rightarrow> t) vs) @ [0x5D])"
| "stringify number (JObj es) =
     Some (0x7B # join_with 0x2C (concat (map (\<lambda>(k, v).
       case stringify number v of None \<Rightarrow> [] | Some t \<Rightarrow> [json_string k @ 0x3A # t]) es)) @ [0x7D])"

definition byteLength :: "(rat \<Rightarrow> jsstring) \<Rightarrow> jsval \<Rightarrow> nat" where
  "byteLength number v = (case stringify number v of None \<Rightarrow> 0 | Some t \<Rightarrow> length (utf8_encode t))"

subsection \<open>Field selection\<close>

fun walk :: "jsval \<Rightarrow> jsstring list \<Rightarrow> jsval" where
  "walk v [] = v"
| "walk (JObj es) (s # ss) = walk (own es s) ss"
| "walk v (s # ss) = JUndef"

fun put_path :: "jsobject \<Rightarrow> jsstring list \<Rightarrow> jsval \<Rightarrow> jsobject" where
  "put_path dst [] w = dst"
| "put_path dst [s] w = js_put s w dst"
| "put_path dst (s # t # ss) w =
     js_put s (JObj (put_path (case own dst s of JObj es \<Rightarrow> es | _ \<Rightarrow> []) (t # ss) w)) dst"

definition select_one :: "jsobject \<Rightarrow> jsstring \<Rightarrow> jsobject \<Rightarrow> jsobject" where
  "select_one input path out =
     (let segs = split_on dot path; src = walk (JObj input) segs
      in if src = JUndef then out else put_path out segs (cloneJson src))"

definition object_of :: "jsval \<Rightarrow> jsobject" where
  "object_of v = (case v of JObj es \<Rightarrow> es | _ \<Rightarrow> [])"

definition selectFields :: "jsobject \<Rightarrow> jsstring list \<Rightarrow> jsobject" where
  "selectFields input paths = object_of (cloneJson (JObj (fold (select_one input) paths [])))"

subsection \<open>Bounding\<close>

datatype place = Member jsstring | Element nat

fun collectStrings :: "jsval \<Rightarrow> (place list \<times> nat) list"
  and collect_elements :: "nat \<Rightarrow> jsval list \<Rightarrow> (place list \<times> nat) list"
  and collect_members :: "jsobject \<Rightarrow> (place list \<times> nat) list" where
  "collectStrings (JArr vs) = collect_elements 0 vs"
| "collectStrings (JObj es) = collect_members es"
| "collectStrings _ = []"
| "collect_elements i [] = []"
| "collect_elements i (v # vs) =
     (case v of JStr s \<Rightarrow> [([Element i], length s)] | _ \<Rightarrow> map (apfst ((#) (Element i))) (collectStrings v)) @
       collect_elements (Suc i) vs"
| "collect_members [] = []"
| "collect_members ((k, v) # es) =
     (case v of JStr s \<Rightarrow> [([Member k], length s)] | _ \<Rightarrow> map (apfst ((#) (Member k))) (collectStrings v)) @
       collect_members es"

fun value_at :: "jsval \<Rightarrow> place list \<Rightarrow> jsval" where
  "value_at v [] = v"
| "value_at (JArr vs) (Element i # ps) = (if i < length vs then value_at (vs ! i) ps else JUndef)"
| "value_at (JObj es) (Member k # ps) = value_at (own es k) ps"
| "value_at v (p # ps) = JUndef"

fun put_at :: "jsval \<Rightarrow> place list \<Rightarrow> jsval \<Rightarrow> jsval" where
  "put_at v [] w = w"
| "put_at (JArr vs) (Element i # ps) w = (if i < length vs then JArr (vs[i := put_at (vs ! i) ps w]) else JArr vs)"
| "put_at (JObj es) (Member k # ps) w = JObj (js_put k (put_at (own es k) ps w) es)"
| "put_at v (p # ps) w = v"

definition prefixOf :: "jsstring \<Rightarrow> rat \<Rightarrow> jsstring" where
  "prefixOf s len =
     (let cut = take (nat \<lfloor>max 0 len\<rfloor>) s
      in if cut \<noteq> [] \<and> high_surrogate (last cut) then butlast cut else cut)"

definition MIN_STRING :: nat where "MIN_STRING = 32"

text \<open>The longest string that may be cut, its place first.\<close>

definition longest_string :: "jsval \<Rightarrow> (place list \<times> jsstring) option" where
  "longest_string v =
     (case sort_key (\<lambda>(p, n). - int n) (filter (\<lambda>(p, n). n > MIN_STRING) (collectStrings v)) of
        [] \<Rightarrow> None
      | (p, n) # _ \<Rightarrow> (case value_at v p of JStr s \<Rightarrow> Some (p, s) | _ \<Rightarrow> None))"

definition cut_target :: "nat \<Rightarrow> rat \<Rightarrow> rat" where
  "cut_target len over = max (of_nat MIN_STRING) (min (of_nat (len div 2)) (of_nat len - over))"

text \<open>The loop over \<open>guard\<close>: whether it returned, and the copy as it left it.\<close>

fun shorten :: "(rat \<Rightarrow> jsstring) \<Rightarrow> rat \<Rightarrow> nat \<Rightarrow> jsval \<Rightarrow> bool \<times> jsval" where
  "shorten number maxBytes 0 v = (False, v)"
| "shorten number maxBytes (Suc left) v =
     (let over = of_nat (byteLength number v) - maxBytes
      in if over \<le> 0 then (True, v)
         else (case longest_string v of
             None \<Rightarrow> (False, v)
           | Some (p, current) \<Rightarrow>
               shorten number maxBytes left (put_at v p (JStr (prefixOf current (cut_target (length current) over))))))"

definition member_size :: "(rat \<Rightarrow> jsstring) \<Rightarrow> jsstring \<times> jsval \<Rightarrow> nat" where
  "member_size number m = byteLength number (JStr (fst m)) + 1 + byteLength number (snd m) + 1"

fun drop_members :: "rat \<Rightarrow> (jsstring \<times> nat) list \<Rightarrow> int \<Rightarrow> jsobject \<Rightarrow> jsobject" where
  "drop_members maxBytes [] bytes es = es"
| "drop_members maxBytes ((key, n) # ms) bytes es =
     (if of_int bytes \<le> maxBytes then es
      else drop_members maxBytes ms (bytes - int n) (AList.delete key es))"

definition members_by_size :: "(rat \<Rightarrow> jsstring) \<Rightarrow> jsobject \<Rightarrow> (jsstring \<times> nat) list" where
  "members_by_size number es = sort_key (\<lambda>(key, n). - int n) (map (\<lambda>m. (fst m, member_size number m)) es)"

definition boundInput :: "(rat \<Rightarrow> jsstring) \<Rightarrow> jsobject \<Rightarrow> rat \<Rightarrow> (jsobject \<times> bool) option" where
  "boundInput number object maxBytes =
     (if of_nat (byteLength number (JObj object)) \<le> maxBytes then Some (object, False)
      else
        (case shorten number maxBytes 256 (cloneJson (JObj object)) of
           (True, v) \<Rightarrow> Some (object_of v, True)
         | (False, v) \<Rightarrow>
             let es = drop_members maxBytes (members_by_size number (object_of v)) (int (byteLength number v)) (object_of v)
             in if of_nat (byteLength number (JObj es)) \<le> maxBytes \<and> length (keys es) > 0 then Some (es, True) else None))"

subsection \<open>What selection returns\<close>

lemma js_put_new:
  assumes "k \<notin> set (keys m)"
  shows "\<exists>a b. m = a @ b \<and> js_put k v m = a @ (k, v) # b"
proof (cases "index_of_key k")
  case None
  then have "js_put k v m = m @ (k, v) # []" using assms by (simp add: js_put_def)
  then show ?thesis by (intro exI [of _ m] exI [of _ "[]"]) simp
next
  case (Some n)
  then show ?thesis using assms takeWhile_dropWhile_id [of "\<lambda>(j, _). index_before n j" m, symmetric]
    by (auto simp: js_put_def simp del: takeWhile_dropWhile_id)
qed

lemma map_of_js_put [simp]: "map_of (js_put k v m) = (map_of m)(k \<mapsto> v)"
proof (cases "k \<in> set (keys m)")
  case False
  obtain a b where ab: "m = a @ b" "js_put k v m = a @ (k, v) # b"
    using js_put_new [OF False, of v] by blast
  have "map_of a k = None" using False ab by (simp add: map_of_eq_None_iff)
  then show ?thesis using ab by (auto simp: map_add_def fun_eq_iff split: option.splits)
qed (simp add: js_put_def)

lemma own_js_put [simp]: "own (js_put k v m) = (own m)(k := v)"
  by (auto simp: own_def fun_eq_iff)

lemma distinct_js_put: "distinct (keys m) \<Longrightarrow> distinct (keys (js_put k v m))"
  using js_put_new [of k m v] by (cases "k \<in> set (keys m)") (auto simp: js_put_def)

lemma set_js_put: "set (js_put k v m) \<subseteq> insert (k, v) (set m)"
proof (cases "k \<in> set (keys m)")
  case True
  have "set (AList.update k v m) \<subseteq> insert (k, v) (set m)"
    by (induction m) auto
  then show ?thesis using True by (simp add: js_put_def)
qed (use js_put_new [of k m v] in auto)

lemma js_put_same: "own m k \<noteq> JUndef \<Longrightarrow> distinct (keys m) \<Longrightarrow> js_put k (own m k) m = m"
proof -
  assume a: "own m k \<noteq> JUndef" "distinct (keys m)"
  then have "k \<in> set (keys m)" by (force simp: own_def split: option.splits dest: map_of_SomeD)
  moreover have "AList.update k (own m k) m = m"
    using a by (induction m) (auto simp: own_Cons split: if_splits)
  ultimately show ?thesis by (simp add: js_put_def)
qed

lemma plain_js_put: "plain (JObj m) \<Longrightarrow> plain v \<Longrightarrow> plain (JObj (js_put k v m))"
  using set_js_put [of k v m] by (auto simp: distinct_js_put list_all_iff)

lemma plain_put_path: "plain (JObj m) \<Longrightarrow> plain w \<Longrightarrow> plain (JObj (put_path m p w))"
proof (induction m p w rule: put_path.induct)
  case (2 dst s w)
  then show ?case using plain_js_put by simp
next
  case (3 dst s t ss w)
  have "plain (JObj (case own dst s of JObj es \<Rightarrow> es | _ \<Rightarrow> []))"
    using plain_own [OF 3(2), of s] by (auto split: jsval.splits)
  from plain_js_put [OF 3(2) 3(1) [OF this 3(3)]] show ?case by simp
qed simp

lemma walk_JUndef [simp]: "walk JUndef q = (if q = [] then JUndef else JUndef)"
  by (cases q) auto

lemma walk_append: "walk v (p @ q) = walk (walk v p) q"
  by (induction v p rule: walk.induct) auto

lemma walk_not_object: "\<not> isPlainObject v \<Longrightarrow> q \<noteq> [] \<Longrightarrow> walk v q = JUndef"
  by (cases v; cases q) auto

lemma walk_object_inside: "walk v (p @ s # q) \<noteq> JUndef \<Longrightarrow> isPlainObject (walk v p)"
  using walk_not_object [of "walk v p" "s # q"] by (auto simp: walk_append)

text \<open>Writing at one path: below it, above it and beside it.\<close>

lemma walk_put_below: "p \<noteq> [] \<Longrightarrow> walk (JObj (put_path m p w)) (p @ q) = walk w q"
  by (induction m p w rule: put_path.induct) auto

lemma walk_put_above:
  "q \<noteq> [] \<Longrightarrow> r \<noteq> [] \<Longrightarrow>
     walk (JObj (put_path m (q @ r) w)) q = JObj (put_path (object_of (walk (JObj m) q)) r w)"
proof (induction q arbitrary: m)
  case (Cons s q)
  show ?case
  proof (cases q)
    case Nil
    then show ?thesis using Cons by (cases r) (auto simp: object_of_def)
  next
    case (Cons t ts)
    have "walk (JObj (put_path (object_of (own m s)) (q @ r) w)) q =
        JObj (put_path (object_of (walk (JObj (object_of (own m s))) q)) r w)"
      using Cons.IH Cons Cons.prems by simp
    moreover have "walk (JObj (object_of (own m s))) q = walk (own m s) q"
      using Cons by (cases "own m s") (auto simp: object_of_def)
    ultimately show ?thesis using Cons by (simp add: object_of_def)
  qed
qed simp

lemma walk_put_beside:
  "\<not> prefix p q \<Longrightarrow> \<not> prefix q p \<Longrightarrow> walk (JObj (put_path m p w)) q = walk (JObj m) q"
proof (induction m p w arbitrary: q rule: put_path.induct)
  case (2 dst s w)
  then show ?case by (cases q) auto
next
  case (3 dst s t ss w)
  then show ?case
  proof (cases q)
    case (Cons u us)
    show ?thesis
    proof (cases "u = s")
      case True
      then have "us \<noteq> []" using 3(3) Cons by auto
      then have "walk (JObj (case own dst s of JObj es \<Rightarrow> es | _ \<Rightarrow> [])) us = walk (own dst s) us"
        by (cases us; cases "own dst s") auto
      then show ?thesis using 3 Cons True by auto
    qed (use Cons in auto)
  qed simp
qed simp

lemma put_path_same:
  "plain (JObj m) \<Longrightarrow> walk (JObj m) p \<noteq> JUndef \<Longrightarrow> put_path m p (walk (JObj m) p) = m"
proof (induction p arbitrary: m rule: induct_list012)
  case (2 s)
  then show ?case by (simp add: js_put_same)
next
  case (3 s t ss)
  then obtain es where es: "own m s = JObj es" by (cases "own m s") auto
  have "put_path es (t # ss) (walk (JObj es) (t # ss)) = es"
    using 3(2) [of es] 3(4) es plain_own [OF 3(3), of s] by simp
  then have "put_path m (s # t # ss) (walk (JObj m) (s # t # ss)) = js_put s (own m s) m"
    using es by simp
  then show ?case using 3(3) es js_put_same [of m s] by simp
qed simp

text \<open>A copy: what it holds at a path is the copy of what was there.\<close>

lemma json_norm_clone: "json_norm v = (if cloneJson v = JUndef then None else Some (cloneJson v))"
  by (cases v) (simp_all add: cloneJson_def)

lemma json_norm_object: "json_norm (JObj es) = Some (JObj (filter (\<lambda>(k, v). v \<noteq> JUndef) (map (\<lambda>(k, v). (k, cloneJson v)) es)))"
proof -
  have "concat (map (\<lambda>(k, v). case json_norm v of None \<Rightarrow> [] | Some y \<Rightarrow> [(k, y)]) es) =
      filter (\<lambda>(k, v). v \<noteq> JUndef) (map (\<lambda>(k, v). (k, cloneJson v)) es)"
    by (induction es) (auto simp: json_norm_clone)
  then show ?thesis by simp
qed

lemma cloneJson_object: "cloneJson (JObj es) = JObj (filter (\<lambda>(k, v). v \<noteq> JUndef) (map (\<lambda>(k, v). (k, cloneJson v)) es))"
  by (simp only: cloneJson_def [of "JObj es"] json_norm_object option.case)

lemma cloneJson_undef [simp]: "cloneJson JUndef = JUndef"
  by (simp add: cloneJson_def)

lemma cloneJson_kind [simp]: "isPlainObject (cloneJson v) \<longleftrightarrow> isPlainObject v" "cloneJson v = JUndef \<longleftrightarrow> v = JUndef"
  by (cases v; simp add: cloneJson_def)+

lemma own_filter_defined: "distinct (keys m) \<Longrightarrow> own (filter (\<lambda>(k, v). v \<noteq> JUndef) m) k = own m k"
proof (induction m)
  case (Cons e m)
  obtain j v where e: "e = (j, v)" by fastforce
  have "own m j = JUndef" if "j = k" using Cons.prems e by (auto simp: own_def map_of_eq_None_iff [THEN iffD2])
  then show ?case using Cons e by (auto simp: own_Cons)
qed simp

lemma own_map: "f JUndef = JUndef \<Longrightarrow> own (map (\<lambda>(k, v). (k, f v)) es) k = f (own es k)"
  by (induction es) (auto simp: own_Cons)

lemma own_clone: "distinct (keys es) \<Longrightarrow> own (object_of (cloneJson (JObj es))) k = cloneJson (own es k)"
proof -
  assume "distinct (keys es)"
  then have "distinct (keys (map (\<lambda>(k, v). (k, cloneJson v)) es))" by (simp add: comp_def case_prod_beta')
  then show ?thesis by (simp add: cloneJson_object object_of_def own_filter_defined own_map)
qed

lemma walk_clone: "plain v \<Longrightarrow> walk (cloneJson v) q = cloneJson (walk v q)"
proof (induction v q rule: walk.induct)
  case (2 es s ss)
  have "walk (cloneJson (JObj es)) (s # ss) = walk (own (object_of (cloneJson (JObj es))) s) ss"
    by (simp add: cloneJson_object object_of_def)
  also have "\<dots> = cloneJson (walk (JObj es) (s # ss))"
    using 2 own_clone [of es s] plain_own [OF 2(2), of s] by simp
  finally show ?case .
qed (simp_all add: cloneJson_def)

lemma plain_norm: "plain v \<Longrightarrow> json_norm v = Some w \<Longrightarrow> plain w"
proof (induction v arbitrary: w rule: plain.induct)
  case (1 xs)
  then show ?case by (auto simp: list_all_iff split: option.split)
next
  case (2 es)
  have "distinct (keys (filter (\<lambda>(k, v). v \<noteq> JUndef) (map (\<lambda>(k, v). (k, cloneJson v)) es)))"
    using 2(2) by (auto intro: distinct_map_filter simp: comp_def case_prod_beta')
  moreover have "plain (cloneJson v)" if "(k, v) \<in> set es" for k v
    using 2 that by (force simp: cloneJson_def list_all_iff split: option.split)
  ultimately show ?case using 2(3) by (auto simp: json_norm_object list_all_iff simp del: json_norm.simps)
qed auto

lemma plain_clone: "plain v \<Longrightarrow> plain (cloneJson v)"
  using plain_norm [of v] by (auto simp: cloneJson_def split: option.split)

text \<open>A copy has no undefined value in it, so a copy of it is itself.\<close>

fun complete :: "jsval \<Rightarrow> bool" where
  "complete JUndef = False"
| "complete (JArr vs) = list_all complete vs"
| "complete (JObj es) = list_all (\<lambda>(k, v). complete v) es"
| "complete _ = True"

lemma norm_complete: "json_norm v = Some w \<Longrightarrow> complete w"
  by (induction v arbitrary: w rule: complete.induct) (auto simp: list_all_iff split: option.splits)

lemma complete_norm: "complete v \<Longrightarrow> json_norm v = Some v"
proof (induction v rule: complete.induct)
  case (2 vs)
  then show ?case by (auto simp: list_all_iff intro!: map_idI)
next
  case (3 es)
  have "concat (map (\<lambda>(k, v). case json_norm v of None \<Rightarrow> [] | Some y \<Rightarrow> [(k, y)]) es) = concat (map (\<lambda>e. [e]) es)"
    using 3 by (intro arg_cong [where f = concat] map_cong) (auto simp: list_all_iff)
  then show ?case by simp
qed auto

lemma clone_clone [simp]: "cloneJson (cloneJson v) = cloneJson v"
  using complete_norm [OF norm_complete, of v] by (auto simp: cloneJson_def split: option.split)

text \<open>
  What has been selected so far: at and below a selected path the input, above one an object,
  elsewhere nothing.
\<close>

definition selection :: "jsval \<Rightarrow> jsstring list list \<Rightarrow> jsobject \<Rightarrow> bool" where
  "selection N ps out \<longleftrightarrow> plain (JObj out) \<and>
     (\<forall>q. q \<noteq> [] \<longrightarrow>
        (if \<exists>p \<in> set ps. prefix p q then walk (JObj out) q = walk N q
         else if \<exists>p \<in> set ps. prefix q p then isPlainObject (walk (JObj out) q)
         else walk (JObj out) q = JUndef))"

lemma selectionD:
  assumes "selection N ps out" "q \<noteq> []"
  shows "p \<in> set ps \<Longrightarrow> prefix p q \<Longrightarrow> walk (JObj out) q = walk N q"
    and "\<not> (\<exists>p \<in> set ps. prefix p q) \<Longrightarrow>
      (if \<exists>p \<in> set ps. prefix q p then isPlainObject (walk (JObj out) q) else walk (JObj out) q = JUndef)"
  using assms unfolding selection_def by (metis (no_types, lifting))+

lemma plain_walk: "plain v \<Longrightarrow> plain (walk v q)"
  by (induction v q rule: walk.induct) (auto dest: plain_own simp del: plain.simps(2))

lemma select_step:
  assumes s: "selection N ps out" and p: "p \<noteq> []" "walk N p \<noteq> JUndef" and N: "plain N"
  shows "selection N (p # ps) (put_path out p (walk N p))"
proof -
  let ?out = "put_path out p (walk N p)"
  have "if \<exists>p \<in> set (p # ps). prefix p q then walk (JObj ?out) q = walk N q
      else if \<exists>p \<in> set (p # ps). prefix q p then isPlainObject (walk (JObj ?out) q)
      else walk (JObj ?out) q = JUndef" if q: "q \<noteq> []" for q
  proof -
    consider (below) r where "q = p @ r" | (above) r where "p = q @ r" "r \<noteq> []" | (beside) "\<not> prefix p q" "\<not> prefix q p"
      by (metis append_Nil2 prefix_def)
    then show ?thesis
    proof cases
      case below
      then have "walk (JObj ?out) q = walk N q" "prefix p q"
        using walk_put_below [OF p(1), of out "walk N p" r] by (simp_all add: walk_append)
      then show ?thesis by auto
    next
      case above
      have w: "walk (JObj ?out) q = JObj (put_path (object_of (walk (JObj out) q)) r (walk N p))"
        using walk_put_above [OF q above(2)] above(1) by simp
      show ?thesis
      proof (cases "\<exists>p' \<in> set ps. prefix p' q")
        case True
        then have same: "walk (JObj out) q = walk N q" using selectionD(1) [OF s q] by blast
        obtain es where es: "walk N q = JObj es"
          using p(2) above walk_not_object [of "walk N q" r] by (cases "walk N q") (auto simp: walk_append)
        have "plain (JObj es)" using plain_walk [OF N, of q] es by simp
        then have "put_path es r (walk N p) = es"
          using put_path_same [of es r] p(2) above es by (simp add: walk_append)
        then show ?thesis using True w same es by (auto simp: object_of_def)
      next
        case False
        have "\<not> prefix p q" using above by (auto simp: prefix_def)
        then show ?thesis using False w above(1) by auto
      qed
    next
      case beside
      have "walk (JObj ?out) q = walk (JObj out) q" using walk_put_beside [OF beside] .
      then show ?thesis using s q beside by (simp add: selection_def)
    qed
  qed
  moreover have "plain (JObj ?out)"
    using s plain_put_path plain_walk [OF N] by (simp add: selection_def del: plain.simps)
  ultimately show ?thesis unfolding selection_def by blast
qed

lemma select_fold:
  assumes "plain (JObj input)" "selection (cloneJson (JObj input)) ps out"
  shows "selection (cloneJson (JObj input))
    (rev (filter (\<lambda>p. walk (JObj input) p \<noteq> JUndef) (map (split_on dot) paths)) @ ps) (fold (select_one input) paths out)"
  using assms(2)
proof (induction paths arbitrary: ps out)
  case (Cons path paths)
  let ?N = "cloneJson (JObj input)"
  let ?p = "split_on dot path"
  show ?case
  proof (cases "walk (JObj input) ?p = JUndef")
    case True
    then show ?thesis using Cons by (simp add: select_one_def)
  next
    case False
    then have "walk ?N ?p \<noteq> JUndef" by (simp add: walk_clone [OF assms(1)])
    then have "selection ?N (?p # ps) (put_path out ?p (walk ?N ?p))"
      using select_step [OF Cons.prems _ _ plain_clone [OF assms(1)], of ?p] by simp
    moreover have "select_one input path out = put_path out ?p (walk ?N ?p)"
      using False by (simp add: select_one_def walk_clone [OF assms(1)] Let_def)
    ultimately show ?thesis using Cons.IH False by simp
  qed
qed simp

lemma selection_empty: "selection N [] []"
  by (auto simp: selection_def neq_Nil_conv)

lemma selectFields_walk:
  assumes "plain (JObj input)"
  shows "walk (JObj (selectFields input paths)) q = cloneJson (walk (JObj (fold (select_one input) paths [])) q)"
proof -
  let ?out = "fold (select_one input) paths []"
  have "plain (JObj ?out)" using select_fold [OF assms selection_empty, of paths] by (simp add: selection_def)
  from walk_clone [OF this, of q] show ?thesis by (simp add: selectFields_def cloneJson_object object_of_def)
qed

text \<open>
  C40: Selection shows what was asked for and no more. At and below a path of the rule the
  result is the copy of the arguments; anything else in it is an object that holds such a
  path.
\<close>

theorem selected_exactly:
  assumes "plain (JObj input)" "q \<noteq> []"
  shows "if \<exists>path \<in> set paths. prefix (split_on dot path) q
    then walk (JObj (selectFields input paths)) q = walk (cloneJson (JObj input)) q
    else walk (JObj (selectFields input paths)) q = JUndef \<or>
      isPlainObject (walk (JObj (selectFields input paths)) q) \<and>
      (\<exists>path \<in> set paths. strict_prefix q (split_on dot path) \<and> walk (JObj input) (split_on dot path) \<noteq> JUndef)"
proof -
  let ?N = "cloneJson (JObj input)"
  let ?ps = "rev (filter (\<lambda>p. walk (JObj input) p \<noteq> JUndef) (map (split_on dot) paths))"
  let ?out = "fold (select_one input) paths []"
  have sel: "selection ?N ?ps ?out" using select_fold [OF assms(1) selection_empty, of paths] by simp
  note w = selectFields_walk [OF assms(1), of paths q]
  show ?thesis
  proof (cases "\<exists>p \<in> set ?ps. prefix p q")
    case True
    then have "walk (JObj ?out) q = walk ?N q" "\<exists>path \<in> set paths. prefix (split_on dot path) q"
      using selectionD(1) [OF sel assms(2)] by auto
    then show ?thesis using w by (simp add: walk_clone [OF assms(1)])
  next
    case False
    show ?thesis
    proof (cases "\<exists>p \<in> set ?ps. prefix q p")
      case True
      then obtain path where path: "path \<in> set paths" "walk (JObj input) (split_on dot path) \<noteq> JUndef" "prefix q (split_on dot path)"
        by auto
      have strict: "strict_prefix q (split_on dot path)" using False path by (auto simp: strict_prefix_def)
      have "isPlainObject (walk (JObj ?out) q)" using selectionD(2) [OF sel assms(2) False] True by simp
      moreover have "\<not> prefix (split_on dot path') q" if "path' \<in> set paths" for path'
      proof
        assume pre: "prefix (split_on dot path') q"
        with False that have u: "walk (JObj input) (split_on dot path') = JUndef" by auto
        obtain r where "split_on dot path = split_on dot path' @ r"
          using prefix_order.trans [OF pre path(3)] by (auto simp: prefix_def)
        then show False using path(2) u by (cases r) (auto simp: walk_append)
      qed
      ultimately show ?thesis using w path strict by auto
    next
      case none: False
      have u: "walk (JObj ?out) q = JUndef" using selectionD(2) [OF sel assms(2) False] none by simp
      have "walk (JObj input) q = JUndef" if path: "path \<in> set paths" "prefix (split_on dot path) q" for path
      proof -
        have "walk (JObj input) (split_on dot path) = JUndef" using False path by auto
        then show ?thesis using path(2) by (auto simp: prefix_def walk_append)
      qed
      then show ?thesis using w u by (auto simp: walk_clone [OF assms(1)])
    qed
  qed
qed

theorem selected_exactly_witness:
  "walk (JObj (selectFields [(js ''a'', JObj [(js ''b'', JTrue), (js ''c'', JNull)])] [js ''a.b''])) [js ''a'', js ''b''] = JTrue"
proof -
  let ?in = "[(js ''a'', JObj [(js ''b'', JTrue), (js ''c'', JNull)])]"
  have split: "split_on dot (js ''a.b'') = [js ''a'', js ''b'']" by code_simp
  have "plain (JObj ?in)" by simp
  from selected_exactly [OF this, of "[js ''a'', js ''b'']" "[js ''a.b'']"] show ?thesis
    by (simp add: split cloneJson_def own_Cons)
qed

subsection \<open>What bounding returns\<close>

text \<open>
  A trimmed value is the value with some strings cut to a prefix; what is left of a string
  that was cut is at least 31 units.
\<close>

inductive trimmed :: "jsval \<Rightarrow> jsval \<Rightarrow> bool" where
  trimmed_same: "trimmed v v"
| trimmed_cut: "prefix s t \<Longrightarrow> 31 \<le> length s \<Longrightarrow> trimmed (JStr s) (JStr t)"
| trimmed_array: "list_all2 trimmed vs ws \<Longrightarrow> trimmed (JArr vs) (JArr ws)"
| trimmed_object: "list_all2 (rel_prod (=) trimmed) es fs \<Longrightarrow> trimmed (JObj es) (JObj fs)"
monos list_all2_mono prod.rel_mono

inductive_cases trimmed_to_array: "trimmed v (JArr ws)"
inductive_cases trimmed_to_object: "trimmed v (JObj fs)"
inductive_cases trimmed_to_string: "trimmed v (JStr t)"
inductive_cases trimmed_of_array: "trimmed (JArr vs) v"
inductive_cases trimmed_of_object: "trimmed (JObj es) v"

lemma trimmed_refl [simp]: "trimmed v v" "list_all2 trimmed vs vs" "list_all2 (rel_prod (=) trimmed) es es"
  by (simp_all add: list_all2_conv_all_nth rel_prod_sel trimmed_same)

lemma trimmed_trans: "trimmed v w \<Longrightarrow> trimmed u v \<Longrightarrow> trimmed u w"
proof (induction v w arbitrary: u rule: trimmed.induct)
  case (trimmed_cut s t)
  then show ?case by (auto elim!: trimmed_to_string intro!: trimmed.trimmed_cut dest: prefix_order.trans)
next
  case (trimmed_array vs ws)
  then obtain us where u: "u = JArr us" "list_all2 trimmed us vs"
    by (auto elim!: trimmed_to_array)
  have "list_all2 trimmed us ws"
    using u(2) trimmed_array(1) by (auto simp: list_all2_conv_all_nth)
  then show ?case using u by (auto intro: trimmed.trimmed_array)
next
  case (trimmed_object es fs)
  then obtain ds where u: "u = JObj ds" "list_all2 (rel_prod (=) trimmed) ds es"
    by (auto elim!: trimmed_to_object)
  have "list_all2 (rel_prod (=) trimmed) ds fs"
    using u(2) trimmed_object(1) by (auto simp: list_all2_conv_all_nth rel_prod_sel)
  then show ?case using u by (auto intro: trimmed.trimmed_object)
qed

lemma own_member: "distinct (keys es) \<Longrightarrow> (k, v) \<in> set es \<Longrightarrow> own es k = v"
  by (simp add: own_def)

text \<open>A collected place holds a string of the length recorded.\<close>

lemma collected_place:
  "(p, n) \<in> set (collectStrings v) \<Longrightarrow> plain v \<Longrightarrow> \<exists>s. value_at v p = JStr s \<and> length s = n"
  "(p, n) \<in> set (collect_elements i vs) \<Longrightarrow> list_all plain vs \<Longrightarrow>
     \<exists>j q s. p = Element (i + j) # q \<and> j < length vs \<and> value_at (vs ! j) q = JStr s \<and> length s = n"
  "(p, n) \<in> set (collect_members es) \<Longrightarrow> list_all (\<lambda>(k, v). plain v) es \<Longrightarrow>
     \<exists>k v q s. p = Member k # q \<and> (k, v) \<in> set es \<and> value_at v q = JStr s \<and> length s = n"
proof (induction v and i vs and es arbitrary: p and p and p rule: collectStrings_collect_elements_collect_members.induct)
  case (1 vs)
  then show ?case by fastforce
next
  case (2 es)
  then obtain k v q s where "p = Member k # q" "(k, v) \<in> set es" "value_at v q = JStr s" "length s = n"
    by fastforce
  then show ?case using 2(3) own_member [of es k v] by simp
next
  case (5 i v vs)
  show ?case
  proof (cases "(p, n) \<in> set (collect_elements (Suc i) vs)")
    case True
    then obtain j q s where "p = Element (Suc i + j) # q" "j < length vs" "value_at (vs ! j) q = JStr s" "length s = n"
      using 5 by fastforce
    then show ?thesis by (intro exI [of _ "Suc j"] exI [of _ q] exI [of _ s]) simp
  next
    case False
    have "\<exists>q s. p = Element i # q \<and> value_at v q = JStr s \<and> length s = n"
    proof (cases v)
      case (JStr s)
      then show ?thesis using False "5.prems" by simp
    qed (use False 5 in auto)
    then show ?thesis by (intro exI [of _ 0]) simp
  qed
next
  case (7 k v es)
  show ?case
  proof (cases "(p, n) \<in> set (collect_members es)")
    case True
    then obtain j w q s where "p = Member j # q" "(j, w) \<in> set es" "value_at w q = JStr s" "length s = n"
      using 7 by fastforce
    then show ?thesis by (intro exI [of _ j] exI [of _ w]) simp
  next
    case False
    have "\<exists>q s. p = Member k # q \<and> value_at v q = JStr s \<and> length s = n"
    proof (cases v)
      case (JStr s)
      then show ?thesis using False "7.prems" by simp
    qed (use False 7 in auto)
    then show ?thesis by (intro exI [of _ k] exI [of _ v]) simp
  qed
qed simp_all

lemma js_put_existing: "own m k \<noteq> JUndef \<Longrightarrow> js_put k v m = AList.update k v m"
  by (force simp: js_put_def own_def split: option.splits dest: map_of_SomeD)

lemma update_pointwise:
  assumes "\<And>v. R v v" "R (w :: jsval) (own m k)" "own m k \<noteq> JUndef"
  shows "list_all2 (rel_prod (=) R) (AList.update k w m) m"
  using assms(2,3) by (induction m) (auto simp: own_Cons list_all2_refl assms(1) rel_prod_sel split: if_splits)

lemma put_at_trimmed:
  assumes "value_at v p = JStr t" "trimmed (JStr s) (JStr t)"
  shows "trimmed (put_at v p (JStr s)) v"
  using assms
proof (induction v p "JStr s" rule: put_at.induct)
  case (2 vs i ps)
  then show ?case
    by (auto intro!: trimmed_array simp: list_all2_conv_all_nth nth_list_update trimmed_same split: if_splits)
next
  case (3 es k ps)
  then have d: "own es k \<noteq> JUndef" by (cases ps) auto
  then show ?case using 3 update_pointwise [where R = trimmed and w = "put_at (own es k) ps (JStr s)" and m = es and k = k]
    by (auto intro!: trimmed_object simp: js_put_existing)
qed auto

lemma trimmed_keys: "list_all2 (rel_prod (=) R) es fs \<Longrightarrow> keys es = keys fs"
  by (induction es fs rule: list_all2_induct) auto

lemma trimmed_plain: "trimmed v w \<Longrightarrow> plain w \<Longrightarrow> plain v"
proof (induction v w rule: trimmed.induct)
  case (trimmed_array vs ws)
  then show ?case by (auto simp: list_all2_conv_all_nth list_all_length)
next
  case (trimmed_object es fs)
  have "keys es = keys fs" by (rule trimmed_keys [OF trimmed_object(1)])
  moreover have "list_all (\<lambda>(k, v). plain v) es"
    using trimmed_object by (auto simp: list_all2_conv_all_nth list_all_length rel_prod_sel split_beta)
  ultimately show ?case using trimmed_object(2) by simp
qed auto

lemma prefixOf_trimmed:
  assumes "MIN_STRING < length t" "of_nat MIN_STRING \<le> len"
  shows "trimmed (JStr (prefixOf t len)) (JStr t)"
proof -
  let ?n = "nat \<lfloor>max 0 len\<rfloor>"
  have "(of_nat MIN_STRING :: rat) \<le> max 0 len" using assms(2) by simp
  then have "int MIN_STRING \<le> \<lfloor>max 0 len\<rfloor>" by (simp add: le_floor_iff)
  then have n: "MIN_STRING \<le> ?n" by linarith
  have "prefix (butlast (take ?n t)) t" "prefix (take ?n t) t"
    by (metis prefix_order.trans prefixeq_butlast take_is_prefix) (rule take_is_prefix)
  then have "prefix (prefixOf t len) t" unfolding prefixOf_def Let_def by (rule if_split [THEN iffD2, OF conjI, OF impI impI])
  moreover have "31 \<le> length (prefixOf t len)"
    using n assms(1) by (auto simp: prefixOf_def Let_def MIN_STRING_def)
  ultimately show ?thesis by (rule trimmed_cut)
qed

lemma longest_string_place:
  assumes "longest_string v = Some (p, t)"
  shows "value_at v p = JStr t"
  using assms by (auto simp: longest_string_def split: list.splits jsval.splits)

lemma longest_string_long:
  assumes "longest_string v = Some (p, t)" "plain v"
  shows "MIN_STRING < length t"
proof -
  let ?s = "sort_key (\<lambda>(p, n). - int n) (filter (\<lambda>(p, n). n > MIN_STRING) (collectStrings v))"
  obtain a as where a: "?s = a # as" using assms(1) by (cases ?s) (auto simp: longest_string_def)
  have "a \<in> set (filter (\<lambda>(p, n). n > MIN_STRING) (collectStrings v))" by (metis a list.set_intros(1) set_sort)
  moreover obtain n where "a = (p, n)"
    using assms(1) a by (cases a) (auto simp: longest_string_def split: jsval.splits)
  ultimately have "(p, n) \<in> set (collectStrings v)" "MIN_STRING < n" by auto
  then show ?thesis using collected_place(1) [OF _ assms(2)] longest_string_place [OF assms(1)] by fastforce
qed

text \<open>There always is a string at the place chosen.\<close>

lemma longest_string_None:
  assumes "plain v"
  shows "longest_string v = None \<longleftrightarrow> (\<forall>(p, n) \<in> set (collectStrings v). n \<le> MIN_STRING)"
proof (cases "sort_key (\<lambda>(p, n). - int n) (filter (\<lambda>(p, n). n > MIN_STRING) (collectStrings v))")
  case Nil
  then have "set (filter (\<lambda>(p, n). n > MIN_STRING) (collectStrings v)) = {}" by (metis list.set(1) set_sort)
  then show ?thesis using Nil by (auto simp: longest_string_def filter_empty_conv not_less)
next
  case (Cons a as)
  have "a \<in> set (filter (\<lambda>(p, n). n > MIN_STRING) (collectStrings v))" by (metis Cons list.set_intros(1) set_sort)
  then obtain p n where a: "a = (p, n)" "(p, n) \<in> set (collectStrings v)" "MIN_STRING < n" by auto
  obtain s where "value_at v p = JStr s" using collected_place(1) [OF a(2) assms] by blast
  then show ?thesis using Cons a by (auto simp: longest_string_def intro!: bexI [OF _ a(2)])
qed

lemma cut_target_least: "of_nat MIN_STRING \<le> cut_target len over"
  by (simp add: cut_target_def)

lemma shorten_trimmed:
  "shorten number maxBytes left v = (fits, w) \<Longrightarrow> plain v \<Longrightarrow>
     trimmed w v \<and> (fits \<longrightarrow> of_nat (byteLength number w) \<le> maxBytes)"
proof (induction number maxBytes left v arbitrary: fits w rule: shorten.induct)
  case (2 number maxBytes left v)
  let ?over = "of_nat (byteLength number v) - maxBytes"
  show ?case
  proof (cases "?over \<le> 0")
    case True
    then show ?thesis using 2(2) by auto
  next
    case False
    show ?thesis
    proof (cases "longest_string v")
      case None
      then show ?thesis using 2(2) False by auto
    next
      case (Some r)
      obtain p t where r: "r = (p, t)" by fastforce
      let ?v = "put_at v p (JStr (prefixOf t (cut_target (length t) ?over)))"
      have "trimmed ?v v"
        using put_at_trimmed [OF longest_string_place prefixOf_trimmed [OF longest_string_long cut_target_least]]
          Some r 2(3) by blast
      moreover have "shorten number maxBytes left ?v = (fits, w)" using 2(2) False Some r by (simp add: Let_def)
      ultimately show ?thesis
        using "2.IH" [OF refl False Some r [symmetric]] trimmed_plain [of ?v v] 2(3) trimmed_trans [of ?v v w] by blast
    qed
  qed
qed simp

lemma drop_members_sub: "set (drop_members maxBytes ms bytes es) \<subseteq> set es"
  by (induction maxBytes ms bytes es rule: drop_members.induct) (auto simp: AList.delete_eq)

text \<open>
  What an observer gets of arguments that are too large fits the bound, and each member of it
  is the member of the arguments with some strings cut: nothing is moved, added or exchanged.
\<close>

lemma bounded_arguments:
  assumes "boundInput number object maxBytes = Some (es, altered)" "plain (JObj object)"
  shows "of_nat (byteLength number (JObj es)) \<le> maxBytes \<and> (\<not> altered \<longrightarrow> es = object) \<and>
    (\<forall>(k, v) \<in> set es. trimmed v (own object k) \<or> trimmed v (own (object_of (cloneJson (JObj object))) k))"
proof (cases "of_nat (byteLength number (JObj object)) \<le> maxBytes")
  case True
  then have "es = object" "\<not> altered" using assms(1) by (auto simp: boundInput_def)
  then show ?thesis using True assms(2) by (auto simp: own_member)
next
  case False
  obtain fits w where s: "shorten number maxBytes 256 (cloneJson (JObj object)) = (fits, w)" by fastforce
  have t: "trimmed w (cloneJson (JObj object))" "fits \<Longrightarrow> of_nat (byteLength number w) \<le> maxBytes"
    using shorten_trimmed [OF s plain_clone [OF assms(2)]] by auto
  obtain fs where fs: "w = JObj fs" "list_all2 (rel_prod (=) trimmed) fs (object_of (cloneJson (JObj object)))"
    using t(1) by (auto simp: cloneJson_object object_of_def elim!: trimmed_to_object)
  have d: "distinct (keys (object_of (cloneJson (JObj object))))"
    using plain_clone [OF assms(2)] by (simp add: cloneJson_object object_of_def)
  have member: "trimmed v (own (object_of (cloneJson (JObj object))) k)" if "(k, v) \<in> set fs" for k v
  proof -
    obtain i where i: "i < length fs" "fs ! i = (k, v)" using \<open>(k, v) \<in> set fs\<close> by (auto simp: in_set_conv_nth)
    let ?e = "object_of (cloneJson (JObj object)) ! i"
    have e: "k = fst ?e" "trimmed v (snd ?e)" "?e \<in> set (object_of (cloneJson (JObj object)))"
      using fs(2) i by (auto simp: list_all2_conv_all_nth rel_prod_sel)
    then have "own (object_of (cloneJson (JObj object))) k = snd ?e"
      using own_member [OF d, of k "snd ?e"] by simp
    then show ?thesis using e by simp
  qed
  show ?thesis
  proof (cases fits)
    case True
    then have "es = fs" "altered" using assms(1) False s fs by (auto simp: boundInput_def object_of_def)
    then show ?thesis using t(2) True fs member by auto
  next
    case unfit: False
    let ?es = "drop_members maxBytes (members_by_size number fs) (int (byteLength number (JObj fs))) fs"
    have "es = ?es" "altered" "of_nat (byteLength number (JObj es)) \<le> maxBytes"
      using assms(1) False s fs unfit by (auto simp: boundInput_def object_of_def Let_def split: if_splits)
    moreover from this(1) have "set es \<subseteq> set fs" using drop_members_sub by simp
    ultimately have "altered" "of_nat (byteLength number (JObj es)) \<le> maxBytes" "set es \<subseteq> set fs" by blast+
    then show ?thesis using member by auto
  qed
qed

definition sample_arguments :: jsobject where
  "sample_arguments = [(js ''a'', JStr (replicate 100 0x61))]"

lemma sample_bounded: "boundInput (\<lambda>n. []) sample_arguments 60 = Some ([(js ''a'', JStr (replicate 50 0x61))], True)"
  by code_simp

end
