(* ===== verification/Tool_Lifecycle.thy ===== *)
theory Tool_Lifecycle
  imports Tool_Observe Tool_Arguments Capability_Grant
begin

section \<open>Notifications about tool calls (src/mcpl/tool-lifecycle.ts)\<close>

text \<open>
  The decision for one call and one connection, and the emitter that tracks calls from their
  dispatch to their terminal. Per operation the emitter reads the live connections, the
  operator's policy for each, the class of a tool and the clock: the record \<open>watching\<close>.
  Whether a connection's send goes through is part of it. The operator's policy is a
  JavaScript value, \<open>JUndef\<close> when left out; its \<open>maxInputBytes\<close> is a number, as its type says.
  Nothing the decision calls throws on the values modelled.
\<close>

definition TOOL_LIFECYCLE_OBSERVE :: jsstring where "TOOL_LIFECYCLE_OBSERVE = js ''toolLifecycle.observe''"
definition TOOL_LIFECYCLE_INPUTS :: jsstring where "TOOL_LIFECYCLE_INPUTS = js ''toolLifecycle.inputs''"
definition DEFAULT_MAX_INPUT_BYTES :: rat where "DEFAULT_MAX_INPUT_BYTES = 16 * 1024"

subsection \<open>The operator's narrowing\<close>

fun is_string :: "jsval \<Rightarrow> bool" where
  "is_string (JStr s) = True"
| "is_string _ = False"

fun isStringArray :: "jsval \<Rightarrow> bool" where
  "isStringArray (JArr vs) = list_all is_string vs"
| "isStringArray _ = False"

fun strings_of :: "jsval \<Rightarrow> jsstring list" where
  "strings_of (JArr vs) = concat (map (\<lambda>v. case v of JStr s \<Rightarrow> [s] | _ \<Rightarrow> []) vs)"
| "strings_of _ = []"

definition classes_admit :: "jsval \<Rightarrow> tool_class list \<Rightarrow> bool" where
  "classes_admit stated cs =
     (case (if stated = JStr (js ''default'') then JArr (map JStr DEFAULT_INPUT_CLASSES) else stated) of
        JArr vs \<Rightarrow> list_ex (\<lambda>c. JStr c \<in> set vs) cs
      | _ \<Rightarrow> False)"

definition narrowingAdmits :: "jsval \<Rightarrow> tool_call_descriptor \<Rightarrow> bool" where
  "narrowingAdmits n call =
     (let tools = field n (js ''tools''); classes = field n (js ''classes''); conversations = field n (js ''conversations'')
      in if tools \<noteq> JUndef \<and> (\<not> isStringArray tools \<or> \<not> anyGlob (strings_of tools) (tc_tool call)) then False
         else if classes \<noteq> JUndef \<and> \<not> classes_admit classes (tc_class call) then False
         else if conversations \<noteq> JUndef \<and>
           (\<not> isStringArray conversations \<or> \<not> anyGlob (strings_of conversations) (tc_conversationId call)) then False
         else True)"

definition observeAdmits :: "jsval \<Rightarrow> tool_call_descriptor \<Rightarrow> bool" where
  "observeAdmits config call =
     (let n = field config (js ''observe'')
      in if n = JUndef then True else if \<not> isPlainObject n then False else narrowingAdmits n call)"

definition states_some :: "jsval \<Rightarrow> bool" where
  "states_some v \<longleftrightarrow> (case v of JArr vs \<Rightarrow> length vs > 0 | _ \<Rightarrow> False)"

definition inputsNarrowingIsUnconditional :: "jsval \<Rightarrow> bool" where
  "inputsNarrowingIsUnconditional n =
     (if \<not> isPlainObject n then True
      else
        (let hasTools = states_some (field n (js ''tools''));
             hasClasses = (field n (js ''classes'') = JStr (js ''default'') \<or> states_some (field n (js ''classes'')))
         in \<not> hasTools \<and> \<not> hasClasses))"

definition inputsExcludedByClass :: "tool_call_descriptor \<Rightarrow> bool" where
  "inputsExcludedByClass call \<longleftrightarrow> length (tc_class call) = 0 \<or> js ''comms'' \<in> set (tc_class call)"

definition inputsAdmit :: "jsval \<Rightarrow> tool_call_descriptor \<Rightarrow> bool" where
  "inputsAdmit config call =
     (let n = field config (js ''inputs'')
      in if inputsNarrowingIsUnconditional n then False
         else if inputsExcludedByClass call then False
         else narrowingAdmits n call)"

subsection \<open>One connection's opening\<close>

datatype tool_phase = Pending | Started | Completed | Failed | Aborted

record tool_lifecycle_params =
  tp_toolCallId :: jsstring
  tp_inferenceId :: jsstring
  tp_conversationId :: jsstring
  tp_tool :: jsstring
  tp_class :: "tool_class list"
  tp_server :: "(jsstring \<times> jsstring option) option"
  tp_phase :: tool_phase
  tp_input :: "jsobject option"
  tp_inputAltered :: bool
  tp_inputWithheld :: bool
  tp_isError :: "bool option"
  tp_durationMs :: "int option"
  tp_parentToolCallId :: "jsstring option"

record tool_lifecycle_observer =
  ob_id :: jsstring
  ob_grant :: "capability_grant option"
  ob_filter :: "tool_observe_rule list option"
  ob_transportEpoch :: "nat option"
  ob_sends :: bool

definition observer_has :: "tool_lifecycle_observer \<Rightarrow> jsstring \<Rightarrow> bool" where
  "observer_has ob path = grant_has (grant_of (Some (ob_grant ob))) path"

definition epoch_of :: "tool_lifecycle_observer \<Rightarrow> nat" where
  "epoch_of ob = (case ob_transportEpoch ob of None \<Rightarrow> 0 | Some e \<Rightarrow> e)"

definition baseParams :: "tool_call_descriptor \<Rightarrow> tool_phase \<Rightarrow> tool_lifecycle_params" where
  "baseParams call phase =
     \<lparr>tp_toolCallId = tc_toolCallId call, tp_inferenceId = tc_inferenceId call,
      tp_conversationId = tc_conversationId call, tp_tool = tc_tool call, tp_class = tc_class call,
      tp_server = map_option (\<lambda>s. (s, tc_serverTool call)) (tc_serverId call), tp_phase = phase,
      tp_input = None, tp_inputAltered = False, tp_inputWithheld = False, tp_isError = None,
      tp_durationMs = None, tp_parentToolCallId = tc_parentToolCallId call\<rparr>"

definition max_bytes :: "jsval \<Rightarrow> rat" where
  "max_bytes config = (case field config (js ''maxInputBytes'') of JNum n \<Rightarrow> n | _ \<Rightarrow> DEFAULT_MAX_INPUT_BYTES)"

text \<open>The rule that decides: none when the filter reports nothing of the call.\<close>

definition filter_request :: "tool_observe_rule list option \<Rightarrow> tool_call_descriptor \<Rightarrow> requested option" where
  "filter_request filtr call =
     (case filtr of
        None \<Rightarrow> Some Metadata_Only
      | Some rules \<Rightarrow>
          (case find (\<lambda>r. ruleMatches (or_match r) call) rules of
             None \<Rightarrow> None
           | Some rule \<Rightarrow> if \<not> or_report rule then None else Some (or_input rule)))"

definition selected_arguments :: "requested \<Rightarrow> jsobject \<Rightarrow> jsobject" where
  "selected_arguments requested args =
     (case requested of Field_Paths paths \<Rightarrow> selectFields args paths | _ \<Rightarrow> object_of (cloneJson (JObj args)))"

definition openingFor ::
  "(rat \<Rightarrow> jsstring) \<Rightarrow> tool_lifecycle_observer \<Rightarrow> jsval \<Rightarrow> tool_call_descriptor \<Rightarrow> tool_phase \<Rightarrow> tool_lifecycle_params option" where
  "openingFor number ob config call phase =
     (if \<not> observer_has ob TOOL_LIFECYCLE_OBSERVE then None
      else if tc_serverId call = Some (ob_id ob) then None
      else if \<not> observeAdmits config call then None
      else
        (case filter_request (ob_filter ob) call of
           None \<Rightarrow> None
         | Some requested \<Rightarrow>
             let params = baseParams call phase
             in if phase \<noteq> Started \<or> requested = Metadata_Only then Some params
                else if \<not> observer_has ob TOOL_LIFECYCLE_INPUTS then Some params
                else if \<not> inputsAdmit config call then Some (params\<lparr>tp_inputWithheld := True\<rparr>)
                else
                  (case boundInput number (selected_arguments requested (object_of (tc_input call))) (max_bytes config) of
                     None \<Rightarrow> Some (params\<lparr>tp_inputWithheld := True\<rparr>)
                   | Some (es, altered) \<Rightarrow> Some (params\<lparr>tp_input := Some es, tp_inputAltered := altered\<rparr>))))"

definition terminalStillAllowed :: "tool_lifecycle_observer \<Rightarrow> jsval \<Rightarrow> tool_call_descriptor \<Rightarrow> bool" where
  "terminalStillAllowed ob config call \<longleftrightarrow> observer_has ob TOOL_LIFECYCLE_OBSERVE \<and> observeAdmits config call"

subsection \<open>The emitter\<close>

record described =
  de_class :: "tool_class list"
  de_serverId :: "jsstring option"
  de_serverTool :: "jsstring option"

record watching =
  wt_observers :: "tool_lifecycle_observer list"
  wt_configFor :: "jsstring \<Rightarrow> jsval"
  wt_describe :: "jsstring \<Rightarrow> described"
  wt_number :: "rat \<Rightarrow> jsstring"
  wt_now :: int

record tracked_call =
  tk_agentName :: jsstring
  tk_modelCallId :: jsstring
  tk_call :: tool_call_descriptor
  tk_scriptInner :: bool
  tk_openedTo :: "(jsstring, nat) jsmap"
  tk_opened :: bool
  tk_startedAt :: int
  tk_failed :: bool

record emitter =
  em_calls :: "(jsstring, tracked_call) jsmap"
  em_recentIds :: "jsstring list"
  em_recentOrder :: "jsstring list"
  em_mintSeq :: nat
  em_dispatching :: "(jsstring \<times> jsstring \<times> jsstring) option"

record model_call =
  mc_id :: jsstring
  mc_name :: jsstring
  mc_input :: jsval

text \<open>A notification that went out: to which connection, on which transport.\<close>

record notification =
  nt_to :: jsstring
  nt_epoch :: nat
  nt_params :: tool_lifecycle_params

definition empty_emitter :: emitter where
  "empty_emitter = \<lparr>em_calls = [], em_recentIds = [], em_recentOrder = [], em_mintSeq = 0, em_dispatching = None\<rparr>"

definition callKey :: "jsstring \<Rightarrow> jsstring \<Rightarrow> jsstring" where
  "callKey agentName callId = agentName @ 0 # callId"

definition alphanumeric :: "code_unit \<Rightarrow> bool" where
  "alphanumeric c \<longleftrightarrow> (0x41 \<le> c \<and> c \<le> 0x5A) \<or> (0x61 \<le> c \<and> c \<le> 0x7A) \<or> (0x30 \<le> c \<and> c \<le> 0x39)"

definition PROVIDER_UNIQUE_ID :: "jsstring \<Rightarrow> bool" where
  "PROVIDER_UNIQUE_ID s \<longleftrightarrow>
     startsWith s (js ''toolu_'') \<and> list_all alphanumeric (drop 6 s) \<and> 20 \<le> length (drop 6 s)"

definition RECENT_ID_WINDOW :: nat where "RECENT_ID_WINDOW = 8192"

fun base36 :: "nat \<Rightarrow> jsstring" where
  "base36 n = (if n < 36 then [] else base36 (n div 36)) @ [(if n mod 36 < 10 then 0x30 + of_nat (n mod 36) else 0x57 + of_nat (n mod 36))]"

declare base36.simps [simp del]

definition anyObserver :: "watching \<Rightarrow> bool" where
  "anyObserver w = list_ex (\<lambda>ob. observer_has ob TOOL_LIFECYCLE_OBSERVE) (wt_observers w)"

definition minted :: "jsstring \<Rightarrow> nat \<Rightarrow> jsstring" where
  "minted modelCallId n = modelCallId @ js ''~h'' @ base36 n"

definition remember_id :: "jsstring \<Rightarrow> emitter \<Rightarrow> emitter" where
  "remember_id callId em =
     (let ids = js_add callId (em_recentIds em); order = em_recentOrder em @ [callId]
      in if length order > RECENT_ID_WINDOW then em\<lparr>em_recentIds := removeAll (hd order) ids, em_recentOrder := tl order\<rparr>
         else em\<lparr>em_recentIds := ids, em_recentOrder := order\<rparr>)"

definition hostCallId :: "jsstring \<Rightarrow> emitter \<Rightarrow> jsstring \<times> emitter" where
  "hostCallId modelCallId em =
     (if \<not> PROVIDER_UNIQUE_ID modelCallId \<or> modelCallId \<in> set (em_recentIds em) then
        (let seq = Suc (em_mintSeq em); callId = minted modelCallId seq
         in (callId, remember_id callId (em\<lparr>em_mintSeq := seq\<rparr>)))
      else (modelCallId, remember_id modelCallId em))"

definition new_call ::
  "watching \<Rightarrow> jsstring \<Rightarrow> jsstring \<Rightarrow> model_call \<Rightarrow> bool \<Rightarrow> jsstring option \<Rightarrow> jsstring \<Rightarrow> tracked_call" where
  "new_call w agentName inferenceId call scriptInner parent toolCallId =
     (let d = wt_describe w (mc_name call)
      in \<lparr>tk_agentName = agentName, tk_modelCallId = mc_id call,
          tk_call = \<lparr>tc_toolCallId = toolCallId, tc_inferenceId = inferenceId, tc_conversationId = agentName,
            tc_tool = mc_name call, tc_class = de_class d, tc_serverId = de_serverId d,
            tc_serverTool = (if de_serverId d = None then None else de_serverTool d),
            tc_input = mc_input call, tc_parentToolCallId = parent\<rparr>,
          tk_scriptInner = scriptInner, tk_openedTo = [], tk_opened = False,
          tk_startedAt = wt_now w, tk_failed = False\<rparr>)"

definition track ::
  "watching \<Rightarrow> jsstring \<Rightarrow> jsstring \<Rightarrow> model_call \<Rightarrow> bool \<Rightarrow> jsstring option \<Rightarrow> emitter \<Rightarrow> emitter" where
  "track w agentName inferenceId call scriptInner parent em =
     (if \<not> anyObserver w then em
      else
        (case hostCallId (mc_id call) em of
           (toolCallId, em) \<Rightarrow>
             em\<lparr>em_calls := AList.update (callKey agentName (mc_id call))
               (new_call w agentName inferenceId call scriptInner parent toolCallId) (em_calls em)\<rparr>))"

definition register :: "watching \<Rightarrow> jsstring \<Rightarrow> jsstring \<Rightarrow> model_call \<Rightarrow> emitter \<Rightarrow> emitter" where
  "register w agentName inferenceId call em =
     track w agentName inferenceId call False None (em\<lparr>em_dispatching := Some (agentName, mc_id call, inferenceId)\<rparr>)"

record script_call_origin =
  so_inferenceId :: jsstring
  so_parentToolCallId :: "jsstring option"

definition registerScriptCall :: "watching \<Rightarrow> jsstring \<Rightarrow> script_call_origin \<Rightarrow> model_call \<Rightarrow> emitter \<Rightarrow> emitter" where
  "registerScriptCall w agentName origin call em =
     track w agentName (so_inferenceId origin) call True (so_parentToolCallId origin) em"

definition scriptOrigin :: "jsstring \<Rightarrow> jsstring \<Rightarrow> emitter \<Rightarrow> script_call_origin option" where
  "scriptOrigin agentName callId em =
     (case map_of (em_calls em) (callKey agentName callId) of
        Some tracked \<Rightarrow>
          Some \<lparr>so_inferenceId = tc_inferenceId (tk_call tracked), so_parentToolCallId = Some (tc_toolCallId (tk_call tracked))\<rparr>
      | None \<Rightarrow>
          (case em_dispatching em of
             Some (a, c, inferenceId) \<Rightarrow>
               if a = agentName \<and> c = callId then Some \<lparr>so_inferenceId = inferenceId, so_parentToolCallId = None\<rparr> else None
           | None \<Rightarrow> None))"

definition retarget :: "watching \<Rightarrow> jsstring \<Rightarrow> jsstring \<Rightarrow> jsstring \<Rightarrow> jsval \<Rightarrow> emitter \<Rightarrow> emitter" where
  "retarget w agentName callId name input em =
     (case map_of (em_calls em) (callKey agentName callId) of
        None \<Rightarrow> em
      | Some tracked \<Rightarrow>
          if tk_opened tracked then em
          else
            (let d = wt_describe w name
             in em\<lparr>em_calls := AList.update (callKey agentName callId)
                  (tracked\<lparr>tk_call := (tk_call tracked)\<lparr>tc_tool := name, tc_class := de_class d, tc_serverId := de_serverId d,
                     tc_serverTool := (if de_serverId d = None then None else de_serverTool d), tc_input := input\<rparr>\<rparr>)
                  (em_calls em)\<rparr>))"

definition refuse :: "jsstring \<Rightarrow> jsstring \<Rightarrow> emitter \<Rightarrow> emitter" where
  "refuse agentName callId em =
     (case map_of (em_calls em) (callKey agentName callId) of
        Some tracked \<Rightarrow>
          if \<not> tk_opened tracked then em\<lparr>em_calls := AList.delete (callKey agentName callId) (em_calls em)\<rparr> else em
      | None \<Rightarrow> em)"

text \<open>The openings, in the order of the connections: what is sent, and to whom it went.\<close>

fun send_openings ::
  "watching \<Rightarrow> tool_call_descriptor \<Rightarrow> tool_lifecycle_observer list \<Rightarrow> (jsstring, nat) jsmap \<Rightarrow>
     (jsstring, nat) jsmap \<times> notification list" where
  "send_openings w call [] openedTo = (openedTo, [])"
| "send_openings w call (ob # obs) openedTo =
     (case openingFor (wt_number w) ob (wt_configFor w (ob_id ob)) call Started of
        None \<Rightarrow> send_openings w call obs openedTo
      | Some params \<Rightarrow>
          if ob_sends ob then
            (case send_openings w call obs (AList.update (ob_id ob) (epoch_of ob) openedTo) of
               (o', out) \<Rightarrow> (o', \<lparr>nt_to = ob_id ob, nt_epoch = epoch_of ob, nt_params = params\<rparr> # out))
          else send_openings w call obs openedTo)"

definition open_call :: "watching \<Rightarrow> jsstring \<Rightarrow> jsstring \<Rightarrow> emitter \<Rightarrow> emitter \<times> notification list" where
  "open_call w agentName callId em =
     (let em = em\<lparr>em_dispatching := None\<rparr>; key = callKey agentName callId
      in case map_of (em_calls em) key of
           None \<Rightarrow> (em, [])
         | Some tracked \<Rightarrow>
             if tk_opened tracked then (em, [])
             else
               (case send_openings w (tk_call tracked) (wt_observers w) (tk_openedTo tracked) of
                  (openedTo, out) \<Rightarrow>
                    if length openedTo = 0 then (em\<lparr>em_calls := AList.delete key (em_calls em)\<rparr>, out)
                    else (em\<lparr>em_calls := AList.update key (tracked\<lparr>tk_opened := True, tk_openedTo := openedTo\<rparr>) (em_calls em)\<rparr>, out)))"

definition markDispatchFailure :: "jsstring \<Rightarrow> jsstring \<Rightarrow> emitter \<Rightarrow> emitter" where
  "markDispatchFailure agentName callId em =
     (case map_of (em_calls em) (callKey agentName callId) of
        None \<Rightarrow> em
      | Some tracked \<Rightarrow> em\<lparr>em_calls := AList.update (callKey agentName callId) (tracked\<lparr>tk_failed := True\<rparr>) (em_calls em)\<rparr>)"

definition terminal_params :: "watching \<Rightarrow> tracked_call \<Rightarrow> tool_phase \<Rightarrow> bool \<Rightarrow> tool_lifecycle_params" where
  "terminal_params w tracked phase isError =
     (let params = baseParams (tk_call tracked) phase;
          params = (if phase = Completed then params\<lparr>tp_isError := Some isError\<rparr> else params)
      in params\<lparr>tp_durationMs := Some (max 0 (wt_now w - tk_startedAt tracked))\<rparr>)"

definition owed :: "watching \<Rightarrow> tracked_call \<Rightarrow> tool_lifecycle_observer \<Rightarrow> bool" where
  "owed w tracked ob \<longleftrightarrow>
     map_of (tk_openedTo tracked) (ob_id ob) = Some (epoch_of ob) \<and>
     terminalStillAllowed ob (wt_configFor w (ob_id ob)) (tk_call tracked)"

definition terminate :: "watching \<Rightarrow> tracked_call \<Rightarrow> tool_phase \<Rightarrow> bool \<Rightarrow> emitter \<Rightarrow> emitter \<times> notification list" where
  "terminate w tracked phase isError em =
     (em\<lparr>em_calls := AList.delete (callKey (tk_agentName tracked) (tk_modelCallId tracked)) (em_calls em)\<rparr>,
      map (\<lambda>ob. \<lparr>nt_to = ob_id ob, nt_epoch = epoch_of ob, nt_params = terminal_params w tracked phase isError\<rparr>)
        (filter (\<lambda>ob. owed w tracked ob \<and> ob_sends ob) (wt_observers w)))"

definition onResult :: "watching \<Rightarrow> jsstring \<Rightarrow> jsstring \<Rightarrow> jsval \<Rightarrow> emitter \<Rightarrow> emitter \<times> notification list" where
  "onResult w agentName callId result em =
     (case map_of (em_calls em) (callKey agentName callId) of
        None \<Rightarrow> (em, [])
      | Some tracked \<Rightarrow>
          if \<not> tk_opened tracked then (em\<lparr>em_calls := AList.delete (callKey agentName callId) (em_calls em)\<rparr>, [])
          else if tk_failed tracked then terminate w tracked Failed False em
          else terminate w tracked Completed
            (field result (js ''isError'') = JTrue \<or> field result (js ''success'') = JBool False) em)"

fun abort_each :: "watching \<Rightarrow> jsstring \<Rightarrow> jsstring list \<Rightarrow> tracked_call list \<Rightarrow> emitter \<Rightarrow> emitter \<times> notification list" where
  "abort_each w agentName ids [] em = (em, [])"
| "abort_each w agentName ids (tracked # rest) em =
     (if tk_scriptInner tracked then abort_each w agentName ids rest em
      else if tk_agentName tracked = agentName \<and> tc_inferenceId (tk_call tracked) \<in> set ids then
        if tk_opened tracked then
          (case terminate w tracked Aborted False em of (em, out) \<Rightarrow>
            (case abort_each w agentName ids rest em of (em, later) \<Rightarrow> (em, out @ later)))
        else abort_each w agentName ids rest
          (em\<lparr>em_calls := AList.delete (callKey (tk_agentName tracked) (tk_modelCallId tracked)) (em_calls em)\<rparr>)
      else abort_each w agentName ids rest em)"

definition abortOpen :: "watching \<Rightarrow> jsstring \<Rightarrow> jsstring list \<Rightarrow> emitter \<Rightarrow> emitter \<times> notification list" where
  "abortOpen w agentName ids em = abort_each w agentName ids (map snd (em_calls em)) em"

definition openCount :: "emitter \<Rightarrow> nat" where
  "openCount em = length (em_calls em)"

datatype emitter_op =
    Register jsstring jsstring model_call
  | Register_Script jsstring script_call_origin model_call
  | Retarget jsstring jsstring jsstring jsval
  | Refuse jsstring jsstring
  | Open_Call jsstring jsstring
  | Mark_Failure jsstring jsstring
  | On_Result jsstring jsstring jsval
  | Abort_Open jsstring "jsstring list"

definition emitter_step :: "watching \<Rightarrow> emitter_op \<Rightarrow> emitter \<Rightarrow> emitter \<times> notification list" where
  "emitter_step w op em =
     (case op of
        Register agentName inferenceId call \<Rightarrow> (register w agentName inferenceId call em, [])
      | Register_Script agentName origin call \<Rightarrow> (registerScriptCall w agentName origin call em, [])
      | Retarget agentName callId name input \<Rightarrow> (retarget w agentName callId name input em, [])
      | Refuse agentName callId \<Rightarrow> (refuse agentName callId em, [])
      | Open_Call agentName callId \<Rightarrow> open_call w agentName callId em
      | Mark_Failure agentName callId \<Rightarrow> (markDispatchFailure agentName callId em, [])
      | On_Result agentName callId result \<Rightarrow> onResult w agentName callId result em
      | Abort_Open agentName ids \<Rightarrow> abortOpen w agentName ids em)"

fun emitter_run :: "(watching \<times> emitter_op) list \<Rightarrow> emitter \<Rightarrow> emitter \<times> notification list" where
  "emitter_run [] em = (em, [])"
| "emitter_run ((w, op) # ops) em =
     (case emitter_step w op em of (em, out) \<Rightarrow> (case emitter_run ops em of (em, later) \<Rightarrow> (em, out @ later)))"

end
