(* ===== verification/Tool_Lifecycle_Proofs.thy ===== *)
theory Tool_Lifecycle_Proofs
  imports Tool_Lifecycle
begin

section \<open>What observers of tool calls are told\<close>

text \<open>
  Authority: a notification goes only where the grant and the operator's narrowing allow, and
  arguments only where both allow arguments. Pairing: a connection is told of an end only
  after it was told of the beginning, on the same transport. Identity: a call's id is unlike
  the last ones handed out.
\<close>

subsection \<open>Authority\<close>

text \<open>What must hold of a connection, its policy and a call for arguments to be shown.\<close>

definition may_show_arguments :: "tool_lifecycle_observer \<Rightarrow> jsval \<Rightarrow> tool_call_descriptor \<Rightarrow> bool" where
  "may_show_arguments ob config call \<longleftrightarrow>
     observer_has ob TOOL_LIFECYCLE_INPUTS \<and> tc_class call \<noteq> [] \<and> js ''comms'' \<notin> set (tc_class call) \<and>
     \<not> inputsNarrowingIsUnconditional (field config (js ''inputs'')) \<and> narrowingAdmits (field config (js ''inputs'')) call"

lemma inputsAdmit_iff:
  "inputsAdmit config call \<longleftrightarrow>
     tc_class call \<noteq> [] \<and> js ''comms'' \<notin> set (tc_class call) \<and>
     \<not> inputsNarrowingIsUnconditional (field config (js ''inputs'')) \<and> narrowingAdmits (field config (js ''inputs'')) call"
  by (simp add: inputsAdmit_def Let_def inputsExcludedByClass_def)

lemma baseParams_fields [simp]:
  "tp_toolCallId (baseParams call phase) = tc_toolCallId call" "tp_phase (baseParams call phase) = phase"
  "tp_input (baseParams call phase) = None" "tp_class (baseParams call phase) = tc_class call"
  by (simp_all add: baseParams_def)

lemma opening_fields:
  assumes "openingFor number ob config call phase = Some params"
  shows "observer_has ob TOOL_LIFECYCLE_OBSERVE" "observeAdmits config call" "tc_serverId call \<noteq> Some (ob_id ob)"
    and "tp_toolCallId params = tc_toolCallId call" "tp_phase params = phase" "tp_class params = tc_class call"
    and "filter_request (ob_filter ob) call \<noteq> None"
  using assms by (auto simp: openingFor_def Let_def split: if_splits option.splits)

lemma opening_input:
  assumes "openingFor number ob config call phase = Some params" "tp_input params = Some es"
  shows "phase = Started" "may_show_arguments ob config call"
    and "\<exists>requested altered. filter_request (ob_filter ob) call = Some requested \<and> requested \<noteq> Metadata_Only \<and>
      boundInput number (selected_arguments requested (object_of (tc_input call))) (max_bytes config) = Some (es, altered)"
  using assms
  by (auto simp: openingFor_def Let_def may_show_arguments_def inputsAdmit_iff split: if_splits option.splits)

lemma plain_object_of: "plain v \<Longrightarrow> plain (JObj (object_of v))"
  by (cases v) (auto simp: object_of_def)

lemma plain_selected:
  assumes "plain (JObj args)"
  shows "plain (JObj (selected_arguments requested args))"
proof (cases requested)
  case (Field_Paths paths)
  have "plain (JObj (fold (select_one args) paths []))"
    using select_fold [OF assms selection_empty, of paths] by (simp add: selection_def)
  then show ?thesis using Field_Paths plain_clone plain_object_of
    by (simp add: selected_arguments_def selectFields_def del: plain.simps)
qed (use assms plain_clone plain_object_of in \<open>simp_all add: selected_arguments_def del: plain.simps\<close>)

lemma clone_selected: "cloneJson (JObj (selected_arguments requested args)) = JObj (selected_arguments requested args)"
proof -
  have "cloneJson (JObj (object_of (cloneJson (JObj es)))) = JObj (object_of (cloneJson (JObj es)))" for es
    using clone_clone [of "JObj es"] by (simp add: cloneJson_object [of es] object_of_def del: clone_clone)
  then show ?thesis by (cases requested) (simp_all add: selected_arguments_def selectFields_def)
qed

text \<open>
  C12: Arguments are shown with the opening of a call alone, only when the filter of the
  connection asks for them and the policy allows them for a call that has a class and none of
  its classes is \<open>comms\<close>; they are the fields asked for with strings cut, within the bound.
\<close>

theorem shown_arguments:
  assumes "openingFor number ob config call phase = Some params" "tp_input params = Some es" "plain (tc_input call)"
  shows "\<exists>requested. filter_request (ob_filter ob) call = Some requested \<and> requested \<noteq> Metadata_Only \<and>
    phase = Started \<and> observer_has ob TOOL_LIFECYCLE_OBSERVE \<and> may_show_arguments ob config call \<and>
    of_nat (byteLength number (JObj es)) \<le> max_bytes config \<and>
    (\<forall>(k, v) \<in> set es. trimmed v (own (selected_arguments requested (object_of (tc_input call))) k))"
proof -
  obtain requested altered where r: "filter_request (ob_filter ob) call = Some requested" "requested \<noteq> Metadata_Only"
    "boundInput number (selected_arguments requested (object_of (tc_input call))) (max_bytes config) = Some (es, altered)"
    using opening_input(3) [OF assms(1,2)] by blast
  note b = bounded_arguments [OF r(3) plain_selected [OF plain_object_of [OF assms(3)]]]
  show ?thesis using r b opening_input(1,2) [OF assms(1,2)] opening_fields(1) [OF assms(1)]
    by (auto simp: clone_selected object_of_def)
qed

definition sample_observer :: tool_lifecycle_observer where
  "sample_observer = \<lparr>ob_id = js ''s'',
     ob_grant = Some \<lparr>granted = [TOOL_LIFECYCLE_OBSERVE, TOOL_LIFECYCLE_INPUTS], deniedPaths = []\<rparr>,
     ob_filter = Some [\<lparr>or_match = empty_match, or_report = True, or_input = All_Arguments\<rparr>],
     ob_transportEpoch = Some 2, ob_sends = True\<rparr>"

definition sample_policy :: jsval where
  "sample_policy = JObj [(js ''inputs'', JObj [(js ''tools'', JArr [JStr (js ''sh*'')])]), (js ''maxInputBytes'', JNum 60)]"

definition sample_call :: tool_call_descriptor where
  "sample_call = \<lparr>tc_toolCallId = js ''t'', tc_inferenceId = js ''i'', tc_conversationId = js ''a'', tc_tool = js ''shell'',
     tc_class = [js ''shell''], tc_serverId = None, tc_serverTool = None, tc_input = JObj sample_arguments,
     tc_parentToolCallId = None\<rparr>"

definition sample_opening :: "tool_lifecycle_params option" where
  "sample_opening = openingFor (\<lambda>n. []) sample_observer sample_policy sample_call Started"

lemma sample_opens: "map_option tp_input sample_opening = Some (Some [(js ''a'', JStr (replicate 50 0x61))])"
  by code_simp

theorem shown_arguments_witness: "may_show_arguments sample_observer sample_policy sample_call"
proof -
  obtain params where p: "openingFor (\<lambda>n. []) sample_observer sample_policy sample_call Started = Some params"
    "tp_input params = Some [(js ''a'', JStr (replicate 50 0x61))]"
    using sample_opens by (auto simp: sample_opening_def)
  have "plain (tc_input sample_call)" by (simp add: sample_call_def sample_arguments_def)
  from shown_arguments [OF p this] show ?thesis by blast
qed

subsection \<open>Pairing\<close>

definition started :: "jsstring \<Rightarrow> nat \<Rightarrow> jsstring \<Rightarrow> notification list \<Rightarrow> nat" where
  "started to e t out = length (filter (\<lambda>n. nt_to n = to \<and> nt_epoch n = e \<and> tp_toolCallId (nt_params n) = t \<and>
     tp_phase (nt_params n) = Started) out)"

definition ended :: "jsstring \<Rightarrow> nat \<Rightarrow> jsstring \<Rightarrow> notification list \<Rightarrow> nat" where
  "ended to e t out = length (filter (\<lambda>n. nt_to n = to \<and> nt_epoch n = e \<and> tp_toolCallId (nt_params n) = t \<and>
     tp_phase (nt_params n) \<in> {Completed, Failed, Aborted}) out)"

text \<open>A tracked call that owes the connection an end.\<close>

definition owes :: "jsstring \<Rightarrow> nat \<Rightarrow> jsstring \<Rightarrow> tracked_call \<Rightarrow> bool" where
  "owes to e t tracked \<longleftrightarrow> tk_opened tracked \<and> map_of (tk_openedTo tracked) to = Some e \<and>
     tc_toolCallId (tk_call tracked) = t"

definition owing :: "jsstring \<Rightarrow> nat \<Rightarrow> jsstring \<Rightarrow> emitter \<Rightarrow> nat" where
  "owing to e t em = length (filter (\<lambda>(k, tracked). owes to e t tracked) (em_calls em))"

definition tidy :: "emitter \<Rightarrow> bool" where
  "tidy em \<longleftrightarrow> distinct (keys (em_calls em)) \<and>
     (\<forall>(k, tracked) \<in> set (em_calls em). k = callKey (tk_agentName tracked) (tk_modelCallId tracked) \<and>
        (tk_opened tracked \<or> tk_openedTo tracked = []))"

text \<open>One step of the account: what is ended was owed, and what is owed was begun.\<close>

definition balanced :: "jsstring \<Rightarrow> nat \<Rightarrow> jsstring \<Rightarrow> emitter \<Rightarrow> emitter \<times> notification list \<Rightarrow> bool" where
  "balanced to e t em r \<longleftrightarrow> tidy (fst r) \<and>
     ended to e t (snd r) + owing to e t (fst r) \<le> started to e t (snd r) + owing to e t em"

lemma started_simps [simp]: "started to e t [] = 0" "started to e t (xs @ ys) = started to e t xs + started to e t ys"
  by (simp_all add: started_def)

lemma ended_simps [simp]: "ended to e t [] = 0" "ended to e t (xs @ ys) = ended to e t xs + ended to e t ys"
  by (simp_all add: ended_def)

lemma length_filter_delete: "length (filter P (AList.delete k m)) \<le> length (filter P m)"
  by (induction m) auto

lemma length_filter_update:
  "length (filter (\<lambda>(k, v). P v) (AList.update k v m)) \<le> length (filter (\<lambda>(k, v). P v) m) + (if P v then 1 else 0)"
  by (induction m) auto

lemma length_filter_update_old:
  assumes "map_of m k = Some old" "P v \<Longrightarrow> P old"
  shows "length (filter (\<lambda>(k, v). P v) (AList.update k v m)) \<le> length (filter (\<lambda>(k, v). P v) m)"
  using assms by (induction m) (auto split: if_splits)

lemma length_filter_delete_old:
  assumes "map_of m k = Some old" "P old"
  shows "length (filter (\<lambda>(k, v). P v) (AList.delete k m)) < length (filter (\<lambda>(k, v). P v) m)"
  using assms length_filter_delete [of "\<lambda>(k, v). P v" k] by (induction m) (auto split: if_splits simp: less_Suc_eq_le)

lemma tidy_delete: "tidy em \<Longrightarrow> tidy (em\<lparr>em_calls := AList.delete k (em_calls em)\<rparr>)"
  unfolding tidy_def by (auto simp: AList.delete_eq distinct_map_filter)

lemma in_update: "(j, v) \<in> set (AList.update k w m) \<Longrightarrow> (j, v) = (k, w) \<or> (j, v) \<in> set m"
  by (induction m) (auto split: if_splits)

lemma tidy_update:
  assumes "tidy em" "k = callKey (tk_agentName tracked) (tk_modelCallId tracked)" "tk_opened tracked \<or> tk_openedTo tracked = []"
  shows "tidy (em\<lparr>em_calls := AList.update k tracked (em_calls em)\<rparr>)"
  using assms by (fastforce simp: tidy_def dest: in_update)

lemma tidy_lookup:
  assumes "tidy em" "map_of (em_calls em) k = Some tracked"
  shows "k = callKey (tk_agentName tracked) (tk_modelCallId tracked)" "tk_opened tracked \<or> tk_openedTo tracked = []"
  using assms by (auto simp: tidy_def dest!: map_of_SomeD)

lemma tidy_calls: "tidy em \<Longrightarrow> em_calls em' = em_calls em \<Longrightarrow> tidy em'"
  by (simp add: tidy_def)

lemma balanced_quiet:
  assumes "tidy em'" "owing to e t em' \<le> owing to e t em"
  shows "balanced to e t em (em', [])"
  using assms by (simp add: balanced_def)

lemma balanced_delete: "tidy em \<Longrightarrow> balanced to e t em (em\<lparr>em_calls := AList.delete k (em_calls em)\<rparr>, [])"
  by (intro balanced_quiet tidy_delete) (simp_all add: owing_def length_filter_delete)

lemma hostCallId_calls [simp]: "em_calls (snd (hostCallId m em)) = em_calls em"
  by (simp add: hostCallId_def remember_id_def Let_def)

lemma new_call_fields [simp]:
  "tk_agentName (new_call w a i call inner parent c) = a" "tk_modelCallId (new_call w a i call inner parent c) = mc_id call"
  "tk_opened (new_call w a i call inner parent c) = False" "tk_openedTo (new_call w a i call inner parent c) = []"
  by (simp_all add: new_call_def Let_def)

lemma balanced_update:
  assumes "tidy em" "k = callKey (tk_agentName tracked) (tk_modelCallId tracked)" "tk_opened tracked \<or> tk_openedTo tracked = []"
    and "owes to e t tracked \<Longrightarrow> \<exists>old. map_of (em_calls em) k = Some old \<and> owes to e t old"
  shows "balanced to e t em (em\<lparr>em_calls := AList.update k tracked (em_calls em)\<rparr>, [])"
proof (rule balanced_quiet)
  show "tidy (em\<lparr>em_calls := AList.update k tracked (em_calls em)\<rparr>)" by (rule tidy_update [OF assms(1-3)])
  show "owing to e t (em\<lparr>em_calls := AList.update k tracked (em_calls em)\<rparr>) \<le> owing to e t em"
  proof (cases "owes to e t tracked")
    case True
    then obtain old where "map_of (em_calls em) k = Some old" "owes to e t old" using assms(4) by blast
    then show ?thesis
      using length_filter_update_old [of "em_calls em" k old "owes to e t" tracked] by (simp add: owing_def)
  next
    case False
    then show ?thesis using length_filter_update [of "owes to e t" k tracked "em_calls em"] by (simp add: owing_def)
  qed
qed

lemma balanced_from:
  assumes "em_calls em1 = em_calls em2" "balanced to e t em1 r"
  shows "balanced to e t em2 r"
  using assms by (simp add: balanced_def owing_def)

lemma balanced_track:
  assumes "tidy em" "em_calls em' = em_calls em"
  shows "balanced to e t em (track w a i call inner parent em', [])"
proof -
  have t: "tidy em'" using assms by (rule tidy_calls)
  obtain c em2 where h: "hostCallId (mc_id call) em' = (c, em2)" by fastforce
  then have same: "em_calls em2 = em_calls em'" using hostCallId_calls [of "mc_id call" em'] by simp
  show ?thesis
  proof (cases "anyObserver w")
    case True
    have "balanced to e t em2 (em2\<lparr>em_calls := AList.update (callKey a (mc_id call)) (new_call w a i call inner parent c) (em_calls em2)\<rparr>, [])"
      by (rule balanced_update) (use tidy_calls [OF t same] in \<open>auto simp: owes_def\<close>)
    then have "balanced to e t em (em2\<lparr>em_calls := AList.update (callKey a (mc_id call)) (new_call w a i call inner parent c) (em_calls em2)\<rparr>, [])"
      by (rule balanced_from [rotated]) (simp add: same assms(2))
    then show ?thesis using True h by (simp add: track_def)
  next
    case False
    then show ?thesis using t assms(2) by (auto intro!: balanced_quiet simp: track_def owing_def)
  qed
qed

lemma send_openings_account:
  "send_openings w call obs openedTo = (openedTo', out) \<Longrightarrow>
     ended to e t out = 0 \<and>
     (map_of openedTo' to = Some e \<and> tc_toolCallId call = t \<longrightarrow> map_of openedTo to = Some e \<or> 0 < started to e t out)"
proof (induction w call obs openedTo arbitrary: openedTo' out rule: send_openings.induct)
  case (2 w call ob obs openedTo)
  show ?case
  proof (cases "openingFor (wt_number w) ob (wt_configFor w (ob_id ob)) call Started")
    case None
    then show ?thesis using 2 by simp
  next
    case (Some params)
    note f = opening_fields [OF Some]
    show ?thesis
    proof (cases "ob_sends ob")
      case True
      obtain o' out' where r: "send_openings w call obs (AList.update (ob_id ob) (epoch_of ob) openedTo) = (o', out')"
        by fastforce
      then have "openedTo' = o'" "out = \<lparr>nt_to = ob_id ob, nt_epoch = epoch_of ob, nt_params = params\<rparr> # out'"
        using "2.prems" Some True by simp_all
      then show ?thesis using "2.IH"(2) [OF Some True r] f(4,5)
        by (auto simp: started_def ended_def split: if_splits)
    next
      case False
      then show ?thesis using 2 Some by simp
    qed
  qed
qed simp

lemma balanced_open:
  assumes "tidy em"
  shows "balanced to e t em (open_call w a c em)"
proof -
  let ?em = "em\<lparr>em_dispatching := None\<rparr>"
  have t: "tidy ?em" by (rule tidy_calls [OF assms]) simp
  have b: "balanced to e t ?em (open_call w a c em)"
  proof (cases "map_of (em_calls em) (callKey a c)")
    case None
    then show ?thesis using t by (auto simp: open_call_def Let_def intro!: balanced_quiet)
  next
    case (Some tracked)
    show ?thesis
    proof (cases "tk_opened tracked")
      case True
      then show ?thesis using t Some by (auto simp: open_call_def Let_def intro!: balanced_quiet)
    next
      case False
      note look = tidy_lookup [OF assms Some]
      have none: "tk_openedTo tracked = []" using look(2) False by simp
      obtain openedTo out where s: "send_openings w (tk_call tracked) (wt_observers w) [] = (openedTo, out)" by fastforce
      note acc = send_openings_account [OF s, of to e t]
      show ?thesis
      proof (cases "openedTo = []")
        case True
        then have r: "open_call w a c em = (?em\<lparr>em_calls := AList.delete (callKey a c) (em_calls em)\<rparr>, out)"
          using Some False none s by (simp add: open_call_def Let_def)
        show ?thesis using balanced_delete [OF t, of to e t "callKey a c"] acc by (simp add: r balanced_def)
      next
        case False
        let ?new = "tracked\<lparr>tk_opened := True, tk_openedTo := openedTo\<rparr>"
        let ?em' = "?em\<lparr>em_calls := AList.update (callKey a c) ?new (em_calls em)\<rparr>"
        have r: "open_call w a c em = (?em', out)"
          using Some False \<open>\<not> tk_opened tracked\<close> none s by (simp add: open_call_def Let_def)
        have tidy': "tidy ?em'" using tidy_update [OF t, of "callKey a c" ?new] look(1) by simp
        have "owing to e t ?em' \<le> owing to e t ?em + (if owes to e t ?new then 1 else 0)"
          using length_filter_update [of "owes to e t" "callKey a c" ?new "em_calls em"] by (simp add: owing_def)
        moreover have "owes to e t ?new \<Longrightarrow> 0 < started to e t out" using acc by (auto simp: owes_def)
        ultimately show ?thesis using acc tidy' by (auto simp: r balanced_def split: if_splits)
      qed
    qed
  qed
  show ?thesis by (rule balanced_from [OF _ b]) simp
qed

lemma terminal_params_fields [simp]:
  "tp_toolCallId (terminal_params w tracked phase b) = tc_toolCallId (tk_call tracked)"
  "tp_phase (terminal_params w tracked phase b) = phase"
  "tp_input (terminal_params w tracked phase b) = None"
  by (simp_all add: terminal_params_def Let_def)

lemma distinct_filter_one:
  assumes "distinct (map f xs)" "\<And>x. x \<in> set xs \<Longrightarrow> P x \<Longrightarrow> f x = c"
  shows "length (filter P xs) \<le> 1"
proof -
  have "set (map f (filter P xs)) \<subseteq> {c}" using assms(2) by auto
  moreover have "distinct (map f (filter P xs))" using assms(1) by (rule distinct_map_filter)
  ultimately have "length (map f (filter P xs)) \<le> card {c}" by (metis card_mono distinct_card finite.intros)
  then show ?thesis by simp
qed

lemma length_filter_implies: "(\<And>x. x \<in> set xs \<Longrightarrow> P x \<Longrightarrow> Q x) \<Longrightarrow> length (filter P xs) \<le> length (filter Q xs)"
  by (induction xs) (auto intro: le_SucI)

lemma terminal_account:
  assumes "distinct (map ob_id (wt_observers w))" "terminate w tracked phase b em = (em', out)" "tk_opened tracked"
  shows "ended to e t out \<le> (if owes to e t tracked then 1 else 0)"
proof -
  let ?P = "\<lambda>ob. ob_id ob = to \<and> epoch_of ob = e \<and> tc_toolCallId (tk_call tracked) = t \<and> owed w tracked ob \<and> ob_sends ob"
  have "ended to e t out \<le> length (filter ?P (wt_observers w))"
    using assms(2) by (auto simp: terminate_def ended_def filter_map comp_def intro!: length_filter_implies)
  also have "\<dots> \<le> (if owes to e t tracked then 1 else 0)"
  proof (cases "owes to e t tracked")
    case True
    then show ?thesis using distinct_filter_one [OF assms(1), of ?P to] by auto
  next
    case False
    then have "filter ?P (wt_observers w) = []" using assms(3) by (auto simp: filter_empty_conv owes_def owed_def)
    then show ?thesis by simp
  qed
  finally show ?thesis .
qed

lemma balanced_terminate:
  assumes "distinct (map ob_id (wt_observers w))" "tidy em" "tk_opened tracked"
    and "map_of (em_calls em) (callKey (tk_agentName tracked) (tk_modelCallId tracked)) = Some tracked"
  shows "balanced to e t em (terminate w tracked phase b em)"
proof -
  let ?k = "callKey (tk_agentName tracked) (tk_modelCallId tracked)"
  obtain em' out where r: "terminate w tracked phase b em = (em', out)" by fastforce
  then have em': "em' = em\<lparr>em_calls := AList.delete ?k (em_calls em)\<rparr>" by (simp add: terminate_def)
  have "owing to e t em' + (if owes to e t tracked then 1 else 0) \<le> owing to e t em"
    using length_filter_delete_old [OF assms(4), of "owes to e t"] length_filter_delete [of "\<lambda>(k, v). owes to e t v" ?k "em_calls em"]
    by (auto simp: em' owing_def)
  then show ?thesis using terminal_account [OF assms(1) r assms(3), of to e t] tidy_delete [OF assms(2), of ?k]
    by (simp add: balanced_def r em')
qed

lemma balanced_result:
  assumes "distinct (map ob_id (wt_observers w))" "tidy em"
  shows "balanced to e t em (onResult w a c result em)"
proof (cases "map_of (em_calls em) (callKey a c)")
  case None
  then show ?thesis using assms by (auto simp: onResult_def intro: balanced_quiet)
next
  case (Some tracked)
  note k = tidy_lookup(1) [OF assms(2) Some]
  show ?thesis
  proof (cases "tk_opened tracked")
    case True
    have "balanced to e t em (terminate w tracked phase b em)" for phase b
      using balanced_terminate [OF assms True] Some k by simp
    then show ?thesis using Some True by (simp add: onResult_def)
  next
    case False
    then show ?thesis using Some balanced_delete [OF assms(2)] by (simp add: onResult_def)
  qed
qed

lemma balanced_then:
  assumes "balanced to e t em (em1, out)" "balanced to e t em1 (em2, later)"
  shows "balanced to e t em (em2, out @ later)"
  using assms by (simp add: balanced_def)

abbreviation key_of :: "tracked_call \<Rightarrow> jsstring" where
  "key_of tracked \<equiv> callKey (tk_agentName tracked) (tk_modelCallId tracked)"

lemma still_there:
  assumes "distinct (map key_of (tracked # rest))" "\<forall>tr \<in> set (tracked # rest). map_of m (key_of tr) = Some tr"
  shows "distinct (map key_of rest)" "\<forall>tr \<in> set rest. map_of (AList.delete (key_of tracked) m) (key_of tr) = Some tr"
proof -
  show "distinct (map key_of rest)" using assms(1) by simp
  show "\<forall>tr \<in> set rest. map_of (AList.delete (key_of tracked) m) (key_of tr) = Some tr"
  proof
    fix tr assume tr: "tr \<in> set rest"
    have "key_of tracked \<notin> key_of ` set rest" using assms(1) by simp
    moreover have "key_of tr \<in> key_of ` set rest" using tr by (rule imageI)
    ultimately have "key_of tr \<noteq> key_of tracked" by metis
    then show "map_of (AList.delete (key_of tracked) m) (key_of tr) = Some tr"
      using bspec [OF assms(2), of tr] tr by simp
  qed
qed

lemma balanced_abort:
  assumes "distinct (map ob_id (wt_observers w))"
  shows "tidy em \<Longrightarrow> distinct (map key_of rest) \<Longrightarrow> \<forall>tr \<in> set rest. map_of (em_calls em) (key_of tr) = Some tr \<Longrightarrow>
    balanced to e t em (abort_each w a ids rest em)"
proof (induction rest arbitrary: em)
  case Nil
  then show ?case by (simp add: balanced_quiet)
next
  case (Cons tracked rest)
  let ?gone = "em\<lparr>em_calls := AList.delete (key_of tracked) (em_calls em)\<rparr>"
  let ?hit = "tk_agentName tracked = a \<and> tc_inferenceId (tk_call tracked) \<in> set ids"
  note kept = still_there [OF Cons.prems(2,3)]
  have skip: "balanced to e t em (abort_each w a ids rest em)"
    using Cons.IH [OF Cons.prems(1) kept(1)] Cons.prems(3) by simp
  have gone: "balanced to e t ?gone (abort_each w a ids rest ?gone)"
    using Cons.IH [OF tidy_delete [OF Cons.prems(1)] kept(1)] kept(2) by simp
  obtain em2 later where r: "abort_each w a ids rest ?gone = (em2, later)" by fastforce
  show ?case
  proof (cases "tk_scriptInner tracked \<or> \<not> ?hit")
    case True
    then have "abort_each w a ids (tracked # rest) em = abort_each w a ids rest em" by auto
    then show ?thesis using skip by simp
  next
    case False
    show ?thesis
    proof (cases "tk_opened tracked")
      case True
      obtain out where t: "terminate w tracked Aborted False em = (?gone, out)" by (simp add: terminate_def)
      have "map_of (em_calls em) (key_of tracked) = Some tracked" using Cons.prems(3) by simp
      from balanced_terminate [OF assms Cons.prems(1) True this, of to e t Aborted False]
      have "balanced to e t em (?gone, out)" by (simp only: t)
      from balanced_then [OF this gone [unfolded r]] have "balanced to e t em (em2, out @ later)" .
      moreover have "abort_each w a ids (tracked # rest) em = (em2, out @ later)"
        using False True t r by simp
      ultimately show ?thesis by simp
    next
      case unopened: False
      have "abort_each w a ids (tracked # rest) em = (em2, later)" using False unopened r by simp
      then show ?thesis using balanced_then [OF balanced_delete [OF Cons.prems(1)] gone [unfolded r]] by simp
    qed
  qed
qed

lemma tidy_snapshot:
  assumes "tidy em"
  shows "distinct (map key_of (map snd (em_calls em)))" "\<forall>tr \<in> set (map snd (em_calls em)). map_of (em_calls em) (key_of tr) = Some tr"
proof -
  have "map key_of (map snd (em_calls em)) = keys (em_calls em)"
    using assms by (auto simp: tidy_def)
  then show "distinct (map key_of (map snd (em_calls em)))" using assms by (simp only: tidy_def)
  show "\<forall>tr \<in> set (map snd (em_calls em)). map_of (em_calls em) (key_of tr) = Some tr"
    using assms by (fastforce simp: tidy_def)
qed

lemma balanced_step:
  assumes "distinct (map ob_id (wt_observers w))" "tidy em"
  shows "balanced to e t em (emitter_step w op em)"
proof (cases op)
  case (Register a i call)
  then show ?thesis using balanced_track [OF assms(2)] by (simp add: emitter_step_def register_def)
next
  case (Register_Script a origin call)
  then show ?thesis using balanced_track [OF assms(2) refl] by (simp add: emitter_step_def registerScriptCall_def)
next
  case (Retarget a c name input)
  show ?thesis
  proof (cases "map_of (em_calls em) (callKey a c)")
    case (Some tracked)
    note look = tidy_lookup [OF assms(2) Some]
    show ?thesis
    proof (cases "tk_opened tracked")
      case False
      have "balanced to e t em (em\<lparr>em_calls := AList.update (callKey a c) (tracked\<lparr>tk_call := d\<rparr>) (em_calls em)\<rparr>, [])" for d
        by (rule balanced_update [OF assms(2)]) (use look False in \<open>auto simp: owes_def\<close>)
      then show ?thesis using Retarget Some False by (simp add: emitter_step_def retarget_def Let_def)
    qed (use Retarget Some assms in \<open>auto simp: emitter_step_def retarget_def intro: balanced_quiet\<close>)
  qed (use Retarget assms in \<open>auto simp: emitter_step_def retarget_def intro: balanced_quiet\<close>)
next
  case (Refuse a c)
  then show ?thesis using balanced_delete [OF assms(2)] assms(2)
    by (auto simp: emitter_step_def refuse_def intro: balanced_quiet split: option.split)
next
  case (Mark_Failure a c)
  show ?thesis
  proof (cases "map_of (em_calls em) (callKey a c)")
    case (Some tracked)
    note look = tidy_lookup [OF assms(2) Some]
    have "balanced to e t em (em\<lparr>em_calls := AList.update (callKey a c) (tracked\<lparr>tk_failed := True\<rparr>) (em_calls em)\<rparr>, [])"
      by (rule balanced_update [OF assms(2)]) (use look Some in \<open>auto simp: owes_def\<close>)
    then show ?thesis using Mark_Failure Some by (simp add: emitter_step_def markDispatchFailure_def)
  qed (use Mark_Failure assms in \<open>auto simp: emitter_step_def markDispatchFailure_def intro: balanced_quiet\<close>)
next
  case (Open_Call a c)
  then show ?thesis using balanced_open [OF assms(2)] by (simp add: emitter_step_def)
next
  case (On_Result a c result)
  then show ?thesis using balanced_result [OF assms] by (simp add: emitter_step_def)
next
  case (Abort_Open a ids)
  then show ?thesis using balanced_abort [OF assms tidy_snapshot [OF assms(2)]] assms(2)
    by (simp add: emitter_step_def abortOpen_def)
qed

lemma balanced_run:
  "list_all (\<lambda>(w, op). distinct (map ob_id (wt_observers w))) ops \<Longrightarrow> tidy em \<Longrightarrow> balanced to e t em (emitter_run ops em)"
proof (induction ops em rule: emitter_run.induct)
  case (2 w op ops em)
  obtain em1 out where s: "emitter_step w op em = (em1, out)" by fastforce
  obtain em2 later where r: "emitter_run ops em1 = (em2, later)" by fastforce
  have b: "balanced to e t em (em1, out)" using balanced_step [of w em to e t op] 2(2,3) s by simp
  then have "balanced to e t em1 (em2, later)" using 2(1) [OF s [symmetric]] 2(2) r by (simp add: balanced_def)
  from balanced_then [OF b this] show ?case using s r by simp
qed (auto intro: balanced_quiet)

text \<open>
  C19: However calls, results, refusals and aborted streams come, and however connections come
  and go meanwhile, a connection is sent no more ends of a call than beginnings of it on the
  same transport: at most one terminal for each opening, and none without.
\<close>

theorem terminals_are_paired:
  assumes "list_all (\<lambda>(w, op). distinct (map ob_id (wt_observers w))) ops"
  shows "ended to e t (snd (emitter_run ops empty_emitter)) \<le> started to e t (snd (emitter_run ops empty_emitter))"
proof -
  have "tidy empty_emitter" by (simp add: tidy_def empty_emitter_def)
  from balanced_run [OF assms this, of to e t] show ?thesis
    by (simp add: balanced_def owing_def empty_emitter_def)
qed

definition sample_watching :: watching where
  "sample_watching = \<lparr>wt_observers = [sample_observer], wt_configFor = (\<lambda>s. sample_policy),
     wt_describe = (\<lambda>n. \<lparr>de_class = [js ''shell''], de_serverId = None, de_serverTool = None\<rparr>),
     wt_number = (\<lambda>n. []), wt_now = 0\<rparr>"

definition sample_ops :: "(watching \<times> emitter_op) list" where
  "sample_ops = map (Pair sample_watching)
     [Register (js ''a'') (js ''i'') \<lparr>mc_id = js ''c'', mc_name = js ''shell'', mc_input = JObj []\<rparr>,
      Open_Call (js ''a'') (js ''c''), On_Result (js ''a'') (js ''c'') JUndef, On_Result (js ''a'') (js ''c'') JUndef]"

lemma sample_ends: "ended (js ''s'') 2 (js ''c~h1'') (snd (emitter_run sample_ops empty_emitter)) = 1"
  by code_simp

theorem terminals_are_paired_witness:
  "0 < started (js ''s'') 2 (js ''c~h1'') (snd (emitter_run sample_ops empty_emitter))"
proof -
  have "list_all (\<lambda>(w, op). distinct (map ob_id (wt_observers w))) sample_ops"
    by (simp add: sample_ops_def sample_watching_def)
  from terminals_are_paired [OF this, of "js ''s''" 2 "js ''c~h1''"] show ?thesis using sample_ends by simp
qed

text \<open>
  A model call id used again while its first call is open takes that call's place: the
  connections told of the first are never told of its end.
\<close>

definition reused_ops :: "(watching \<times> emitter_op) list" where
  "reused_ops = map (Pair sample_watching)
     [Register (js ''a'') (js ''i'') \<lparr>mc_id = js ''c'', mc_name = js ''shell'', mc_input = JObj []\<rparr>,
      Open_Call (js ''a'') (js ''c''),
      Register (js ''a'') (js ''j'') \<lparr>mc_id = js ''c'', mc_name = js ''shell'', mc_input = JObj []\<rparr>,
      Open_Call (js ''a'') (js ''c''), On_Result (js ''a'') (js ''c'') JUndef, On_Result (js ''a'') (js ''c'') JUndef,
      Abort_Open (js ''a'') [js ''i'', js ''j'']]"

lemma reused_id_loses_terminal:
  "case emitter_run reused_ops empty_emitter of
     (em, out) \<Rightarrow> started (js ''s'') 2 (js ''c~h1'') out = 1 \<and> ended (js ''s'') 2 (js ''c~h1'') out = 0 \<and> em_calls em = []"
  by code_simp

subsection \<open>What any operation sends\<close>

text \<open>What may go to a connection.\<close>

definition entitled :: "watching \<Rightarrow> notification \<Rightarrow> bool" where
  "entitled w n \<longleftrightarrow>
     (\<exists>ob \<in> set (wt_observers w). ob_id ob = nt_to n \<and> epoch_of ob = nt_epoch n \<and> observer_has ob TOOL_LIFECYCLE_OBSERVE \<and>
        (tp_input (nt_params n) \<noteq> None \<longrightarrow>
           tp_phase (nt_params n) = Started \<and> observer_has ob TOOL_LIFECYCLE_INPUTS \<and>
           tp_class (nt_params n) \<noteq> [] \<and> js ''comms'' \<notin> set (tp_class (nt_params n)) \<and>
           \<not> inputsNarrowingIsUnconditional (field (wt_configFor w (ob_id ob)) (js ''inputs''))))"

lemma opening_entitled:
  assumes "openingFor (wt_number w) ob (wt_configFor w (ob_id ob)) call Started = Some params" "ob \<in> set (wt_observers w)"
  shows "entitled w \<lparr>nt_to = ob_id ob, nt_epoch = epoch_of ob, nt_params = params\<rparr>"
  unfolding entitled_def
  using opening_fields(1,5,6) [OF assms(1)] opening_input(2) [OF assms(1)] assms(2)
  by (auto simp: may_show_arguments_def intro!: bexI [of _ ob])

lemma openings_entitled:
  "send_openings w call obs openedTo = (openedTo', out) \<Longrightarrow> set obs \<subseteq> set (wt_observers w) \<Longrightarrow> list_all (entitled w) out"
proof (induction w call obs openedTo arbitrary: openedTo' out rule: send_openings.induct)
  case (2 w call ob obs openedTo)
  show ?case
  proof (cases "openingFor (wt_number w) ob (wt_configFor w (ob_id ob)) call Started")
    case None
    then show ?thesis using 2 by simp
  next
    case (Some params)
    show ?thesis
    proof (cases "ob_sends ob")
      case True
      obtain o' out' where r: "send_openings w call obs (AList.update (ob_id ob) (epoch_of ob) openedTo) = (o', out')"
        by fastforce
      then have "out = \<lparr>nt_to = ob_id ob, nt_epoch = epoch_of ob, nt_params = params\<rparr> # out'"
        using "2.prems" Some True by simp
      then show ?thesis using "2.IH"(2) [OF Some True r] opening_entitled [OF Some] "2.prems"(2) by simp
    next
      case False
      then show ?thesis using 2 Some by simp
    qed
  qed
qed simp

lemma terminals_entitled: "list_all (entitled w) (snd (terminate w tracked phase b em))"
  by (auto simp: terminate_def list_all_iff entitled_def owed_def terminalStillAllowed_def)

lemma aborts_entitled: "list_all (entitled w) (snd (abort_each w a ids rest em))"
proof (induction rest arbitrary: em)
  case (Cons tracked rest)
  obtain em1 out where t: "terminate w tracked Aborted False em = (em1, out)" by fastforce
  have "list_all (entitled w) out" using terminals_entitled [of w tracked Aborted False em] t by simp
  then show ?case using Cons t by (simp split: prod.split) (metis snd_conv)
qed simp

text \<open>
  C11: Whatever the emitter is asked to do, every notification it sends goes to a connection whose
  grant at that moment has the observe path, and arguments are in it only if it is an
  opening, the grant has the inputs path, the operator stated which tools, and the call has
  a class and is not \<open>comms\<close>.
\<close>

theorem notifications_entitled: "list_all (entitled w) (snd (emitter_step w op em))"
proof (cases op)
  case (Open_Call a c)
  show ?thesis
  proof (cases "map_of (em_calls em) (callKey a c)")
    case (Some tracked)
    obtain o' out where s: "send_openings w (tk_call tracked) (wt_observers w) (tk_openedTo tracked) = (o', out)" by fastforce
    show ?thesis using openings_entitled [OF s] Some s Open_Call by (simp add: emitter_step_def open_call_def Let_def)
  qed (simp add: Open_Call emitter_step_def open_call_def)
next
  case (On_Result a c result)
  then show ?thesis using terminals_entitled
    by (auto simp: emitter_step_def onResult_def split: option.split)
next
  case (Abort_Open a ids)
  then show ?thesis using aborts_entitled by (simp add: emitter_step_def abortOpen_def)
qed (simp_all add: emitter_step_def)

subsection \<open>Identity\<close>

definition digit36 :: "code_unit \<Rightarrow> nat" where
  "digit36 c = (if unat c < 0x61 then unat c - 0x30 else unat c - 0x57)"

definition read36 :: "jsstring \<Rightarrow> nat" where
  "read36 s = foldl (\<lambda>n c. 36 * n + digit36 c) 0 s"

lemma digit36_all: "n < 36 \<Longrightarrow> digit36 (if n < 10 then 0x30 + of_nat n else 0x57 + of_nat n) = n \<and>
    (if n < 10 then 0x30 + of_nat n else 0x57 + of_nat n) \<noteq> (0x7E :: code_unit)"
proof -
  have "list_all (\<lambda>n. digit36 (if n < 10 then 0x30 + of_nat n else 0x57 + of_nat n) = n \<and>
      (if n < 10 then 0x30 + of_nat n else 0x57 + of_nat n) \<noteq> (0x7E :: code_unit)) [0..<36]"
    by code_simp
  then show "n < 36 \<Longrightarrow> ?thesis" by (simp add: list_all_iff)
qed

lemma base36_read: "read36 (base36 n) = n \<and> 0x7E \<notin> set (base36 n)"
proof (induction n rule: base36.induct)
  case (1 n)
  note d = digit36_all [of "n mod 36"]
  show ?case
  proof (cases "n < 36")
    case True
    then show ?thesis using d by (subst (1 2) base36.simps) (simp add: read36_def)
  next
    case False
    then show ?thesis using d 1 by (subst (1 2) base36.simps) (simp add: read36_def)
  qed
qed

lemma minted_number:
  assumes "minted m n = minted m' n'"
  shows "n = n'"
proof -
  have "takeWhile (\<lambda>c. c \<noteq> 0x7E) (rev (minted k j)) = rev (base36 j) @ [0x68]" for k j
    using base36_read [of j] by (auto simp: minted_def js_def takeWhile_append of_char_def)
  then have "base36 n = base36 n'" using assms by (metis append_same_eq rev_rev_ident)
  then show ?thesis by (metis base36_read)
qed

lemma provider_id_plain: "PROVIDER_UNIQUE_ID s \<Longrightarrow> 0x7E \<notin> set s"
proof -
  assume p: "PROVIDER_UNIQUE_ID s"
  have "s = js ''toolu_'' @ drop 6 s" using p by (auto simp: PROVIDER_UNIQUE_ID_def startsWith_iff js_def)
  moreover have "0x7E \<notin> set (js ''toolu_'')" by code_simp
  moreover have "\<not> alphanumeric 0x7E" by code_simp
  then have "0x7E \<notin> set (drop 6 s)" using p by (auto simp: PROVIDER_UNIQUE_ID_def list_all_iff)
  ultimately show ?thesis by (metis Un_iff set_append)
qed

lemma minted_not_provider: "\<not> PROVIDER_UNIQUE_ID (minted m n)"
  using provider_id_plain [of "minted m n"] by (auto simp: minted_def js_def of_char_def)

definition known_id :: "nat \<Rightarrow> jsstring \<Rightarrow> bool" where
  "known_id seq c \<longleftrightarrow> PROVIDER_UNIQUE_ID c \<or> (\<exists>m n. c = minted m n \<and> n \<le> seq)"

definition known_ids :: "emitter \<Rightarrow> bool" where
  "known_ids em \<longleftrightarrow> set (em_recentIds em) = set (em_recentOrder em) \<and> distinct (em_recentOrder em) \<and>
     length (em_recentOrder em) \<le> RECENT_ID_WINDOW \<and> (\<forall>c \<in> set (em_recentOrder em). known_id (em_mintSeq em) c)"

lemma known_id_later: "known_id seq c \<Longrightarrow> seq \<le> seq' \<Longrightarrow> known_id seq' c"
  unfolding known_id_def using le_trans by blast

lemma next_id_unknown: "\<not> known_id seq (minted m (Suc seq))"
  unfolding known_id_def using minted_not_provider minted_number Suc_n_not_le_n by metis

text \<open>An id handed out is none of the last 8192, which are the ones remembered.\<close>

lemma remembered_ids:
  assumes "known_ids em" "c \<notin> set (em_recentOrder em)" "known_id (em_mintSeq em) c"
  shows "known_ids (remember_id c em) \<and>
    em_recentOrder (remember_id c em) = drop (Suc (length (em_recentOrder em)) - RECENT_ID_WINDOW) (em_recentOrder em @ [c])"
proof -
  let ?em = "remember_id c em"
  have k: "set (em_recentIds em) = set (em_recentOrder em)" "distinct (em_recentOrder em)"
    "length (em_recentOrder em) \<le> RECENT_ID_WINDOW" "\<forall>c \<in> set (em_recentOrder em). known_id (em_mintSeq em) c"
    using assms(1) unfolding known_ids_def by blast+
  show ?thesis
  proof (cases "Suc (length (em_recentOrder em)) > RECENT_ID_WINDOW")
    case True
    then have n: "length (em_recentOrder em) = RECENT_ID_WINDOW" using k(3) by simp
    then obtain x xs where x: "em_recentOrder em = x # xs" by (cases "em_recentOrder em") (auto simp: RECENT_ID_WINDOW_def)
    have e: "em_recentOrder ?em = xs @ [c]" "set (em_recentIds ?em) = (set (em_recentIds em) \<union> {c}) - {x}" "em_mintSeq ?em = em_mintSeq em"
      using True x by (auto simp: remember_id_def Let_def)
    have "set (em_recentIds ?em) = set (em_recentOrder ?em)" using e k(1,2) x assms(2) by auto
    moreover have "distinct (em_recentOrder ?em)" "length (em_recentOrder ?em) \<le> RECENT_ID_WINDOW"
      using e(1) k(2) x assms(2) n by auto
    moreover have "\<forall>d \<in> set (em_recentOrder ?em). known_id (em_mintSeq ?em) d" using e k(4) x assms(3) by auto
    ultimately show ?thesis using e(1) x n by (simp add: known_ids_def)
  next
    case False
    then have e: "em_recentOrder ?em = em_recentOrder em @ [c]" "set (em_recentIds ?em) = set (em_recentIds em) \<union> {c}" "em_mintSeq ?em = em_mintSeq em"
      by (auto simp: remember_id_def Let_def)
    have "\<forall>d \<in> set (em_recentOrder ?em). known_id (em_mintSeq ?em) d" using e k(4) assms(3) by auto
    then show ?thesis using e k(1,2) False assms(2) by (simp add: known_ids_def)
  qed
qed

lemma hostCallId_fresh:
  assumes "known_ids em" "hostCallId m em = (c, em')"
  shows "c \<notin> set (em_recentOrder em) \<and> known_ids em' \<and>
    em_recentOrder em' = drop (Suc (length (em_recentOrder em)) - RECENT_ID_WINDOW) (em_recentOrder em @ [c])"
proof (cases "\<not> PROVIDER_UNIQUE_ID m \<or> m \<in> set (em_recentIds em)")
  case True
  let ?em = "em\<lparr>em_mintSeq := Suc (em_mintSeq em)\<rparr>"
  have c: "c = minted m (Suc (em_mintSeq em))" "em' = remember_id c ?em"
    using assms(2) True by (auto simp: hostCallId_def Let_def)
  have "\<not> known_id (em_mintSeq em) c" using c(1) next_id_unknown by simp
  then have new: "c \<notin> set (em_recentOrder em)" using assms(1) unfolding known_ids_def by blast
  have "\<forall>d \<in> set (em_recentOrder em). known_id (Suc (em_mintSeq em)) d"
    using assms(1) known_id_later le_SucI order_refl unfolding known_ids_def by blast
  then have "known_ids ?em" using assms(1) by (simp add: known_ids_def)
  moreover have "known_id (em_mintSeq ?em) c" using c(1) unfolding known_id_def by auto
  ultimately show ?thesis using remembered_ids [of ?em c] new c(2) by simp
next
  case False
  then have c: "c = m" "em' = remember_id c em" using assms(2) by (auto simp: hostCallId_def)
  have "c \<notin> set (em_recentOrder em)" using False c(1) assms(1) by (simp add: known_ids_def)
  moreover have "known_id (em_mintSeq em) c" using False c(1) by (simp add: known_id_def)
  ultimately show ?thesis using remembered_ids [OF assms(1)] c(2) by simp
qed

end
