(* ===== verification/Content_Blocks.thy ===== *)
theory Content_Blocks
  imports Js_Values Utf8
begin

section \<open>Content blocks (src/mcpl/references.ts, visible-content.ts)\<close>

text \<open>
  How a block a server sent is read: as text, inline media, a reference with its testimony, an
  embedded resource or nothing the host can show; and whether content shows anything. The
  host's wording of what it cannot show is a constructor.
\<close>

subsection \<open>Classification\<close>

datatype shown_marker =
    Unreadable_Block
  | No_Type
  | Unknown_Type jsstring
  | Text_Not_String
  | Image_No_Data
  | Audio_No_Data
  | Reference_No_Link
  | Reference_Link_Too_Long
  | Resource_Unreadable
  | Resource_No_Media_Type
  | Resource_Binary jsstring nat

datatype disposition = Never | Ref

record testimony =
  rt_uri :: jsstring
  rt_mimeType :: "jsstring option"
  rt_sizeBytes :: "rat option"
  rt_digest :: "jsstring option"
  rt_expiresAt :: "jsstring option"
  rt_name :: "jsstring option"
  rt_disposition :: "disposition option"
  rt_rejectedFields :: "jsstring list"
  rt_fromLink :: bool

datatype embedded_block = Text_Block jsstring | Media_Block jsstring jsstring jsstring

datatype embedded_contents = Contents_Block embedded_block | Contents_Withheld | Contents_Marker shown_marker

datatype block_class =
    Is_Text
  | Is_Inline bool
  | Is_Reference testimony
  | Is_Embedded embedded_contents
  | Is_Invalid shown_marker

definition LIMIT_uri :: nat where "LIMIT_uri = 4096"
definition LIMIT_mimeType :: nat where "LIMIT_mimeType = 255"
definition LIMIT_name :: nat where "LIMIT_name = 255"
definition LIMIT_expiresAt :: nat where "LIMIT_expiresAt = 64"
definition MAX_SAFE :: rat where "MAX_SAFE = 9007199254740991"

text \<open>\<open>sha256:\<close> and 43 characters of base64url.\<close>

definition base64url :: "code_unit \<Rightarrow> bool" where
  "base64url c \<longleftrightarrow> (0x41 \<le> c \<and> c \<le> 0x5A) \<or> (0x61 \<le> c \<and> c \<le> 0x7A) \<or> (0x30 \<le> c \<and> c \<le> 0x39) \<or> c = 0x5F \<or> c = 0x2D"

definition DIGEST_PATTERN :: "jsstring \<Rightarrow> bool" where
  "DIGEST_PATTERN s \<longleftrightarrow> startsWith s (js ''sha256:'') \<and> length (drop 7 s) = 43 \<and> list_all base64url (drop 7 s)"

text \<open>The one invalid-field rule: a bad optional field is rejected, the rest stands.\<close>

fun longer_than :: "nat \<Rightarrow> nat \<Rightarrow> nat list \<Rightarrow> bool" where
  "longer_than limit n [] = False"
| "longer_than limit n (p # ps) = (if Suc n > limit then True else longer_than limit (Suc n) ps)"

definition takeString :: "jsval \<Rightarrow> nat \<Rightarrow> jsstring \<Rightarrow> jsstring list \<Rightarrow> jsstring option \<times> jsstring list" where
  "takeString raw limit name rejected =
     (case raw of
        JUndef \<Rightarrow> (None, rejected)
      | JStr s \<Rightarrow> if longer_than limit 0 (code_points s) then (None, rejected @ [name]) else (Some s, rejected)
      | _ \<Rightarrow> (None, rejected @ [name]))"

definition take_size :: "jsval \<Rightarrow> jsstring list \<Rightarrow> rat option \<times> jsstring list" where
  "take_size raw rejected =
     (case raw of
        JUndef \<Rightarrow> (None, rejected)
      | JNum n \<Rightarrow> if n = of_int \<lfloor>n\<rfloor> \<and> 0 \<le> n \<and> n \<le> MAX_SAFE then (Some n, rejected) else (None, rejected @ [js ''sizeBytes''])
      | _ \<Rightarrow> (None, rejected @ [js ''sizeBytes'']))"

definition take_digest :: "jsval \<Rightarrow> jsstring list \<Rightarrow> jsstring option \<times> jsstring list" where
  "take_digest raw rejected =
     (case raw of
        JUndef \<Rightarrow> (None, rejected)
      | JStr s \<Rightarrow> if DIGEST_PATTERN s then (Some s, rejected) else (None, rejected @ [js ''digest''])
      | _ \<Rightarrow> (None, rejected @ [js ''digest'']))"

definition take_disposition :: "jsval \<Rightarrow> jsstring list \<Rightarrow> disposition option \<times> jsstring list" where
  "take_disposition raw rejected =
     (if raw = JUndef then (None, rejected)
      else if raw = JStr (js ''never'') then (Some Never, rejected)
      else if raw = JStr (js ''ref'') then (Some Ref, rejected)
      else (None, rejected @ [js ''disposition'']))"

definition parseReferenceFields :: "jsval \<Rightarrow> block_class" where
  "parseReferenceFields block =
     (case field block (js ''uri'') of
        JStr uri \<Rightarrow>
          if length uri = 0 then Is_Invalid Reference_No_Link
          else if length uri > LIMIT_uri then Is_Invalid Reference_Link_Too_Long
          else
            (let (mimeType, rejected) = takeString (field block (js ''mimeType'')) LIMIT_mimeType (js ''mimeType'') [];
                 (name, rejected) = takeString (field block (js ''name'')) LIMIT_name (js ''name'') rejected;
                 (expiresAt, rejected) = takeString (field block (js ''expiresAt'')) LIMIT_expiresAt (js ''expiresAt'') rejected;
                 (sizeBytes, rejected) = take_size (field block (js ''sizeBytes'')) rejected;
                 (digest, rejected) = take_digest (field block (js ''digest'')) rejected;
                 (disposition, rejected) = take_disposition (field block (js ''disposition'')) rejected
             in Is_Reference \<lparr>rt_uri = uri, rt_mimeType = mimeType, rt_sizeBytes = sizeBytes, rt_digest = digest,
                  rt_expiresAt = expiresAt, rt_name = name, rt_disposition = disposition,
                  rt_rejectedFields = rejected, rt_fromLink = False\<rparr>)
      | _ \<Rightarrow> Is_Invalid Reference_No_Link)"

definition linkTestimony :: "block_class \<Rightarrow> block_class" where
  "linkTestimony c = (case c of Is_Reference t \<Rightarrow> Is_Reference (t\<lparr>rt_fromLink := True\<rparr>) | _ \<Rightarrow> c)"

definition ascii_lower :: "code_unit \<Rightarrow> code_unit" where
  "ascii_lower c = (if 0x41 \<le> c \<and> c \<le> 0x5A then c + 0x20 else c)"

text \<open>\<open>/^(image|audio)\/[^/]/i\<close>: the family of a media type with a subtype.\<close>

definition media_family :: "jsstring \<Rightarrow> jsstring option" where
  "media_family t =
     (let named = (\<lambda>f. map ascii_lower (take 6 t) = f @ [slash] \<and> 6 < length t \<and> t ! 6 \<noteq> slash)
      in if named (js ''image'') then Some (js ''image'') else if named (js ''audio'') then Some (js ''audio'') else None)"

definition embeddedResourceContents :: "jsval \<Rightarrow> embedded_contents option" where
  "embeddedResourceContents block =
     (let uri = field block (js ''uri''); resource = field block (js ''resource'')
      in if uri \<noteq> JUndef \<and> uri \<noteq> JNull \<and> uri \<noteq> JStr [] then None
         else
           (case field resource (js ''uri'') of
              JStr _ \<Rightarrow>
                if field block (js ''disposition'') \<noteq> JUndef then Some Contents_Withheld
                else
                  (case (field resource (js ''text''), field resource (js ''blob'')) of
                     (JStr text, JStr blob) \<Rightarrow> Some (Contents_Marker Resource_Unreadable)
                   | (JStr text, _) \<Rightarrow> Some (Contents_Block (Text_Block text))
                   | (_, JStr blob) \<Rightarrow>
                       (let type = (case field resource (js ''mimeType'') of JStr t \<Rightarrow> t | _ \<Rightarrow> [])
                        in case media_family type of
                             Some f \<Rightarrow> Some (Contents_Block (Media_Block f blob type))
                           | None \<Rightarrow>
                               if type = [] then Some (Contents_Marker Resource_No_Media_Type)
                               else Some (Contents_Marker (Resource_Binary type (length blob * 3 div 4))))
                   | _ \<Rightarrow> Some (Contents_Marker Resource_Unreadable))
            | _ \<Rightarrow> None))"

definition link_fields :: "jsval \<Rightarrow> jsval" where
  "link_fields block =
     JObj [(js ''uri'', field block (js ''uri'')), (js ''name'', field block (js ''name'')),
       (js ''mimeType'', field block (js ''mimeType'')),
       (js ''sizeBytes'', (case field block (js ''size'') of
          JUndef \<Rightarrow> field block (js ''sizeBytes'') | JNull \<Rightarrow> field block (js ''sizeBytes'') | v \<Rightarrow> v))]"

definition classifyBlock :: "jsval \<Rightarrow> block_class" where
  "classifyBlock block =
     (case (block, field block (js ''type'')) of
        (JObj es, JStr type) \<Rightarrow>
          if type = js ''text'' then
            (case field block (js ''text'') of JStr _ \<Rightarrow> Is_Text | _ \<Rightarrow> Is_Invalid Text_Not_String)
          else if type = js ''image'' \<or> type = js ''audio'' then
            (let hasLink = (case field block (js ''uri'') of JStr u \<Rightarrow> u \<noteq> [] | _ \<Rightarrow> False)
             in case field block (js ''data'') of
                  JStr _ \<Rightarrow> Is_Inline (field block (js ''disposition'') \<noteq> JUndef \<or> hasLink)
                | _ \<Rightarrow>
                    if hasLink then parseReferenceFields block
                    else Is_Invalid (if type = js ''image'' then Image_No_Data else Audio_No_Data))
          else if type = js ''resource'' then
            (case embeddedResourceContents block of
               Some contents \<Rightarrow> Is_Embedded contents
             | None \<Rightarrow> parseReferenceFields block)
          else if type = js ''resource_link'' then linkTestimony (parseReferenceFields (link_fields block))
          else Is_Invalid (Unknown_Type type)
      | (JObj es, _) \<Rightarrow> Is_Invalid No_Type
      | _ \<Rightarrow> Is_Invalid Unreadable_Block)"

definition isInlineContradiction :: "jsval \<Rightarrow> bool" where
  "isInlineContradiction block = (case classifyBlock block of Is_Inline c \<Rightarrow> c | _ \<Rightarrow> False)"

subsection \<open>What content shows\<close>

definition embeddedText :: "jsval \<Rightarrow> jsstring option" where
  "embeddedText block =
     (case classifyBlock block of Is_Embedded (Contents_Block (Text_Block t)) \<Rightarrow> Some t | _ \<Rightarrow> None)"

definition shows_nothing :: "jsval \<Rightarrow> bool" where
  "shows_nothing block =
     (case block of
        JObj _ \<Rightarrow>
          (case (if field block (js ''type'') = JStr (js ''resource'') then embeddedText block else None) of
             Some t \<Rightarrow> js_trim t = []
           | None \<Rightarrow>
               field block (js ''type'') = JStr (js ''text'') \<and>
               (case field block (js ''text'') of JStr t \<Rightarrow> js_trim t = [] | _ \<Rightarrow> True))
      | JArr _ \<Rightarrow> False
      | _ \<Rightarrow> True)"

definition isVisiblyEmptyContent :: "jsval \<Rightarrow> bool" where
  "isVisiblyEmptyContent content = (case content of JArr bs \<Rightarrow> list_all shows_nothing bs | _ \<Rightarrow> True)"

definition isNonStringTextBlock :: "jsval \<Rightarrow> bool" where
  "isNonStringTextBlock block \<longleftrightarrow>
     field block (js ''type'') = JStr (js ''text'') \<and> (case field block (js ''text'') of JStr _ \<Rightarrow> False | _ \<Rightarrow> True)"

definition isVisiblyEmptyConversion :: "jsval list \<Rightarrow> jsval list \<Rightarrow> bool" where
  "isVisiblyEmptyConversion wire converted =
     isVisiblyEmptyContent (JArr (map snd (filter (\<lambda>(i, _). \<not> (i < length wire \<and> isNonStringTextBlock (wire ! i)))
       (zip [0..<length converted] converted))))"

definition isSilentHeartbeatMarker :: "jsstring \<Rightarrow> jsstring option \<Rightarrow> jsval \<Rightarrow> jsval \<Rightarrow> bool" where
  "isSilentHeartbeatMarker serverId featureSet origin content \<longleftrightarrow>
     serverId = js ''heartbeat'' \<and> featureSet = Some (js ''heartbeat'') \<and>
     field origin (js ''source'') = JStr (js ''heartbeat'') \<and> field origin (js ''silent'') = JTrue \<and>
     content = JArr []"

subsection \<open>What a testimony is\<close>

text \<open>
  Whatever a server sends, a reference's fields are within their limits, a field rejected is
  absent, and its disposition is one the host knows: the testimony of a block is well formed.
\<close>

definition within_limit :: "nat \<Rightarrow> jsstring option \<Rightarrow> bool" where
  "within_limit limit s \<longleftrightarrow> (case s of None \<Rightarrow> True | Some t \<Rightarrow> length (code_points t) \<le> limit)"

definition good_testimony :: "testimony \<Rightarrow> bool" where
  "good_testimony t \<longleftrightarrow>
     0 < length (rt_uri t) \<and> length (rt_uri t) \<le> LIMIT_uri \<and>
     within_limit LIMIT_mimeType (rt_mimeType t) \<and> within_limit LIMIT_name (rt_name t) \<and>
     within_limit LIMIT_expiresAt (rt_expiresAt t) \<and>
     (case rt_sizeBytes t of None \<Rightarrow> True | Some n \<Rightarrow> n = of_int \<lfloor>n\<rfloor> \<and> 0 \<le> n \<and> n \<le> MAX_SAFE) \<and>
     (case rt_digest t of None \<Rightarrow> True | Some d \<Rightarrow> DIGEST_PATTERN d) \<and>
     (js ''mimeType'' \<in> set (rt_rejectedFields t) \<longrightarrow> rt_mimeType t = None) \<and>
     (js ''name'' \<in> set (rt_rejectedFields t) \<longrightarrow> rt_name t = None) \<and>
     (js ''expiresAt'' \<in> set (rt_rejectedFields t) \<longrightarrow> rt_expiresAt t = None) \<and>
     (js ''sizeBytes'' \<in> set (rt_rejectedFields t) \<longrightarrow> rt_sizeBytes t = None) \<and>
     (js ''digest'' \<in> set (rt_rejectedFields t) \<longrightarrow> rt_digest t = None) \<and>
     (js ''disposition'' \<in> set (rt_rejectedFields t) \<longrightarrow> rt_disposition t = None)"

lemma longer_than_iff: "n \<le> limit \<Longrightarrow> longer_than limit n ps \<longleftrightarrow> limit < n + length ps"
  by (induction limit n ps rule: longer_than.induct) auto

lemma takeString_cases:
  obtains (kept) s where "takeString raw limit name rejected = (Some s, rejected)" "length (code_points s) \<le> limit" "raw = JStr s"
  | (absent) "takeString raw limit name rejected = (None, rejected)" "raw = JUndef"
  | (refused) "takeString raw limit name rejected = (None, rejected @ [name])"
proof (cases raw)
  case (JStr s)
  then show thesis using kept [of s] refused by (cases "length (code_points s) \<le> limit") (simp_all add: takeString_def longer_than_iff)
qed (use absent refused in \<open>simp_all add: takeString_def\<close>)

lemma takeString_within: "within_limit limit (fst (takeString raw limit name rejected))"
  by (cases rule: takeString_cases [of raw limit name rejected]) (auto simp: within_limit_def)

lemma take_size_ok: "case fst (take_size raw rejected) of None \<Rightarrow> True | Some n \<Rightarrow> n = of_int \<lfloor>n\<rfloor> \<and> 0 \<le> n \<and> n \<le> MAX_SAFE"
  by (auto simp: take_size_def split: jsval.split)

lemma take_digest_ok: "case fst (take_digest raw rejected) of None \<Rightarrow> True | Some d \<Rightarrow> DIGEST_PATTERN d"
  by (auto simp: take_digest_def split: jsval.split)

text \<open>A reader adds its own name, and only when it kept nothing.\<close>

lemma takeString_rejects:
  "set (snd (takeString raw limit name rejected)) \<subseteq> insert name (set rejected)"
  "set rejected \<subseteq> set (snd (takeString raw limit name rejected))"
  "name \<notin> set rejected \<Longrightarrow> name \<in> set (snd (takeString raw limit name rejected)) \<Longrightarrow> fst (takeString raw limit name rejected) = None"
  by (cases rule: takeString_cases [of raw limit name rejected]; auto)+

lemma take_size_rejects:
  "set (snd (take_size raw rejected)) \<subseteq> insert (js ''sizeBytes'') (set rejected)"
  "set rejected \<subseteq> set (snd (take_size raw rejected))"
  "js ''sizeBytes'' \<notin> set rejected \<Longrightarrow> js ''sizeBytes'' \<in> set (snd (take_size raw rejected)) \<Longrightarrow> fst (take_size raw rejected) = None"
  by (auto simp: take_size_def split: jsval.splits if_splits)

lemma take_digest_rejects:
  "set (snd (take_digest raw rejected)) \<subseteq> insert (js ''digest'') (set rejected)"
  "set rejected \<subseteq> set (snd (take_digest raw rejected))"
  "js ''digest'' \<notin> set rejected \<Longrightarrow> js ''digest'' \<in> set (snd (take_digest raw rejected)) \<Longrightarrow> fst (take_digest raw rejected) = None"
  by (auto simp: take_digest_def split: jsval.splits if_splits)

lemma take_disposition_rejects:
  "set (snd (take_disposition raw rejected)) \<subseteq> insert (js ''disposition'') (set rejected)"
  "js ''disposition'' \<notin> set rejected \<Longrightarrow> js ''disposition'' \<in> set (snd (take_disposition raw rejected)) \<Longrightarrow>
     fst (take_disposition raw rejected) = None"
  by (auto simp: take_disposition_def split: if_splits)

lemma parsed_reference:
  assumes "parseReferenceFields block = Is_Reference t"
  shows "good_testimony t"
proof -
  obtain uri where u: "field block (js ''uri'') = JStr uri" "0 < length uri" "length uri \<le> LIMIT_uri"
    using assms by (auto simp: parseReferenceFields_def split: jsval.splits if_splits)
  define m where "m = takeString (field block (js ''mimeType'')) LIMIT_mimeType (js ''mimeType'') []"
  define n where "n = takeString (field block (js ''name'')) LIMIT_name (js ''name'') (snd m)"
  define e where "e = takeString (field block (js ''expiresAt'')) LIMIT_expiresAt (js ''expiresAt'') (snd n)"
  define z where "z = take_size (field block (js ''sizeBytes'')) (snd e)"
  define d where "d = take_digest (field block (js ''digest'')) (snd z)"
  define p where "p = take_disposition (field block (js ''disposition'')) (snd d)"
  have t: "t = \<lparr>rt_uri = uri, rt_mimeType = fst m, rt_sizeBytes = fst z, rt_digest = fst d, rt_expiresAt = fst e,
      rt_name = fst n, rt_disposition = fst p, rt_rejectedFields = snd p, rt_fromLink = False\<rparr>"
    using assms u by (simp add: parseReferenceFields_def Let_def case_prod_beta m_def n_def e_def z_def d_def p_def)
  note r = takeString_rejects [where raw = "field block (js ''mimeType'')" and limit = LIMIT_mimeType and name = "js ''mimeType''" and rejected = "[]", folded m_def]
    takeString_rejects [where raw = "field block (js ''name'')" and limit = LIMIT_name and name = "js ''name''" and rejected = "snd m", folded n_def]
    takeString_rejects [where raw = "field block (js ''expiresAt'')" and limit = LIMIT_expiresAt and name = "js ''expiresAt''" and rejected = "snd n", folded e_def]
    take_size_rejects [where raw = "field block (js ''sizeBytes'')" and rejected = "snd e", folded z_def]
    take_digest_rejects [where raw = "field block (js ''digest'')" and rejected = "snd z", folded d_def]
    take_disposition_rejects [where raw = "field block (js ''disposition'')" and rejected = "snd d", folded p_def]
  have earlier: "x \<in> set (snd p) \<Longrightarrow> x \<noteq> js ''disposition'' \<Longrightarrow> x \<in> set (snd d)"
    "x \<in> set (snd d) \<Longrightarrow> x \<noteq> js ''digest'' \<Longrightarrow> x \<in> set (snd z)"
    "x \<in> set (snd z) \<Longrightarrow> x \<noteq> js ''sizeBytes'' \<Longrightarrow> x \<in> set (snd e)"
    "x \<in> set (snd e) \<Longrightarrow> x \<noteq> js ''expiresAt'' \<Longrightarrow> x \<in> set (snd n)"
    "x \<in> set (snd n) \<Longrightarrow> x \<noteq> js ''name'' \<Longrightarrow> x \<in> set (snd m)"
    "x \<in> set (snd m) \<Longrightarrow> x = js ''mimeType''" for x
    using r(1,4,7,10,13,16) by auto
  have "within_limit LIMIT_mimeType (fst m)" "within_limit LIMIT_name (fst n)" "within_limit LIMIT_expiresAt (fst e)"
    unfolding m_def n_def e_def by (rule takeString_within)+
  moreover have "case fst z of None \<Rightarrow> True | Some n \<Rightarrow> n = of_int \<lfloor>n\<rfloor> \<and> 0 \<le> n \<and> n \<le> MAX_SAFE"
    "case fst d of None \<Rightarrow> True | Some d \<Rightarrow> DIGEST_PATTERN d"
    unfolding z_def d_def by (rule take_size_ok take_digest_ok)+
  moreover have "js ''mimeType'' \<in> set (snd p) \<Longrightarrow> fst m = None"
    using earlier(1-5) [of "js ''mimeType''"] r(3) by simp
  moreover have "js ''name'' \<in> set (snd p) \<Longrightarrow> fst n = None"
    using earlier(1-4) [of "js ''name''"] earlier(6) [of "js ''name''"] r(6) by auto
  moreover have "js ''expiresAt'' \<in> set (snd p) \<Longrightarrow> fst e = None"
    using earlier(1-3) [of "js ''expiresAt''"] earlier(5,6) [of "js ''expiresAt''"] r(9) by auto
  moreover have "js ''sizeBytes'' \<in> set (snd p) \<Longrightarrow> fst z = None"
    using earlier(1-2) [of "js ''sizeBytes''"] earlier(4-6) [of "js ''sizeBytes''"] r(12) by auto
  moreover have "js ''digest'' \<in> set (snd p) \<Longrightarrow> fst d = None"
    using earlier(1) [of "js ''digest''"] earlier(3-6) [of "js ''digest''"] r(15) by auto
  moreover have "js ''disposition'' \<in> set (snd p) \<Longrightarrow> fst p = None"
    using earlier(2-6) [of "js ''disposition''"] r(17) by auto
  ultimately show ?thesis using u unfolding t good_testimony_def by simp
qed

lemma classify_reference:
  assumes "classifyBlock block = Is_Reference t"
  shows "parseReferenceFields block = Is_Reference t \<or> linkTestimony (parseReferenceFields (link_fields block)) = Is_Reference t"
  using assms by (simp add: classifyBlock_def Let_def split: jsval.splits if_splits option.splits)

lemma testimony_type:
  assumes "classifyBlock block = Is_Reference t"
  shows "good_testimony t"
  using classify_reference [OF assms]
proof
  assume "linkTestimony (parseReferenceFields (link_fields block)) = Is_Reference t"
  then obtain t' where "parseReferenceFields (link_fields block) = Is_Reference t'" "t = t'\<lparr>rt_fromLink := True\<rparr>"
    by (cases "parseReferenceFields (link_fields block)") (auto simp: linkTestimony_def)
  then show ?thesis using parsed_reference [of "link_fields block" t'] by (simp add: good_testimony_def)
qed (rule parsed_reference)

text \<open>A link claims no digest, expiry or disposition.\<close>

lemma parsed_claims:
  assumes "parseReferenceFields block = Is_Reference t"
  shows "rt_digest t = fst (take_digest (field block (js ''digest'')) [])"
    and "rt_expiresAt t = fst (takeString (field block (js ''expiresAt'')) LIMIT_expiresAt (js ''expiresAt'') [])"
    and "rt_disposition t = fst (take_disposition (field block (js ''disposition'')) [])"
proof -
  have "fst (take_digest v r) = fst (take_digest v [])" "fst (takeString v l n r) = fst (takeString v l n [])"
    "fst (take_disposition v r) = fst (take_disposition v [])" for v l n r
    by (auto simp: take_digest_def takeString_def take_disposition_def split: jsval.split)
  note any = this
  obtain uri where u: "field block (js ''uri'') = JStr uri" "0 < length uri" "length uri \<le> LIMIT_uri"
    using assms by (auto simp: parseReferenceFields_def split: jsval.splits if_splits)
  show "rt_digest t = fst (take_digest (field block (js ''digest'')) [])"
    "rt_expiresAt t = fst (takeString (field block (js ''expiresAt'')) LIMIT_expiresAt (js ''expiresAt'') [])"
    "rt_disposition t = fst (take_disposition (field block (js ''disposition'')) [])"
    using assms u any by (auto simp: parseReferenceFields_def Let_def case_prod_beta)
qed

lemma link_testimony:
  assumes "parseReferenceFields (link_fields block) = Is_Reference t"
  shows "rt_digest t = None \<and> rt_expiresAt t = None \<and> rt_disposition t = None"
  using parsed_claims [OF assms]
  by (simp add: link_fields_def own_Cons take_digest_def takeString_def take_disposition_def)

end
