(* ===== verification/Coalesce_Input.thy ===== *)
theory Coalesce_Input
  imports Content_Blocks Json_Text Tool_Arguments
begin

section \<open>What may be coalesced (src/mcpl/push-coalescer.ts)\<close>

text \<open>
  The refusals of the coalescer, the checks of an occurrence's \<open>coalesce\<close> member and of its
  content, and the keys under which subjects and receipts are kept.
\<close>

subsection \<open>Refusals\<close>

datatype coalesce_error =
    CoalesceError jsstring int bool
  | EmptyContentError jsstring

fun ce_code :: "coalesce_error \<Rightarrow> int" where
  "ce_code (CoalesceError f n adm) = n"
| "ce_code (EmptyContentError f) = -32602"

fun ce_field :: "coalesce_error \<Rightarrow> jsstring" where
  "ce_field (CoalesceError f n adm) = f"
| "ce_field (EmptyContentError f) = f"

fun ce_admitted :: "coalesce_error \<Rightarrow> bool" where
  "ce_admitted (CoalesceError f n adm) = adm"
| "ce_admitted (EmptyContentError f) = False"

definition invalid_member :: "jsstring \<Rightarrow> coalesce_error" where
  "invalid_member f = CoalesceError f (-32602) False"

datatype coalesce_rejection = Coalesce_Failed | Coalesce_Invalid

definition coalesceRejectionReason :: "int \<Rightarrow> coalesce_rejection" where
  "coalesceRejectionReason answered =
     (if answered = -32000 \<or> answered = -32603 then Coalesce_Failed else Coalesce_Invalid)"

subsection \<open>Keys\<close>

datatype scope_kind = Feature_Set_Scope | Channel_Scope

fun scope_name :: "scope_kind \<Rightarrow> jsstring" where
  "scope_name Feature_Set_Scope = js ''featureSet''"
| "scope_name Channel_Scope = js ''channel''"

definition json_strings :: "jsstring list \<Rightarrow> jsstring" where
  "json_strings ss = 0x5B # join_with 0x2C (map json_string ss) @ [0x5D]"

definition coalescingSubjectKey :: "jsstring \<Rightarrow> jsstring \<Rightarrow> scope_kind \<Rightarrow> jsstring \<Rightarrow> jsstring \<Rightarrow> jsstring" where
  "coalescingSubjectKey serverId binding kind scopeId key = json_strings [serverId, binding, scope_name kind, scopeId, key]"

definition coalescingReceiptKey :: "jsstring \<Rightarrow> jsstring \<Rightarrow> jsstring \<Rightarrow> jsstring" where
  "coalescingReceiptKey serverId binding eventId = json_strings [serverId, binding, eventId]"

text \<open>The third string of a receipt key, read back: \<open>JSON.parse(key)[2]\<close>. Any text the key's writer does
  not write reads as malformed.\<close>

definition parse_elem :: "code_unit \<Rightarrow> jsstring \<Rightarrow> (jsstring \<times> jsstring) option" where
  "parse_elem before s =
     (case s of
        c # d # rest \<Rightarrow> if c = before \<and> d = quote_mark then parse_units rest else None
      | _ \<Rightarrow> None)"

definition receipt_event :: "jsstring \<Rightarrow> jsstring option" where
  "receipt_event key =
     (case parse_elem 0x5B key of
        None \<Rightarrow> None
      | Some (_, s) \<Rightarrow>
          (case parse_elem 0x2C s of
             None \<Rightarrow> None
           | Some (_, s) \<Rightarrow>
               (case parse_elem 0x2C s of
                  None \<Rightarrow> None
                | Some (e, s) \<Rightarrow> if s = [0x5D] then Some e else None)))"

subsection \<open>Identity\<close>

record identity =
  id_messageId :: "jsstring option"
  id_author :: "(jsstring \<times> jsstring) option"
  id_threadId :: "jsstring option"

definition no_identity :: identity where
  "no_identity = \<lparr>id_messageId = None, id_author = None, id_threadId = None\<rparr>"

definition or_prior :: "'a option \<Rightarrow> 'a option \<Rightarrow> 'a option" where
  "or_prior new prior = (case new of None \<Rightarrow> prior | Some v \<Rightarrow> Some v)"

definition mergeIdentity :: "identity option \<Rightarrow> identity option \<Rightarrow> identity" where
  "mergeIdentity prior new =
     (let p = (case prior of None \<Rightarrow> no_identity | Some p \<Rightarrow> p);
          n = (case new of None \<Rightarrow> no_identity | Some n \<Rightarrow> n)
      in \<lparr>id_messageId = or_prior (id_messageId n) (id_messageId p),
          id_author = or_prior (id_author n) (id_author p),
          id_threadId = or_prior (id_threadId n) (id_threadId p)\<rparr>)"

subsection \<open>Content\<close>

fun isFilledString :: "jsval \<Rightarrow> bool" where
  "isFilledString (JStr s) = (s \<noteq> [])"
| "isFilledString _ = False"

fun block_value :: "embedded_block \<Rightarrow> jsval" where
  "block_value (Text_Block t) = JObj [(js ''type'', JStr (js ''text'')), (js ''text'', JStr t)]"
| "block_value (Media_Block f d m) =
     JObj [(js ''type'', JStr f), (js ''data'', JStr d), (js ''mimeType'', JStr m)]"

text \<open>The branches for a text, an image and an audio block: the block an embedded resource makes is one.\<close>

definition media_shows :: "jsval \<Rightarrow> bool" where
  "media_shows b =
     (let type = field b (js ''type'')
      in if type \<noteq> JStr (js ''image'') \<and> type \<noteq> JStr (js ''audio'') then False
         else if isInlineContradiction b then False
         else if isFilledString (field b (js ''uri'')) \<and> field b (js ''disposition'') \<noteq> JUndef then
           (case classifyBlock b of Is_Reference _ \<Rightarrow> True | _ \<Rightarrow> False)
         else if isFilledString (field b (js ''data'')) \<and> isFilledString (field b (js ''mimeType'')) then True
         else type = JStr (js ''image'') \<and> isFilledString (field b (js ''uri'')))"

definition plain_shows :: "jsval \<Rightarrow> bool" where
  "plain_shows b =
     (if field b (js ''type'') = JStr (js ''text'') then (case field b (js ''text'') of JStr _ \<Rightarrow> True | _ \<Rightarrow> False)
      else media_shows b)"

definition showsAsItself :: "jsval \<Rightarrow> bool" where
  "showsAsItself b =
     (if field b (js ''type'') = JStr (js ''resource'') \<or> field b (js ''type'') = JStr (js ''resource_link'') then
        (case classifyBlock b of
           Is_Embedded (Contents_Block e) \<Rightarrow> plain_shows (block_value e)
         | Is_Reference _ \<Rightarrow> True
         | _ \<Rightarrow> False)
      else plain_shows b)"

definition bad_block :: "bool \<Rightarrow> jsval \<Rightarrow> bool" where
  "bad_block checkBlockShapes b \<longleftrightarrow> \<not> isPlainObject b \<or> (checkBlockShapes \<and> \<not> showsAsItself b)"

definition validateCoalescedContent :: "bool \<Rightarrow> bool \<Rightarrow> jsval \<Rightarrow> coalesce_error option" where
  "validateCoalescedContent allowEmpty checkBlockShapes content =
     (case content of
        JArr bs \<Rightarrow>
          if list_ex (bad_block checkBlockShapes) bs then Some (invalid_member (js ''payload.content''))
          else if \<not> allowEmpty \<and> isVisiblyEmptyContent content then Some (EmptyContentError (js ''payload.content''))
          else None
      | _ \<Rightarrow> Some (invalid_member (js ''payload.content'')))"

subsection \<open>The coalesce member\<close>

datatype lane = Push_Lane | Channel_Lane

fun is_boolean :: "jsval \<Rightarrow> bool" where
  "is_boolean (JBool b) = True"
| "is_boolean _ = False"

definition key_fits :: "jsval \<Rightarrow> bool" where
  "key_fits v =
     (case v of JStr k \<Rightarrow> length (utf8_encode k) \<noteq> 0 \<and> \<not> length (utf8_encode k) > 256 | _ \<Rightarrow> False)"

definition validateCoalesceMember :: "(rat \<Rightarrow> jsstring) \<Rightarrow> jsval \<Rightarrow> lane \<Rightarrow> nat \<Rightarrow> coalesce_error option" where
  "validateCoalesceMember number c lane maxDataBytes =
     (case c of
        JObj es \<Rightarrow>
          if \<not> key_fits (own es (js ''key'')) then Some (invalid_member (js ''coalesce.key''))
          else
            (case find (\<lambda>f. own es f \<noteq> JUndef \<and> \<not> is_boolean (own es f)) [js ''deferred'', js ''retract'', js ''initial''] of
               Some f \<Rightarrow> Some (invalid_member (js ''coalesce.'' @ f))
             | None \<Rightarrow>
                 let channelId = own es (js ''channelId''); data = own es (js ''data'');
                     deferred = truthy (own es (js ''deferred'')); retract = truthy (own es (js ''retract''));
                     initial = truthy (own es (js ''initial''))
                 in if channelId \<noteq> JUndef \<and> \<not> isFilledString channelId then Some (invalid_member (js ''coalesce.channelId''))
                    else if lane = Channel_Lane \<and> (in_object (js ''channelId'') es \<or> in_object (js ''deferred'') es) then
                      Some (invalid_member (js ''coalesce''))
                    else if deferred \<and> retract then Some (invalid_member (js ''coalesce''))
                    else if initial \<and> retract then Some (invalid_member (js ''coalesce''))
                    else if data \<noteq> JUndef \<and> \<not> deferred then Some (invalid_member (js ''coalesce.data''))
                    else if data \<noteq> JUndef \<and> byteLength number data > maxDataBytes then Some (invalid_member (js ''coalesce.data''))
                    else None)
      | _ \<Rightarrow> Some (invalid_member (js ''coalesce'')))"

subsection \<open>Keys determine what they name\<close>

lemma joined_strings_inj:
  "length ss = length ts \<Longrightarrow> join_with 0x2C (map json_string ss) @ [0x5D] = join_with 0x2C (map json_string ts) @ [0x5D] \<Longrightarrow> ss = ts"
proof (induction ss ts rule: list_induct2)
  case (Cons s ss t ts)
  obtain x where x: "join_with 0x2C (map json_string (s # ss)) @ [0x5D] = json_string s @ x"
    "ss \<noteq> [] \<Longrightarrow> x = 0x2C # join_with 0x2C (map json_string ss) @ [0x5D]"
    by (cases ss) auto
  obtain y where y: "join_with 0x2C (map json_string (t # ts)) @ [0x5D] = json_string t @ y"
    "ts \<noteq> [] \<Longrightarrow> y = 0x2C # join_with 0x2C (map json_string ts) @ [0x5D]"
    by (cases ts) auto
  have "s = t" "x = y" using json_string_head [of s x t y] Cons.prems x(1) y(1) by simp_all
  moreover have "ss = ts"
  proof (cases "ss = []")
    case False
    then have "ts \<noteq> []" using Cons.hyps by auto
    then show ?thesis using Cons.IH x(2) y(2) False \<open>x = y\<close> by simp
  qed (use Cons.hyps in simp)
  ultimately show ?case by simp
qed simp

lemma json_strings_inj: "length ss = length ts \<Longrightarrow> json_strings ss = json_strings ts \<longleftrightarrow> ss = ts"
  by (auto simp: json_strings_def intro: joined_strings_inj)

lemma scope_name_eq: "scope_name k = scope_name k' \<longleftrightarrow> k = k'"
  by (cases k; cases k') simp_all

text \<open>A subject's key tells its server, its binding, its scope and the key within it apart.\<close>

lemma subject_key_injective:
  "coalescingSubjectKey s b k i x = coalescingSubjectKey s' b' k' i' x' \<longleftrightarrow> s = s' \<and> b = b' \<and> k = k' \<and> i = i' \<and> x = x'"
  by (simp add: coalescingSubjectKey_def json_strings_inj scope_name_eq)

lemma receipt_key_injective:
  "coalescingReceiptKey s b e = coalescingReceiptKey s' b' e' \<longleftrightarrow> s = s' \<and> b = b' \<and> e = e'"
  by (simp add: coalescingReceiptKey_def json_strings_inj)

lemma receipt_event_key: "receipt_event (coalescingReceiptKey s b e) = Some e"
  by (simp add: receipt_event_def coalescingReceiptKey_def json_strings_def parse_elem_def json_string_def parse_quote_units)

subsection \<open>What the checks leave\<close>

lemma checked_member:
  assumes "validateCoalesceMember number c lane maxBytes = None"
  obtains es where "c = JObj es" "key_fits (own es (js ''key''))"
    "\<not> (truthy (own es (js ''deferred'')) \<and> truthy (own es (js ''retract'')))"
    "\<not> (truthy (own es (js ''initial'')) \<and> truthy (own es (js ''retract'')))"
    "own es (js ''data'') \<noteq> JUndef \<Longrightarrow> truthy (own es (js ''deferred'')) \<and> byteLength number (own es (js ''data'')) \<le> maxBytes"
    "lane = Channel_Lane \<Longrightarrow> \<not> in_object (js ''channelId'') es \<and> \<not> in_object (js ''deferred'') es"
  using assms by (simp add: validateCoalesceMember_def Let_def not_less split: jsval.splits option.splits if_splits) blast

lemma not_in_object: "\<not> in_object k es \<Longrightarrow> own es k = JUndef"
  by (simp add: in_object_def own_def map_of_eq_None_iff split: option.split) (metis map_of_eq_None_iff option.distinct(1))

lemma accepted_member:
  assumes "validateCoalesceMember number c lane maxBytes = None"
  shows "key_fits (field c (js ''key''))"
    and "truthy (field c (js ''retract'')) \<Longrightarrow> \<not> truthy (field c (js ''deferred'')) \<and> \<not> truthy (field c (js ''initial''))"
    and "field c (js ''data'') \<noteq> JUndef \<Longrightarrow> truthy (field c (js ''deferred'')) \<and> byteLength number (field c (js ''data'')) \<le> maxBytes"
    and "lane = Channel_Lane \<Longrightarrow> field c (js ''channelId'') = JUndef \<and> field c (js ''deferred'') = JUndef"
  by (rule checked_member [OF assms]; auto dest: not_in_object)+

lemma visible_content:
  "validateCoalescedContent allowEmpty shapes content = None \<Longrightarrow>
     \<exists>bs. content = JArr bs \<and> (\<forall>b \<in> set bs. isPlainObject b \<and> (shapes \<longrightarrow> showsAsItself b)) \<and>
       (allowEmpty \<or> \<not> isVisiblyEmptyContent content)"
  by (auto simp: validateCoalescedContent_def bad_block_def list_ex_iff split: jsval.splits if_splits)

end
