(* ===== verification/Push_Coalescer.thy ===== *)
theory Push_Coalescer
  imports Coalesce_Input
begin

section \<open>The push coalescer (src/mcpl/push-coalescer.ts)\<close>

text \<open>
  The coalescer runs every transition in one critical section, awaits included: an admission, the
  freezing of a batch, the settlement of a render. Each is one function here. What the host
  answers during it is the record \<open>host_view\<close> (each question is asked at most once per
  transition and placement); what the host is asked to do is logged in order, so a snapshot
  written, a record and a commit are facts of the log. Only the \<open>push/render\<close> call runs outside
  the section: its answer is a transition of its own. The host may stop the coalescer while a
  transition waits. A recovery timer that fires while a transition waits is taken before or
  after it.

  A rendering is an entry of the list \<open>cs_renderings\<close>, and what refers to it has its index; a
  subject's record has a number, so that a timer armed for an evicted record does not find its
  successor. An occupant is the list of its run, oldest first. All of the host's optional
  callbacks are present, as the framework has them.
\<close>

subsection \<open>Occurrences, batches, subjects\<close>

record placement =
  pl_agent :: jsstring
  pl_messageId :: "jsstring option"
  pl_presented :: bool

record occurrence =
  oc_serverId :: jsstring
  oc_binding :: jsstring
  oc_featureSet :: "jsstring option"
  oc_scopeKind :: scope_kind
  oc_scopeId :: jsstring
  oc_key :: jsstring
  oc_eventId :: jsstring
  oc_timestamp :: jsstring
  oc_retract :: bool
  oc_deferred :: bool
  oc_initial :: bool
  oc_data :: jsval
  oc_tags :: "jsstring list option"
  oc_content :: jsval
  oc_identity :: "identity option"
  oc_event :: jsval
  oc_suppressionDecision :: "jsstring option option"
  oc_batchAddressed :: bool
  oc_deliverTo :: "jsstring option"
  oc_firstView :: bool

definition tagged :: "occurrence \<Rightarrow> jsstring \<Rightarrow> bool" where
  "tagged occ t \<longleftrightarrow> (case oc_tags occ of None \<Rightarrow> False | Some ts \<Rightarrow> t \<in> set ts)"

definition subject_of :: "occurrence \<Rightarrow> jsstring" where
  "subject_of occ = coalescingSubjectKey (oc_serverId occ) (oc_binding occ) (oc_scopeKind occ) (oc_scopeId occ) (oc_key occ)"

definition receipt_of :: "occurrence \<Rightarrow> jsstring" where
  "receipt_of occ = coalescingReceiptKey (oc_serverId occ) (oc_binding occ) (oc_eventId occ)"

record deferred_notice =
  dn_eventId :: jsstring
  dn_timestamp :: jsstring
  dn_data :: jsval

record deferred_batch =
  bt_latest :: occurrence
  bt_notices :: "deferred_notice list"
  bt_dropped :: nat
  bt_allAmbient :: bool
  bt_noRender :: bool
  bt_mayBeStored :: "jsstring option"
  bt_firstView :: bool

datatype render_source = From_Render | From_Fallback

datatype render_phase =
    Not_Started
  | Asked
  | Ready jsval jsstring render_source
  | Settled

record rendering =
  rn_subject :: jsstring
  rn_batch :: deferred_batch
  rn_cancelled :: bool
  rn_materialized :: bool
  rn_assemblingFor :: jsstring
  rn_phase :: render_phase

record member =
  mb_eventId :: jsstring
  mb_placement :: placement
  mb_rendered :: bool
  mb_firstView :: bool
  mb_ambient :: bool

datatype history = No_History | Some_History | Unknown_History

record subject_state =
  ss_number :: nat
  ss_history :: history
  ss_occupant :: "member list"
  ss_batch :: "deferred_batch option"
  ss_rendering :: "nat option"
  ss_consumedEventId :: "jsstring option"
  ss_identity :: "identity option"
  ss_audienceAgent :: "jsstring option"
  ss_firstViewEnded :: bool
  ss_touchedAt :: int

datatype coalesce_outcome = First | Replaced | Appended | Retracted | Noted | Consumed

record push_result =
  pr_outcome :: coalesce_outcome
  pr_priorEventId :: "jsstring option"

record receipt_entry =
  re_result :: push_result
  re_at :: int
  re_committed :: bool
  re_firstView :: bool
  re_unwritten :: "(jsstring \<times> history option) option"

record recovery_entry =
  rv_timer :: "(nat \<times> nat) option"
  rv_attempt :: nat

subsection \<open>What is persisted\<close>

record snapshot_batch =
  sb_latest :: occurrence
  sb_notices :: "deferred_notice list"
  sb_dropped :: nat
  sb_rendering :: bool
  sb_firstView :: bool
  sb_allAmbient :: bool

record snapshot_subject =
  sn_history :: history
  sn_consumedEventId :: "jsstring option"
  sn_identity :: "identity option"
  sn_occupant :: "(jsstring \<times> placement) option"
  sn_audienceAgent :: "jsstring option"
  sn_firstViewEnded :: bool
  sn_batch :: "snapshot_batch option"

record coalescing_snapshot =
  sp_receipts :: "(jsstring \<times> push_result \<times> int) list"
  sp_subjects :: "(jsstring \<times> snapshot_subject) list"

text \<open>The batch of a record: absent (a record written before the field existed), \<open>null\<close>, or a batch.\<close>

record receipt_record =
  rr_key :: jsstring
  rr_result :: push_result
  rr_at :: int
  rr_subject :: jsstring
  rr_born :: "history option"
  rr_firstViewEnded :: bool
  rr_batch :: "(occurrence \<times> deferred_notice list \<times> nat) option option"

subsection \<open>The host\<close>

datatype audit_kind =
    Received bool bool
  | Removed
  | Remove_Failed
  | Revoked
  | Displaced bool
  | Render_Cancelled bool
  | Recovery_Wake nat nat
  | Rendered render_source bool
  | Render_Failed jsstring "jsstring option"
  | Deliver_Failed bool
  | Late_Render
  | Persist_Failed
  | Accepted_Observer_Failed

datatype delivery = Placed placement | Nowhere | Delivery_Threw bool

record render_params =
  rp_featureSet :: jsstring
  rp_channelId :: "jsstring option"
  rp_key :: jsstring
  rp_eventId :: jsstring
  rp_notices :: "deferred_notice list"
  rp_dropped :: nat

datatype host_call =
    Audit audit_kind jsstring jsstring
  | Remove placement bool
  | Deliver occurrence "jsval option" "jsstring option" bool
  | Wake_For_Batch occurrence
  | Wake_To_Read occurrence placement bool
  | Cancel_Wake jsstring
  | Render_Request occurrence render_params
  | Save
  | Save_Now coalescing_snapshot bool
  | Record_Receipt receipt_record bool
  | Commit bool
  | Accepted occurrence

datatype wait_point = At_Audience | At_Commit | At_Delivery

record host_view =
  hv_now :: int
  hv_isUnread :: "placement \<Rightarrow> bool"
  hv_isUnshown :: "placement \<Rightarrow> bool"
  hv_remove :: "placement \<Rightarrow> bool"
  hv_deliver :: delivery
  hv_wakes :: bool
  hv_audience :: "jsstring list option"
  hv_authorized :: bool
  hv_authorized_again :: bool
  hv_saves :: bool
  hv_records :: bool
  hv_commits :: bool
  hv_observes :: bool
  hv_time :: jsstring
  hv_suspends :: "wait_point option"

record coalescer_options =
  op_retryWindowMs :: int
  op_recoveryBackoffMs :: nat
  op_maxSubjects :: nat
  op_maxNotices :: nat

definition default_options :: coalescer_options where
  "default_options = \<lparr>op_retryWindowMs = 3600000, op_recoveryBackoffMs = 1000, op_maxSubjects = 4096, op_maxNotices = 64\<rparr>"

subsection \<open>The coalescer's state\<close>

record coalescer =
  cs_subjects :: "(jsstring, subject_state) jsmap"
  cs_receipts :: "(jsstring, receipt_entry) jsmap"
  cs_renderings :: "rendering list"
  cs_rendersInFlight :: "(jsstring, nat) jsmap"
  cs_recovery :: "(jsstring, recovery_entry) jsmap"
  cs_suspended :: bool
  cs_deliveredFirstView :: bool
  cs_states :: nat
  cs_log :: "host_call list"

definition empty_coalescer :: coalescer where
  "empty_coalescer =
     \<lparr>cs_subjects = [], cs_receipts = [], cs_renderings = [], cs_rendersInFlight = [], cs_recovery = [],
      cs_suspended = False, cs_deliveredFirstView = False, cs_states = 0, cs_log = []\<rparr>"

definition ask :: "host_call \<Rightarrow> coalescer \<Rightarrow> coalescer" where
  "ask h c = c\<lparr>cs_log := cs_log c @ [h]\<rparr>"

definition audit :: "jsstring \<Rightarrow> jsstring \<Rightarrow> audit_kind \<Rightarrow> coalescer \<Rightarrow> coalescer" where
  "audit subject eventId k c = ask (Audit k subject eventId) c"

definition state_of :: "coalescer \<Rightarrow> jsstring \<Rightarrow> subject_state option" where
  "state_of c subject = map_of (cs_subjects c) subject"

definition on_state :: "jsstring \<Rightarrow> (subject_state \<Rightarrow> subject_state) \<Rightarrow> coalescer \<Rightarrow> coalescer" where
  "on_state subject f c = c\<lparr>cs_subjects := AList.map_entry subject f (cs_subjects c)\<rparr>"

definition on_rendering :: "nat \<Rightarrow> (rendering \<Rightarrow> rendering) \<Rightarrow> coalescer \<Rightarrow> coalescer" where
  "on_rendering r f c = c\<lparr>cs_renderings := (cs_renderings c)[r := f (cs_renderings c ! r)]\<rparr>"

definition rendering_of :: "coalescer \<Rightarrow> subject_state \<Rightarrow> rendering option" where
  "rendering_of c s = map_option ((!) (cs_renderings c)) (ss_rendering s)"

definition new_state :: "history \<Rightarrow> int \<Rightarrow> nat \<Rightarrow> subject_state" where
  "new_state h now n =
     \<lparr>ss_number = n, ss_history = h, ss_occupant = [], ss_batch = None, ss_rendering = None, ss_consumedEventId = None,
      ss_identity = None, ss_audienceAgent = None, ss_firstViewEnded = False, ss_touchedAt = now\<rparr>"

definition put_state :: "jsstring \<Rightarrow> (nat \<Rightarrow> subject_state) \<Rightarrow> coalescer \<Rightarrow> coalescer" where
  "put_state subject f c =
     c\<lparr>cs_subjects := AList.update subject (f (cs_states c)) (cs_subjects c), cs_states := Suc (cs_states c)\<rparr>"

subsection \<open>Snapshots\<close>

definition snapshot_batch_of :: "coalescer \<Rightarrow> subject_state \<Rightarrow> snapshot_batch option" where
  "snapshot_batch_of c s =
     (case (ss_batch s, rendering_of c s) of
        (Some b, _) \<Rightarrow> Some \<lparr>sb_latest = bt_latest b, sb_notices = bt_notices b, sb_dropped = bt_dropped b,
            sb_rendering = bt_noRender b, sb_firstView = (\<not> bt_noRender b \<and> bt_firstView b), sb_allAmbient = bt_allAmbient b\<rparr>
      | (None, Some rn) \<Rightarrow> Some \<lparr>sb_latest = bt_latest (rn_batch rn), sb_notices = bt_notices (rn_batch rn),
            sb_dropped = bt_dropped (rn_batch rn), sb_rendering = True, sb_firstView = False, sb_allAmbient = bt_allAmbient (rn_batch rn)\<rparr>
      | (None, None) \<Rightarrow> None)"

definition filled :: "jsstring option \<Rightarrow> jsstring option" where
  "filled s = (if s = Some [] then None else s)"

definition snapshot_subject_of :: "coalescer \<Rightarrow> subject_state \<Rightarrow> snapshot_subject" where
  "snapshot_subject_of c s =
     \<lparr>sn_history = ss_history s, sn_consumedEventId = ss_consumedEventId s, sn_identity = ss_identity s,
      sn_occupant = (case ss_occupant s of [] \<Rightarrow> None | ms \<Rightarrow> Some (mb_eventId (last ms), mb_placement (last ms))),
      sn_audienceAgent = filled (ss_audienceAgent s), sn_firstViewEnded = ss_firstViewEnded s,
      sn_batch = snapshot_batch_of c s\<rparr>"

definition snapshot :: "coalescer \<Rightarrow> coalescing_snapshot" where
  "snapshot c =
     \<lparr>sp_receipts = map (\<lambda>(k, e). (k, re_result e, re_at e)) (cs_receipts c),
      sp_subjects = map (\<lambda>(k, s). (k, snapshot_subject_of c s)) (cs_subjects c)\<rparr>"

definition persist :: "coalescer \<Rightarrow> coalescer" where
  "persist c = ask Save c"

subsection \<open>Receipts\<close>

definition receiptEntry :: "coalescer_options \<Rightarrow> int \<Rightarrow> jsstring \<Rightarrow> coalescer \<Rightarrow> receipt_entry option \<times> coalescer" where
  "receiptEntry opts now key c =
     (case map_of (cs_receipts c) key of
        None \<Rightarrow> (None, c)
      | Some e \<Rightarrow>
          if now - re_at e > op_retryWindowMs opts then (None, c\<lparr>cs_receipts := AList.delete key (cs_receipts c)\<rparr>)
          else (Some e, c))"

definition receipt ::
  "coalescer_options \<Rightarrow> int \<Rightarrow> jsstring \<Rightarrow> jsstring \<Rightarrow> jsstring \<Rightarrow> coalescer \<Rightarrow> push_result option \<times> coalescer" where
  "receipt opts now serverId binding eventId c =
     apfst (map_option re_result) (receiptEntry opts now (coalescingReceiptKey serverId binding eventId) c)"

definition receiptFirstView ::
  "coalescer_options \<Rightarrow> int \<Rightarrow> jsstring \<Rightarrow> jsstring \<Rightarrow> jsstring \<Rightarrow> coalescer \<Rightarrow> bool \<times> coalescer" where
  "receiptFirstView opts now serverId binding eventId c =
     apfst (\<lambda>e. map_option re_firstView e = Some True) (receiptEntry opts now (coalescingReceiptKey serverId binding eventId) c)"

definition identity_of :: "coalescer \<Rightarrow> jsstring \<Rightarrow> identity option" where
  "identity_of c subject = (case state_of c subject of None \<Rightarrow> None | Some s \<Rightarrow> ss_identity s)"

definition receipt_batch :: "coalescer \<Rightarrow> subject_state \<Rightarrow> deferred_batch option" where
  "receipt_batch c s = (case ss_batch s of Some b \<Rightarrow> Some b | None \<Rightarrow> map_option rn_batch (rendering_of c s))"

definition receipt_record_of :: "coalescer \<Rightarrow> jsstring \<Rightarrow> receipt_entry \<Rightarrow> jsstring \<times> history option \<Rightarrow> receipt_record" where
  "receipt_record_of c key entry fixed =
     (let state = state_of c (fst fixed);
          batch = (case state of None \<Rightarrow> None | Some s \<Rightarrow> receipt_batch c s)
      in \<lparr>rr_key = key, rr_result = re_result entry, rr_at = re_at entry, rr_subject = fst fixed,
          rr_born = (if state = None then None else snd fixed),
          rr_firstViewEnded = (case state of None \<Rightarrow> False | Some s \<Rightarrow> ss_firstViewEnded s),
          rr_batch = Some (map_option (\<lambda>b. (bt_latest b, bt_notices b, bt_dropped b)) batch)\<rparr>)"

definition recordReceipt :: "host_view \<Rightarrow> jsstring \<Rightarrow> receipt_entry \<Rightarrow> jsstring \<times> history option \<Rightarrow> coalescer \<Rightarrow> coalescer" where
  "recordReceipt hv key entry fixed c = ask (Record_Receipt (receipt_record_of c key entry fixed) (hv_records hv)) c"

definition on_receipt :: "jsstring \<Rightarrow> (receipt_entry \<Rightarrow> receipt_entry) \<Rightarrow> coalescer \<Rightarrow> coalescer" where
  "on_receipt key f c = c\<lparr>cs_receipts := AList.map_entry key f (cs_receipts c)\<rparr>"

datatype answer =
    Answered push_result
  | Refused coalesce_error
  | Host_Threw

definition not_durable :: coalesce_error where
  "not_durable = CoalesceError (js ''eventId'') (-32000) True"

definition make_durable :: "host_view \<Rightarrow> jsstring \<Rightarrow> receipt_entry \<Rightarrow> jsstring \<Rightarrow> jsstring \<Rightarrow> coalescer \<Rightarrow> answer \<times> coalescer" where
  "make_durable hv key entry subject eventId c =
     (if re_committed entry then (Answered (re_result entry), c)
      else
        (let c = ask (Commit (hv_commits hv)) c
         in if hv_commits hv then (Answered (re_result entry), on_receipt key (\<lambda>e. e\<lparr>re_committed := True\<rparr>) c)
            else (Refused not_durable, audit subject eventId Persist_Failed c)))"

definition acknowledge :: "host_view \<Rightarrow> jsstring \<Rightarrow> receipt_entry \<Rightarrow> jsstring \<Rightarrow> jsstring \<Rightarrow> coalescer \<Rightarrow> answer \<times> coalescer" where
  "acknowledge hv key entry subject eventId c =
     (case re_unwritten entry of
        None \<Rightarrow> make_durable hv key entry subject eventId c
      | Some fixed \<Rightarrow>
          (let c = recordReceipt hv key entry fixed c
           in if hv_records hv then
                make_durable hv key (entry\<lparr>re_unwritten := None\<rparr>) subject eventId (on_receipt key (\<lambda>e. e\<lparr>re_unwritten := None\<rparr>) c)
              else (Refused not_durable, audit subject eventId Persist_Failed c)))"

subsection \<open>Recovery\<close>

definition backoff :: "coalescer_options \<Rightarrow> nat \<Rightarrow> nat" where
  "backoff opts attempt = min (op_recoveryBackoffMs opts * 2 ^ (attempt - 1)) (op_recoveryBackoffMs opts * 60)"

definition scheduleRecovery :: "coalescer_options \<Rightarrow> jsstring \<Rightarrow> coalescer \<Rightarrow> coalescer" where
  "scheduleRecovery opts subject c =
     (let attempt = (case map_of (cs_recovery c) subject of None \<Rightarrow> 0 | Some e \<Rightarrow> rv_attempt e) + 1;
          n = (case state_of c subject of None \<Rightarrow> 0 | Some s \<Rightarrow> ss_number s)
      in c\<lparr>cs_recovery := AList.update subject \<lparr>rv_timer = Some (n, backoff opts attempt), rv_attempt = attempt\<rparr> (cs_recovery c)\<rparr>)"

definition disarmRecovery :: "jsstring \<Rightarrow> coalescer \<Rightarrow> coalescer" where
  "disarmRecovery subject c = c\<lparr>cs_recovery := AList.map_entry subject (\<lambda>e. e\<lparr>rv_timer := None\<rparr>) (cs_recovery c)\<rparr>"

definition clearRecovery :: "jsstring \<Rightarrow> coalescer \<Rightarrow> coalescer" where
  "clearRecovery subject c = c\<lparr>cs_recovery := AList.delete subject (cs_recovery c)\<rparr>"

definition timer_fires :: "host_view \<Rightarrow> jsstring \<Rightarrow> coalescer \<Rightarrow> coalescer" where
  "timer_fires hv subject c =
     (case map_of (cs_recovery c) subject of
        None \<Rightarrow> c
      | Some e \<Rightarrow>
          (case rv_timer e of
             None \<Rightarrow> c
           | Some (n, delay) \<Rightarrow>
               (let c = disarmRecovery subject c
                in if cs_suspended c then c
                   else
                     (case state_of c subject of
                        None \<Rightarrow> c
                      | Some s \<Rightarrow>
                          (case ss_batch s of
                             None \<Rightarrow> c
                           | Some b \<Rightarrow>
                               if ss_number s \<noteq> n \<or> ss_rendering s \<noteq> None then c
                               else if \<not> hv_authorized hv then c
                               else ask (Wake_For_Batch (bt_latest b))
                                 (audit subject (oc_eventId (bt_latest b)) (Recovery_Wake (rv_attempt e) delay) c))))))"

subsection \<open>Occupants\<close>

definition refreshOccupant :: "host_view \<Rightarrow> jsstring \<Rightarrow> coalescer \<Rightarrow> bool \<times> coalescer" where
  "refreshOccupant hv subject c =
     (case state_of c subject of
        None \<Rightarrow> (False, c)
      | Some s \<Rightarrow>
          (let members = ss_occupant s;
               unread = filter (\<lambda>m. hv_isUnread hv (mb_placement m)) members;
               gone = filter (\<lambda>m. \<not> hv_isUnread hv (mb_placement m)) members
           in if members = [] then (False, c)
              else if gone = [] then (True, c)
              else (unread \<noteq> [],
                on_state subject (\<lambda>s. s\<lparr>ss_history := Some_History, ss_consumedEventId := Some (mb_eventId (last gone)),
                  ss_occupant := unread\<rparr>) c)))"

fun remove_members :: "host_view \<Rightarrow> jsstring \<Rightarrow> audit_kind \<Rightarrow> member list \<Rightarrow> coalescer \<Rightarrow> bool \<times> coalescer" where
  "remove_members hv subject kind [] c = (True, c)"
| "remove_members hv subject kind (m # ms) c =
     (let gone = hv_remove hv (mb_placement m);
          c = ask (Remove (mb_placement m) gone) (audit subject (mb_eventId m) kind c)
      in if gone then remove_members hv subject kind ms c
         else (False, on_state subject (\<lambda>s. s\<lparr>ss_history := Unknown_History, ss_consumedEventId := Some (mb_eventId m)\<rparr>)
           (audit subject (mb_eventId m) Remove_Failed c)))"

definition removeOccupant :: "host_view \<Rightarrow> jsstring \<Rightarrow> audit_kind \<Rightarrow> member list \<Rightarrow> coalescer \<Rightarrow> bool \<times> coalescer" where
  "removeOccupant hv subject kind occupant c = remove_members hv subject kind (rev occupant) c"

definition forget_first_view :: "rendering \<Rightarrow> rendering" where
  "forget_first_view rn = rn\<lparr>rn_batch := (rn_batch rn)\<lparr>bt_firstView := False\<rparr>\<rparr>"

definition endFirstView :: "jsstring \<Rightarrow> coalescer \<Rightarrow> coalescer" where
  "endFirstView subject c =
     (case state_of c subject of
        None \<Rightarrow> c
      | Some s \<Rightarrow>
          (let c = on_state subject (\<lambda>s. s\<lparr>ss_firstViewEnded := True,
                 ss_batch := map_option (\<lambda>b. b\<lparr>bt_firstView := False\<rparr>) (ss_batch s)\<rparr>) c
           in case ss_rendering s of None \<Rightarrow> c | Some r \<Rightarrow> on_rendering r forget_first_view c))"

definition occupantLeaves :: "host_view \<Rightarrow> jsstring \<Rightarrow> subject_state \<Rightarrow> coalescer \<Rightarrow> bool \<times> coalescer" where
  "occupantLeaves hv subject s c =
     (if ss_history s = No_History \<and> mb_firstView (hd (ss_occupant s)) \<and>
         list_all (\<lambda>m. hv_isUnshown hv (mb_placement m)) (ss_occupant s) then (True, c)
      else (False, endFirstView subject c))"

definition cancel_rendering :: "nat \<Rightarrow> coalescer \<Rightarrow> coalescer" where
  "cancel_rendering r c = on_rendering r (\<lambda>rn. rn\<lparr>rn_cancelled := True\<rparr>) c"

definition drop_pending :: "jsstring \<Rightarrow> subject_state \<Rightarrow> coalescer \<Rightarrow> coalescer" where
  "drop_pending subject s c =
     (case ss_batch s of
        None \<Rightarrow> c
      | Some b \<Rightarrow> on_state subject (\<lambda>s. s\<lparr>ss_batch := None\<rparr>) (audit subject (oc_eventId (bt_latest b)) (Displaced True) c))"

definition drop_rendering :: "jsstring \<Rightarrow> subject_state \<Rightarrow> coalescer \<Rightarrow> coalescer" where
  "drop_rendering subject s c =
     (case ss_rendering s of
        None \<Rightarrow> c
      | Some r \<Rightarrow> on_state subject (\<lambda>s. s\<lparr>ss_rendering := None\<rparr>)
          (cancel_rendering r (audit subject (oc_eventId (bt_latest (rn_batch (cs_renderings c ! r)))) (Render_Cancelled False) c)))"

definition dropBatches :: "jsstring \<Rightarrow> subject_state \<Rightarrow> coalescer \<Rightarrow> bool \<times> coalescer" where
  "dropBatches subject s c =
     (ss_batch s \<noteq> None \<or> ss_rendering s \<noteq> None,
      drop_rendering subject s (drop_pending subject s (clearRecovery subject c)))"

subsection \<open>Admission\<close>

definition deliver_to_host ::
  "host_view \<Rightarrow> occurrence \<Rightarrow> jsval option \<Rightarrow> jsstring option \<Rightarrow> bool \<Rightarrow> coalescer \<Rightarrow> delivery \<times> coalescer" where
  "deliver_to_host hv occ materialized assemblingFor mayBeStored c =
     (hv_deliver hv,
      ask (Deliver occ materialized assemblingFor mayBeStored)
        (if oc_firstView occ then c\<lparr>cs_deliveredFirstView := True\<rparr> else c))"

definition placed_as :: "occurrence \<Rightarrow> bool \<Rightarrow> placement \<Rightarrow> member" where
  "placed_as occ firstView p =
     \<lparr>mb_eventId = oc_eventId occ, mb_placement = p, mb_rendered = False, mb_firstView = firstView,
      mb_ambient = tagged occ (js ''chat:ambient'')\<rparr>"

definition follow_audience :: "placement \<Rightarrow> subject_state \<Rightarrow> subject_state" where
  "follow_audience p s = s\<lparr>ss_audienceAgent := Some (pl_agent p)\<rparr>"

text \<open>A plain delivery: where it was placed, it is the subject's occupant.\<close>

definition deliver_plain ::
  "host_view \<Rightarrow> jsstring \<Rightarrow> occurrence \<Rightarrow> occurrence \<Rightarrow> bool \<Rightarrow> coalesce_outcome \<Rightarrow> coalescer \<Rightarrow> coalesce_outcome option \<times> coalescer" where
  "deliver_plain hv subject occ delivered firstView outcome c =
     (let (answered, c) = deliver_to_host hv delivered None None False c
      in case answered of
           Delivery_Threw _ \<Rightarrow> (None, c)
         | Nowhere \<Rightarrow> (Some outcome, on_state subject (\<lambda>s. s\<lparr>ss_occupant := []\<rparr>) c)
         | Placed p \<Rightarrow> (Some outcome, on_state subject (\<lambda>s. follow_audience p (s\<lparr>ss_occupant := [placed_as occ firstView p]\<rparr>)) c))"

definition retract :: "host_view \<Rightarrow> jsstring \<Rightarrow> occurrence \<Rightarrow> subject_state \<Rightarrow> bool \<Rightarrow> coalescer \<Rightarrow> coalesce_outcome option \<times> coalescer" where
  "retract hv subject occ s occupantUnread c =
     (let c = (if occupantUnread
               then snd (removeOccupant hv subject Removed (ss_occupant s) (snd (occupantLeaves hv subject s c))) else c);
          c = on_state subject (\<lambda>s. s\<lparr>ss_occupant := []\<rparr>) c;
          c = snd (dropBatches subject s c);
          c = on_state subject (\<lambda>s. s\<lparr>ss_consumedEventId := None\<rparr>) (ask (Cancel_Wake subject) c)
      in if map_option ss_history (state_of c subject) = Some No_History then (Some Retracted, c)
         else if isVisiblyEmptyContent (oc_content occ) then (Some Consumed, c)
         else
           (let (answered, c) = deliver_to_host hv (occ\<lparr>oc_deliverTo := ss_audienceAgent s\<rparr>) None None False c
            in case answered of
                 Delivery_Threw _ \<Rightarrow> (None, c)
               | Nowhere \<Rightarrow> (Some Noted, c)
               | Placed p \<Rightarrow> (Some Noted, on_state subject (\<lambda>s. follow_audience p (s\<lparr>ss_occupant := [placed_as occ False p]\<rparr>)) c)))"

definition batch_of :: "coalescer \<Rightarrow> subject_state \<Rightarrow> deferred_batch option" where
  "batch_of c s = (case ss_batch s of Some b \<Rightarrow> Some b | None \<Rightarrow> map_option rn_batch (rendering_of c s))"

definition marked_first :: "bool \<Rightarrow> occurrence \<Rightarrow> occurrence" where
  "marked_first firstView occ = (if firstView then occ\<lparr>oc_firstView := True\<rparr> else occ)"

definition append_plain :: "host_view \<Rightarrow> jsstring \<Rightarrow> occurrence \<Rightarrow> bool \<Rightarrow> bool \<Rightarrow> coalescer \<Rightarrow> coalesce_outcome option \<times> coalescer" where
  "append_plain hv subject occ hadBatch batchFirstView c =
     (let c = (if hadBatch then ask (Cancel_Wake subject) c else c)
      in case state_of c subject of
           None \<Rightarrow> (None, c)
         | Some s \<Rightarrow>
             (let outcome = (if hadBatch then Replaced
                    else if filled (ss_consumedEventId s) \<noteq> None \<or> ss_history s \<noteq> No_History then Appended else First);
                  firstView = (if hadBatch then batchFirstView \<and> ss_history s = No_History
                    else outcome = First \<and> \<not> ss_firstViewEnded s)
              in deliver_plain hv subject occ (marked_first (hadBatch \<and> firstView) occ) firstView outcome c))"

definition acceptPlain :: "host_view \<Rightarrow> jsstring \<Rightarrow> occurrence \<Rightarrow> subject_state \<Rightarrow> bool \<Rightarrow> coalescer \<Rightarrow> coalesce_outcome option \<times> coalescer" where
  "acceptPlain hv subject occ s occupantUnread c =
     (let batchFirstView = (case batch_of c s of None \<Rightarrow> False | Some b \<Rightarrow> bt_firstView b);
          (hadBatch, c) = dropBatches subject s c
      in if occupantUnread then
           (let (firstView, c) = occupantLeaves hv subject s c;
                (removed, c) = removeOccupant hv subject (Displaced False) (ss_occupant s) c
            in if removed then
                 deliver_plain hv subject occ
                   (marked_first firstView (occ\<lparr>oc_deliverTo := Some (pl_agent (mb_placement (last (ss_occupant s))))\<rparr>))
                   firstView Replaced (ask (Cancel_Wake subject) c)
               else append_plain hv subject occ hadBatch batchFirstView (on_state subject (\<lambda>s. s\<lparr>ss_occupant := []\<rparr>) c))
         else append_plain hv subject occ hadBatch batchFirstView c)"

definition has_rendered :: "subject_state \<Rightarrow> bool" where
  "has_rendered s \<longleftrightarrow> ss_occupant s \<noteq> [] \<and> mb_rendered (last (ss_occupant s))"

definition notice_of :: "occurrence \<Rightarrow> deferred_notice" where
  "notice_of occ = \<lparr>dn_eventId = oc_eventId occ, dn_timestamp = oc_timestamp occ, dn_data = oc_data occ\<rparr>"

definition join_batch :: "coalescer_options \<Rightarrow> occurrence \<Rightarrow> bool \<Rightarrow> deferred_batch \<Rightarrow> deferred_batch" where
  "join_batch opts occ ambient b =
     (let notices = bt_notices b @ [notice_of occ];
          full = length notices > op_maxNotices opts
      in b\<lparr>bt_notices := (if full then List.tl notices else notices),
           bt_dropped := (if full then Suc (bt_dropped b) else bt_dropped b),
           bt_latest := occ, bt_allAmbient := (ambient \<and> bt_allAmbient b)\<rparr>)"

definition open_batch :: "occurrence \<Rightarrow> bool \<Rightarrow> bool \<Rightarrow> deferred_batch" where
  "open_batch occ firstView ambient =
     \<lparr>bt_latest = occ, bt_notices = [notice_of occ], bt_dropped = 0, bt_allAmbient = ambient, bt_noRender = False,
      bt_mayBeStored = None, bt_firstView = firstView\<rparr>"

text \<open>A notice displaces an unread plain occurrence: whether its removal went through, and its first view passes on.\<close>

definition displace_plain :: "host_view \<Rightarrow> jsstring \<Rightarrow> subject_state \<Rightarrow> coalescer \<Rightarrow> bool \<times> bool \<times> coalescer" where
  "displace_plain hv subject s c =
     (let occupant = last (ss_occupant s);
          (passes, c) = occupantLeaves hv subject s c;
          gone = hv_remove hv (mb_placement occupant);
          c = ask (Remove (mb_placement occupant) gone) (audit subject (mb_eventId occupant) (Displaced False) c);
          c = (if gone then c else on_state subject (\<lambda>s. s\<lparr>ss_history := Unknown_History\<rparr>)
            (audit subject (mb_eventId occupant) Remove_Failed c))
      in (gone, passes \<and> gone, on_state subject (\<lambda>s. s\<lparr>ss_occupant := []\<rparr>) (ask (Cancel_Wake subject) c)))"

definition queue_notice ::
  "coalescer_options \<Rightarrow> host_view \<Rightarrow> jsstring \<Rightarrow> occurrence \<Rightarrow> bool \<Rightarrow> bool \<Rightarrow> coalesce_outcome \<Rightarrow> coalescer \<Rightarrow> coalesce_outcome option \<times> coalescer" where
  "queue_notice opts hv subject occ firstView ambient outcome c =
     (case state_of c subject of
        None \<Rightarrow> (None, c)
      | Some s \<Rightarrow>
          (let addressed = (tagged occ (js ''chat:addressed'') \<or> (case ss_batch s of None \<Rightarrow> False | Some b \<Rightarrow> oc_batchAddressed (bt_latest b)));
               occ = (if addressed then occ\<lparr>oc_batchAddressed := True\<rparr> else occ);
               (outcome, b) = (case ss_batch s of
                   Some b \<Rightarrow> (Replaced, join_batch opts occ ambient b)
                 | None \<Rightarrow> (outcome, open_batch occ firstView ambient));
               c = ask (Wake_For_Batch occ) (on_state subject (\<lambda>s. s\<lparr>ss_batch := Some b\<rparr>) c)
           in if hv_wakes hv then (Some outcome, c) else (None, c)))"

definition acceptDeferred ::
  "coalescer_options \<Rightarrow> host_view \<Rightarrow> jsstring \<Rightarrow> occurrence \<Rightarrow> subject_state \<Rightarrow> bool \<Rightarrow> coalescer \<Rightarrow> coalesce_outcome option \<times> coalescer" where
  "acceptDeferred opts hv subject occ s occupantUnread c =
     (let firstView = (ss_history s = No_History \<and> \<not> ss_firstViewEnded s);
          ambient = tagged occ (js ''chat:ambient'');
          follow = (\<lambda>a. occ\<lparr>oc_deliverTo := Some a\<rparr>)
      in if occupantUnread \<and> has_rendered s then
           queue_notice opts hv subject (follow (pl_agent (mb_placement (last (ss_occupant s))))) False ambient First c
         else if occupantUnread then
           (let (gone, passes, c) = displace_plain hv subject s c
            in queue_notice opts hv subject (if gone then follow (pl_agent (mb_placement (last (ss_occupant s)))) else occ)
                 (firstView \<and> passes) (ambient \<and> mb_ambient (last (ss_occupant s))) (if gone then Replaced else First) c)
         else
           (case (case ss_batch s of None \<Rightarrow> None | Some b \<Rightarrow> filled (oc_deliverTo (bt_latest b))) of
              Some a \<Rightarrow> queue_notice opts hv subject (follow a) firstView ambient First c
            | None \<Rightarrow> queue_notice opts hv subject occ firstView ambient First c))"

definition born_as :: "occurrence \<Rightarrow> history" where
  "born_as occ = (if oc_initial occ \<and> \<not> oc_retract occ then No_History else Unknown_History)"

definition subjectFor :: "int \<Rightarrow> jsstring \<Rightarrow> occurrence \<Rightarrow> coalescer \<Rightarrow> coalescer" where
  "subjectFor now subject occ c =
     (if state_of c subject = None then put_state subject (new_state (born_as occ) now) c else c)"

definition first_some :: "'a option list \<Rightarrow> 'a option" where
  "first_some xs = (case concat (map (\<lambda>x. case x of None \<Rightarrow> [] | Some y \<Rightarrow> [y]) xs) of [] \<Rightarrow> None | y # _ \<Rightarrow> Some y)"

definition prior_event :: "occurrence \<Rightarrow> subject_state \<Rightarrow> coalescer \<Rightarrow> jsstring option" where
  "prior_event occ s c =
     first_some
       [(if oc_deferred occ \<and> has_rendered s \<or> ss_occupant s = [] then None else Some (mb_eventId (last (ss_occupant s)))),
        map_option (\<lambda>b. oc_eventId (bt_latest b)) (ss_batch s),
        map_option (\<lambda>rn. oc_eventId (bt_latest (rn_batch rn))) (rendering_of c s),
        ss_consumedEventId s]"

definition evictable :: "subject_state \<Rightarrow> bool" where
  "evictable s \<longleftrightarrow> ss_occupant s = [] \<and> ss_batch s = None \<and> ss_rendering s = None"

definition prune :: "coalescer_options \<Rightarrow> int \<Rightarrow> coalescer \<Rightarrow> coalescer" where
  "prune opts now c =
     (let c = (if length (cs_receipts c) > 4 * op_maxSubjects opts
               then c\<lparr>cs_receipts := filter (\<lambda>(k, e). \<not> now - re_at e > op_retryWindowMs opts) (cs_receipts c)\<rparr> else c)
      in if length (cs_subjects c) \<le> op_maxSubjects opts then c
         else
           (let idle = sort_key (\<lambda>(k, s). ss_touchedAt s) (filter (\<lambda>(k, s). evictable s) (cs_subjects c))
            in c\<lparr>cs_subjects := fold (\<lambda>(k, s). AList.delete k) (take (length (cs_subjects c) - op_maxSubjects opts) idle) (cs_subjects c)\<rparr>))"

definition stopping :: "bool \<Rightarrow> coalesce_error" where
  "stopping admitted = CoalesceError (js ''serverId'') (-32000) admitted"

definition admit_duplicate :: "host_view \<Rightarrow> occurrence \<Rightarrow> receipt_entry \<Rightarrow> coalescer \<Rightarrow> answer \<times> coalescer" where
  "admit_duplicate hv occ entry c =
     (let subject = subject_of occ;
          asleep = (case state_of c subject of None \<Rightarrow> None | Some s \<Rightarrow> if ss_rendering s = None then ss_batch s else None)
      in case asleep of
           None \<Rightarrow> acknowledge hv (receipt_of occ) entry subject (oc_eventId occ) c
         | Some b \<Rightarrow>
             (let c = ask (Wake_For_Batch (bt_latest b)) (disarmRecovery subject c)
              in if hv_wakes hv then acknowledge hv (receipt_of occ) entry subject (oc_eventId occ) c else (Host_Threw, c)))"

definition admit_effects :: "coalescer_options \<Rightarrow> host_view \<Rightarrow> occurrence \<Rightarrow> coalescer \<Rightarrow> (coalesce_outcome option \<times> coalescer) \<times> jsstring option" where
  "admit_effects opts hv occ c =
     (let subject = subject_of occ;
          c = subjectFor (hv_now hv) subject occ c;
          (occupantUnread, c) = refreshOccupant hv subject c
      in case state_of c subject of
           None \<Rightarrow> ((None, c), None)
         | Some s \<Rightarrow>
             (let priorEventId = prior_event occ s c;
                  c = (audit subject (oc_eventId occ) (Received (oc_retract occ) (oc_deferred occ)) c)\<lparr>cs_deliveredFirstView := False\<rparr>
              in (if oc_retract occ then retract hv subject occ s occupantUnread c
                  else if oc_deferred occ then acceptDeferred opts hv subject occ s occupantUnread c
                  else acceptPlain hv subject occ s occupantUnread c,
                  filled priorEventId)))"

definition touch :: "host_view \<Rightarrow> occurrence \<Rightarrow> subject_state \<Rightarrow> subject_state" where
  "touch hv occ s =
     s\<lparr>ss_identity := (if oc_scopeKind occ = Channel_Scope \<and> oc_identity occ \<noteq> None \<and> \<not> oc_retract occ
          then Some (mergeIdentity (ss_identity s) (oc_identity occ)) else ss_identity s),
       ss_touchedAt := hv_now hv\<rparr>"

definition settle_admission ::
  "coalescer_options \<Rightarrow> host_view \<Rightarrow> occurrence \<Rightarrow> history option \<Rightarrow> push_result \<Rightarrow> coalescer \<Rightarrow> answer \<times> coalescer" where
  "settle_admission opts hv occ born result c =
     (let subject = subject_of occ; key = receipt_of occ;
          c = on_state subject (touch hv occ) c;
          entry = \<lparr>re_result = result, re_at = hv_now hv, re_committed = False, re_firstView = cs_deliveredFirstView c,
            re_unwritten = Some (subject, born)\<rparr>;
          c = ask (Accepted occ) (c\<lparr>cs_receipts := AList.update key entry (cs_receipts c)\<rparr>);
          c = (if hv_observes hv then c else audit subject (oc_eventId occ) Accepted_Observer_Failed c);
          c = persist (prune opts (hv_now hv) c)
      in acknowledge hv key entry subject (oc_eventId occ) c)"

definition admit :: "coalescer_options \<Rightarrow> host_view \<Rightarrow> occurrence \<Rightarrow> coalescer \<Rightarrow> answer \<times> coalescer" where
  "admit opts hv occ c =
     (let (duplicate, c) = receiptEntry opts (hv_now hv) (receipt_of occ) c
      in if cs_suspended c then (Refused (stopping (duplicate \<noteq> None)), c)
         else
           (case duplicate of
              Some entry \<Rightarrow> admit_duplicate hv occ entry c
            | None \<Rightarrow>
                (let born = (if state_of c (subject_of occ) = None then Some (born_as occ) else None);
                     ((outcome, c), priorEventId) = admit_effects opts hv occ c
                 in case outcome of
                      None \<Rightarrow> (Host_Threw, c)
                    | Some oc \<Rightarrow> settle_admission opts hv occ born \<lparr>pr_outcome = oc, pr_priorEventId = priorEventId\<rparr> c)))"

end
