(* ===== verification/Push_Render.thy ===== *)
theory Push_Render
  imports Push_Coalescer
begin

section \<open>Rendering deferred batches, and the coalescer's life (src/mcpl/push-coalescer.ts)\<close>

text \<open>
  The freezing of a batch, the answer to its \<open>push/render\<close>, the settlement of its content, what
  an assembly reports; the stop, the snapshot's restore and the receipts written after it.
\<close>

subsection \<open>Stopping\<close>

definition suspend_subject :: "jsstring \<times> subject_state \<Rightarrow> coalescer \<Rightarrow> coalescer" where
  "suspend_subject ks c =
     (case ss_rendering (snd ks) of
        None \<Rightarrow> c
      | Some r \<Rightarrow> audit (fst ks) (oc_eventId (bt_latest (rn_batch (cs_renderings c ! r)))) (Render_Cancelled True) (cancel_rendering r c))"

definition suspend :: "coalescer \<Rightarrow> coalescer" where
  "suspend c = fold suspend_subject (cs_subjects c) (c\<lparr>cs_suspended := True, cs_recovery := []\<rparr>)"

definition stop_at :: "wait_point \<Rightarrow> host_view \<Rightarrow> coalescer \<Rightarrow> coalescer" where
  "stop_at w hv c = (if hv_suspends hv = Some w then suspend c else c)"

subsection \<open>Freezing a batch\<close>

datatype frozen = Not_Ours | Declined | Joined nat | Started nat | Freeze_Threw

definition render_params_of :: "deferred_batch \<Rightarrow> render_params" where
  "render_params_of b =
     (let occ = bt_latest b
      in \<lparr>rp_featureSet = (case oc_featureSet occ of Some f \<Rightarrow> f | None \<Rightarrow> if oc_scopeKind occ = Feature_Set_Scope then oc_scopeId occ else []),
          rp_channelId = (if oc_scopeKind occ = Channel_Scope then Some (oc_scopeId occ) else None),
          rp_key = oc_key occ, rp_eventId = oc_eventId occ, rp_notices = bt_notices b, rp_dropped = bt_dropped b\<rparr>)"

definition in_flight :: "coalescer \<Rightarrow> jsstring \<Rightarrow> nat" where
  "in_flight c serverId = (case map_of (cs_rendersInFlight c) serverId of None \<Rightarrow> 0 | Some n \<Rightarrow> n)"

definition isRendering :: "jsstring \<Rightarrow> coalescer \<Rightarrow> bool" where
  "isRendering serverId c \<longleftrightarrow> in_flight c serverId > 0"

definition start_render :: "nat \<Rightarrow> deferred_batch \<Rightarrow> coalescer \<Rightarrow> coalescer" where
  "start_render r b c =
     (let occ = bt_latest b
      in if bt_noRender b then on_rendering r (\<lambda>rn. rn\<lparr>rn_phase := Ready (oc_content occ) (oc_timestamp occ) From_Fallback\<rparr>) c
         else ask (Render_Request occ (render_params_of b))
           (on_rendering r (\<lambda>rn. rn\<lparr>rn_phase := Asked\<rparr>)
             (c\<lparr>cs_rendersInFlight := AList.update (oc_serverId occ) (in_flight c (oc_serverId occ) + 1) (cs_rendersInFlight c)\<rparr>)))"

definition unfreeze :: "jsstring \<Rightarrow> deferred_batch option \<Rightarrow> coalescer \<Rightarrow> coalescer" where
  "unfreeze subject b c = on_state subject (\<lambda>s. s\<lparr>ss_rendering := None, ss_batch := b\<rparr>) c"

definition new_rendering :: "jsstring \<Rightarrow> deferred_batch \<Rightarrow> jsstring \<Rightarrow> coalescer \<Rightarrow> coalescer" where
  "new_rendering subject b agentName c =
     on_state subject (\<lambda>s. s\<lparr>ss_rendering := Some (length (cs_renderings c))\<rparr>)
       (c\<lparr>cs_renderings := cs_renderings c @ [\<lparr>rn_subject = subject, rn_batch = b, rn_cancelled = False, rn_materialized = False,
          rn_assemblingFor = agentName, rn_phase = Not_Started\<rparr>]\<rparr>)"

text \<open>The render-start boundary: the snapshot written at once, then made durable.\<close>

definition render_boundary :: "host_view \<Rightarrow> coalescer \<Rightarrow> bool \<times> coalescer" where
  "render_boundary hv c =
     (let c = ask (Save_Now (snapshot c) (hv_saves hv)) c
      in if \<not> hv_saves hv then (False, c)
         else (hv_commits hv, ask (Commit (hv_commits hv)) (stop_at At_Commit hv c)))"

definition freeze_batch ::
  "coalescer_options \<Rightarrow> host_view \<Rightarrow> jsstring \<Rightarrow> jsstring \<Rightarrow> deferred_batch \<Rightarrow> coalescer \<Rightarrow> frozen \<times> coalescer" where
  "freeze_batch opts hv subject agentName b c =
     (let event = oc_eventId (bt_latest b);
          c = ask (Cancel_Wake subject) (on_state subject (\<lambda>s. s\<lparr>ss_batch := None\<rparr>) c)
      in if \<not> hv_authorized hv then (Declined, audit subject event Revoked c)
         else
           (let r = length (cs_renderings c);
                (durable, c) = render_boundary hv (new_rendering subject b agentName c)
            in if \<not> durable then
                 (Declined, scheduleRecovery opts subject
                   (unfreeze subject (Some (b\<lparr>bt_noRender := True\<rparr>)) (audit subject event Persist_Failed c)))
               else
                 (let c = disarmRecovery subject c
                  in if cs_suspended c then (Not_Ours, unfreeze subject (Some b) c)
                     else if \<not> hv_authorized_again hv then (Declined, unfreeze subject None (audit subject event Revoked c))
                     else (Started r, start_render r b c))))"

definition freeze ::
  "coalescer_options \<Rightarrow> host_view \<Rightarrow> jsstring \<Rightarrow> jsstring \<Rightarrow> bool \<Rightarrow> coalescer \<Rightarrow> frozen \<times> coalescer" where
  "freeze opts hv subject agentName cause c =
     (if cs_suspended c then (Not_Ours, c)
      else
        (case state_of c subject of
           None \<Rightarrow> (if cause then Declined else Not_Ours, c)
         | Some s \<Rightarrow>
             (case (ss_rendering s, ss_batch s) of
                (None, None) \<Rightarrow> (if cause then Declined else Not_Ours, c)
              | (Some r, _) \<Rightarrow>
                  (case hv_audience hv of
                     None \<Rightarrow> (Freeze_Threw, stop_at At_Audience hv c)
                   | Some agents \<Rightarrow> (if agentName \<in> set agents then Joined r else Declined, stop_at At_Audience hv c))
              | (None, Some b) \<Rightarrow>
                  (case hv_audience hv of
                     None \<Rightarrow> (Freeze_Threw, stop_at At_Audience hv c)
                   | Some agents \<Rightarrow>
                       if agentName \<notin> set agents then (Declined, stop_at At_Audience hv c)
                       else freeze_batch opts hv subject agentName b (stop_at At_Audience hv c)))))"

subsection \<open>The render's answer\<close>

datatype render_answer = Render_Result jsval jsval | Render_Error

definition call_returns :: "jsstring \<Rightarrow> coalescer \<Rightarrow> coalescer" where
  "call_returns serverId c =
     (let left = (case map_of (cs_rendersInFlight c) serverId of None \<Rightarrow> 1 | Some n \<Rightarrow> n) - 1
      in c\<lparr>cs_rendersInFlight :=
           (if left > 0 then AList.update serverId left (cs_rendersInFlight c) else AList.delete serverId (cs_rendersInFlight c))\<rparr>)"

definition render_failed :: "rendering \<Rightarrow> jsstring option \<Rightarrow> coalescer \<Rightarrow> coalescer" where
  "render_failed rn f c =
     audit (rn_subject rn) (oc_eventId (bt_latest (rn_batch rn))) (Render_Failed (oc_serverId (bt_latest (rn_batch rn))) f) c"

definition fallback_of :: "rendering \<Rightarrow> render_phase" where
  "fallback_of rn = Ready (oc_content (bt_latest (rn_batch rn))) (oc_timestamp (bt_latest (rn_batch rn))) From_Fallback"

definition read_answer :: "host_view \<Rightarrow> rendering \<Rightarrow> render_answer \<Rightarrow> coalescer \<Rightarrow> render_phase \<times> coalescer" where
  "read_answer hv rn a c =
     (case a of
        Render_Error \<Rightarrow> (fallback_of rn, render_failed rn None c)
      | Render_Result content timestamp \<Rightarrow>
          if rn_cancelled rn then (fallback_of rn, audit (rn_subject rn) (oc_eventId (bt_latest (rn_batch rn))) Late_Render c)
          else
            (case validateCoalescedContent True True content of
               Some e \<Rightarrow> (fallback_of rn, render_failed rn (Some (ce_field e)) c)
             | None \<Rightarrow> (Ready content (case timestamp of JStr t \<Rightarrow> t | _ \<Rightarrow> hv_time hv) From_Render, c)))"

definition render_answers :: "host_view \<Rightarrow> nat \<Rightarrow> render_answer \<Rightarrow> coalescer \<Rightarrow> coalescer" where
  "render_answers hv r a c =
     (if r < length (cs_renderings c) \<and> rn_phase (cs_renderings c ! r) = Asked then
        (let rn = cs_renderings c ! r;
             (phase, c) = read_answer hv rn a c
         in call_returns (oc_serverId (bt_latest (rn_batch rn))) (on_rendering r (\<lambda>rn. rn\<lparr>rn_phase := phase\<rparr>) c))
      else c)"

subsection \<open>Settlement\<close>

text \<open>How the attempt ended: not current, done, or its delivery threw.\<close>

datatype settlement = Not_Current | Done | Failed_Delivery

definition end_settlement :: "coalescer_options \<Rightarrow> jsstring \<Rightarrow> nat \<Rightarrow> settlement \<Rightarrow> coalescer \<Rightarrow> coalescer" where
  "end_settlement opts subject r how c =
     (let c = (if (case state_of c subject of None \<Rightarrow> False | Some s \<Rightarrow> ss_rendering s = Some r)
               then on_state subject (\<lambda>s. s\<lparr>ss_rendering := None\<rparr>) c else c);
          c = (if how = Done then clearRecovery subject c else c)
      in if how = Failed_Delivery then scheduleRecovery opts subject c else c)"

definition keep_for_recovery :: "deferred_batch \<Rightarrow> bool \<Rightarrow> subject_state \<Rightarrow> subject_state" where
  "keep_for_recovery b mayHaveStored s =
     s\<lparr>ss_batch := Some (case ss_batch s of
         Some newer \<Rightarrow> newer\<lparr>bt_noRender := True\<rparr>
       | None \<Rightarrow> b\<lparr>bt_noRender := True,
           bt_mayBeStored := (if mayHaveStored then Some (oc_eventId (bt_latest b)) else bt_mayBeStored b)\<rparr>)\<rparr>"

definition delivery_failed :: "host_view \<Rightarrow> jsstring \<Rightarrow> deferred_batch \<Rightarrow> bool \<Rightarrow> coalescer \<Rightarrow> coalescer" where
  "delivery_failed hv subject b mayHaveStored c =
     (let event = oc_eventId (bt_latest b);
          c = on_state subject (keep_for_recovery b mayHaveStored) (audit subject event (Deliver_Failed mayHaveStored) c);
          c = ask (Save_Now (snapshot c) (hv_saves hv)) c
      in if \<not> hv_saves hv then persist (audit subject event Persist_Failed c)
         else if hv_commits hv then ask (Commit True) c
         else persist (audit subject event Persist_Failed (ask (Commit False) c)))"

definition follow_run :: "placement \<Rightarrow> deferred_batch \<Rightarrow> deferred_batch" where
  "follow_run p b = b\<lparr>bt_latest := (bt_latest b)\<lparr>oc_deliverTo := Some (pl_agent p)\<rparr>\<rparr>"

text \<open>Placed where the turn being assembled does not read it.\<close>

definition placed_unread :: "host_view \<Rightarrow> jsstring \<Rightarrow> deferred_batch \<Rightarrow> bool \<Rightarrow> placement \<Rightarrow> coalescer \<Rightarrow> coalescer" where
  "placed_unread hv subject b firstView p c =
     (case state_of c subject of
        None \<Rightarrow> c
      | Some s \<Rightarrow>
          (let newest = \<lparr>mb_eventId = oc_eventId (bt_latest b), mb_placement = p, mb_rendered = True, mb_firstView = firstView, mb_ambient = False\<rparr>;
               c = on_state subject (\<lambda>s. s\<lparr>ss_occupant := (if has_rendered s then ss_occupant s else []) @ [newest]\<rparr>) c;
               newer = (case ss_batch s of None \<Rightarrow> None
                 | Some nb \<Rightarrow> if filled (oc_deliverTo (bt_latest nb)) = None then Some (follow_run p nb) else None);
               c = (case newer of None \<Rightarrow> c
                 | Some nb \<Rightarrow> ask (Wake_For_Batch (bt_latest nb)) (on_state subject (\<lambda>s. s\<lparr>ss_batch := Some nb\<rparr>) c))
           in if newer \<noteq> None \<and> \<not> hv_wakes hv then c
              else ask (Wake_To_Read (bt_latest b) p (bt_allAmbient b)) (on_state subject (follow_audience p) c)))"

definition materialize :: "jsstring \<Rightarrow> nat \<Rightarrow> deferred_batch \<Rightarrow> placement option \<Rightarrow> coalescer \<Rightarrow> coalescer" where
  "materialize subject r b p c =
     on_state subject (\<lambda>s. (case p of None \<Rightarrow> id | Some p \<Rightarrow> follow_audience p)
         (s\<lparr>ss_history := Some_History, ss_consumedEventId := Some (oc_eventId (bt_latest b)), ss_occupant := []\<rparr>))
       (on_rendering r (\<lambda>rn. rn\<lparr>rn_materialized := True\<rparr>) c)"

definition publish ::
  "host_view \<Rightarrow> jsstring \<Rightarrow> nat \<Rightarrow> rendering \<Rightarrow> subject_state \<Rightarrow> jsval \<Rightarrow> jsstring \<Rightarrow> coalescer \<Rightarrow> settlement \<times> coalescer" where
  "publish hv subject r rn s content timestamp c =
     (let b = rn_batch rn; occ = bt_latest b;
          firstView = (bt_firstView b \<and> ss_history s = No_History \<and> ss_occupant s = []);
          (answered, c) = deliver_to_host hv (marked_first firstView (occ\<lparr>oc_timestamp := timestamp, oc_content := content\<rparr>))
            (Some content) (Some (rn_assemblingFor rn)) (bt_mayBeStored b = Some (oc_eventId occ)) c;
          c = stop_at At_Delivery hv c
      in case answered of
           Delivery_Threw mayHaveStored \<Rightarrow> (Failed_Delivery, delivery_failed hv subject b mayHaveStored c)
         | Nowhere \<Rightarrow> (Done, materialize subject r b None c)
         | Placed p \<Rightarrow> if pl_presented p then (Done, materialize subject r b (Some p) c)
             else (Done, placed_unread hv subject b firstView p c))"

definition settle_current ::
  "host_view \<Rightarrow> jsstring \<Rightarrow> nat \<Rightarrow> rendering \<Rightarrow> subject_state \<Rightarrow> jsval \<Rightarrow> jsstring \<Rightarrow> render_source \<Rightarrow> coalescer \<Rightarrow> settlement \<times> coalescer" where
  "settle_current hv subject r rn s content timestamp source c =
     (let event = oc_eventId (bt_latest (rn_batch rn))
      in if \<not> hv_authorized hv then (Done, audit subject event Revoked c)
         else
           (let c = audit subject event (Rendered source (isVisiblyEmptyContent content)) c
            in if isVisiblyEmptyContent content then (Done, c) else publish hv subject r rn s content timestamp c))"

definition settle :: "coalescer_options \<Rightarrow> host_view \<Rightarrow> nat \<Rightarrow> coalescer \<Rightarrow> coalescer" where
  "settle opts hv r c =
     (if r < length (cs_renderings c) then
        (let rn = cs_renderings c ! r
         in case rn_phase rn of
              Ready content timestamp source \<Rightarrow>
                (let subject = rn_subject rn;
                     c = on_rendering r (\<lambda>rn. rn\<lparr>rn_phase := Settled\<rparr>) c;
                     (how, c) =
                       (case state_of c subject of
                          None \<Rightarrow> (Not_Current, c)
                        | Some s \<Rightarrow>
                            if rn_cancelled rn \<or> ss_rendering s \<noteq> Some r \<or> cs_suspended c then (Not_Current, c)
                            else settle_current hv subject r rn s content timestamp source c)
                 in end_settlement opts subject r how c)
            | _ \<Rightarrow> c)
      else c)"

subsection \<open>Assemblies\<close>

text \<open>
  An assembly freezes the subjects it found, and waits for each render it started or joined.
  What it reports, from what each freeze said and the renderings as they are once settled.
\<close>

definition assembly_subjects :: "coalescer \<Rightarrow> jsstring list \<Rightarrow> jsstring list" where
  "assembly_subjects c causes = (if cs_suspended c then [] else js_add_all causes (keys (cs_subjects c)))"

definition settled_subjects :: "(jsstring \<times> frozen) list \<Rightarrow> jsstring list" where
  "settled_subjects fs =
     concat (map (\<lambda>(subject, f). case f of Declined \<Rightarrow> [subject] | Joined r \<Rightarrow> [subject] | Started r \<Rightarrow> [subject] | _ \<Rightarrow> []) fs)"

definition materialized_subjects :: "(jsstring \<times> frozen) list \<Rightarrow> coalescer \<Rightarrow> jsstring list" where
  "materialized_subjects fs c =
     concat (map (\<lambda>(subject, f). case f of Started r \<Rightarrow> if rn_materialized (cs_renderings c ! r) then [subject] else [] | _ \<Rightarrow> []) fs)"

text \<open>One round of \<open>materializeNow\<close>; it goes round again after a render it joined has settled.\<close>

definition materialize_freeze ::
  "coalescer_options \<Rightarrow> host_view \<Rightarrow> jsstring \<Rightarrow> jsstring \<Rightarrow> jsstring option \<Rightarrow> coalescer \<Rightarrow> frozen \<times> coalescer" where
  "materialize_freeze opts hv agentName subject onlyIfLatest c =
     (if cs_suspended c then (Not_Ours, c)
      else
        (let latest = (case state_of c subject of None \<Rightarrow> None | Some s \<Rightarrow> map_option (\<lambda>b. oc_eventId (bt_latest b)) (ss_batch s))
         in if onlyIfLatest \<noteq> None \<and> latest \<noteq> onlyIfLatest then (Not_Ours, c)
            else freeze opts hv subject agentName False c))"

definition materialize_done :: "frozen \<Rightarrow> coalescer \<Rightarrow> bool option" where
  "materialize_done f c =
     (case f of Joined r \<Rightarrow> None | Started r \<Rightarrow> Some (rn_materialized (cs_renderings c ! r)) | _ \<Rightarrow> Some False)"

subsection \<open>Restoring\<close>

definition settle_published :: "(jsstring \<Rightarrow> jsstring \<Rightarrow> bool) \<Rightarrow> jsstring \<Rightarrow> subject_state \<Rightarrow> subject_state" where
  "settle_published wasPublished subject s =
     (case ss_batch s of
        None \<Rightarrow> s
      | Some b \<Rightarrow>
          if bt_noRender b \<and> wasPublished subject (oc_eventId (bt_latest b)) then
            s\<lparr>ss_batch := None, ss_history := Some_History, ss_consumedEventId := Some (oc_eventId (bt_latest b))\<rparr>
          else s)"

definition settlePublished :: "(jsstring \<Rightarrow> jsstring \<Rightarrow> bool) \<Rightarrow> coalescer \<Rightarrow> coalescer" where
  "settlePublished wasPublished c =
     c\<lparr>cs_subjects := map (\<lambda>(k, s). (k, settle_published wasPublished k s)) (cs_subjects c)\<rparr>"

definition restored_batch :: "snapshot_batch \<Rightarrow> deferred_batch" where
  "restored_batch b =
     \<lparr>bt_latest = sb_latest b, bt_notices = sb_notices b, bt_dropped = sb_dropped b, bt_allAmbient = sb_allAmbient b,
      bt_noRender = sb_rendering b, bt_mayBeStored = None, bt_firstView = (\<not> sb_rendering b \<and> sb_firstView b)\<rparr>"

definition restored_state :: "int \<Rightarrow> snapshot_subject \<Rightarrow> nat \<Rightarrow> subject_state" where
  "restored_state now s n =
     \<lparr>ss_number = n,
      ss_history = (if sn_occupant s \<noteq> None then Some_History else sn_history s),
      ss_occupant = [],
      ss_batch = map_option restored_batch (sn_batch s),
      ss_rendering = None,
      ss_consumedEventId = (case sn_occupant s of Some (e, p) \<Rightarrow> Some e | None \<Rightarrow> sn_consumedEventId s),
      ss_identity = sn_identity s,
      ss_audienceAgent = (case sn_audienceAgent s of Some a \<Rightarrow> Some a | None \<Rightarrow> map_option (\<lambda>(e, p). pl_agent p) (sn_occupant s)),
      ss_firstViewEnded = sn_firstViewEnded s,
      ss_touchedAt = now\<rparr>"

definition restored_receipt :: "push_result \<Rightarrow> int \<Rightarrow> receipt_entry" where
  "restored_receipt result t = \<lparr>re_result = result, re_at = t, re_committed = True, re_firstView = False, re_unwritten = None\<rparr>"

definition restore_receipt :: "coalescer_options \<Rightarrow> int \<Rightarrow> jsstring \<times> push_result \<times> int \<Rightarrow> coalescer \<Rightarrow> coalescer" where
  "restore_receipt opts now r c =
     (case r of (key, result, t) \<Rightarrow>
        if now - t \<le> op_retryWindowMs opts then c\<lparr>cs_receipts := AList.update key (restored_receipt result t) (cs_receipts c)\<rparr> else c)"

definition restore :: "coalescer_options \<Rightarrow> int \<Rightarrow> (jsstring \<Rightarrow> jsstring \<Rightarrow> bool) \<Rightarrow> coalescing_snapshot \<Rightarrow> coalescer \<Rightarrow> coalescer" where
  "restore opts now wasPublished snap c =
     settlePublished wasPublished
       (fold (\<lambda>(k, s). put_state k (restored_state now s)) (sp_subjects snap)
         (fold (restore_receipt opts now) (sp_receipts snap) c))"

text \<open>A subject the restore does not hold yet comes back with an unknown history.\<close>

definition held_or_unknown :: "int \<Rightarrow> jsstring \<Rightarrow> coalescer \<Rightarrow> coalescer" where
  "held_or_unknown now subject c =
     (if state_of c subject = None then put_state subject (new_state Unknown_History now) c else c)"

definition recorded_batch :: "occurrence \<times> deferred_notice list \<times> nat \<Rightarrow> deferred_batch" where
  "recorded_batch b =
     (case b of (latest, notices, dropped) \<Rightarrow>
        \<lparr>bt_latest = latest, bt_notices = notices, bt_dropped = dropped, bt_allAmbient = False, bt_noRender = True,
         bt_mayBeStored = None, bt_firstView = False\<rparr>)"

definition restore_record ::
  "coalescer_options \<Rightarrow> int \<Rightarrow> (jsstring \<Rightarrow> jsstring \<Rightarrow> bool) \<Rightarrow> receipt_record \<Rightarrow> coalescer \<Rightarrow> coalescer" where
  "restore_record opts now wasPublished r c =
     (let subject = rr_subject r;
          fresh = (now - rr_at r \<le> op_retryWindowMs opts);
          c = (if fresh then c\<lparr>cs_receipts := AList.update (rr_key r) (restored_receipt (rr_result r) (rr_at r)) (cs_receipts c)\<rparr> else c);
          c = (case rr_born r of
                 Some h \<Rightarrow> if fresh \<and> state_of c subject = None then put_state subject (new_state h now) c else c
               | None \<Rightarrow> c);
          c = (if rr_firstViewEnded r then endFirstView subject (held_or_unknown now subject c) else c)
      in if \<not> fresh then c
         else
           (let c = (case receipt_event (rr_key r) of
                       Some e \<Rightarrow> if e \<noteq> [] \<and> wasPublished subject e then
                           on_state subject (\<lambda>s. s\<lparr>ss_history := Some_History, ss_consumedEventId := Some e\<rparr>) (held_or_unknown now subject c)
                         else c
                     | None \<Rightarrow> c)
            in case rr_batch r of
                 None \<Rightarrow> c
               | Some b \<Rightarrow> on_state subject (\<lambda>s. s\<lparr>ss_batch := map_option recorded_batch b\<rparr>) (held_or_unknown now subject c)))"

definition restoreReceipts ::
  "coalescer_options \<Rightarrow> int \<Rightarrow> (jsstring \<Rightarrow> jsstring \<Rightarrow> bool) \<Rightarrow> receipt_record list \<Rightarrow> coalescer \<Rightarrow> coalescer" where
  "restoreReceipts opts now wasPublished records c =
     settlePublished wasPublished (fold (restore_record opts now wasPublished) records c)"

definition pendingBatchOccurrences :: "coalescer \<Rightarrow> occurrence list" where
  "pendingBatchOccurrences c =
     concat (map (\<lambda>(k, s). case ss_batch s of None \<Rightarrow> [] | Some b \<Rightarrow> [bt_latest b]) (cs_subjects c))"

definition pendingBatches :: "coalescer \<Rightarrow> nat" where
  "pendingBatches c = length (filter (\<lambda>(k, s). ss_batch s \<noteq> None) (cs_subjects c))"

subsection \<open>Runs\<close>

datatype coalescer_step =
    Accept host_view occurrence
  | Freeze host_view jsstring jsstring bool
  | Render_Answers host_view nat render_answer
  | Settle host_view nat
  | Timer_Fires host_view jsstring
  | Suspend
  | Assembly_Saved

fun take_step :: "coalescer_options \<Rightarrow> coalescer_step \<Rightarrow> coalescer \<Rightarrow> coalescer" where
  "take_step opts (Accept hv occ) c = snd (admit opts hv occ c)"
| "take_step opts (Freeze hv subject agentName cause) c = snd (freeze opts hv subject agentName cause c)"
| "take_step opts (Render_Answers hv r a) c = render_answers hv r a c"
| "take_step opts (Settle hv r) c = settle opts hv r c"
| "take_step opts (Timer_Fires hv subject) c = timer_fires hv subject c"
| "take_step opts Suspend c = suspend c"
| "take_step opts Assembly_Saved c = persist c"

fun coalescer_run :: "coalescer_options \<Rightarrow> coalescer_step list \<Rightarrow> coalescer \<Rightarrow> coalescer" where
  "coalescer_run opts [] c = c"
| "coalescer_run opts (st # sts) c = coalescer_run opts sts (take_step opts st c)"

end
