(* ===== verification/Spec2Isabelle.thy ===== *)
theory Spec2Isabelle
  imports Process_Queue Scope_Manager Tool_Classes Feature_Sets Checkpoints Conversation_Router
    Record_Journal Line_Reader Frames Admission Usage_Tracker
    Inference_Router Hook_Orchestrator Edit_Plan_Receipts Held_Order
    Exchange_Features Tool_Lifecycle_Proofs Push_Render
begin

text \<open>
  A model of the core of the agent framework (the TypeScript sources under \<open>src/\<close> of the
  repository), with the theorems that make it correct.

  \<^bold>\<open>The program.\<close> The framework runs agents against a model and lets MCPL servers push
  messages, contribute context and ask for inference. Everything a server may do is decided
  by the host: a server's advertisement is expanded, masked by the operator's configuration and
  reduced to a capability grant; its declared feature sets are enabled only when the grant
  covers what they use; every inbound message is then checked against both. Work that is let
  in goes through one queue to the agents; what agents and servers record is kept in journals
  and checkpoint trees; the agent's own tools edit files through the edit planner.

  \<^bold>\<open>Conventions.\<close> A JavaScript string is a list of 16-bit code units (\<open>Prelude.jsstring\<close>), an
  object or \<open>Map\<close> an association list in insertion order, a value of unknown type a
  \<open>jsval\<close> with its primitive and compound constructors. A class with state is a record and each
  method a function that returns the new record; a thrown error is the left of a sum or a
  constructor of a result type; an \<open>await\<close> is a point at which another step of the machine
  may come. Loops are structural recursions, functions with a measure, or \<open>while\<close> with a
  lemma that they end. Code of other packages and of the run time that the sources call
  (stores, transports, SHA-256, \<open>JSON.parse\<close>, floating-point addition) is an argument.

  \<^bold>\<open>Authority.\<close>
  \<^item> \<open>Segments\<close>, \<open>Globs\<close>: the dotted-path wildcards of \<open>mcpl/feature-set-manager.ts\<close>,
    \<open>mcpl/capability-mask.ts\<close> and \<open>mcpl/capability-grant.ts\<close>; the glob loop of
    \<open>mcpl/tool-glob.ts\<close> and the policy of \<open>mcpl/tool-policy.ts\<close>. Shown: the backtracking loop
    agrees with recursive matching (its fuel, the product of the lengths and a constant, is
    proved enough), and what a policy allows.
  \<^item> \<open>Capability_Grant\<close>, \<open>Capability_Proofs\<close>: \<open>mcpl/capability-mask.ts\<close>,
    \<open>mcpl/capability-grant.ts\<close>. Shown: the grant, capability by capability, from the raw
    advertisement; reductions; that it stays in the vocabulary.
  \<^item> \<open>Feature_Sets\<close>: \<open>mcpl/feature-set-manager.ts\<close>. Shown: what initialization enables, that a
    reduction only disables, and that the inbound gate admits exactly what is enabled. Its
    locale over the grant is interpreted on the code's grants. The guards written with
    JavaScript's \<open>in\<close> also see the names every object inherits; \<open>in_object\<close> says so.
  \<^item> \<open>Scope_Manager\<close>: \<open>mcpl/scope-manager.ts\<close>, with approvals remembered across calls.
  \<^item> \<open>Tool_Classes\<close>: \<open>mcpl/tool-classes.ts\<close> and \<open>mcpl/prefix-rule.ts\<close>.
  \<^item> \<open>Hook_Orchestrator\<close>, \<open>Inference_Router\<close>, \<open>Inference_Bounds\<close>:
    \<open>mcpl/hook-orchestrator.ts\<close>, \<open>mcpl/inference-router.ts\<close>, \<open>inference-bounds.ts\<close>. Each
    \<open>await\<close> ends a step, so hooks and requests overlap. Shown: only authorized context is kept,
    unobserved messages are withheld, a request follows an abstract protocol of chunks and one
    answer whatever the model, the host and the transport do.

  \<^bold>\<open>A server's connection.\<close>
  \<^item> \<open>Held_Traffic\<close>: the admission side of \<open>mcpl/server-connection.ts\<close>: the grant, the two
    planes, the bounded buffer of held messages, the flush with listeners that call back, the
    boundaries between transports. \<open>Held_Traffic_Proofs\<close> runs it as a machine of tasks with a
    measure that ends every flush, under the locale \<open>machine_invariant\<close>, which \<open>Held_Bounds\<close>,
    \<open>Held_Properties\<close> and \<open>Held_Order\<close> interpret. Shown: only authorized messages are
    delivered, each message is accounted for once, bounds and order hold, a flush ends.
  \<^item> \<open>Policy_Exchange\<close>: \<open>framework.ts\<close> around a connection: the policy exchange of each
    transport and the refresh of a manifest, as steps between the awaits, composed with the
    connection, the grant and the feature sets. \<open>Exchange_Transport\<close>, \<open>Exchange_Authority\<close>:
    the invariants. \<open>Exchange_Consent\<close>, \<open>Exchange_Refresh\<close>, \<open>Exchange_Features\<close>: what is
    delivered was consented to, refreshes keep their distance and lose no announcement,
    reductions come before the server is told, and two defects.

  \<^bold>\<open>Observers of tool calls\<close> (\<open>mcpl/tool-lifecycle.ts\<close>). \<open>Tool_Observe\<close> parses and matches a
  server's filter, \<open>Tool_Arguments\<close> selects and bounds the arguments shown, \<open>Tool_Lifecycle\<close>
  decides per connection and tracks calls to their terminal. \<open>Tool_Lifecycle_Proofs\<close>: what is
  sent is authorized when it is sent, ends are paired with beginnings, ids are unlike the
  last 8192. The 256 rounds of shortening are the code's own bound.

  \<^bold>\<open>Delivery.\<close>
  \<^item> \<open>Process_Queue\<close>: \<open>queue.ts\<close>, two lanes in one list. \<open>Admission\<close>: the decision about an
    inbound event with the policy as a parameter.
  \<^item> \<open>Conversation_Router\<close>: \<open>mcpl/conversation-router.ts\<close>, generations of fork names.
  \<^item> \<open>Line_Reader\<close>, \<open>Utf8\<close>, \<open>Json_Text\<close>, \<open>Frames\<close>: the bytes of a connection and of the
    code-execution child: line splitting over chunks, UTF-8, frames with a header and a body,
    and the value counter. Shown: round trips however the bytes are cut, and bounds on what is
    held.

  \<^bold>\<open>Records.\<close>
  \<^item> \<open>Js_Values\<close>, \<open>Json_Patch\<close>, \<open>Checkpoints\<close>: \<open>mcpl/checkpoint-manager.ts\<close>. A value
    inserted by a patch keeps the tag of the operation it came from, which models the aliasing
    of the code. Shown: rollback restores, persistence round-trips, and four defects.
  \<^item> \<open>Record_Journal\<close>: the append and load protocol over a store that may fail at any call.
  \<^item> \<open>Usage_Tracker\<close>: \<open>usage-tracker.ts\<close>; addition of costs is a parameter.

  \<^bold>\<open>The edit planner\<close> (\<open>modules/workspace/edit-plan.ts\<close>, \<open>modules/workspace/text.ts\<close>).
  \<^item> \<open>Text_Search\<close>: the search for an old text, by \<open>indexOf\<close> and by the one-pass search; both
    visit every occurrence. \<open>Text_Lines\<close>: a file's lines and cuts. \<open>Line_Ends\<close>: the text with
    CRLF read as LF; its reference is the list of units, a code unit with a flag for its CR.
  \<^item> \<open>Edit_Match\<close>, \<open>Edit_Match_Proofs\<close>, \<open>Closest_Region\<close>: one edit against the file.
  \<^item> \<open>Edit_Plan\<close>, \<open>Edit_Plan_Proofs\<close>, \<open>Edit_Clashes\<close>, \<open>Edit_Plan_Properties\<close>,
    \<open>Edit_Plan_Receipts\<close>: all edits together: a plan is the file with exactly the matched
    spans exchanged, clashes are those a comparison of all pairs finds, and a matching edit is
    not refused. Starts are \<open>nat\<close>: the code's keys, start times edits plus slot, stay exact as
    doubles for files below the sizes the mounts allow.

  \<^bold>\<open>Not modelled.\<close> The event loop of \<open>framework.ts\<close>, the agent and the
  modules around it drive other packages (the model client, the context manager, the
  Chronicle store, Discord) and the file system; the parts of them that decide something on
  their own are modelled above, the rest is input, output and wording. Log lines and traces
  are left out where nothing reads them. Timers are steps that may come at any time.
\<close>

end
